(* ===== verification/Prelude.thy ===== *)
theory Prelude
  imports Main "HOL-Library.Word" "HOL-Library.Multiset"
begin

text \<open>
  Shared material of the development.

  It holds the C types that every component uses (fixed width unsigned integers, \<open>CFRange\<close>,
  \<open>CFComparisonResult\<close>), C's truncating division, the generic lemmas on array
  segments that the component proofs share, and the interface \<open>comparator\<close> under which
  every routine that takes a comparison callback is proved correct.
\<close>

unbundle bit_operations_syntax

section \<open>C types\<close>

type_synonym u8 = "8 word"
type_synonym u16 = "16 word"
type_synonym u32 = "32 word"
type_synonym u64 = "64 word"
type_synonym u128 = "128 word"

text \<open>An opaque object reference (\<open>const void *\<close>): only its address is observed.\<close>

type_synonym ptr = "64 word"

text \<open>A function pointer: C compares the addresses and calls the code.\<close>

datatype 'f fnptr = Fn (fn_addr: nat) (fn_code: 'f)

text \<open>\<open>CFComparisonResult\<close> of CFBase.h, an enumeration with the values -1, 0 and 1: the
  code compares its members with 0 by \<open><=\<close> and \<open><\<close>, so the datatype is linearly ordered.\<close>

datatype CFComparisonResult = kCFCompareLessThan | kCFCompareEqualTo | kCFCompareGreaterThan

fun CFComparisonResult_value :: "CFComparisonResult \<Rightarrow> int" where
  "CFComparisonResult_value kCFCompareLessThan = -1"
| "CFComparisonResult_value kCFCompareEqualTo = 0"
| "CFComparisonResult_value kCFCompareGreaterThan = 1"

lemma CFComparisonResult_value_inj:
  "CFComparisonResult_value a = CFComparisonResult_value b \<longleftrightarrow> a = b"
  by (cases a; cases b) auto

instantiation CFComparisonResult :: linorder
begin

definition less_eq_CFComparisonResult :: "CFComparisonResult \<Rightarrow> CFComparisonResult \<Rightarrow> bool" where
  "less_eq_CFComparisonResult a b \<longleftrightarrow> CFComparisonResult_value a \<le> CFComparisonResult_value b"

definition less_CFComparisonResult :: "CFComparisonResult \<Rightarrow> CFComparisonResult \<Rightarrow> bool" where
  "less_CFComparisonResult a b \<longleftrightarrow> CFComparisonResult_value a < CFComparisonResult_value b"

instance
  by standard
    (auto simp: less_eq_CFComparisonResult_def less_CFComparisonResult_def
      CFComparisonResult_value_inj)

end

lemma CFComparisonResult_le_EqualTo [simp]:
  "c \<le> kCFCompareEqualTo \<longleftrightarrow> c \<noteq> kCFCompareGreaterThan"
  by (cases c) (auto simp: less_eq_CFComparisonResult_def)

lemma CFComparisonResult_less_EqualTo [simp]:
  "kCFCompareEqualTo < c \<longleftrightarrow> c = kCFCompareGreaterThan"
  by (cases c) (auto simp: less_CFComparisonResult_def)

section \<open>C arithmetic\<close>

text \<open>Signed division and remainder of C round towards zero.\<close>

definition cdiv :: "int \<Rightarrow> int \<Rightarrow> int" where
  "cdiv a b = (if (a < 0) = (b < 0) then \<bar>a\<bar> div \<bar>b\<bar> else - (\<bar>a\<bar> div \<bar>b\<bar>))"

definition cmod :: "int \<Rightarrow> int \<Rightarrow> int" where
  "cmod a b = a - cdiv a b * b"

lemma cdiv_nonneg: "0 \<le> a \<Longrightarrow> 0 < b \<Longrightarrow> cdiv a b = a div b"
  by (simp add: cdiv_def)

lemma cmod_nonneg: "0 \<le> a \<Longrightarrow> 0 < b \<Longrightarrow> cmod a b = a mod b"
  by (simp add: cmod_def cdiv_nonneg minus_div_mult_eq_mod)

lemma cmod_neg: "a < 0 \<Longrightarrow> 0 < b \<Longrightarrow> cmod a b = - ((- a) mod b)"
proof -
  assume "a < 0" "0 < b"
  then have "cmod a b = a + (- a) div b * b" by (simp add: cmod_def cdiv_def)
  also have "\<dots> = - ((- a) - (- a) div b * b)" by simp
  also have "\<dots> = - ((- a) mod b)" by (simp only: minus_div_mult_eq_mod)
  finally show ?thesis .
qed

lemma cdiv_cmod: "a = cdiv a b * b + cmod a b"
  by (simp add: cmod_def)

text \<open>\<open>flsl\<close>: the position of the most significant set bit, counted from 1; 0 for 0.\<close>

fun flsl :: "nat \<Rightarrow> nat" where
  "flsl n = (if n = 0 then 0 else Suc (flsl (n div 2)))"

declare flsl.simps [simp del]

lemma flsl_0 [simp]: "flsl 0 = 0"
  by (simp add: flsl.simps)

lemma flsl_upper: "n < 2 ^ flsl n"
proof (induction n rule: flsl.induct)
  case (1 n)
  then show ?case by (cases "n = 0") (auto simp: flsl.simps [of n])
qed

lemma flsl_lower: "0 < n \<Longrightarrow> 2 ^ flsl n \<le> 2 * n"
proof (induction n rule: flsl.induct)
  case (1 n)
  show ?case
  proof (cases "n div 2 = 0")
    case True
    then have "n = 1" using "1.prems" by (simp add: div_eq_0_iff)
    then show ?thesis by (simp add: flsl.simps)
  next
    case False
    then have "2 ^ flsl (n div 2) \<le> 2 * (n div 2)" using "1.IH" "1.prems" by simp
    then have "2 * 2 ^ flsl (n div 2) \<le> 2 * n" by simp
    then show ?thesis using "1.prems" by (simp add: flsl.simps [of n])
  qed
qed

lemma flsl_le: "n < 2 ^ k \<Longrightarrow> flsl n \<le> k"
proof (rule ccontr)
  assume n: "n < 2 ^ k" "\<not> flsl n \<le> k"
  then have "(2 :: nat) ^ Suc k \<le> 2 ^ flsl n" by (intro power_increasing) simp_all
  moreover have "0 < n" using n(2) by (cases "n = 0") simp_all
  ultimately show False using flsl_lower [of n] n(1) by simp
qed

text \<open>\<open>1 << n\<close> in a 32-bit int: C leaves it undefined from 31 on, here it is what the word has.\<close>

definition int_shift_1 :: "nat \<Rightarrow> int" where
  "int_shift_1 n = sint (push_bit n (1 :: u32))"

lemma int_shift_1: "n < 31 \<Longrightarrow> int_shift_1 n = 2 ^ n"
proof -
  assume n: "n < 31"
  have "(2 :: int) ^ n < 2 ^ 31" using n by (intro power_strict_increasing) simp_all
  have "push_bit n (1 :: u32) = of_int (2 ^ n)" by (simp add: push_bit_eq_mult)
  then have "int_shift_1 n = signed_take_bit 31 (2 ^ n)" unfolding int_shift_1_def by (simp only: signed_of_int) simp
  also have "\<dots> = 2 ^ n"
  proof (rule signed_take_bit_int_eq_self)
    show "- (2 ^ 31) \<le> (2 :: int) ^ n" by (rule order_trans [of _ 0]) simp_all
    show "(2 :: int) ^ n < 2 ^ 31" by fact
  qed
  finally show ?thesis .
qed

section \<open>Array segments\<close>

text \<open>Multisets of array prefixes after a store, the fact the heap and sort proofs share.\<close>

lemma mset_list_swap:
  "i < length xs \<Longrightarrow> j < length xs \<Longrightarrow> mset (xs[i := xs ! j, j := xs ! i]) = mset xs"
  by (metis mset_swap)

lemma take_list_update_less [simp]: "i < n \<Longrightarrow> take n (xs[i := x]) = (take n xs)[i := x]"
  by (simp add: take_update_swap)

lemma drop_list_update_ge [simp]: "n \<le> i \<Longrightarrow> drop n (xs[i := x]) = (drop n xs)[i - n := x]"
  by (simp add: drop_update_swap)

lemma take_Suc_list_update: "i < length xs \<Longrightarrow> take (Suc i) (xs[i := v]) = take i xs @ [v]"
  by (induction xs arbitrary: i) (auto split: nat.split)

section \<open>Comparison callbacks\<close>

text \<open>
  The contract of a comparison callback: reading "not greater than" as the order, it is a
  total preorder, and the result is antisymmetric. This is what CFArray, CFBinaryHeap and the
  sort functions document of a \<open>CFComparatorFunction\<close>.
\<close>

locale comparator =
  fixes cmp :: "'a \<Rightarrow> 'a \<Rightarrow> CFComparisonResult"
  assumes cmp_refl: "cmp a a = kCFCompareEqualTo"
    and cmp_anti: "cmp a b = kCFCompareGreaterThan \<longleftrightarrow> cmp b a = kCFCompareLessThan"
    and cmp_trans: "cmp a b \<noteq> kCFCompareGreaterThan \<Longrightarrow> cmp b c \<noteq> kCFCompareGreaterThan
      \<Longrightarrow> cmp a c \<noteq> kCFCompareGreaterThan"
begin

lemma cmp_total: "cmp a b \<noteq> kCFCompareGreaterThan \<or> cmp b a \<noteq> kCFCompareGreaterThan"
  by (metis CFComparisonResult.distinct(3) cmp_anti)

lemma cmp_eq_sym: "cmp a b = kCFCompareEqualTo \<longleftrightarrow> cmp b a = kCFCompareEqualTo"
  by (metis (full_types) CFComparisonResult.exhaust cmp_anti)

lemma cmp_eq_iff:
  "cmp a b = kCFCompareEqualTo \<longleftrightarrow>
     cmp a b \<noteq> kCFCompareGreaterThan \<and> cmp b a \<noteq> kCFCompareGreaterThan"
  by (metis (full_types) CFComparisonResult.exhaust CFComparisonResult.distinct cmp_anti)

lemma cmp_eq_trans:
  "cmp a b = kCFCompareEqualTo \<Longrightarrow> cmp b c = kCFCompareEqualTo \<Longrightarrow> cmp a c = kCFCompareEqualTo"
  by (meson cmp_eq_iff cmp_trans)

end

text \<open>
  The two container components look at a comparison only through "is greater than": the
  same contract stated for that relation.
\<close>

locale gt_order =
  fixes gt :: "'a \<Rightarrow> 'a \<Rightarrow> bool"
  assumes gt_asym: "gt a b \<Longrightarrow> \<not> gt b a"
    and ngt_trans: "\<not> gt a b \<Longrightarrow> \<not> gt b c \<Longrightarrow> \<not> gt a c"
begin

lemma gt_irrefl: "\<not> gt a a"
  using gt_asym by blast

lemma gt_total: "\<not> gt a b \<or> \<not> gt b a"
  using gt_asym by blast

end

sublocale comparator \<subseteq> cmp_gt: gt_order "\<lambda>a b. cmp a b = kCFCompareGreaterThan"
proof
  show "cmp a b = kCFCompareGreaterThan \<Longrightarrow> cmp b a \<noteq> kCFCompareGreaterThan" for a b
    using cmp_anti by (metis CFComparisonResult.distinct(3))
  show "cmp a b \<noteq> kCFCompareGreaterThan \<Longrightarrow> cmp b c \<noteq> kCFCompareGreaterThan
      \<Longrightarrow> cmp a c \<noteq> kCFCompareGreaterThan" for a b c
    by (rule cmp_trans)
qed

text \<open>The addresses themselves, which the code compares when no callback is given.\<close>

interpretation ptr_gt: gt_order "(>) :: ptr \<Rightarrow> ptr \<Rightarrow> bool"
  by unfold_locales auto

end
