(* ===== verification/PriorityQueue.thy ===== *)
theory PriorityQueue
  imports Prelude
begin

text \<open>
  The abstract priority queue: what a client of the binary heap relies on. The elements are a
  multiset, one operation adds an element, one reads a least element and one removes it. A queue
  has room for \<open>bound\<close> elements at least. The client lemmas show that filling a queue and draining
  it sorts.
\<close>

primrec pq_drain :: "('q \<Rightarrow> 'v) \<Rightarrow> ('q \<Rightarrow> 'q) \<Rightarrow> nat \<Rightarrow> 'q \<Rightarrow> 'v list" where
  "pq_drain least remove 0 q = []"
| "pq_drain least remove (Suc n) q = least q # pq_drain least remove n (remove q)"

locale priority_queue = gt_order gt for gt :: "'v \<Rightarrow> 'v \<Rightarrow> bool" +
  fixes invar :: "'q \<Rightarrow> bool"
    and items :: "'q \<Rightarrow> 'v multiset"
    and bound :: nat
    and add :: "'q \<Rightarrow> 'v \<Rightarrow> 'q"
    and least :: "'q \<Rightarrow> 'v"
    and remove :: "'q \<Rightarrow> 'q"
  assumes invar_add: "invar q \<Longrightarrow> size (items q) < bound \<Longrightarrow> invar (add q v)"
    and items_add: "invar q \<Longrightarrow> size (items q) < bound \<Longrightarrow> items (add q v) = add_mset v (items q)"
    and least_in: "invar q \<Longrightarrow> items q \<noteq> {#} \<Longrightarrow> least q \<in># items q"
    and least_le: "invar q \<Longrightarrow> v \<in># items q \<Longrightarrow> \<not> gt (least q) v"
    and invar_remove: "invar q \<Longrightarrow> invar (remove q)"
    and items_remove: "invar q \<Longrightarrow> items q \<noteq> {#} \<Longrightarrow> items (remove q) = items q - {#least q#}"
begin

lemma fill:
  "invar q \<Longrightarrow> size (items q) + length vs \<le> bound \<Longrightarrow>
     invar (foldl add q vs) \<and> items (foldl add q vs) = items q + mset vs"
  by (induction vs arbitrary: q) (simp_all add: invar_add items_add)

lemma drain_items:
  "invar q \<Longrightarrow> n = size (items q) \<Longrightarrow> mset (pq_drain least remove n q) = items q"
proof (induction n arbitrary: q)
  case 0 then show ?case by simp
next
  case (Suc n)
  then have ne: "items q \<noteq> {#}" by auto
  have "size (items (remove q)) = n"
    using Suc.prems ne by (simp add: items_remove least_in size_Diff_singleton)
  then have "mset (pq_drain least remove n (remove q)) = items q - {#least q#}"
    using Suc.IH [of "remove q"] Suc.prems ne by (simp add: invar_remove items_remove)
  then show ?case using least_in [OF Suc.prems(1) ne] by simp
qed

lemma drain_sorted:
  "invar q \<Longrightarrow> n = size (items q) \<Longrightarrow> sorted_wrt (\<lambda>x y. \<not> gt x y) (pq_drain least remove n q)"
proof (induction n arbitrary: q)
  case 0 then show ?case by simp
next
  case (Suc n)
  then have ne: "items q \<noteq> {#}" by auto
  have rest: "items (remove q) = items q - {#least q#}" "invar (remove q)"
    using Suc.prems ne by (simp_all add: items_remove invar_remove)
  have n: "n = size (items (remove q))"
    using Suc.prems ne rest by (simp add: least_in size_Diff_singleton)
  have "v \<in># items q" if "v \<in> set (pq_drain least remove n (remove q))" for v
    using that drain_items [OF rest(2) n] rest(1)
    by (metis in_diffD set_mset_mset)
  then show ?case
    using Suc.IH [OF rest(2) n] least_le [OF Suc.prems(1)] by auto
qed

lemma heapsort:
  assumes "invar q" "items q = {#}" "length vs \<le> bound"
  shows "mset (pq_drain least remove (length vs) (foldl add q vs)) = mset vs"
    and "sorted_wrt (\<lambda>x y. \<not> gt x y) (pq_drain least remove (length vs) (foldl add q vs))"
proof -
  have f: "invar (foldl add q vs)" "items (foldl add q vs) = mset vs"
    using fill [OF assms(1), of vs] assms(2,3) by simp_all
  then show "mset (pq_drain least remove (length vs) (foldl add q vs)) = mset vs"
    using drain_items [OF f(1), of "length vs"] by simp
  show "sorted_wrt (\<lambda>x y. \<not> gt x y) (pq_drain least remove (length vs) (foldl add q vs))"
    using drain_sorted [OF f(1), of "length vs"] f(2) by simp
qed

end

end
