(* ===== verification/BinaryHeap.thy ===== *)
theory BinaryHeap
  imports PriorityQueue
begin

text \<open>
  CFBinaryHeap.c: the binary heap kept in an array of buckets.

  \<open>CFBinaryHeap\<close> is the struct \<open>__CFBinaryHeap\<close>; \<open>hp_calls\<close> records the
  retain and release callbacks in the order in which the code makes them. The loops that move
  the hole up and down are \<open>heap_sift_up\<close> and \<open>heap_sift_down\<close>. The lemmas show
  that every operation keeps the heap order, that the contents are the expected multiset, and
  that draining a heap lists it in order; \<open>priority_queue\<close> is the abstract interface.
\<close>

section \<open>The data model\<close>

record CFBinaryHeapCallBacks =
  cb_retain :: "(ptr \<Rightarrow> ptr) option"
  cb_release :: bool
  cb_compare :: "(ptr \<Rightarrow> ptr \<Rightarrow> ptr \<Rightarrow> CFComparisonResult) fnptr option"

datatype heap_call = Retained ptr | Released ptr

record CFBinaryHeap =
  hp_count :: nat
  hp_capacity :: int
  hp_callbacks :: CFBinaryHeapCallBacks
  hp_info :: ptr
  hp_buckets :: "ptr list"
  hp_variety :: nat
  hp_calls :: "heap_call list"

definition kCFBinaryHeapMutable :: nat where
  "kCFBinaryHeapMutable = 1"

text \<open>The shift is one of a 32-bit int: from 2 to the 30 on its value is not positive, the realloc
  of \<open>__CFBinaryHeapGrow\<close> fails and the code halts. The properties keep the count below that.\<close>

definition CFBinaryHeapRoundUpCapacity :: "nat \<Rightarrow> int" where
  "CFBinaryHeapRoundUpCapacity capacity = (if capacity < 4 then 4 else int_shift_1 (flsl capacity))"

text \<open>The test \<open>(!compare && a > b) || (compare && GT == compare(a, b, info))\<close> that the
  sift loops make; without a callback the addresses are compared.\<close>

definition heap_gt :: "CFBinaryHeap \<Rightarrow> ptr \<Rightarrow> ptr \<Rightarrow> bool" where
  "heap_gt heap a b = (case cb_compare (hp_callbacks heap) of
     None \<Rightarrow> a > b
   | Some f \<Rightarrow> fn_code f a b (hp_info heap) = kCFCompareGreaterThan)"

section \<open>Operations\<close>

definition CFBinaryHeapGetCount :: "CFBinaryHeap \<Rightarrow> nat" where
  "CFBinaryHeapGetCount heap = hp_count heap"

text \<open>A realloc keeps the old buckets; the contents of the new ones are not defined, the
  argument \<open>fresh\<close> stands for them.\<close>

definition CFBinaryHeapGrow :: "ptr \<Rightarrow> CFBinaryHeap \<Rightarrow> nat \<Rightarrow> CFBinaryHeap" where
  "CFBinaryHeapGrow fresh heap numNewValues =
     (let oldCount = hp_count heap;
          capacity = CFBinaryHeapRoundUpCapacity (oldCount + numNewValues)
      in heap\<lparr>hp_capacity := capacity,
              hp_buckets := take (nat capacity) (hp_buckets heap)
                 @ replicate (nat capacity - length (hp_buckets heap)) fresh\<rparr>)"

fun heap_sift_up :: "('a \<Rightarrow> 'a \<Rightarrow> bool) \<Rightarrow> 'a list \<Rightarrow> nat \<Rightarrow> 'a \<Rightarrow> 'a list \<times> nat" where
  "heap_sift_up gt b idx value =
     (if 0 < idx then
        (let pidx = (idx - 1) div 2; item = b ! pidx
         in if \<not> gt item value then (b, idx)
            else heap_sift_up gt (b[idx := item]) pidx value)
      else (b, idx))"

declare heap_sift_up.simps [simp del]

definition CFBinaryHeapAddValue :: "ptr \<Rightarrow> CFBinaryHeap \<Rightarrow> ptr \<Rightarrow> CFBinaryHeap" where
  "CFBinaryHeapAddValue fresh heap0 value =
     (let heap = (if hp_variety heap0 = kCFBinaryHeapMutable \<and> int (hp_count heap0) = hp_capacity heap0
                  then CFBinaryHeapGrow fresh heap0 1 else heap0);
          cnt = hp_count heap;
          (b, idx) = heap_sift_up (heap_gt heap) (hp_buckets heap) cnt value
      in case cb_retain (hp_callbacks heap) of
           Some retain \<Rightarrow> heap\<lparr>hp_count := cnt + 1, hp_buckets := b[idx := retain value],
                               hp_calls := hp_calls heap @ [Retained (retain value)]\<rparr>
         | None \<Rightarrow> heap\<lparr>hp_count := cnt + 1, hp_buckets := b[idx := value]\<rparr>)"

function heap_sift_down ::
    "('a \<Rightarrow> 'a \<Rightarrow> bool) \<Rightarrow> nat \<Rightarrow> 'a list \<Rightarrow> nat \<Rightarrow> 'a \<Rightarrow> 'a list \<times> nat" where
  "heap_sift_down gt n b idx val =
     (let cidx = 2 * idx + 1
      in if cidx < n then
           (let cidx' = (if cidx + 1 < n \<and> gt (b ! cidx) (b ! (cidx + 1)) then cidx + 1 else cidx);
                item = b ! cidx'
            in if gt item val then (b, idx)
               else heap_sift_down gt n (b[idx := item]) cidx' val)
         else (b, idx))"
  by pat_completeness auto
termination
  by (relation "measure (\<lambda>(gt, n, b, idx, val). n - idx)") (auto simp: Let_def split: if_splits)

declare heap_sift_down.simps [simp del]

definition CFBinaryHeapRemoveMinimumValue :: "CFBinaryHeap \<Rightarrow> CFBinaryHeap" where
  "CFBinaryHeapRemoveMinimumValue heap =
     (let cnt = hp_count heap
      in if cnt = 0 then heap
         else (let calls = (if cb_release (hp_callbacks heap)
                            then hp_calls heap @ [Released (hp_buckets heap ! 0)]
                            else hp_calls heap);
                   val = hp_buckets heap ! (cnt - 1);
                   (b, idx) = heap_sift_down (heap_gt heap) (cnt - 1) (hp_buckets heap) 0 val
               in heap\<lparr>hp_count := cnt - 1, hp_buckets := b[idx := val], hp_calls := calls\<rparr>))"

definition CFBinaryHeapRemoveAllValues :: "CFBinaryHeap \<Rightarrow> CFBinaryHeap" where
  "CFBinaryHeapRemoveAllValues heap =
     heap\<lparr>hp_calls := (if cb_release (hp_callbacks heap)
                       then hp_calls heap @ map Released (take (hp_count heap) (hp_buckets heap))
                       else hp_calls heap),
          hp_count := 0\<rparr>"

text \<open>\<open>__CFBinaryHeapInit\<close>; \<open>flags\<close> sets the final variety, and the given capacity
  is asserted only. \<open>callBacks\<close> is NULL for a heap of plain addresses.\<close>

definition CFBinaryHeapInit ::
    "ptr \<Rightarrow> nat \<Rightarrow> ptr list \<Rightarrow> CFBinaryHeapCallBacks option \<Rightarrow> ptr \<Rightarrow> CFBinaryHeap" where
  "CFBinaryHeapInit fresh flags values callBacks info =
     (let memory = \<lparr>hp_count = 0,
                    hp_capacity = CFBinaryHeapRoundUpCapacity 1,
                    hp_callbacks = (case callBacks of Some cb \<Rightarrow> cb
                       | None \<Rightarrow> \<lparr>cb_retain = None, cb_release = False, cb_compare = None\<rparr>),
                    hp_info = info,
                    hp_buckets = replicate (nat (CFBinaryHeapRoundUpCapacity 1)) fresh,
                    hp_variety = kCFBinaryHeapMutable,
                    hp_calls = []\<rparr>;
          filled = foldl (CFBinaryHeapAddValue fresh) memory values
      in filled\<lparr>hp_variety := flags mod 4\<rparr>)"

definition CFBinaryHeapCreate ::
    "ptr \<Rightarrow> CFBinaryHeapCallBacks option \<Rightarrow> ptr \<Rightarrow> CFBinaryHeap" where
  "CFBinaryHeapCreate fresh callBacks info =
     CFBinaryHeapInit fresh kCFBinaryHeapMutable [] callBacks info"

definition CFBinaryHeapCreateCopy :: "ptr \<Rightarrow> CFBinaryHeap \<Rightarrow> CFBinaryHeap" where
  "CFBinaryHeapCreateCopy fresh heap =
     CFBinaryHeapInit fresh kCFBinaryHeapMutable (take (hp_count heap) (hp_buckets heap))
       (Some (hp_callbacks heap)) (hp_info heap)"

text \<open>The test \<open>value == item || (compare && EqualTo == compare(value, item, info))\<close>.\<close>

definition heap_same :: "CFBinaryHeap \<Rightarrow> ptr \<Rightarrow> ptr \<Rightarrow> bool" where
  "heap_same heap value item = (value = item \<or>
     (case cb_compare (hp_callbacks heap) of None \<Rightarrow> False
      | Some f \<Rightarrow> fn_code f value item (hp_info heap) = kCFCompareEqualTo))"

definition CFBinaryHeapGetCountOfValue :: "CFBinaryHeap \<Rightarrow> ptr \<Rightarrow> nat" where
  "CFBinaryHeapGetCountOfValue heap value =
     foldl (\<lambda>cnt item. if heap_same heap value item then cnt + 1 else cnt) 0
       (take (hp_count heap) (hp_buckets heap))"

fun heap_find :: "(ptr \<Rightarrow> bool) \<Rightarrow> ptr list \<Rightarrow> bool" where
  "heap_find same [] = False"
| "heap_find same (item # items) = (if same item then True else heap_find same items)"

definition CFBinaryHeapContainsValue :: "CFBinaryHeap \<Rightarrow> ptr \<Rightarrow> bool" where
  "CFBinaryHeapContainsValue heap value =
     heap_find (heap_same heap value) (take (hp_count heap) (hp_buckets heap))"

text \<open>An empty heap has no minimum: NULL.\<close>

definition CFBinaryHeapGetMinimum :: "CFBinaryHeap \<Rightarrow> ptr" where
  "CFBinaryHeapGetMinimum heap = (if 0 < hp_count heap then hp_buckets heap ! 0 else 0)"

definition CFBinaryHeapGetMinimumIfPresent :: "CFBinaryHeap \<Rightarrow> ptr option" where
  "CFBinaryHeapGetMinimumIfPresent heap =
     (if hp_count heap = 0 then None else Some (hp_buckets heap ! 0))"

lemma hp_count_RemoveMinimum [simp]:
  "hp_count (CFBinaryHeapRemoveMinimumValue heap) = hp_count heap - 1"
  by (simp add: CFBinaryHeapRemoveMinimumValue_def Let_def split: prod.split)

text \<open>The loop of \<open>CFBinaryHeapGetValues\<close> and \<open>CFBinaryHeapApplyFunction\<close>: take the
  minimum of the copy, remove it, hand it to \<open>f\<close>.\<close>

function heap_drain :: "(ptr \<Rightarrow> 's \<Rightarrow> 's) \<Rightarrow> CFBinaryHeap \<Rightarrow> 's \<Rightarrow> 's" where
  "heap_drain f heapCopy s =
     (if 0 < hp_count heapCopy
      then heap_drain f (CFBinaryHeapRemoveMinimumValue heapCopy)
             (f (CFBinaryHeapGetMinimum heapCopy) s)
      else s)"
  by pat_completeness auto
termination
  by (relation "measure (\<lambda>(f, heapCopy, s). hp_count heapCopy)") auto

declare heap_drain.simps [simp del]

definition CFBinaryHeapGetValues :: "ptr \<Rightarrow> CFBinaryHeap \<Rightarrow> ptr list" where
  "CFBinaryHeapGetValues fresh heap =
     (if hp_count heap = 0 then []
      else heap_drain (\<lambda>value values. values @ [value]) (CFBinaryHeapCreateCopy fresh heap) [])"

definition CFBinaryHeapApplyFunction ::
    "ptr \<Rightarrow> CFBinaryHeap \<Rightarrow> (ptr \<Rightarrow> 's \<Rightarrow> 's) \<Rightarrow> 's \<Rightarrow> 's" where
  "CFBinaryHeapApplyFunction fresh heap applier s =
     (if hp_count heap = 0 then s
      else heap_drain applier (CFBinaryHeapCreateCopy fresh heap) s)"

text \<open>The value loop of \<open>__CFBinaryHeapEqual\<close>. C's \<open>!compare(..)\<close> is true exactly
  when the comparison returns 0, that is \<open>kCFCompareEqualTo\<close>.\<close>

fun heap_equal_values ::
    "(ptr \<Rightarrow> ptr \<Rightarrow> ptr \<Rightarrow> CFComparisonResult) fnptr option \<Rightarrow> ptr \<Rightarrow> ptr list \<Rightarrow> ptr list \<Rightarrow> bool" where
  "heap_equal_values compare info (val1 # list1) (val2 # list2) =
     (if val1 \<noteq> val2 then
        (case compare of None \<Rightarrow> False
         | Some f \<Rightarrow> if fn_code f val1 val2 info = kCFCompareEqualTo then False
                     else heap_equal_values compare info list1 list2)
      else heap_equal_values compare info list1 list2)"
| "heap_equal_values compare info list1 list2 = True"

definition CFBinaryHeapEqual :: "ptr \<Rightarrow> CFBinaryHeap \<Rightarrow> CFBinaryHeap \<Rightarrow> bool" where
  "CFBinaryHeapEqual fresh heap1 heap2 =
     (let cnt = hp_count heap1; compare = cb_compare (hp_callbacks heap1)
      in if cnt \<noteq> hp_count heap2 then False
         else if map_option fn_addr compare \<noteq> map_option fn_addr (cb_compare (hp_callbacks heap2))
         then False
         else if cnt = 0 then True
         else heap_equal_values compare (hp_info heap1)
                (CFBinaryHeapGetValues fresh heap1) (CFBinaryHeapGetValues fresh heap2))"

definition CFBinaryHeapHash :: "CFBinaryHeap \<Rightarrow> nat" where
  "CFBinaryHeapHash heap = hp_count heap"

text \<open>Deallocation releases the values; outside garbage collection it always runs.\<close>

definition CFBinaryHeapDeallocate :: "CFBinaryHeap \<Rightarrow> heap_call list" where
  "CFBinaryHeapDeallocate heap = hp_calls (CFBinaryHeapRemoveAllValues heap)"

section \<open>The sift loops\<close>

text \<open>The heap order on the first \<open>n\<close> buckets, and the two forms it has while a hole
  travels: \<open>hole_up\<close> when only the edge above the hole may be wrong, \<open>hole_down\<close> when
  only the edges below it may be.\<close>

definition heap_ordered :: "('a \<Rightarrow> 'a \<Rightarrow> bool) \<Rightarrow> nat \<Rightarrow> 'a list \<Rightarrow> bool" where
  "heap_ordered gt n b \<longleftrightarrow> (\<forall>i. 0 < i \<and> i < n \<longrightarrow> \<not> gt (b ! ((i - 1) div 2)) (b ! i))"

definition bridged :: "('a \<Rightarrow> 'a \<Rightarrow> bool) \<Rightarrow> nat \<Rightarrow> 'a list \<Rightarrow> nat \<Rightarrow> bool" where
  "bridged gt n b h \<longleftrightarrow> (\<forall>i. 0 < i \<and> i < n \<and> (i - 1) div 2 = h \<and> 0 < h
     \<longrightarrow> \<not> gt (b ! ((h - 1) div 2)) (b ! i))"

definition hole_up :: "('a \<Rightarrow> 'a \<Rightarrow> bool) \<Rightarrow> nat \<Rightarrow> 'a list \<Rightarrow> nat \<Rightarrow> bool" where
  "hole_up gt n b h \<longleftrightarrow> h < n \<and> n \<le> length b \<and> bridged gt n b h
     \<and> (\<forall>i. 0 < i \<and> i < n \<and> i \<noteq> h \<longrightarrow> \<not> gt (b ! ((i - 1) div 2)) (b ! i))"

definition hole_down :: "('a \<Rightarrow> 'a \<Rightarrow> bool) \<Rightarrow> nat \<Rightarrow> 'a list \<Rightarrow> nat \<Rightarrow> bool" where
  "hole_down gt n b h \<longleftrightarrow> h < n \<and> n \<le> length b \<and> bridged gt n b h
     \<and> (\<forall>i. 0 < i \<and> i < n \<and> (i - 1) div 2 \<noteq> h \<longrightarrow> \<not> gt (b ! ((i - 1) div 2)) (b ! i))"

lemma parent_less: "0 < (i::nat) \<Longrightarrow> (i - 1) div 2 < i"
  by simp

lemma parent_eq_iff: "0 < (i::nat) \<Longrightarrow> (i - 1) div 2 = h \<longleftrightarrow> i = 2 * h + 1 \<or> i = 2 * h + 2"
  by presburger

context gt_order
begin

lemma hole_up_step:
  assumes inv: "hole_up gt n (b[h := v]) h" and h: "0 < h"
    and gt: "gt (b ! ((h - 1) div 2)) v"
  shows "hole_up gt n (b[h := b ! ((h - 1) div 2), (h - 1) div 2 := v]) ((h - 1) div 2)"
proof -
  define p where "p = (h - 1) div 2"
  have p: "p < h" using h by (simp add: p_def)
  have len: "h < n" "n \<le> length b" using inv by (auto simp: hole_up_def)
  have edge: "\<not> gt (b[h := v] ! ((i - 1) div 2)) (b[h := v] ! i)" if "0 < i" "i < n" "i \<noteq> h" for i
    using inv that by (auto simp: hole_up_def)
  have below: "\<not> gt (b ! p) (b ! i)" if "0 < i" "i < n" "(i - 1) div 2 = h" for i
  proof -
    have "i \<noteq> h" "p \<noteq> h" using that p by auto
    with inv that h show ?thesis by (auto simp: hole_up_def bridged_def p_def)
  qed
  have sibling: "\<not> gt (b ! p) (b ! i)" if "0 < i" "i < n" "(i - 1) div 2 = p" "i \<noteq> h" for i
    using edge [of i] that p by simp
  have up: "\<not> gt (b ! ((p - 1) div 2)) (b ! p)" if "0 < p"
    using edge [of p] that p len by simp
  have up_sib: "\<not> gt (b ! ((p - 1) div 2)) (b ! i)" if "0 < p" "0 < i" "i < n" "(i - 1) div 2 = p" "i \<noteq> h" for i
    using up [OF that(1)] sibling [OF that(2-)] by (rule ngt_trans)
  have v: "\<not> gt v (b ! p)" using gt by (simp add: gt_asym p_def)
  have edges: "\<not> gt (b[h := b ! p, p := v] ! ((i - 1) div 2)) (b[h := b ! p, p := v] ! i)"
    if i: "0 < i" "i < n" "i \<noteq> p" for i
  proof -
    consider "i = h" | "(i - 1) div 2 = h" | "(i - 1) div 2 = p" "i \<noteq> h"
      | "(i - 1) div 2 \<noteq> h" "(i - 1) div 2 \<noteq> p" "i \<noteq> h" by blast
    then show ?thesis
    proof cases
      case 1 then show ?thesis using v p len by (simp add: p_def)
    next
      case 2 then show ?thesis using below [of i] i p len parent_less [of i] by (auto simp: nth_list_update)
    next
      case 3 then show ?thesis using ngt_trans [OF v sibling [of i]] i p len by (auto simp: nth_list_update)
    next
      case 4 then show ?thesis using edge [of i] i by (auto simp: nth_list_update)
    qed
  qed
  have "bridged gt n (b[h := b ! p, p := v]) p"
    unfolding bridged_def
  proof (intro allI impI)
    fix i assume i: "0 < i \<and> i < n \<and> (i - 1) div 2 = p \<and> 0 < p"
    then have pp: "(p - 1) div 2 \<noteq> p" "(p - 1) div 2 \<noteq> h" "i \<noteq> p"
      using parent_less [of p] parent_less [of i] p by auto
    show "\<not> gt (b[h := b ! p, p := v] ! ((p - 1) div 2)) (b[h := b ! p, p := v] ! i)"
      using up up_sib [of i] i pp len by (cases "i = h") (auto simp: nth_list_update)
  qed
  with edges p len show ?thesis by (auto simp: hole_up_def p_def)
qed

lemma hole_up_final:
  assumes "hole_up gt n b h" and "h = 0 \<or> \<not> gt (b ! ((h - 1) div 2)) (b ! h)"
  shows "heap_ordered gt n b"
  unfolding heap_ordered_def
proof (intro allI impI)
  fix i assume "0 < i \<and> i < n"
  with assms show "\<not> gt (b ! ((i - 1) div 2)) (b ! i)"
    by (cases "i = h") (auto simp: hole_up_def)
qed

lemma sift_up_correct:
  "hole_up gt n (b[h := v]) h \<Longrightarrow> heap_sift_up gt b h v = (b', h') \<Longrightarrow>
     heap_ordered gt n (b'[h' := v]) \<and> length b' = length b \<and> h' < n
     \<and> mset (take n (b'[h' := v])) = mset (take n (b[h := v])) \<and> drop n b' = drop n b"
proof (induction h arbitrary: b rule: less_induct)
  case (less h)
  have hn: "h < n" "n \<le> length b" using less.prems(1) by (auto simp: hole_up_def)
  define p where "p = (h - 1) div 2"
  show ?case
  proof (cases "0 < h \<and> gt (b ! p) v")
    case True
    then have p: "p < h" by (auto simp: p_def)
    have run: "heap_sift_up gt (b[h := b ! p]) p v = (b', h')"
      using less.prems(2) True by (simp add: heap_sift_up.simps [of gt b] p_def Let_def)
    have inv: "hole_up gt n (b[h := b ! p, p := v]) p"
      using hole_up_step [OF less.prems(1)] True by (simp add: p_def)
    have "mset (take n (b[h := b ! p, p := v])) = mset (take n (b[h := v]))"
      using mset_list_swap [of h "take n (b[h := v])" p] hn p
      by (simp add: list_update_swap [of h p])
    with less.IH [OF p inv run] hn show ?thesis by (simp del: take_list_update_less)
  next
    case False
    then have "b' = b" "h' = h"
      using less.prems(2) by (auto simp: heap_sift_up.simps [of gt b] p_def split: if_splits)
    moreover have "heap_ordered gt n (b[h := v])"
    proof (rule hole_up_final [OF less.prems(1)])
      have "p \<noteq> h" if "0 < h" using that by (auto simp: p_def)
      then show "h = 0 \<or> \<not> gt (b[h := v] ! ((h - 1) div 2)) (b[h := v] ! h)"
        using False hn by (cases "h = 0") (auto simp: p_def)
    qed
    ultimately show ?thesis using hn by simp
  qed
qed

lemma hole_down_step:
  assumes inv: "hole_down gt n (b[h := v]) h" and c: "c = 2 * h + 1 \<or> c = 2 * h + 2" "c < n"
    and ngt: "\<not> gt (b ! c) v"
    and least: "\<And>i. 0 < i \<Longrightarrow> i < n \<Longrightarrow> (i - 1) div 2 = h \<Longrightarrow> \<not> gt (b ! c) (b ! i)"
  shows "hole_down gt n (b[h := b ! c, c := v]) c"
proof -
  have ch: "(c - 1) div 2 = h" "h < c" using c by auto
  have len: "n \<le> length b" using inv by (auto simp: hole_down_def)
  have edge: "\<not> gt (b[h := v] ! ((i - 1) div 2)) (b[h := v] ! i)"
    if "0 < i" "i < n" "(i - 1) div 2 \<noteq> h" for i
    using inv that by (auto simp: hole_down_def)
  have above: "\<not> gt (b ! ((h - 1) div 2)) (b ! c)" if "0 < h"
  proof -
    have "(h - 1) div 2 \<noteq> h" using that by auto
    moreover have "0 < c" "h \<noteq> c" using ch by auto
    ultimately show ?thesis using inv c(2) ch(1) that unfolding hole_down_def bridged_def
      by (metis nth_list_update_neq)
  qed
  have edges: "\<not> gt (b[h := b ! c, c := v] ! ((i - 1) div 2)) (b[h := b ! c, c := v] ! i)"
    if i: "0 < i" "i < n" "(i - 1) div 2 \<noteq> c" for i
  proof -
    consider "i = h" | "(i - 1) div 2 = h" "i = c" | "(i - 1) div 2 = h" "i \<noteq> c"
      | "(i - 1) div 2 \<noteq> h" "i \<noteq> h" by blast
    then show ?thesis
    proof cases
      case 1
      then have "(h - 1) div 2 \<noteq> h" "(h - 1) div 2 \<noteq> c" using i ch by auto
      then show ?thesis using 1 above i ch len by (auto simp: nth_list_update)
    next
      case 2 then show ?thesis using ngt ch len c by (auto simp: nth_list_update)
    next
      case 3
      then have "i \<noteq> h" using i parent_less [of i] by auto
      then show ?thesis using 3 least [of i] i ch len c by (auto simp: nth_list_update)
    next
      case 4
      then have "i \<noteq> c" using ch by auto
      then show ?thesis using 4 edge [of i] i by (auto simp: nth_list_update)
    qed
  qed
  have "bridged gt n (b[h := b ! c, c := v]) c"
    unfolding bridged_def
  proof (intro allI impI)
    fix i assume i: "0 < i \<and> i < n \<and> (i - 1) div 2 = c \<and> 0 < c"
    then have "i \<noteq> c" "i \<noteq> h" using ch parent_less [of i] by auto
    then show "\<not> gt (b[h := b ! c, c := v] ! ((c - 1) div 2)) (b[h := b ! c, c := v] ! i)"
      using edge [of i] i ch len c by (auto simp: nth_list_update)
  qed
  with edges c len show ?thesis by (auto simp: hole_down_def)
qed

lemma hole_down_final:
  assumes "hole_down gt n b h"
    and "\<And>i. 0 < i \<Longrightarrow> i < n \<Longrightarrow> (i - 1) div 2 = h \<Longrightarrow> \<not> gt (b ! h) (b ! i)"
  shows "heap_ordered gt n b"
  unfolding heap_ordered_def
proof (intro allI impI)
  fix i assume "0 < i \<and> i < n"
  with assms show "\<not> gt (b ! ((i - 1) div 2)) (b ! i)"
    by (cases "(i - 1) div 2 = h") (auto simp: hole_down_def)
qed

text \<open>The child the loop selects is not greater than its sibling.\<close>

definition sift_child :: "nat \<Rightarrow> 'a list \<Rightarrow> nat \<Rightarrow> nat" where
  "sift_child n b h = (if 2 * h + 2 < n \<and> gt (b ! (2 * h + 1)) (b ! (2 * h + 2))
     then 2 * h + 2 else 2 * h + 1)"

lemma sift_child_least:
  assumes "0 < i" "i < n" "(i - 1) div 2 = h"
  shows "\<not> gt (b ! sift_child n b h) (b ! i)"
proof -
  have "i = 2 * h + 1 \<or> i = 2 * h + 2" using parent_eq_iff [OF assms(1)] assms(3) by blast
  then show ?thesis using assms gt_asym gt_irrefl by (auto simp: sift_child_def)
qed

lemma sift_down_unfold:
  "heap_sift_down gt n b h v =
     (if 2 * h + 1 < n \<and> \<not> gt (b ! sift_child n b h) v
      then heap_sift_down gt n (b[h := b ! sift_child n b h]) (sift_child n b h) v
      else (b, h))"
  by (subst heap_sift_down.simps) (simp add: Let_def sift_child_def)

lemma sift_down_correct:
  "hole_down gt n (b[h := v]) h \<Longrightarrow> heap_sift_down gt n b h v = (b', h') \<Longrightarrow>
     heap_ordered gt n (b'[h' := v]) \<and> length b' = length b \<and> h' < n
     \<and> mset (take n (b'[h' := v])) = mset (take n (b[h := v])) \<and> drop n b' = drop n b"
proof (induction "n - h" arbitrary: b h rule: less_induct)
  case less
  have hn: "h < n" "n \<le> length b" using less.prems(1) by (auto simp: hole_down_def)
  define c where "c = sift_child n b h"
  have least: "\<not> gt (b ! c) (b ! i)" if "0 < i" "i < n" "(i - 1) div 2 = h" for i
    using sift_child_least [OF that] by (simp add: c_def)
  show ?case
  proof (cases "2 * h + 1 < n \<and> \<not> gt (b ! c) v")
    case True
    then have c: "c = 2 * h + 1 \<or> c = 2 * h + 2" "c < n" "h < c"
      by (auto simp: c_def sift_child_def)
    have run: "heap_sift_down gt n (b[h := b ! c]) c v = (b', h')"
      using less.prems(2) True sift_down_unfold [of n b h v] by (simp add: c_def)
    have inv: "hole_down gt n (b[h := b ! c, c := v]) c"
      using hole_down_step [OF less.prems(1) c(1,2) _ least] True by simp
    have "mset (take n (b[h := b ! c, c := v])) = mset (take n (b[h := v]))"
      using mset_list_swap [of h "take n (b[h := v])" c] hn c(2,3)
      by (simp add: list_update_swap [of h c])
    with less.hyps [OF _ inv run] hn c show ?thesis
      by (simp add: diff_less_mono2 del: take_list_update_less)
  next
    case False
    then have eq: "b' = b" "h' = h"
      using less.prems(2) sift_down_unfold [of n b h v] by (auto simp: c_def)
    have "heap_ordered gt n (b[h := v])"
    proof (rule hole_down_final [OF less.prems(1)])
      fix i assume i: "0 < i" "i < n" "(i - 1) div 2 = h"
      then have "i \<noteq> h" "2 * h + 1 < n" using parent_less [of i] by (auto simp: parent_eq_iff)
      with False i have "\<not> gt v (b ! c)" using gt_asym by blast
      then have "\<not> gt v (b ! i)" using least [OF i] by (rule ngt_trans)
      then show "\<not> gt (b[h := v] ! h) (b[h := v] ! i)" using hn \<open>i \<noteq> h\<close> by simp
    qed
    with eq hn show ?thesis by simp
  qed
qed

lemma heap_root_least:
  assumes "heap_ordered gt n b" "i < n"
  shows "\<not> gt (b ! 0) (b ! i)"
  using \<open>i < n\<close>
proof (induction i rule: less_induct)
  case (less i)
  show ?case
  proof (cases "i = 0")
    case True then show ?thesis using gt_irrefl by simp
  next
    case False
    then have "\<not> gt (b ! 0) (b ! ((i - 1) div 2))" using less by auto
    moreover have "\<not> gt (b ! ((i - 1) div 2)) (b ! i)"
      using assms(1) less.prems False by (auto simp: heap_ordered_def)
    ultimately show ?thesis by (rule ngt_trans)
  qed
qed

end

section \<open>The heap is a priority queue\<close>

text \<open>The invariant of a heap object, and its contents.\<close>

definition heap_wf :: "CFBinaryHeap \<Rightarrow> bool" where
  "heap_wf heap \<longleftrightarrow> hp_variety heap = kCFBinaryHeapMutable
     \<and> int (hp_count heap) \<le> hp_capacity heap \<and> int (length (hp_buckets heap)) = hp_capacity heap
     \<and> heap_ordered (heap_gt heap) (hp_count heap) (hp_buckets heap)"

definition heap_items :: "CFBinaryHeap \<Rightarrow> ptr multiset" where
  "heap_items heap = mset (take (hp_count heap) (hp_buckets heap))"

text \<open>The retain callback returns its argument, as \<open>CFRetain\<close> does.\<close>

definition retain_ok :: "CFBinaryHeapCallBacks \<Rightarrow> bool" where
  "retain_ok cb \<longleftrightarrow> (case cb_retain cb of None \<Rightarrow> True | Some r \<Rightarrow> \<forall>p. r p = p)"

definition same_context :: "CFBinaryHeapCallBacks \<Rightarrow> ptr \<Rightarrow> CFBinaryHeap \<Rightarrow> bool" where
  "same_context cb info heap \<longleftrightarrow> hp_callbacks heap = cb \<and> hp_info heap = info"

text \<open>The order of a heap with the given callbacks.\<close>

definition context_gt :: "CFBinaryHeapCallBacks \<Rightarrow> ptr \<Rightarrow> ptr \<Rightarrow> ptr \<Rightarrow> bool" where
  "context_gt cb info a b = (case cb_compare cb of
     None \<Rightarrow> a > b | Some f \<Rightarrow> fn_code f a b info = kCFCompareGreaterThan)"

lemma heap_gt_context: "heap_gt heap = context_gt (hp_callbacks heap) (hp_info heap)"
  by (simp add: fun_eq_iff heap_gt_def context_gt_def)

lemma RoundUpCapacity_greater:
  assumes "n < 2 ^ 30"
  shows "int n < CFBinaryHeapRoundUpCapacity n"
proof -
  have "int_shift_1 (flsl n) = 2 ^ flsl n" using flsl_le [OF assms] by (intro int_shift_1) simp
  moreover have "int n < 2 ^ flsl n" using flsl_upper [of n] by (simp flip: of_nat_less_iff)
  ultimately show ?thesis by (simp add: CFBinaryHeapRoundUpCapacity_def)
qed

lemma heap_capacity_overflow: "CFBinaryHeapRoundUpCapacity (2 ^ 30) = - (2 ^ 31)"
  by (simp add: CFBinaryHeapRoundUpCapacity_def flsl.simps int_shift_1_def push_bit_eq_mult)

lemma heap_items_empty: "heap_wf heap \<Longrightarrow> heap_items heap = {#} \<longleftrightarrow> hp_count heap = 0"
  by (auto simp: heap_items_def heap_wf_def)

lemma count_le_buckets: "heap_wf heap \<Longrightarrow> hp_count heap \<le> length (hp_buckets heap)"
  unfolding heap_wf_def by linarith

lemma size_heap_items: "heap_wf heap \<Longrightarrow> size (heap_items heap) = hp_count heap"
  using count_le_buckets [of heap] by (simp add: heap_items_def)

lemma Grow_fields [simp]:
  "hp_count (CFBinaryHeapGrow fresh heap n) = hp_count heap"
  "hp_capacity (CFBinaryHeapGrow fresh heap n) = CFBinaryHeapRoundUpCapacity (hp_count heap + n)"
  "hp_callbacks (CFBinaryHeapGrow fresh heap n) = hp_callbacks heap"
  "hp_info (CFBinaryHeapGrow fresh heap n) = hp_info heap"
  "hp_variety (CFBinaryHeapGrow fresh heap n) = hp_variety heap"
  "hp_calls (CFBinaryHeapGrow fresh heap n) = hp_calls heap"
  "length (hp_buckets (CFBinaryHeapGrow fresh heap n)) = nat (CFBinaryHeapRoundUpCapacity (hp_count heap + n))"
  by (simp_all add: CFBinaryHeapGrow_def Let_def)

text \<open>Growing keeps the contents, the order, and makes room.\<close>

lemma Grow_buckets:
  assumes "heap_wf heap" "int (hp_count heap) = hp_capacity heap" "hp_count heap + 1 < 2 ^ 30"
  shows "take (hp_count heap) (hp_buckets (CFBinaryHeapGrow fresh heap 1)) = hp_buckets heap"
proof -
  have "length (hp_buckets heap) = hp_count heap" "hp_count heap \<le> nat (CFBinaryHeapRoundUpCapacity (hp_count heap + 1))"
    using assms RoundUpCapacity_greater [OF assms(3)] by (simp_all add: heap_wf_def)
  then show ?thesis by (simp add: CFBinaryHeapGrow_def Let_def)
qed

text \<open>What the first step of \<open>CFBinaryHeapAddValue\<close>, growing when full, gives.\<close>

definition heap_with_room :: "ptr \<Rightarrow> CFBinaryHeap \<Rightarrow> CFBinaryHeap" where
  "heap_with_room fresh heap =
     (if hp_variety heap = kCFBinaryHeapMutable \<and> int (hp_count heap) = hp_capacity heap
      then CFBinaryHeapGrow fresh heap 1 else heap)"

lemma with_room_fields [simp]:
  "hp_count (heap_with_room fresh heap) = hp_count heap"
  "hp_callbacks (heap_with_room fresh heap) = hp_callbacks heap"
  "hp_info (heap_with_room fresh heap) = hp_info heap"
  "hp_variety (heap_with_room fresh heap) = hp_variety heap"
  "hp_calls (heap_with_room fresh heap) = hp_calls heap"
  by (simp_all add: heap_with_room_def)

lemma with_room_wf:
  assumes "heap_wf heap" "hp_count heap + 1 < 2 ^ 30"
  shows "int (hp_count heap) < hp_capacity (heap_with_room fresh heap)"
    and "int (length (hp_buckets (heap_with_room fresh heap))) = hp_capacity (heap_with_room fresh heap)"
    and "take (hp_count heap) (hp_buckets (heap_with_room fresh heap))
           = take (hp_count heap) (hp_buckets heap)"
proof -
  have c: "int (hp_count heap) < CFBinaryHeapRoundUpCapacity (hp_count heap + 1)"
    using RoundUpCapacity_greater [OF assms(2)] by simp
  show "int (hp_count heap) < hp_capacity (heap_with_room fresh heap)"
    "int (length (hp_buckets (heap_with_room fresh heap))) = hp_capacity (heap_with_room fresh heap)"
    using assms(1) c by (auto simp: heap_with_room_def heap_wf_def)
  show "take (hp_count heap) (hp_buckets (heap_with_room fresh heap)) = take (hp_count heap) (hp_buckets heap)"
  proof (cases "int (hp_count heap) = hp_capacity heap")
    case True
    moreover from this have "length (hp_buckets heap) = hp_count heap" using assms(1) by (simp add: heap_wf_def)
    ultimately show ?thesis using Grow_buckets [OF assms(1) True assms(2), of fresh] by (simp add: heap_with_room_def)
  qed (simp add: heap_with_room_def)
qed

lemma heap_ordered_take:
  "take n b = take n b' \<Longrightarrow> heap_ordered gt n b \<longleftrightarrow> heap_ordered gt n b'"
proof -
  assume eq: "take n b = take n b'"
  have "b ! i = b' ! i" if "i < n" for i using that eq by (metis nth_take)
  then show ?thesis by (auto simp: heap_ordered_def less_imp_diff_less div_less_dividend)
qed

lemma AddValue_unfold:
  assumes "heap_sift_up (heap_gt heap) (hp_buckets (heap_with_room fresh heap)) (hp_count heap) v = (b, i)"
    and "retain_ok (hp_callbacks heap)"
  shows "CFBinaryHeapAddValue fresh heap v = (heap_with_room fresh heap)
     \<lparr>hp_count := hp_count heap + 1, hp_buckets := b[i := v],
      hp_calls := hp_calls heap @ (if cb_retain (hp_callbacks heap) = None then [] else [Retained v])\<rparr>"
proof -
  have gt: "heap_gt (heap_with_room fresh heap) = heap_gt heap"
    by (simp add: heap_gt_context)
  show ?thesis
    using assms gt unfolding CFBinaryHeapAddValue_def heap_with_room_def [symmetric]
    by (auto simp: Let_def retain_ok_def split: option.splits)
qed

lemma AddValue_wf:
  assumes wf: "heap_wf heap" and ord: "gt_order (heap_gt heap)" and ret: "retain_ok (hp_callbacks heap)"
    and small: "hp_count heap + 1 < 2 ^ 30"
  shows "heap_wf (CFBinaryHeapAddValue fresh heap v)"
    and "heap_items (CFBinaryHeapAddValue fresh heap v) = add_mset v (heap_items heap)"
    and "hp_callbacks (CFBinaryHeapAddValue fresh heap v) = hp_callbacks heap"
    and "hp_info (CFBinaryHeapAddValue fresh heap v) = hp_info heap"
proof -
  let ?r = "heap_with_room fresh heap" and ?n = "hp_count heap"
  obtain b i where run: "heap_sift_up (heap_gt heap) (hp_buckets ?r) ?n v = (b, i)"
    by (metis surj_pair)
  note eq = AddValue_unfold [OF run ret] and room = with_room_wf [OF wf small, of fresh]
  have len: "?n < length (hp_buckets ?r)" using room(1,2) by linarith
  have ordered: "heap_ordered (heap_gt heap) ?n (hp_buckets ?r)"
    using heap_ordered_take [OF room(3), of "heap_gt heap"] wf by (simp add: heap_wf_def)
  have "hole_up (heap_gt heap) (?n + 1) ((hp_buckets ?r)[?n := v]) ?n"
    using ordered len
    by (auto simp: hole_up_def bridged_def heap_ordered_def less_Suc_eq parent_eq_iff
        nth_list_update split: if_splits)
  from gt_order.sift_up_correct [OF ord this run]
  have b: "heap_ordered (heap_gt heap) (?n + 1) (b[i := v])" "length b = length (hp_buckets ?r)"
    "i < ?n + 1" "mset (take (?n + 1) (b[i := v])) = mset (take (?n + 1) ((hp_buckets ?r)[?n := v]))"
    by blast+
  show "hp_callbacks (CFBinaryHeapAddValue fresh heap v) = hp_callbacks heap"
    and "hp_info (CFBinaryHeapAddValue fresh heap v) = hp_info heap"
    by (simp_all add: eq)
  then show "heap_wf (CFBinaryHeapAddValue fresh heap v)"
    using b room wf by (simp add: heap_wf_def eq heap_gt_context)
  have "take (?n + 1) ((hp_buckets ?r)[?n := v]) = take ?n (hp_buckets ?r) @ [v]"
    using len by (simp add: take_Suc_conv_app_nth take_update_swap list_update_append)
  then show "heap_items (CFBinaryHeapAddValue fresh heap v) = add_mset v (heap_items heap)"
    using b(4) room(3) by (simp add: heap_items_def eq del: take_list_update_less)
qed

lemma RemoveMinimumValue_wf:
  assumes wf: "heap_wf heap" and ord: "gt_order (heap_gt heap)"
  shows "heap_wf (CFBinaryHeapRemoveMinimumValue heap)"
    and "heap_items heap \<noteq> {#} \<Longrightarrow> heap_items (CFBinaryHeapRemoveMinimumValue heap)
           = heap_items heap - {#CFBinaryHeapGetMinimum heap#}"
    and "hp_callbacks (CFBinaryHeapRemoveMinimumValue heap) = hp_callbacks heap"
    and "hp_info (CFBinaryHeapRemoveMinimumValue heap) = hp_info heap"
proof -
  let ?n = "hp_count heap" and ?b = "hp_buckets heap"
  show cb: "hp_callbacks (CFBinaryHeapRemoveMinimumValue heap) = hp_callbacks heap"
    and info: "hp_info (CFBinaryHeapRemoveMinimumValue heap) = hp_info heap"
    by (simp_all add: CFBinaryHeapRemoveMinimumValue_def Let_def split: prod.split)
  have gt: "heap_gt (CFBinaryHeapRemoveMinimumValue heap) = heap_gt heap"
    by (simp add: heap_gt_context cb info)
  obtain b i where run: "heap_sift_down (heap_gt heap) (?n - 1) ?b 0 (?b ! (?n - 1)) = (b, i)"
    by (metis surj_pair)
  have fields: "hp_buckets (CFBinaryHeapRemoveMinimumValue heap)
      = (if ?n = 0 then ?b else b[i := ?b ! (?n - 1)])"
    "hp_capacity (CFBinaryHeapRemoveMinimumValue heap) = hp_capacity heap"
    "hp_variety (CFBinaryHeapRemoveMinimumValue heap) = hp_variety heap"
    using run by (simp_all add: CFBinaryHeapRemoveMinimumValue_def Let_def split: prod.split)
  have n: "?n \<le> length ?b" by (rule count_le_buckets [OF wf])
  consider "?n = 0" | "?n = 1" | "1 < ?n" by linarith
  then have "heap_ordered (heap_gt heap) (?n - 1) (hp_buckets (CFBinaryHeapRemoveMinimumValue heap))
    \<and> length (hp_buckets (CFBinaryHeapRemoveMinimumValue heap)) = length ?b
    \<and> (?n \<noteq> 0 \<longrightarrow> mset (take (?n - 1) (hp_buckets (CFBinaryHeapRemoveMinimumValue heap)))
       = mset (take ?n ?b) - {#?b ! 0#})"
  proof cases
    case 1 then show ?thesis using fields by (simp add: heap_ordered_def)
  next
    case 2
    then have "b = ?b" "i = 0" using run by (simp_all add: heap_sift_down.simps)
    moreover have "take 1 ?b = [?b ! 0]" using n 2 by (cases ?b) auto
    ultimately show ?thesis using 2 fields by (simp add: heap_ordered_def)
  next
    case 3
    have "heap_ordered (heap_gt heap) ?n ?b" using wf by (simp add: heap_wf_def)
    then have edges: "\<not> heap_gt heap (?b ! ((j - 1) div 2)) (?b ! j)" if "0 < j" "j < ?n" for j
      using that by (simp add: heap_ordered_def)
    have "hole_down (heap_gt heap) (?n - 1) (?b[0 := ?b ! (?n - 1)]) 0"
      using 3 n edges by (auto simp: hole_down_def bridged_def)
    from gt_order.sift_down_correct [OF ord this run]
    have b: "heap_ordered (heap_gt heap) (?n - 1) (b[i := ?b ! (?n - 1)])" "length b = length ?b"
      "i < ?n - 1"
      "mset (take (?n - 1) (b[i := ?b ! (?n - 1)])) = mset (take (?n - 1) (?b[0 := ?b ! (?n - 1)]))"
      by blast+
    obtain c cs where bs: "?b = c # cs" using 3 n by (cases ?b) auto
    have "take ?n ?b = c # take (?n - 2) cs @ [cs ! (?n - 2)]"
      using 3 n bs by (simp add: take_Cons' take_Suc_conv_app_nth [symmetric] Suc_diff_Suc numeral_2_eq_2)
    moreover have "take (?n - 1) (?b[0 := ?b ! (?n - 1)]) = cs ! (?n - 2) # take (?n - 2) cs"
      using 3 n bs by (simp add: take_Cons' nth_Cons' numeral_2_eq_2)
    ultimately show ?thesis using b 3 bs fields by (simp del: take_list_update_less)
  qed
  then show "heap_wf (CFBinaryHeapRemoveMinimumValue heap)"
    and "heap_items heap \<noteq> {#} \<Longrightarrow> heap_items (CFBinaryHeapRemoveMinimumValue heap)
           = heap_items heap - {#CFBinaryHeapGetMinimum heap#}"
    using wf fields(2,3) gt
    by (auto simp: heap_wf_def heap_items_def CFBinaryHeapGetMinimum_def)
qed

lemma GetMinimum_least:
  assumes wf: "heap_wf heap" and ord: "gt_order (heap_gt heap)"
  shows "heap_items heap \<noteq> {#} \<Longrightarrow> CFBinaryHeapGetMinimum heap \<in># heap_items heap"
    and "v \<in># heap_items heap \<Longrightarrow> \<not> heap_gt heap (CFBinaryHeapGetMinimum heap) v"
proof -
  let ?n = "hp_count heap" and ?b = "hp_buckets heap"
  have n: "?n \<le> length ?b" by (rule count_le_buckets [OF wf])
  have o: "heap_ordered (heap_gt heap) ?n ?b" using wf by (simp add: heap_wf_def)
  show "CFBinaryHeapGetMinimum heap \<in># heap_items heap" if "heap_items heap \<noteq> {#}"
    using that n by (cases ?b; cases ?n) (auto simp: CFBinaryHeapGetMinimum_def heap_items_def)
  assume "v \<in># heap_items heap"
  then obtain j where "j < ?n" "v = ?b ! j"
    using n by (auto simp: heap_items_def in_set_conv_nth)
  then show "\<not> heap_gt heap (CFBinaryHeapGetMinimum heap) v"
    using gt_order.heap_root_least [OF ord o] by (auto simp: CFBinaryHeapGetMinimum_def)
qed

text \<open>The number of values up to which a heap surely grows.\<close>

definition heap_bound :: nat where
  "heap_bound = 2 ^ 30 - 1"

text \<open>A heap context: callbacks and an info pointer whose comparison is a total preorder.\<close>

locale heap_context =
  fixes cb :: CFBinaryHeapCallBacks and info :: ptr and fresh :: ptr
  assumes order: "gt_order (context_gt cb info)"
    and retain: "retain_ok cb"

sublocale heap_context \<subseteq> queue: priority_queue "context_gt cb info"
  "\<lambda>heap. heap_wf heap \<and> same_context cb info heap" heap_items heap_bound
  "CFBinaryHeapAddValue fresh" CFBinaryHeapGetMinimum CFBinaryHeapRemoveMinimumValue
proof (intro priority_queue.intro order priority_queue_axioms.intro)
  fix heap v
  assume inv: "heap_wf heap \<and> same_context cb info heap"
  then have gt: "heap_gt heap = context_gt cb info" and ret: "retain_ok (hp_callbacks heap)"
    by (simp_all add: heap_gt_context same_context_def retain)
  then have ord: "gt_order (heap_gt heap)" by (simp add: order)
  have small: "hp_count heap + 1 < 2 ^ 30" if "size (heap_items heap) < heap_bound"
    using that size_heap_items [OF conjunct1 [OF inv]] by (simp add: heap_bound_def)
  note add = AddValue_wf [OF conjunct1 [OF inv] ord ret small, of fresh]
    and remove = RemoveMinimumValue_wf [OF conjunct1 [OF inv] ord]
    and least = GetMinimum_least [OF conjunct1 [OF inv] ord]
  show "heap_wf (CFBinaryHeapAddValue fresh heap v) \<and> same_context cb info (CFBinaryHeapAddValue fresh heap v)"
    if "size (heap_items heap) < heap_bound"
    using add [OF that] inv by (simp add: same_context_def)
  show "heap_items (CFBinaryHeapAddValue fresh heap v) = add_mset v (heap_items heap)"
    if "size (heap_items heap) < heap_bound" by (rule add [OF that])
  show "heap_wf (CFBinaryHeapRemoveMinimumValue heap)
      \<and> same_context cb info (CFBinaryHeapRemoveMinimumValue heap)"
    using remove inv by (simp add: same_context_def)
  show "CFBinaryHeapGetMinimum heap \<in># heap_items heap" if "heap_items heap \<noteq> {#}"
    by (rule least(1) [OF that])
  show "\<not> context_gt cb info (CFBinaryHeapGetMinimum heap) v" if "v \<in># heap_items heap"
    using least(2) [OF that] gt by simp
  show "heap_items (CFBinaryHeapRemoveMinimumValue heap) = heap_items heap - {#CFBinaryHeapGetMinimum heap#}"
    if "heap_items heap \<noteq> {#}" by (rule remove(2) [OF that])
qed

text \<open>A heap without callbacks, which orders addresses, is such a context.\<close>

definition plain_callbacks :: CFBinaryHeapCallBacks where
  "plain_callbacks = \<lparr>cb_retain = None, cb_release = False, cb_compare = None\<rparr>"

lemma context_gt_plain: "context_gt plain_callbacks info = (>)"
  by (simp add: fun_eq_iff context_gt_def plain_callbacks_def)

lemma retain_ok_plain: "retain_ok plain_callbacks"
  by (simp add: retain_ok_def plain_callbacks_def)

lemma gt_order_plain: "gt_order (context_gt plain_callbacks info)"
  by (simp add: context_gt_plain ptr_gt.gt_order_axioms)

interpretation plain_heap: heap_context plain_callbacks info fresh for info fresh :: ptr
  by (rule heap_context.intro) (simp_all add: gt_order_plain retain_ok_plain)

section \<open>Creation, copying and draining\<close>

lemma heap_drain_fold: "hp_count heap = n \<Longrightarrow> heap_drain f heap s =
    foldl (\<lambda>s v. f v s) s (pq_drain CFBinaryHeapGetMinimum CFBinaryHeapRemoveMinimumValue n heap)"
  by (induction n arbitrary: heap s) (simp_all add: heap_drain.simps [of _ heap for heap])

lemma foldl_snoc: "foldl (\<lambda>s v. s @ [v]) s vs = s @ vs"
  by (induction vs arbitrary: s) simp_all

lemma heap_drain_values:
  "heap_drain (\<lambda>v vs. vs @ [v]) heap s =
     s @ pq_drain CFBinaryHeapGetMinimum CFBinaryHeapRemoveMinimumValue (hp_count heap) heap"
  by (simp add: heap_drain_fold foldl_snoc)

text \<open>The heap that \<open>__CFBinaryHeapInit\<close> starts to fill.\<close>

definition heap_blank :: "ptr \<Rightarrow> CFBinaryHeapCallBacks \<Rightarrow> ptr \<Rightarrow> CFBinaryHeap" where
  "heap_blank fresh cb info = CFBinaryHeapInit fresh kCFBinaryHeapMutable [] (Some cb) info"

lemma heap_blank_wf: "heap_wf (heap_blank fresh cb info)" "heap_items (heap_blank fresh cb info) = {#}"
  "same_context cb info (heap_blank fresh cb info)" "hp_calls (heap_blank fresh cb info) = []"
  by (simp_all add: heap_blank_def CFBinaryHeapInit_def heap_wf_def heap_items_def same_context_def
      heap_ordered_def kCFBinaryHeapMutable_def CFBinaryHeapRoundUpCapacity_def Let_def)

lemma heap_blank_facts: "heap_wf (heap_blank fresh cb info)
    \<and> heap_items (heap_blank fresh cb info) = {#} \<and> same_context cb info (heap_blank fresh cb info)
    \<and> hp_calls (heap_blank fresh cb info) = []"
  by (simp add: heap_blank_wf)

lemma heap_blank_count [simp]: "hp_count (heap_blank fresh cb info) = 0"
  using heap_blank_facts [of fresh cb info] heap_items_empty by blast

context heap_context
begin

lemma Init_foldl:
  assumes "length vs \<le> heap_bound"
  shows "CFBinaryHeapInit fresh kCFBinaryHeapMutable vs (Some cb) info
     = foldl (CFBinaryHeapAddValue fresh) (heap_blank fresh cb info) vs"
proof -
  let ?h = "foldl (CFBinaryHeapAddValue fresh) (heap_blank fresh cb info) vs"
  have "hp_variety ?h = kCFBinaryHeapMutable"
    using queue.fill [of "heap_blank fresh cb info" vs] heap_blank_wf assms by (simp add: heap_wf_def)
  moreover have "CFBinaryHeapInit fresh kCFBinaryHeapMutable vs (Some cb) info
      = ?h\<lparr>hp_variety := kCFBinaryHeapMutable\<rparr>"
    by (simp add: CFBinaryHeapInit_def heap_blank_def kCFBinaryHeapMutable_def Let_def)
  ultimately show ?thesis by simp
qed

lemma GetValues_drain:
  assumes "heap_wf heap" "same_context cb info heap" "hp_count heap \<le> heap_bound"
  shows "mset (CFBinaryHeapGetValues fresh heap) = heap_items heap"
    and "sorted_wrt (\<lambda>x y. \<not> context_gt cb info x y) (CFBinaryHeapGetValues fresh heap)"
proof -
  let ?vs = "take (hp_count heap) (hp_buckets heap)"
  let ?copy = "foldl (CFBinaryHeapAddValue fresh) (heap_blank fresh cb info) ?vs"
  have len: "length ?vs = hp_count heap" using count_le_buckets [OF assms(1)] by simp
  have copy: "CFBinaryHeapCreateCopy fresh heap = ?copy"
    using assms(2,3) Init_foldl [of ?vs] len by (simp add: CFBinaryHeapCreateCopy_def same_context_def)
  have blank: "heap_wf (heap_blank fresh cb info) \<and> same_context cb info (heap_blank fresh cb info)"
    by (simp add: heap_blank_wf)
  have filled: "heap_wf ?copy" "heap_items ?copy = mset ?vs"
    using queue.fill [OF blank, of ?vs] assms(3) by (simp_all add: heap_blank_wf)
  then have "hp_count ?copy = hp_count heap"
    using size_heap_items [OF filled(1)] len by simp
  then have "CFBinaryHeapGetValues fresh heap
      = pq_drain CFBinaryHeapGetMinimum CFBinaryHeapRemoveMinimumValue (length ?vs) ?copy"
    using len by (simp add: CFBinaryHeapGetValues_def copy heap_drain_values)
  with queue.heapsort [OF blank heap_blank_wf(2), of ?vs] assms(3) len
  show "mset (CFBinaryHeapGetValues fresh heap) = heap_items heap"
    and "sorted_wrt (\<lambda>x y. \<not> context_gt cb info x y) (CFBinaryHeapGetValues fresh heap)"
    by (simp_all add: heap_items_def)
qed

end

section \<open>Ownership of the stored objects\<close>

definition retained :: "heap_call list \<Rightarrow> ptr multiset" where
  "retained calls = mset (concat (map (\<lambda>c. case c of Retained p \<Rightarrow> [p] | Released p \<Rightarrow> []) calls))"

definition released :: "heap_call list \<Rightarrow> ptr multiset" where
  "released calls = mset (concat (map (\<lambda>c. case c of Retained p \<Rightarrow> [] | Released p \<Rightarrow> [p]) calls))"

lemma retained_simps [simp]: "retained [] = {#}" "retained (xs @ ys) = retained xs + retained ys"
  "retained [Retained p] = {#p#}" "retained [Released p] = {#}" "retained (map Released ps) = {#}"
  by (simp_all add: retained_def comp_def)

lemma released_simps [simp]: "released [] = {#}" "released (xs @ ys) = released xs + released ys"
  "released [Retained p] = {#}" "released [Released p] = {#p#}" "released (map Released ps) = mset ps"
  by (simp_all add: released_def comp_def)

text \<open>Where the sift loops move values they keep them, whatever the comparison says.\<close>

lemma sift_up_keeps:
  "heap_sift_up gt b h v = (b', h') \<Longrightarrow> h < n \<Longrightarrow> n \<le> length b \<Longrightarrow>
     h' < n \<and> length b' = length b \<and> mset (take n (b'[h' := w])) = mset (take n (b[h := w]))"
proof (induction h arbitrary: b rule: less_induct)
  case (less h)
  define p where "p = (h - 1) div 2"
  show ?case
  proof (cases "0 < h \<and> gt (b ! p) v")
    case True
    then have p: "p < h" by (auto simp: p_def)
    have run: "heap_sift_up gt (b[h := b ! p]) p v = (b', h')"
      using less.prems(1) True by (simp add: heap_sift_up.simps [of gt b] p_def Let_def)
    have "mset (take n (b[h := b ! p, p := w])) = mset (take n (b[h := w]))"
      using mset_list_swap [of h "take n (b[h := w])" p] less.prems p by (simp add: list_update_swap [of h p])
    with less.IH [OF p run] less.prems p show ?thesis by (simp del: take_list_update_less)
  next
    case False
    then show ?thesis
      using less.prems by (auto simp: heap_sift_up.simps [of gt b] p_def split: if_splits)
  qed
qed

lemma sift_down_keeps:
  "heap_sift_down gt n b h v = (b', h') \<Longrightarrow> h < n \<Longrightarrow> n \<le> length b \<Longrightarrow>
     h' < n \<and> length b' = length b \<and> mset (take n (b'[h' := w])) = mset (take n (b[h := w]))"
proof (induction "n - h" arbitrary: b h rule: less_induct)
  case less
  define c where "c = (if 2 * h + 1 + 1 < n \<and> gt (b ! (2 * h + 1)) (b ! (2 * h + 1 + 1)) then 2 * h + 1 + 1 else 2 * h + 1)"
  have step: "heap_sift_down gt n b h v = (if 2 * h + 1 < n \<and> \<not> gt (b ! c) v
      then heap_sift_down gt n (b[h := b ! c]) c v else (b, h))"
    by (subst heap_sift_down.simps) (simp add: Let_def c_def)
  show ?case
  proof (cases "2 * h + 1 < n \<and> \<not> gt (b ! c) v")
    case True
    then have c: "c < n" "h < c" by (auto simp: c_def)
    have "mset (take n (b[h := b ! c, c := w])) = mset (take n (b[h := w]))"
      using mset_list_swap [of h "take n (b[h := w])" c] less.prems c by (simp add: list_update_swap [of h c])
    with less.hyps [OF _ _ c(1), of "b[h := b ! c]"] less.prems True c show ?thesis
      by (simp add: step diff_less_mono2 del: take_list_update_less)
  next
    case False
    then show ?thesis using less.prems by (auto simp: step)
  qed
qed

text \<open>The part of the invariant that does not depend on the comparison: there is room for the values.\<close>

definition heap_room :: "CFBinaryHeap \<Rightarrow> bool" where
  "heap_room heap \<longleftrightarrow> hp_variety heap = kCFBinaryHeapMutable
     \<and> int (hp_count heap) \<le> hp_capacity heap \<and> int (length (hp_buckets heap)) = hp_capacity heap"

text \<open>A heap with both callbacks owns one reference to each object it stores.\<close>

definition owns_items :: "CFBinaryHeap \<Rightarrow> bool" where
  "owns_items heap \<longleftrightarrow> heap_room heap \<and> cb_retain (hp_callbacks heap) \<noteq> None \<and> cb_release (hp_callbacks heap)
     \<and> retained (hp_calls heap) = released (hp_calls heap) + heap_items heap"

lemma room_le: "heap_room heap \<Longrightarrow> hp_count heap \<le> length (hp_buckets heap)"
  unfolding heap_room_def by linarith

lemma room_with_room:
  assumes "heap_room heap" "hp_count heap + 1 < 2 ^ 30"
  shows "heap_room (heap_with_room fresh heap)"
    and "int (hp_count heap) < hp_capacity (heap_with_room fresh heap)"
    and "take (hp_count heap) (hp_buckets (heap_with_room fresh heap)) = take (hp_count heap) (hp_buckets heap)"
  using assms RoundUpCapacity_greater [OF assms(2)]
  by (auto simp: heap_room_def heap_with_room_def CFBinaryHeapGrow_def Let_def)

lemma owns_items_add:
  assumes "owns_items heap" "hp_count heap + 1 < 2 ^ 30"
  shows "owns_items (CFBinaryHeapAddValue fresh heap v)
    \<and> hp_count (CFBinaryHeapAddValue fresh heap v) = hp_count heap + 1"
proof -
  let ?r = "heap_with_room fresh heap" and ?n = "hp_count heap"
  have room: "heap_room heap" using assms(1) by (simp add: owns_items_def)
  note r = room_with_room [OF room assms(2), of fresh]
  obtain retain where retain: "cb_retain (hp_callbacks heap) = Some retain"
    using assms(1) by (auto simp: owns_items_def)
  obtain b i where run: "heap_sift_up (heap_gt ?r) (hp_buckets ?r) ?n v = (b, i)" by (metis surj_pair)
  have len: "?n < length (hp_buckets ?r)" using r(1,2) unfolding heap_room_def by linarith
  have b: "i < Suc ?n" "length b = length (hp_buckets ?r)"
    "mset (take (Suc ?n) (b[i := retain v])) = mset (take (Suc ?n) ((hp_buckets ?r)[?n := retain v]))"
    using sift_up_keeps [OF run, of "Suc ?n"] len by (simp_all del: take_list_update_less)
  have "take (Suc ?n) ((hp_buckets ?r)[?n := retain v]) = take ?n (hp_buckets heap) @ [retain v]"
    using len r(3) room_le [OF room] by (simp add: take_Suc_conv_app_nth list_update_append)
  then have items: "mset (take (Suc ?n) (b[i := retain v])) = add_mset (retain v) (heap_items heap)"
    using b(3) by (simp add: heap_items_def)
  have eq: "CFBinaryHeapAddValue fresh heap v = ?r\<lparr>hp_count := ?n + 1, hp_buckets := b[i := retain v],
      hp_calls := hp_calls heap @ [Retained (retain v)]\<rparr>"
    using run retain unfolding CFBinaryHeapAddValue_def heap_with_room_def [symmetric] by (simp add: Let_def)
  show ?thesis
    using assms(1) r(1,2) b(2) items retain
    by (auto simp: eq owns_items_def heap_room_def heap_items_def simp del: take_list_update_less)
qed

lemma owns_items_remove:
  assumes "owns_items heap"
  shows "owns_items (CFBinaryHeapRemoveMinimumValue heap)"
proof (cases "hp_count heap = 0")
  case True
  then show ?thesis using assms by (simp add: CFBinaryHeapRemoveMinimumValue_def)
next
  case False
  define n where "n = hp_count heap - 1"
  let ?b = "hp_buckets heap"
  have room: "heap_room heap" using assms by (simp add: owns_items_def)
  have n: "hp_count heap = Suc n" "n < length ?b" using False room_le [OF room] by (simp_all add: n_def)
  obtain b i where run: "heap_sift_down (heap_gt heap) n ?b 0 (?b ! n) = (b, i)" by (metis surj_pair)
  have eq: "CFBinaryHeapRemoveMinimumValue heap = heap\<lparr>hp_count := n, hp_buckets := b[i := ?b ! n],
      hp_calls := hp_calls heap @ [Released (?b ! 0)]\<rparr>"
    using run n assms by (simp add: CFBinaryHeapRemoveMinimumValue_def Let_def owns_items_def)
  have "length b = length ?b \<and> add_mset (?b ! 0) (mset (take n (b[i := ?b ! n]))) = heap_items heap"
  proof (cases n)
    case 0
    then have "b = ?b" using run by (simp add: heap_sift_down.simps)
    moreover have "take 1 ?b = [?b ! 0]" using n 0 by (cases ?b) auto
    ultimately show ?thesis using 0 n by (simp add: heap_items_def)
  next
    case (Suc k)
    have "mset (take n (b[i := ?b ! n])) = mset (take n (?b[0 := ?b ! n]))" "length b = length ?b"
      using sift_down_keeps [OF run, of "?b ! n"] n Suc by (simp_all del: take_list_update_less)
    moreover obtain c cs where bs: "?b = c # cs" using n by (cases ?b) auto
    moreover have "take (Suc n) ?b = c # take k cs @ [cs ! k]" "take n (?b[0 := ?b ! n]) = cs ! k # take k cs"
      using n Suc bs by (simp_all add: take_Suc_conv_app_nth)
    ultimately show ?thesis using n by (simp add: heap_items_def del: take_list_update_less)
  qed
  then show ?thesis
    using assms room n by (auto simp: eq owns_items_def heap_room_def heap_items_def simp del: take_list_update_less)
qed

lemma hp_count_remove_all: "hp_count (CFBinaryHeapRemoveAllValues heap) = 0"
  by (simp add: CFBinaryHeapRemoveAllValues_def)

lemma owns_items_remove_all:
  "owns_items heap \<Longrightarrow> owns_items (CFBinaryHeapRemoveAllValues heap)"
  by (auto simp: owns_items_def heap_room_def heap_items_def CFBinaryHeapRemoveAllValues_def)

text \<open>The operations that change a heap, in any order.\<close>

datatype heap_op = Add_value ptr | Remove_minimum | Remove_all

fun heap_apply :: "ptr \<Rightarrow> CFBinaryHeap \<Rightarrow> heap_op \<Rightarrow> CFBinaryHeap" where
  "heap_apply fresh heap (Add_value v) = CFBinaryHeapAddValue fresh heap v"
| "heap_apply fresh heap Remove_minimum = CFBinaryHeapRemoveMinimumValue heap"
| "heap_apply fresh heap Remove_all = CFBinaryHeapRemoveAllValues heap"

lemma owns_items_apply:
  assumes "owns_items heap" "hp_count heap + 1 < 2 ^ 30"
  shows "owns_items (heap_apply fresh heap op) \<and> hp_count (heap_apply fresh heap op) \<le> hp_count heap + 1"
  using assms by (cases op) (simp_all add: owns_items_add owns_items_remove owns_items_remove_all hp_count_remove_all)

lemma owns_items_ops:
  "owns_items heap \<Longrightarrow> hp_count heap + length ops < 2 ^ 30 \<Longrightarrow>
     owns_items (foldl (heap_apply fresh) heap ops)
     \<and> hp_count (foldl (heap_apply fresh) heap ops) \<le> hp_count heap + length ops"
proof (induction ops arbitrary: heap)
  case (Cons op ops)
  have "owns_items (heap_apply fresh heap op)" "hp_count (heap_apply fresh heap op) \<le> hp_count heap + 1"
    using owns_items_apply [OF Cons.prems(1), of fresh op] Cons.prems(2) by simp_all
  then show ?case using Cons.IH [of "heap_apply fresh heap op"] Cons.prems(2) by simp
qed simp

lemma owns_items_init:
  assumes "cb_retain cb \<noteq> None" "cb_release cb" "length vs < 2 ^ 30"
  shows "owns_items (CFBinaryHeapInit fresh kCFBinaryHeapMutable vs (Some cb) info)
    \<and> hp_count (CFBinaryHeapInit fresh kCFBinaryHeapMutable vs (Some cb) info) \<le> length vs"
proof -
  let ?blank = "heap_blank fresh cb info"
  have blank: "owns_items ?blank" "hp_count ?blank = 0"
    using assms(1,2) heap_blank_facts [of fresh cb info] size_heap_items [of ?blank]
    by (auto simp: owns_items_def heap_room_def heap_wf_def same_context_def)
  have "foldl (CFBinaryHeapAddValue fresh) ?blank vs = foldl (heap_apply fresh) ?blank (map Add_value vs)"
    by (simp add: foldl_map)
  then have filled: "owns_items (foldl (CFBinaryHeapAddValue fresh) ?blank vs)"
    "hp_count (foldl (CFBinaryHeapAddValue fresh) ?blank vs) \<le> length vs"
    using owns_items_ops [OF blank(1), of "map Add_value vs" fresh] blank(2) assms(3) by simp_all
  then have "hp_variety (foldl (CFBinaryHeapAddValue fresh) ?blank vs) = kCFBinaryHeapMutable"
    by (simp add: owns_items_def heap_room_def)
  then have "CFBinaryHeapInit fresh kCFBinaryHeapMutable vs (Some cb) info
      = foldl (CFBinaryHeapAddValue fresh) ?blank vs"
    by (simp add: CFBinaryHeapInit_def heap_blank_def kCFBinaryHeapMutable_def Let_def)
  then show ?thesis using filled by simp
qed

section \<open>Properties\<close>

text \<open>A context for the witnesses: objects are compared by their low bit, retain and release
  are given.\<close>

definition parity_callbacks :: CFBinaryHeapCallBacks where
  "parity_callbacks = \<lparr>cb_retain = Some (\<lambda>p. p), cb_release = True,
     cb_compare = Some (Fn 1 (\<lambda>a b info. if a AND 1 < b AND 1 then kCFCompareLessThan
        else if a AND 1 = b AND 1 then kCFCompareEqualTo else kCFCompareGreaterThan))\<rparr>"

lemma context_gt_parity: "context_gt parity_callbacks info a b \<longleftrightarrow> b AND 1 < a AND 1"
  by (auto simp: context_gt_def parity_callbacks_def)

lemma gt_order_parity: "gt_order (context_gt parity_callbacks info)"
  by (rule gt_order.intro) (auto simp: context_gt_parity)

lemma retain_ok_parity: "retain_ok parity_callbacks"
  by (simp add: retain_ok_def parity_callbacks_def)

interpretation parity_heap: heap_context parity_callbacks info fresh for info fresh :: ptr
  by (rule heap_context.intro) (simp_all add: gt_order_parity retain_ok_parity)

text \<open>C28. Adding a value keeps the heap invariant (order, capacity, callbacks) and adds exactly
  that value to the contents, while the new count is below 2 to the 30, up to which the 32-bit shift
  of \<open>__CFBinaryHeapRoundUpCapacity\<close> gives a capacity.\<close>

theorem heap_add_value:
  assumes "heap_wf heap" "gt_order (heap_gt heap)" "retain_ok (hp_callbacks heap)"
    "hp_count heap + 1 < 2 ^ 30"
  shows "heap_wf (CFBinaryHeapAddValue fresh heap v)
    \<and> heap_items (CFBinaryHeapAddValue fresh heap v) = add_mset v (heap_items heap)
    \<and> hp_count (CFBinaryHeapAddValue fresh heap v) = hp_count heap + 1"
  using AddValue_wf [OF assms] size_heap_items [of heap] size_heap_items [of "CFBinaryHeapAddValue fresh heap v"]
    assms(1) by simp

theorem heap_add_value_witness:
  "heap_items (CFBinaryHeapAddValue 0 (heap_blank 0 parity_callbacks 0) 7) = {#7#}"
  using heap_add_value [of "heap_blank 0 parity_callbacks 0" 0 7] heap_blank_facts [of 0 parity_callbacks 0]
    heap_blank_count gt_order_parity [of 0] retain_ok_parity
  by (simp add: heap_gt_context same_context_def)

text \<open>C4. Removing the minimum of a nonempty heap keeps the invariant and removes exactly the
  element that \<open>CFBinaryHeapGetMinimum\<close> returns, which no stored element precedes.\<close>

theorem heap_remove_minimum:
  assumes "heap_wf heap" "gt_order (heap_gt heap)" "hp_count heap \<noteq> 0"
  shows "heap_wf (CFBinaryHeapRemoveMinimumValue heap)
    \<and> add_mset (CFBinaryHeapGetMinimum heap) (heap_items (CFBinaryHeapRemoveMinimumValue heap)) = heap_items heap
    \<and> (\<forall>v \<in># heap_items heap. \<not> heap_gt heap (CFBinaryHeapGetMinimum heap) v)"
  using RemoveMinimumValue_wf [OF assms(1,2)] GetMinimum_least [OF assms(1,2)]
    heap_items_empty [OF assms(1)] assms(3) by auto

theorem heap_remove_minimum_witness:
  "heap_items (CFBinaryHeapRemoveMinimumValue (CFBinaryHeapAddValue 0 (heap_blank 0 plain_callbacks 0) 7)) = {#}"
proof -
  let ?h = "CFBinaryHeapAddValue 0 (heap_blank 0 plain_callbacks 0) 7"
  have h: "heap_wf ?h" "heap_items ?h = {#7#}" "gt_order (heap_gt ?h)"
    using AddValue_wf [of "heap_blank 0 plain_callbacks 0" 0 7] heap_blank_facts [of 0 plain_callbacks 0]
      heap_blank_count gt_order_plain [of 0] retain_ok_plain
    by (simp_all add: heap_gt_context same_context_def)
  then have "hp_count ?h \<noteq> 0" using heap_items_empty [OF h(1)] by simp
  from heap_remove_minimum [OF h(1,3) this] h(2) show ?thesis by (auto simp: add_mset_eq_single)
qed

text \<open>\<open>CFBinaryHeapGetValues\<close> lists the contents of the heap, each element as often as
  it is stored, in the order of the comparison callback.\<close>

theorem heap_get_values:
  assumes "heap_wf heap" "gt_order (heap_gt heap)" "retain_ok (hp_callbacks heap)" "hp_count heap < 2 ^ 30"
  shows "mset (CFBinaryHeapGetValues fresh heap) = heap_items heap
    \<and> sorted_wrt (\<lambda>x y. \<not> heap_gt heap x y) (CFBinaryHeapGetValues fresh heap)"
proof -
  have "heap_context (hp_callbacks heap) (hp_info heap)"
    using assms(2,3) by (simp add: heap_gt_context heap_context_def)
  from heap_context.GetValues_drain [OF this assms(1), of fresh] assms(4) show ?thesis
    by (simp add: heap_gt_context same_context_def heap_bound_def)
qed

theorem heap_get_values_witness:
  "mset (CFBinaryHeapGetValues 0 (CFBinaryHeapAddValue 0 (heap_blank 0 parity_callbacks 0) 7)) = {#7#}"
proof -
  let ?h = "CFBinaryHeapAddValue 0 (heap_blank 0 parity_callbacks 0) 7"
  have h: "heap_wf ?h" "heap_items ?h = {#7#}" "gt_order (heap_gt ?h)" "retain_ok (hp_callbacks ?h)"
    using AddValue_wf [of "heap_blank 0 parity_callbacks 0" 0 7] heap_blank_facts [of 0 parity_callbacks 0]
      heap_blank_count gt_order_parity [of 0] retain_ok_parity
    by (simp_all add: heap_gt_context same_context_def)
  then have "hp_count ?h < 2 ^ 30" using size_heap_items [OF h(1)] by simp
  from heap_get_values [OF h(1,3,4) this] h(2) show ?thesis by simp
qed

text \<open>C31. A heap created with a retain and a release callback balances them, whatever the callbacks
  and the comparison do: after any values given at creation and any sequence of additions, removals of
  the minimum and removals of all values, what has been retained and not yet released is exactly what
  the heap stores, and once it is deallocated every retained object has been released exactly as often
  as it was retained. Fewer than 2 to the 30 values are added.\<close>

theorem heap_retain_release_balance:
  assumes "cb_retain cb \<noteq> None" "cb_release cb" "length vs + length ops < 2 ^ 30"
  shows "let heap = foldl (heap_apply fresh) (CFBinaryHeapInit fresh kCFBinaryHeapMutable vs (Some cb) info) ops
    in retained (hp_calls heap) = released (hp_calls heap) + heap_items heap
       \<and> retained (CFBinaryHeapDeallocate heap) = released (CFBinaryHeapDeallocate heap)"
proof -
  let ?init = "CFBinaryHeapInit fresh kCFBinaryHeapMutable vs (Some cb) info"
  have "owns_items ?init" "hp_count ?init + length ops < 2 ^ 30"
    using owns_items_init [OF assms(1,2), of vs fresh info] assms(3) by simp_all
  then have "owns_items (foldl (heap_apply fresh) ?init ops)" using owns_items_ops by blast
  then show ?thesis
    by (simp add: Let_def owns_items_def CFBinaryHeapDeallocate_def CFBinaryHeapRemoveAllValues_def heap_items_def)
qed

theorem heap_retain_release_balance_witness:
  "let heap = foldl (heap_apply 0) (CFBinaryHeapInit 0 kCFBinaryHeapMutable [3, 2] (Some parity_callbacks) 0)
      [Remove_minimum, Add_value 9, Remove_all, Add_value 4]
   in retained (CFBinaryHeapDeallocate heap) = released (CFBinaryHeapDeallocate heap)"
proof -
  have h: "cb_retain parity_callbacks \<noteq> None" "cb_release parity_callbacks"
    "length [3, 2 :: ptr] + length [Remove_minimum, Add_value 9, Remove_all, Add_value 4] < 2 ^ 30"
    by (simp_all add: parity_callbacks_def)
  show ?thesis
    using heap_retain_release_balance [OF h, where fresh = 0 and info = 0] unfolding Let_def by blast
qed

lemma GetValues_singleton:
  assumes "gt_order (context_gt cb info)" "retain_ok cb"
  shows "CFBinaryHeapGetValues fresh (CFBinaryHeapAddValue fresh (heap_blank fresh cb info) p) = [p]"
    and "hp_count (CFBinaryHeapAddValue fresh (heap_blank fresh cb info) p) = 1"
    and "hp_callbacks (CFBinaryHeapAddValue fresh (heap_blank fresh cb info) p) = cb"
    and "hp_info (CFBinaryHeapAddValue fresh (heap_blank fresh cb info) p) = info"
proof -
  let ?e = "heap_blank fresh cb info"
  let ?h = "CFBinaryHeapAddValue fresh ?e p"
  have e: "heap_wf ?e" "heap_items ?e = {#}" "gt_order (heap_gt ?e)" "retain_ok (hp_callbacks ?e)"
    "hp_callbacks ?e = cb" "hp_info ?e = info"
    using heap_blank_facts [of fresh cb info] assms by (simp_all add: heap_gt_context same_context_def)
  have small: "hp_count ?e + 1 < 2 ^ 30" by simp
  note h = AddValue_wf [OF e(1,3,4) small, of fresh p]
  show cb: "hp_callbacks ?h = cb" and info: "hp_info ?h = info" using h e by simp_all
  have items: "heap_items ?h = {#p#}" using h(2) e(2) by simp
  show count: "hp_count ?h = 1" using size_heap_items [OF h(1)] items by simp
  have "heap_context cb info" using assms by (rule heap_context.intro)
  from heap_context.GetValues_drain(1) [OF this h(1), of fresh] cb info items count
  show "CFBinaryHeapGetValues fresh ?h = [p]" by (simp add: same_context_def heap_bound_def)
qed

text \<open>\<open>__CFBinaryHeapEqual\<close> reads the comparison the wrong way round: two heaps that hold
  one object each, at different addresses, are reported equal exactly when the callback says
  that the objects differ.\<close>

theorem heap_equal_inverted:
  assumes "gt_order (context_gt cb info)" "retain_ok cb" "cb_compare cb = Some f" "p \<noteq> q"
  shows "CFBinaryHeapEqual fresh (CFBinaryHeapAddValue fresh (heap_blank fresh cb info) p)
           (CFBinaryHeapAddValue fresh (heap_blank fresh cb info) q)
     \<longleftrightarrow> fn_code f p q info \<noteq> kCFCompareEqualTo"
  using GetValues_singleton [OF assms(1,2), of fresh] assms(3,4)
  by (simp add: CFBinaryHeapEqual_def Let_def)

theorem heap_equal_inverted_witness:
  "\<not> CFBinaryHeapEqual 0 (CFBinaryHeapAddValue 0 (heap_blank 0 parity_callbacks 0) 2)
        (CFBinaryHeapAddValue 0 (heap_blank 0 parity_callbacks 0) 4)
   \<and> CFBinaryHeapEqual 0 (CFBinaryHeapAddValue 0 (heap_blank 0 parity_callbacks 0) 2)
        (CFBinaryHeapAddValue 0 (heap_blank 0 parity_callbacks 0) 5)"
proof -
  define f where "f = (\<lambda>a b (info :: ptr). if (a :: ptr) AND 1 < b AND 1 then kCFCompareLessThan
        else if a AND 1 = b AND 1 then kCFCompareEqualTo else kCFCompareGreaterThan)"
  have "cb_compare parity_callbacks = Some (Fn 1 f)"
    by (simp add: parity_callbacks_def f_def)
  note eq = heap_equal_inverted [OF gt_order_parity [of 0] retain_ok_parity this]
  have "f 2 4 0 = kCFCompareEqualTo" "f 2 5 0 \<noteq> kCFCompareEqualTo" by (simp_all add: f_def)
  with eq [of 2 4 0] eq [of 2 5 0] show ?thesis by simp
qed

end
