(* ===== verification/SortFunctions.thy ===== *)
theory SortFunctions
  imports Prelude
begin

text \<open>
  CFSortFunctions.c: the merge sort behind \<open>CFSortIndexes\<close>, \<open>CFQSortArray\<close> and
  \<open>CFMergeSortArray\<close>.

  The array argument \<open>listp + base\<close> of the C code is the array and an offset into it, and
  every function returns the arrays it writes. \<open>stable_merge\<close> and
  \<open>stable_sort_of\<close> are the reference: the lemmas show that the in-place merge computes the
  stable merge of two sorted runs whatever the arrays hold around them, and that the sort
  functions return the stable sort.
\<close>

section \<open>The merge\<close>

text \<open>\<open>while (idx--) listp[idx] = tmp[idx];\<close>\<close>

fun merge_copy_back :: "nat \<Rightarrow> 'a list \<Rightarrow> nat \<Rightarrow> 'a list \<Rightarrow> 'a list" where
  "merge_copy_back base listp 0 tmp = listp"
| "merge_copy_back base listp (Suc idx) tmp =
     merge_copy_back base (listp[base + idx := tmp ! idx]) idx tmp"

text \<open>\<open>for (t = cnt1 + cnt2 - 1; idx <= t; t--) listp[t] = listp[t - cnt2];\<close> where
  \<open>t1\<close> is \<open>t + 1\<close>.\<close>

fun merge_shift_tail :: "nat \<Rightarrow> nat \<Rightarrow> nat \<Rightarrow> 'a list \<Rightarrow> nat \<Rightarrow> 'a list" where
  "merge_shift_tail base cnt2 idx listp 0 = listp"
| "merge_shift_tail base cnt2 idx listp (Suc t) =
     (if idx \<le> t then merge_shift_tail base cnt2 idx (listp[base + t := listp ! (base + t - cnt2)]) t
      else listp)"

function merge_loop :: "('a \<Rightarrow> 'a \<Rightarrow> CFComparisonResult) \<Rightarrow> nat \<Rightarrow> nat \<Rightarrow> nat \<Rightarrow> 'a list \<Rightarrow> 'a list
    \<Rightarrow> nat \<Rightarrow> nat \<Rightarrow> nat \<Rightarrow> 'a list \<times> 'a list" where
  "merge_loop cmp base cnt1 cnt2 listp tmp idx idx1 idx2 =
     (if cnt1 \<le> idx1 then (merge_copy_back base listp idx tmp, tmp)
      else if cnt1 + cnt2 \<le> idx2
      then (merge_copy_back base (merge_shift_tail base cnt2 idx listp (cnt1 + cnt2)) idx tmp, tmp)
      else (let v1 = listp ! (base + idx1); v2 = listp ! (base + idx2)
            in if cmp v1 v2 \<le> kCFCompareEqualTo
               then merge_loop cmp base cnt1 cnt2 listp (tmp[idx := v1]) (idx + 1) (idx1 + 1) idx2
               else merge_loop cmp base cnt1 cnt2 listp (tmp[idx := v2]) (idx + 1) idx1 (idx2 + 1)))"
  by pat_completeness auto
termination
  by (relation "measure (\<lambda>(cmp, base, cnt1, cnt2, listp, tmp, idx, idx1, idx2).
        (cnt1 - idx1) + (cnt1 + cnt2 - idx2))") auto

declare merge_loop.simps [simp del]

definition CFSimpleMerge :: "('a \<Rightarrow> 'a \<Rightarrow> CFComparisonResult) \<Rightarrow> nat \<Rightarrow> nat \<Rightarrow> nat \<Rightarrow> 'a list \<times> 'a list
    \<Rightarrow> 'a list \<times> 'a list" where
  "CFSimpleMerge cmp base cnt1 cnt2 = (\<lambda>(listp, tmp).
     if cnt1 \<le> 0 \<or> cnt2 \<le> 0 then (listp, tmp)
     else if 16 < cnt1 + cnt2
        \<and> cmp (listp ! (base + cnt1 - 1)) (listp ! (base + cnt1)) \<le> kCFCompareEqualTo
     then (listp, tmp)
     else merge_loop cmp base cnt1 cnt2 listp tmp 0 0 cnt1)"

function CFSimpleMergeSort :: "('a \<Rightarrow> 'a \<Rightarrow> CFComparisonResult) \<Rightarrow> nat \<Rightarrow> nat \<Rightarrow> 'a list \<times> 'a list
    \<Rightarrow> 'a list \<times> 'a list" where
  "CFSimpleMergeSort cmp base cnt (listp, tmp) =
     (if cnt < 2 then (listp, tmp)
      else if cnt = 2 then
        (let v0 = listp ! base; v1 = listp ! (base + 1)
         in if kCFCompareEqualTo < cmp v0 v1
            then (listp[base := v1, base + 1 := v0], tmp) else (listp, tmp))
      else if cnt = 3 then
        (let v0 = listp ! base; v1 = listp ! (base + 1); v2 = listp ! (base + 2);
             (v0, v1) = (if kCFCompareEqualTo < cmp v0 v1 then (v1, v0) else (v0, v1));
             (v0, v1, v2) = (if kCFCompareEqualTo < cmp v1 v2
                then (let vt = v1; v1 = v2; v2 = vt
                      in if kCFCompareEqualTo < cmp v0 v1 then (v1, v0, v2) else (v0, v1, v2))
                else (v0, v1, v2))
         in (listp[base := v0, base + 1 := v1, base + 2 := v2], tmp))
      else
        (let half_cnt = cnt div 2;
             s1 = CFSimpleMergeSort cmp base half_cnt (listp, tmp);
             s2 = CFSimpleMergeSort cmp (base + half_cnt) (cnt - half_cnt) s1
         in CFSimpleMerge cmp base half_cnt (cnt - half_cnt) s2))"
  by pat_completeness auto
termination
  by (relation "measure (\<lambda>(cmp, base, cnt, s). cnt)") auto

declare CFSimpleMergeSort.simps [simp del]

section \<open>Sorting indexes and arrays\<close>

text \<open>\<open>for (; idx < lim; idx++) indexBuffer[idx] = idx;\<close>\<close>

function fill_indexes :: "nat list \<Rightarrow> nat \<Rightarrow> nat \<Rightarrow> nat list" where
  "fill_indexes indexBuffer idx lim =
     (if idx < lim then fill_indexes (indexBuffer[idx := idx]) (Suc idx) lim else indexBuffer)"
  by pat_completeness auto
termination
  by (relation "measure (\<lambda>(indexBuffer, idx, lim). lim - idx)") auto

declare fill_indexes.simps [simp del]

text \<open>Above 65536 elements \<open>dispatch_apply\<close> fills eight disjoint chunks.\<close>

definition fill_index_buffer :: "nat list \<Rightarrow> nat \<Rightarrow> nat list" where
  "fill_index_buffer indexBuffer cnt =
     (if cnt \<le> 65536 then fill_indexes indexBuffer 0 cnt
      else (let sz = (((cnt + 15) div 16) * 16) div 8
            in foldl (\<lambda>buf n. fill_indexes buf (n * sz) (min (n * sz + sz) cnt))
                 indexBuffer [0..<8]))"

text \<open>\<open>CFSortIndexes\<close> without \<open>kCFSortConcurrent\<close>, the way both array sorts call it. The
  buffer is given by its old contents and \<open>tmp\<close> is the scratch array, allocated with
  \<open>cnt\<close> elements of unspecified contents.\<close>

definition CFSortIndexes :: "nat list \<Rightarrow> nat list \<Rightarrow> nat \<Rightarrow> (nat \<Rightarrow> nat \<Rightarrow> CFComparisonResult) \<Rightarrow> nat list" where
  "CFSortIndexes indexBuffer tmp cnt cmp =
     (if cnt < 1 then indexBuffer
      else if (2 ^ 63 - 1) div 8 < cnt then indexBuffer
      else fst (CFSimpleMergeSort cmp 0 cnt (fill_index_buffer indexBuffer cnt, tmp)))"

text \<open>\<open>CFQSortArray\<close> and \<open>CFMergeSortArray\<close> have the same body. The array is a list
  of \<open>cnt\<close> elements of \<open>elementSize\<close> bytes each; \<open>garbage\<close> is the contents of the
  two index arrays before they are written.\<close>

definition CFQSortArray :: "nat list \<Rightarrow> nat list \<Rightarrow> 'a list \<Rightarrow> nat \<Rightarrow> ('a \<Rightarrow> 'a \<Rightarrow> 'c \<Rightarrow> CFComparisonResult)
    \<Rightarrow> 'c \<Rightarrow> 'a list" where
  "CFQSortArray garbage tmp list elementSize compare context =
     (if length list < 2 \<or> elementSize < 1 then list
      else (let indexes = CFSortIndexes garbage tmp (length list)
                  (\<lambda>a b. compare (list ! a) (list ! b) context)
            in map (\<lambda>idx. list ! (indexes ! idx)) [0..<length list]))"

definition CFMergeSortArray :: "nat list \<Rightarrow> nat list \<Rightarrow> 'a list \<Rightarrow> nat
    \<Rightarrow> ('a \<Rightarrow> 'a \<Rightarrow> 'c \<Rightarrow> CFComparisonResult) \<Rightarrow> 'c \<Rightarrow> 'a list" where
  "CFMergeSortArray garbage tmp list elementSize compare context =
     (if length list < 2 \<or> elementSize < 1 then list
      else (let indexes = CFSortIndexes garbage tmp (length list)
                  (\<lambda>a b. compare (list ! a) (list ! b) context)
            in map (\<lambda>idx. list ! (indexes ! idx)) [0..<length list]))"

section \<open>The parallel merge step\<close>

text \<open>The two loops of \<open>__CFSortIndexesNMerge\<close>. The pointers become indexes; \<open>tmp\<close> is
  the block built so far. To the left it takes the \<open>cnt1\<close> smallest elements from the front,
  to the right the \<open>cnt2\<close> largest from the end.\<close>

fun nmerge_left :: "('a \<Rightarrow> 'a \<Rightarrow> CFComparisonResult) \<Rightarrow> 'a list \<Rightarrow> 'a list \<Rightarrow> nat \<Rightarrow> nat \<Rightarrow> nat \<Rightarrow> 'a list" where
  "nmerge_left cmp listp1 listp2 i1 i2 0 = []"
| "nmerge_left cmp listp1 listp2 i1 i2 (Suc n) =
     (if length listp2 \<le> i2 then listp1 ! i1 # nmerge_left cmp listp1 listp2 (i1 + 1) i2 n
      else if length listp1 \<le> i1 then listp2 ! i2 # nmerge_left cmp listp1 listp2 i1 (i2 + 1) n
      else if cmp (listp1 ! i1) (listp2 ! i2) \<le> kCFCompareEqualTo
      then listp1 ! i1 # nmerge_left cmp listp1 listp2 (i1 + 1) i2 n
      else listp2 ! i2 # nmerge_left cmp listp1 listp2 i1 (i2 + 1) n)"

fun nmerge_right :: "('a \<Rightarrow> 'a \<Rightarrow> CFComparisonResult) \<Rightarrow> 'a list \<Rightarrow> 'a list \<Rightarrow> int \<Rightarrow> int \<Rightarrow> nat
    \<Rightarrow> 'a list \<Rightarrow> 'a list" where
  "nmerge_right cmp listp1 listp2 i1 i2 0 tmp = tmp"
| "nmerge_right cmp listp1 listp2 i1 i2 (Suc n) tmp =
     (if i2 < 0 then nmerge_right cmp listp1 listp2 (i1 - 1) i2 n (listp1 ! nat (i1 - 1) # tmp)
      else if i1 < 0 then nmerge_right cmp listp1 listp2 i1 (i2 - 1) n (listp2 ! nat (i2 - 1) # tmp)
      else if cmp (listp1 ! nat i1) (listp2 ! nat i2) \<le> kCFCompareEqualTo
      then nmerge_right cmp listp1 listp2 i1 (i2 - 1) n (listp2 ! nat i2 # tmp)
      else nmerge_right cmp listp1 listp2 (i1 - 1) i2 n (listp1 ! nat i1 # tmp))"

definition CFSortIndexesNMerge :: "('a \<Rightarrow> 'a \<Rightarrow> CFComparisonResult) \<Rightarrow> 'a list \<Rightarrow> 'a list \<Rightarrow> bool \<Rightarrow> 'a list" where
  "CFSortIndexesNMerge cmp listp1 listp2 right =
     (let cnt1 = length listp1; cnt2 = length listp2
      in if 16 < cnt1 + cnt2 \<and> cmp (listp1 ! (cnt1 - 1)) (listp2 ! 0) \<le> kCFCompareEqualTo
         then (if right then listp2 else listp1)
         else if right then nmerge_right cmp listp1 listp2 (int cnt1 - 1) (int cnt2 - 1) cnt2 []
         else nmerge_left cmp listp1 listp2 0 0 cnt1)"

section \<open>Reference definitions\<close>

fun stable_merge :: "('a \<Rightarrow> 'a \<Rightarrow> CFComparisonResult) \<Rightarrow> 'a list \<Rightarrow> 'a list \<Rightarrow> 'a list" where
  "stable_merge cmp [] ys = ys"
| "stable_merge cmp (x # xs) [] = x # xs"
| "stable_merge cmp (x # xs) (y # ys) =
     (if cmp x y \<noteq> kCFCompareGreaterThan then x # stable_merge cmp xs (y # ys)
      else y # stable_merge cmp (x # xs) ys)"

definition ordered_by :: "('a \<Rightarrow> 'a \<Rightarrow> CFComparisonResult) \<Rightarrow> 'a list \<Rightarrow> bool" where
  "ordered_by cmp xs \<longleftrightarrow> sorted_wrt (\<lambda>x y. cmp x y \<noteq> kCFCompareGreaterThan) xs"

text \<open>The elements that compare equal to \<open>v\<close>, in their order in the list.\<close>

definition same_class :: "('a \<Rightarrow> 'a \<Rightarrow> CFComparisonResult) \<Rightarrow> 'a \<Rightarrow> 'a list \<Rightarrow> 'a list" where
  "same_class cmp v xs = filter (\<lambda>x. cmp x v = kCFCompareEqualTo) xs"

definition stable_sort_of :: "('a \<Rightarrow> 'a \<Rightarrow> CFComparisonResult) \<Rightarrow> 'a list \<Rightarrow> 'a list \<Rightarrow> bool" where
  "stable_sort_of cmp xs ys \<longleftrightarrow> mset ys = mset xs \<and> ordered_by cmp ys
     \<and> (\<forall>v. same_class cmp v ys = same_class cmp v xs)"

lemma mset_stable_merge [simp]: "mset (stable_merge cmp xs ys) = mset xs + mset ys"
  by (induction cmp xs ys rule: stable_merge.induct) auto

lemma set_stable_merge [simp]: "set (stable_merge cmp xs ys) = set xs \<union> set ys"
  by (metis mset_stable_merge set_mset_mset set_mset_union)

lemma length_stable_merge [simp]: "length (stable_merge cmp xs ys) = length xs + length ys"
  by (metis mset_stable_merge size_mset size_union)

lemma stable_merge_Nil2 [simp]: "stable_merge cmp xs [] = xs"
  by (cases xs) auto

section \<open>The in-place merge is the stable merge\<close>

lemma merge_copy_back_eq:
  "idx \<le> length zs \<Longrightarrow> idx \<le> length tmp \<Longrightarrow>
     merge_copy_back (length pre) (pre @ zs @ post) idx tmp = pre @ (take idx tmp @ drop idx zs) @ post"
proof (induction idx arbitrary: zs)
  case 0 then show ?case by simp
next
  case (Suc idx)
  have "(pre @ zs @ post)[length pre + idx := tmp ! idx] = pre @ zs[idx := tmp ! idx] @ post"
    using Suc.prems by (simp add: list_update_append)
  moreover have "drop idx (zs[idx := tmp ! idx]) = tmp ! idx # drop (Suc idx) zs"
    using Suc.prems by (metis Cons_nth_drop_Suc Suc_le_eq drop_update_cancel length_list_update lessI nth_list_update_eq)
  ultimately show ?case
    using Suc by (simp add: take_Suc_conv_app_nth)
qed

lemma length_merge_shift_tail [simp]:
  "length (merge_shift_tail base cnt2 idx listp t) = length listp"
  by (induction t arbitrary: listp) auto

lemma merge_shift_tail_nth:
  "base + t \<le> length listp \<Longrightarrow> cnt2 \<le> idx \<Longrightarrow> k < length listp \<Longrightarrow>
     merge_shift_tail base cnt2 idx listp t ! k =
       (if base + idx \<le> k \<and> k < base + t then listp ! (k - cnt2) else listp ! k)"
  by (induction t arbitrary: listp) (auto simp: nth_list_update less_Suc_eq)

lemma merge_shift_tail_eq:
  assumes "length xs1 + length ys = idx"
  shows "\<exists>zs. length zs = idx \<and> merge_shift_tail (length pre) (length ys) idx
      (pre @ (xs1 @ xs2) @ ys @ post) (length xs1 + length xs2 + length ys)
    = pre @ (zs @ xs2) @ post"
proof -
  let ?l = "pre @ (xs1 @ xs2) @ ys @ post"
  let ?r = "merge_shift_tail (length pre) (length ys) idx ?l (length xs1 + length xs2 + length ys)"
  define zs where "zs = take idx (drop (length pre) ?l)"
  have zs: "length zs = idx" using assms by (simp add: zs_def)
  have "?r = pre @ (zs @ xs2) @ post"
  proof (rule nth_equalityI)
    show "length ?r = length (pre @ (zs @ xs2) @ post)" using zs assms by simp
    fix k assume k: "k < length ?r"
    let ?t = "length xs1 + length xs2 + length ys"
    have r: "?r ! k = (if length pre + idx \<le> k \<and> k < length pre + ?t
        then ?l ! (k - length ys) else ?l ! k)"
      using k assms by (subst merge_shift_tail_nth) auto
    consider "k < length pre" | "length pre \<le> k" "k < length pre + idx"
      | "length pre + idx \<le> k" "k < length pre + ?t" | "length pre + ?t \<le> k" by linarith
    then show "?r ! k = (pre @ (zs @ xs2) @ post) ! k"
    proof cases
      case 1 then show ?thesis using r by (simp add: nth_append)
    next
      case 2
      then have "(pre @ (zs @ xs2) @ post) ! k = zs ! (k - length pre)"
        using zs by (auto simp: nth_append)
      also have "\<dots> = ?l ! k" using 2 by (simp add: zs_def del: drop_append take_append append_assoc)
      finally show ?thesis using r 2 by simp
    next
      case 3
      define j where "j = k - (length pre + length xs1 + length ys)"
      have j: "k = length pre + length xs1 + length ys + j" "j < length xs2"
        using 3 assms by (auto simp: j_def)
      from j have "k - length ys = length pre + (length xs1 + j)" by simp
      then have "?l ! (k - length ys) = xs2 ! j"
        using j by (simp only: nth_append_length_plus append_assoc) (simp add: nth_append)
      moreover have "k = length pre + (length zs + j)" using j zs assms by simp
      then have "(pre @ (zs @ xs2) @ post) ! k = xs2 ! j"
        using j by (simp only: nth_append_length_plus append_assoc) (simp add: nth_append)
      ultimately show ?thesis using r 3 by simp
    next
      case 4
      define j where "j = k - (length pre + length zs + length xs2)"
      have j: "k = length pre + (length zs + (length xs2 + j))"
        using 4 zs assms by (simp add: j_def)
      from j have "k = length pre + (length xs1 + (length xs2 + (length ys + j)))"
        using zs assms by simp
      then have "?l ! k = post ! j" by (simp only: nth_append_length_plus append_assoc)
      moreover have "(pre @ (zs @ xs2) @ post) ! k = post ! j"
        using j by (simp only: nth_append_length_plus append_assoc)
      ultimately show ?thesis using r 4 by simp
    qed
  qed
  with zs show ?thesis by blast
qed

lemma merge_loop_eq:
  "listp = pre @ (xs @ ys) @ post \<Longrightarrow> base = length pre \<Longrightarrow> cnt1 = length xs \<Longrightarrow> cnt2 = length ys \<Longrightarrow>
   idx1 \<le> cnt1 \<Longrightarrow> cnt1 \<le> idx2 \<Longrightarrow> idx2 \<le> cnt1 + cnt2 \<Longrightarrow> idx = idx1 + (idx2 - cnt1) \<Longrightarrow>
   cnt1 + cnt2 \<le> length tmp \<Longrightarrow>
   \<exists>tmp'. length tmp' = length tmp \<and> merge_loop cmp base cnt1 cnt2 listp tmp idx idx1 idx2 =
     (pre @ (take idx tmp @ stable_merge cmp (drop idx1 xs) (drop (idx2 - cnt1) ys)) @ post, tmp')"
proof (induction cmp base cnt1 cnt2 listp tmp idx idx1 idx2 rule: merge_loop.induct)
  case (1 cmp base cnt1 cnt2 listp tmp idx idx1 idx2)
  note prems = "1.prems"
  consider (left) "cnt1 \<le> idx1" | (right) "idx1 < cnt1" "cnt1 + cnt2 \<le> idx2"
    | (both) "idx1 < cnt1" "idx2 < cnt1 + cnt2" by linarith
  then show ?case
  proof cases
    case left
    then have "merge_copy_back base listp idx tmp = pre @ (take idx tmp @ drop idx (xs @ ys)) @ post"
      using prems by (simp only:) (rule merge_copy_back_eq; simp)
    with left prems show ?thesis by (subst merge_loop.simps) simp
  next
    case right
    obtain zs where zs: "length zs = idx"
      "merge_shift_tail base cnt2 idx listp (cnt1 + cnt2) = pre @ (zs @ drop idx1 xs) @ post"
      using merge_shift_tail_eq [of "take idx1 xs" ys idx pre "drop idx1 xs" post] prems right by auto
    have "merge_copy_back base (pre @ (zs @ drop idx1 xs) @ post) idx tmp
        = pre @ (take idx tmp @ drop idx (zs @ drop idx1 xs)) @ post"
      using prems zs right by (simp only:) (rule merge_copy_back_eq; simp)
    with right prems zs show ?thesis by (subst merge_loop.simps) simp
  next
    case both
    have x: "listp ! (base + idx1) = xs ! idx1" "drop idx1 xs = xs ! idx1 # drop (idx1 + 1) xs"
      using both prems by (simp_all add: nth_append Cons_nth_drop_Suc)
    have y: "listp ! (base + idx2) = ys ! (idx2 - cnt1)"
      "drop (idx2 - cnt1) ys = ys ! (idx2 - cnt1) # drop (idx2 + 1 - cnt1) ys"
      using both prems less_diff_conv2 [of cnt1 idx2 "length ys"]
      by (simp_all add: nth_append Cons_nth_drop_Suc Suc_diff_le add.commute)
    have snoc: "(take (Suc idx) tmp)[idx := v] = take idx tmp @ [v]" for v
      using both prems take_Suc_list_update [of idx tmp v] by simp
    show ?thesis
    proof (cases "cmp (xs ! idx1) (ys ! (idx2 - cnt1)) = kCFCompareGreaterThan")
      case False
      from "1.IH"(1) [OF _ _ refl refl] prems both False x(1) y(1)
      obtain tmp' where "length tmp' = length tmp"
        "merge_loop cmp base cnt1 cnt2 listp (tmp[idx := xs ! idx1]) (idx + 1) (idx1 + 1) idx2
          = (pre @ (take (idx + 1) (tmp[idx := xs ! idx1])
             @ stable_merge cmp (drop (idx1 + 1) xs) (drop (idx2 - cnt1) ys)) @ post, tmp')"
        by auto
      with False both x y show ?thesis
        by (subst merge_loop.simps) (simp add: snoc Let_def)
    next
      case True
      from "1.IH"(2) [OF _ _ refl refl] prems both True x(1) y(1)
      obtain tmp' where "length tmp' = length tmp"
        "merge_loop cmp base cnt1 cnt2 listp (tmp[idx := ys ! (idx2 - cnt1)]) (idx + 1) idx1 (idx2 + 1)
          = (pre @ (take (idx + 1) (tmp[idx := ys ! (idx2 - cnt1)])
             @ stable_merge cmp (drop idx1 xs) (drop (idx2 + 1 - cnt1) ys)) @ post, tmp')"
        by (auto simp: Suc_diff_le)
      with True both x y show ?thesis
        by (subst merge_loop.simps) (simp add: snoc Let_def)
    qed
  qed
qed

section \<open>The sort computes the stable sort\<close>

lemma same_class_simps [simp]:
  "same_class cmp v [] = []"
  "same_class cmp v (xs @ ys) = same_class cmp v xs @ same_class cmp v ys"
  "same_class cmp v (x # xs) =
     (if cmp x v = kCFCompareEqualTo then x # same_class cmp v xs else same_class cmp v xs)"
  by (simp_all add: same_class_def)

lemma stable_sort_ofI:
  "mset ys = mset xs \<Longrightarrow> ordered_by cmp ys \<Longrightarrow> (\<And>v. same_class cmp v ys = same_class cmp v xs)
     \<Longrightarrow> stable_sort_of cmp xs ys"
  by (simp add: stable_sort_of_def)

lemma stable_sort_of_length: "stable_sort_of cmp xs ys \<Longrightarrow> length ys = length xs"
  unfolding stable_sort_of_def using mset_eq_length by blast

context comparator
begin

lemma ordered_stable_merge:
  "ordered_by cmp xs \<Longrightarrow> ordered_by cmp ys \<Longrightarrow> ordered_by cmp (stable_merge cmp xs ys)"
proof (induction "length xs + length ys" arbitrary: xs ys rule: less_induct)
  case less
  show ?case
  proof (cases xs; cases ys)
    fix x xs' y ys' assume eq: "xs = x # xs'" "ys = y # ys'"
    show ?thesis
    proof (cases "cmp x y = kCFCompareGreaterThan")
      case True
      then have yx: "cmp y x \<noteq> kCFCompareGreaterThan" using cmp_anti by force
      have "ordered_by cmp (stable_merge cmp xs ys')"
        using less eq by (simp add: ordered_by_def)
      moreover have "cmp y z \<noteq> kCFCompareGreaterThan" if "z \<in> set xs \<union> set ys'" for z
        using that less.prems eq cmp_trans [OF yx, of z] yx by (auto simp: ordered_by_def)
      ultimately show ?thesis using True eq by (simp add: ordered_by_def)
    next
      case False
      have "ordered_by cmp (stable_merge cmp xs' ys)"
        using less eq by (simp add: ordered_by_def)
      moreover have "cmp x z \<noteq> kCFCompareGreaterThan" if "z \<in> set xs' \<union> set ys" for z
        using that less.prems eq cmp_trans [OF False, of z] False by (auto simp: ordered_by_def)
      ultimately show ?thesis using False eq by (simp add: ordered_by_def)
    qed
  qed (use less.prems in auto)
qed

lemma class_of_later_empty:
  assumes "cmp x y = kCFCompareGreaterThan" "ordered_by cmp (x # xs)" "cmp y v = kCFCompareEqualTo"
  shows "same_class cmp v (x # xs) = []"
proof -
  have "cmp z v \<noteq> kCFCompareEqualTo" if "z \<in> set (x # xs)" for z
  proof
    assume "cmp z v = kCFCompareEqualTo"
    then have "cmp z y = kCFCompareEqualTo" using assms(3) cmp_eq_sym cmp_eq_trans by blast
    moreover have "cmp x z \<noteq> kCFCompareGreaterThan"
      using assms(2) that by (auto simp: ordered_by_def cmp_refl)
    ultimately show False using assms(1) cmp_eq_iff cmp_trans by blast
  qed
  then show ?thesis by (simp add: same_class_def filter_empty_conv)
qed

lemma class_stable_merge:
  "ordered_by cmp xs \<Longrightarrow> same_class cmp v (stable_merge cmp xs ys) = same_class cmp v xs @ same_class cmp v ys"
proof (induction "length xs + length ys" arbitrary: xs ys rule: less_induct)
  case less
  show ?case
  proof (cases xs; cases ys)
    fix x xs' y ys' assume eq: "xs = x # xs'" "ys = y # ys'"
    have rest: "ordered_by cmp xs'" using less.prems eq by (simp add: ordered_by_def)
    show ?thesis
      using eq less.hyps [of xs' ys] less.hyps [of xs ys'] less.prems rest
        class_of_later_empty [of x y xs' v]
      by (cases "cmp x y = kCFCompareGreaterThan"; cases "cmp y v = kCFCompareEqualTo")
        (simp_all split: if_splits)
  qed auto
qed

lemma stable_merge_append:
  "ordered_by cmp (xs @ ys) \<Longrightarrow> stable_merge cmp xs ys = xs @ ys"
proof (induction xs)
  case Nil then show ?case by simp
next
  case (Cons x xs) then show ?case by (cases ys) (auto simp: ordered_by_def)
qed

lemma ordered_append:
  assumes "ordered_by cmp xs" "ordered_by cmp ys" "xs \<noteq> []" "ys \<noteq> []"
    and "cmp (last xs) (hd ys) \<noteq> kCFCompareGreaterThan"
  shows "ordered_by cmp (xs @ ys)"
proof -
  have x: "cmp x (last xs) \<noteq> kCFCompareGreaterThan" if "x \<in> set xs" for x
    using that assms(1,3) by (induction xs) (auto simp: ordered_by_def cmp_refl)
  have y: "cmp (hd ys) y \<noteq> kCFCompareGreaterThan" if "y \<in> set ys" for y
    using that assms(2) by (cases ys) (auto simp: ordered_by_def cmp_refl)
  have "cmp x y \<noteq> kCFCompareGreaterThan" if "x \<in> set xs" "y \<in> set ys" for x y
    using x [OF that(1)] y [OF that(2)] assms(5) cmp_trans by blast
  then show ?thesis using assms(1,2) by (simp add: ordered_by_def sorted_wrt_append)
qed

lemma CFSimpleMerge_eq:
  assumes "ordered_by cmp xs" "ordered_by cmp ys" "length xs + length ys \<le> length tmp"
  shows "\<exists>tmp'. length tmp' = length tmp
    \<and> CFSimpleMerge cmp (length pre) (length xs) (length ys) (pre @ (xs @ ys) @ post, tmp)
       = (pre @ stable_merge cmp xs ys @ post, tmp')"
proof -
  have loop: "\<exists>tmp'. length tmp' = length tmp
    \<and> merge_loop cmp (length pre) (length xs) (length ys) (pre @ (xs @ ys) @ post) tmp 0 0 (length xs)
       = (pre @ stable_merge cmp xs ys @ post, tmp')"
    using merge_loop_eq [of "pre @ (xs @ ys) @ post" pre xs ys post "length pre" "length xs"
        "length ys" 0 "length xs" 0 tmp cmp] assms(3) by simp
  consider "xs = [] \<or> ys = []" | "xs \<noteq> []" "ys \<noteq> []" by blast
  then show ?thesis
  proof cases
    case 1 then show ?thesis by (auto simp: CFSimpleMerge_def)
  next
    case 2
    let ?l = "pre @ (xs @ ys) @ post"
    have ends: "?l ! (length pre + length xs - 1) = last xs" "?l ! (length pre + length xs) = hd ys"
      using 2 by (cases xs; cases ys; simp add: nth_append last_conv_nth)+
    have "stable_merge cmp xs ys = xs @ ys" if "cmp (last xs) (hd ys) \<noteq> kCFCompareGreaterThan"
      using stable_merge_append ordered_append assms 2 that by blast
    with 2 loop ends show ?thesis by (auto simp: CFSimpleMerge_def)
  qed
qed

lemma stable_sort_merge:
  assumes "stable_sort_of cmp xs xs'" "stable_sort_of cmp ys ys'"
  shows "stable_sort_of cmp (xs @ ys) (stable_merge cmp xs' ys')"
  using assms ordered_stable_merge class_stable_merge by (simp add: stable_sort_of_def)

lemma stable_sort_two:
  "stable_sort_of cmp [a, b] (if cmp a b = kCFCompareGreaterThan then [b, a] else [a, b])"
proof -
  have "cmp a b = kCFCompareGreaterThan \<Longrightarrow> cmp b a \<noteq> kCFCompareGreaterThan"
    using cmp_anti by force
  moreover have "cmp a b = kCFCompareGreaterThan \<Longrightarrow>
      \<not> (cmp a v = kCFCompareEqualTo \<and> cmp b v = kCFCompareEqualTo)" for v
    by (metis CFComparisonResult.distinct(5) cmp_eq_sym cmp_eq_trans)
  ultimately show ?thesis by (auto simp: stable_sort_of_def ordered_by_def)
qed

lemma CFSimpleMergeSort_correct:
  "length seg = n \<Longrightarrow> n \<le> length tmp \<Longrightarrow>
   \<exists>seg' tmp'. stable_sort_of cmp seg seg' \<and> length tmp' = length tmp
     \<and> CFSimpleMergeSort cmp (length pre) n (pre @ seg @ post, tmp) = (pre @ seg' @ post, tmp')"
proof (induction n arbitrary: pre seg post tmp rule: less_induct)
  case (less n)
  consider "n < 2" | "n = 2" | "n = 3" | "3 < n" by linarith
  then show ?case
  proof cases
    case 1
    then have "ordered_by cmp seg"
      using less.prems by (cases seg) (auto simp: ordered_by_def less_Suc_eq numeral_2_eq_2)
    with 1 show ?thesis by (subst CFSimpleMergeSort.simps) (auto simp: stable_sort_of_def)
  next
    case 2
    then obtain a b where "seg = [a, b]"
      using less.prems by (auto simp: numeral_2_eq_2 length_Suc_conv)
    with 2 stable_sort_two [of a b] show ?thesis
      by (subst CFSimpleMergeSort.simps)
        (auto simp: Let_def nth_append list_update_append split: if_splits)
  next
    case 3
    then obtain a b c where seg: "seg = [a, b, c]"
      using less.prems by (auto simp: numeral_3_eq_3 length_Suc_conv)
    define ab where "ab = (if cmp a b = kCFCompareGreaterThan then [b, a] else [a, b])"
    have "stable_sort_of cmp [c] [c]" by (simp add: stable_sort_of_def ordered_by_def)
    with stable_sort_merge [OF stable_sort_two [of a b]]
    have sorted: "stable_sort_of cmp seg (stable_merge cmp ab [c])" by (simp add: seg ab_def)
    obtain p q where pq: "ab = [p, q]" by (cases "cmp a b = kCFCompareGreaterThan") (auto simp: ab_def)
    have "ordered_by cmp ab" using stable_sort_two [of a b] by (simp add: stable_sort_of_def ab_def)
    then have le: "cmp p q \<noteq> kCFCompareGreaterThan" by (simp add: pq ordered_by_def)
    have "CFSimpleMergeSort cmp (length pre) n (pre @ seg @ post, tmp)
        = (pre @ (if cmp q c = kCFCompareGreaterThan
             then if cmp p c = kCFCompareGreaterThan then [c, p, q] else [p, c, q]
             else [p, q, c]) @ post, tmp)"
      using 3 pq by (subst CFSimpleMergeSort.simps)
        (auto simp: Let_def seg ab_def nth_append list_update_append split: if_splits)
    also have "\<dots> = (pre @ stable_merge cmp ab [c] @ post, tmp)"
      using cmp_trans [OF le, of c] by (auto simp: pq)
    finally show ?thesis using sorted by blast
  next
    case 4
    define h where "h = n div 2"
    have h: "0 < h" "h < n" "n - h < n" using 4 by (auto simp: h_def)
    define xs ys where "xs = take h seg" and "ys = drop h seg"
    have len: "length xs = h" "length ys = n - h" "seg = xs @ ys"
      using less.prems(1) h by (auto simp: xs_def ys_def)
    obtain xs' tmp1 where s1: "stable_sort_of cmp xs xs'" "length tmp1 = length tmp"
      "CFSimpleMergeSort cmp (length pre) h (pre @ xs @ (ys @ post), tmp) = (pre @ xs' @ (ys @ post), tmp1)"
      using less.IH [OF h(2) len(1), of tmp pre "ys @ post"] less.prems(2) h by auto
    have xs': "length xs' = h" using stable_sort_of_length [OF s1(1)] len by simp
    obtain ys' tmp2 where s2: "stable_sort_of cmp ys ys'" "length tmp2 = length tmp"
      "CFSimpleMergeSort cmp (length (pre @ xs')) (n - h) ((pre @ xs') @ ys @ post, tmp1)
         = ((pre @ xs') @ ys' @ post, tmp2)"
      using less.IH [OF h(3) len(2), of tmp1 "pre @ xs'" post] less.prems(2) h s1(2) by auto
    have ys': "length ys' = n - h" using stable_sort_of_length [OF s2(1)] len by simp
    obtain tmp3 where s3: "length tmp3 = length tmp"
      "CFSimpleMerge cmp (length pre) h (n - h) (pre @ (xs' @ ys') @ post, tmp2)
         = (pre @ stable_merge cmp xs' ys' @ post, tmp3)"
      using CFSimpleMerge_eq [of xs' ys' tmp2 pre post] s1(1) s2 xs' ys' less.prems(2) h
      by (auto simp: stable_sort_of_def)
    have "CFSimpleMergeSort cmp (length pre) n (pre @ seg @ post, tmp)
        = (pre @ stable_merge cmp xs' ys' @ post, tmp3)"
      using 4 s1(3) s2(3) s3(2) xs' len(3)
      by (subst CFSimpleMergeSort.simps) (simp add: Let_def h_def [symmetric])
    moreover have "stable_sort_of cmp seg (stable_merge cmp xs' ys')"
      using stable_sort_merge [OF s1(1) s2(1)] len(3) by simp
    ultimately show ?thesis using s3(1) by blast
  qed
qed

lemma CFSimpleMergeSort_whole:
  assumes "length listp \<le> length tmp"
  shows "stable_sort_of cmp listp (fst (CFSimpleMergeSort cmp 0 (length listp) (listp, tmp)))"
  using CFSimpleMergeSort_correct [of listp "length listp" tmp "[]" "[]"] assms by auto

end

lemma length_fill_indexes [simp]: "length (fill_indexes b i lim) = length b"
  by (induction b i lim rule: fill_indexes.induct) (subst fill_indexes.simps, simp)

lemma fill_indexes_nth:
  "k < length b \<Longrightarrow> fill_indexes b i lim ! k = (if i \<le> k \<and> k < lim then k else b ! k)"
proof (induction b i lim rule: fill_indexes.induct)
  case (1 b i lim)
  then show ?case by (subst fill_indexes.simps) (auto simp: nth_list_update)
qed

lemma fill_chunks_nth:
  assumes "k < length b" "c \<le> length b"
  shows "foldl (\<lambda>buf n. fill_indexes buf (n * sz) (min (n * sz + sz) c)) b [0..<m] ! k
    = (if k < m * sz \<and> k < c then k else b ! k)
    \<and> length (foldl (\<lambda>buf n. fill_indexes buf (n * sz) (min (n * sz + sz) c)) b [0..<m]) = length b"
proof (induction m)
  case 0 then show ?case by simp
next
  case (Suc m)
  then show ?case using assms by (auto simp: fill_indexes_nth add.commute)
qed

lemma fill_index_buffer_eq:
  assumes "length b = n"
  shows "fill_index_buffer b n = [0..<n]"
proof (cases "n \<le> 65536")
  case True
  with assms show ?thesis
    by (intro nth_equalityI) (simp_all add: fill_index_buffer_def fill_indexes_nth)
next
  case False
  define sz where "sz = (((n + 15) div 16) * 16) div 8"
  have sz: "n \<le> 8 * sz" unfolding sz_def by presburger
  let ?f = "foldl (\<lambda>buf i. fill_indexes buf (i * sz) (min (i * sz + sz) n)) b [0..<8]"
  have f: "fill_index_buffer b n = ?f"
    using False by (simp only: fill_index_buffer_def sz_def Let_def if_False)
  have k: "?f ! k = k \<and> length ?f = n" if "k < n" for k
    using fill_chunks_nth [of k b n sz 8] that assms sz by simp
  then have "length ?f = n" using False by (metis not_le zero_less_numeral le_less_trans not_less)
  with k show ?thesis unfolding f by (intro nth_equalityI) simp_all
qed

section \<open>The array sorts\<close>

lemma comparator_on: "comparator cmp \<Longrightarrow> comparator (\<lambda>a b. cmp (f a) (f b))"
  unfolding comparator_def by blast

lemma CFSortIndexes_correct:
  assumes "comparator cmp" "length indexBuffer = n" "n \<le> length tmp" "n \<le> (2 ^ 63 - 1) div 8"
  shows "stable_sort_of cmp [0..<n] (CFSortIndexes indexBuffer tmp n cmp)"
proof (cases "n = 0")
  case True
  with assms(2) show ?thesis by (simp add: CFSortIndexes_def stable_sort_of_def ordered_by_def)
next
  case False
  with assms(4) have "CFSortIndexes indexBuffer tmp n cmp
      = fst (CFSimpleMergeSort cmp 0 n ([0..<n], tmp))"
    using fill_index_buffer_eq [OF assms(2)] by (simp add: CFSortIndexes_def)
  with comparator.CFSimpleMergeSort_whole [OF assms(1), of "[0..<n]" tmp] assms(3)
  show ?thesis by simp
qed

text \<open>Sorting the indexes by the elements they name sorts the elements.\<close>

lemma stable_sort_of_map:
  assumes "stable_sort_of (\<lambda>a b. cmp (l ! a) (l ! b)) [0..<length l] is" "comparator cmp"
  shows "stable_sort_of cmp l (map (\<lambda>i. l ! i) is)"
proof (rule stable_sort_ofI)
  let ?c = "\<lambda>a b. cmp (l ! a) (l ! b)"
  have m: "mset is = mset [0..<length l]" and o: "ordered_by ?c is"
    and s: "\<And>v. same_class ?c v is = same_class ?c v [0..<length l]"
    using assms(1) by (auto simp: stable_sort_of_def)
  have id: "map (\<lambda>i. l ! i) [0..<length l] = l" by (rule map_nth)
  have "mset (map (\<lambda>i. l ! i) is) = image_mset (\<lambda>i. l ! i) (mset is)" by simp
  also have "\<dots> = mset (map (\<lambda>i. l ! i) [0..<length l])" by (simp only: m mset_map)
  finally show "mset (map (\<lambda>i. l ! i) is) = mset l" by (simp only: id)
  show "ordered_by cmp (map (\<lambda>i. l ! i) is)" using o by (simp add: ordered_by_def sorted_wrt_map)
  fix v
  show "same_class cmp v (map (\<lambda>i. l ! i) is) = same_class cmp v l"
  proof (cases "\<exists>j < length l. cmp (l ! j) v = kCFCompareEqualTo")
    case True
    then obtain j where j: "cmp (l ! j) v = kCFCompareEqualTo" by blast
    have eq: "cmp x v = kCFCompareEqualTo \<longleftrightarrow> cmp x (l ! j) = kCFCompareEqualTo" for x
      using comparator.cmp_eq_trans [OF assms(2)] comparator.cmp_eq_sym [OF assms(2)] j by blast
    have "same_class cmp v (map (\<lambda>i. l ! i) ks) = map (\<lambda>i. l ! i) (same_class ?c j ks)" for ks
      by (induction ks) (simp_all add: eq)
    then show ?thesis using s [of j] id by metis
  next
    case False
    then have "same_class cmp v l = []"
      by (auto simp: same_class_def filter_empty_conv in_set_conv_nth)
    moreover have "set (map (\<lambda>i. l ! i) is) = set l"
      using \<open>mset (map (\<lambda>i. l ! i) is) = mset l\<close> by (rule mset_eq_setD)
    ultimately show ?thesis by (simp add: same_class_def filter_empty_conv)
  qed
qed

lemma stable_sort_small: "length l < 2 \<Longrightarrow> stable_sort_of cmp l l"
  by (cases l) (auto simp: stable_sort_of_def ordered_by_def less_Suc_eq numeral_2_eq_2)

section \<open>The merge halves of the parallel sort\<close>

lemma nmerge_left_eq:
  "i1 \<le> length l1 \<Longrightarrow> i2 \<le> length l2 \<Longrightarrow> n + i1 + i2 \<le> length l1 + length l2 \<Longrightarrow>
     nmerge_left cmp l1 l2 i1 i2 n = take n (stable_merge cmp (drop i1 l1) (drop i2 l2))"
proof (induction cmp l1 l2 i1 i2 n rule: nmerge_left.induct)
  case (1 cmp l1 l2 i1 i2) then show ?case by simp
next
  case (2 cmp l1 l2 i1 i2 n)
  have d1: "i1 < length l1 \<Longrightarrow> drop i1 l1 = l1 ! i1 # drop (Suc i1) l1"
    and d2: "i2 < length l2 \<Longrightarrow> drop i2 l2 = l2 ! i2 # drop (Suc i2) l2"
    by (simp_all add: Cons_nth_drop_Suc)
  consider "i2 = length l2" "i1 < length l1" | "i2 < length l2" "i1 = length l1"
    | "i2 < length l2" "i1 < length l1" using "2.prems" by linarith
  then show ?case
  proof cases
    case 1 then show ?thesis using 2 d1 by simp
  next
    case 2 then show ?thesis using "2.prems" "2.IH" d2 by simp
  next
    case 3 then show ?thesis using "2.prems" "2.IH" d1 d2 by simp
  qed
qed

context comparator
begin

lemma stable_merge_snoc:
  "ordered_by cmp (xs @ [x]) \<Longrightarrow> ordered_by cmp (ys @ [y]) \<Longrightarrow>
   stable_merge cmp (xs @ [x]) (ys @ [y]) =
     (if cmp x y \<noteq> kCFCompareGreaterThan then stable_merge cmp (xs @ [x]) ys @ [y]
      else stable_merge cmp xs (ys @ [y]) @ [x])"
proof (induction "length xs + length ys" arbitrary: xs ys rule: less_induct)
  case less
  show ?case
  proof (cases xs; cases ys)
    assume "xs = []" "ys = []" then show ?thesis by simp
  next
    fix b bs assume eq: "xs = []" "ys = b # bs"
    have "ordered_by cmp (bs @ [y])" "cmp b y \<noteq> kCFCompareGreaterThan"
      using less.prems eq by (auto simp: ordered_by_def)
    then show ?thesis
      using less.hyps [of "[]" bs] less.prems(1) cmp_trans [of x b y] eq by auto
  next
    fix a as assume eq: "xs = a # as" "ys = []"
    have "ordered_by cmp (as @ [x])" "cmp a x \<noteq> kCFCompareGreaterThan"
      using less.prems eq by (auto simp: ordered_by_def)
    then show ?thesis
      using less.hyps [of as "[]"] less.prems(2) cmp_trans [of a x y] eq by auto
  next
    fix a as b bs assume eq: "xs = a # as" "ys = b # bs"
    have "ordered_by cmp (as @ [x])" "ordered_by cmp (bs @ [y])"
      using less.prems eq by (auto simp: ordered_by_def)
    then show ?thesis
      using less.hyps [of as ys] less.hyps [of xs bs] less.prems eq by auto
  qed
qed

lemma nmerge_right_eq:
  "ordered_by cmp l1 \<Longrightarrow> ordered_by cmp l2 \<Longrightarrow> length l2 \<le> length l1 \<Longrightarrow>
   k1 \<le> length l1 \<Longrightarrow> k2 \<le> length l2 \<Longrightarrow> n + length l1 = k1 + k2 \<Longrightarrow>
   nmerge_right cmp l1 l2 (int k1 - 1) (int k2 - 1) n tmp
     = drop (length l1) (stable_merge cmp (take k1 l1) (take k2 l2)) @ tmp"
proof (induction n arbitrary: k1 k2 tmp)
  case 0 then show ?case by simp
next
  case (Suc n)
  then obtain j1 j2 where k: "k1 = Suc j1" "k2 = Suc j2" "j1 < length l1" "j2 < length l2"
    by (cases k1; cases k2) auto
  have t: "take k1 l1 = take j1 l1 @ [l1 ! j1]" "take k2 l2 = take j2 l2 @ [l2 ! j2]"
    using k by (simp_all add: take_Suc_conv_app_nth)
  have "ordered_by cmp (take k1 l1)" "ordered_by cmp (take k2 l2)"
    using Suc.prems by (simp_all add: ordered_by_def sorted_wrt_take)
  then have snoc: "stable_merge cmp (take k1 l1) (take k2 l2) =
     (if cmp (l1 ! j1) (l2 ! j2) \<noteq> kCFCompareGreaterThan
      then stable_merge cmp (take k1 l1) (take j2 l2) @ [l2 ! j2]
      else stable_merge cmp (take j1 l1) (take k2 l2) @ [l1 ! j1])"
    using stable_merge_snoc [of "take j1 l1" "l1 ! j1" "take j2 l2" "l2 ! j2"] by (simp add: t)
  show ?case
  proof (cases "cmp (l1 ! j1) (l2 ! j2) = kCFCompareGreaterThan")
    case True
    then show ?thesis using Suc.IH [of j1 k2 "l1 ! j1 # tmp"] Suc.prems k snoc by simp
  next
    case False
    then show ?thesis using Suc.IH [of k1 j2 "l2 ! j2 # tmp"] Suc.prems k snoc by simp
  qed
qed

lemma CFSortIndexesNMerge_eq:
  assumes "ordered_by cmp l1" "ordered_by cmp l2" "length l2 \<le> length l1" "l2 \<noteq> []"
  shows "CFSortIndexesNMerge cmp l1 l2 right = (if right
     then drop (length l1) (stable_merge cmp l1 l2) else take (length l1) (stable_merge cmp l1 l2))"
proof -
  have ne: "l1 \<noteq> []" using assms(3,4) by auto
  have "stable_merge cmp l1 l2 = l1 @ l2"
    if "cmp (l1 ! (length l1 - 1)) (l2 ! 0) \<noteq> kCFCompareGreaterThan"
    using that ne assms stable_merge_append ordered_append by (simp add: last_conv_nth hd_conv_nth)
  moreover have "nmerge_right cmp l1 l2 (int (length l1) - 1) (int (length l2) - 1) (length l2) []
      = drop (length l1) (stable_merge cmp l1 l2)"
    using nmerge_right_eq [OF assms(1-3), of "length l1" "length l2" "length l2" "[]"] by simp
  moreover have "nmerge_left cmp l1 l2 0 0 (length l1) = take (length l1) (stable_merge cmp l1 l2)"
    using nmerge_left_eq [of 0 l1 0 l2 "length l1" cmp] by simp
  ultimately show ?thesis by (auto simp: CFSortIndexesNMerge_def Let_def)
qed

end

section \<open>Properties\<close>

text \<open>A comparison of numbers, for the witnesses.\<close>

definition nat_compare :: "nat \<Rightarrow> nat \<Rightarrow> CFComparisonResult" where
  "nat_compare a b = (if a < b then kCFCompareLessThan
     else if a = b then kCFCompareEqualTo else kCFCompareGreaterThan)"

lemma comparator_nat: "comparator nat_compare"
  by (rule comparator.intro) (auto simp: nat_compare_def split: if_splits)

text \<open>\<open>__CFSimpleMergeSort\<close> sorts the segment it is given, stably, and changes nothing
  before or after it.\<close>

theorem merge_sort_in_place:
  assumes "comparator cmp" "length seg \<le> length tmp"
  shows "\<exists>seg' tmp'. stable_sort_of cmp seg seg' \<and>
     CFSimpleMergeSort cmp (length pre) (length seg) (pre @ seg @ post, tmp) = (pre @ seg' @ post, tmp')"
  using comparator.CFSimpleMergeSort_correct [OF assms(1) refl assms(2), of pre post] by blast

theorem merge_sort_in_place_witness:
  "\<exists>seg' tmp'. stable_sort_of nat_compare [3, 1, 2, 0] seg' \<and>
     CFSimpleMergeSort nat_compare (length [9 :: nat]) (length [3, 1, 2, 0 :: nat])
       ([9] @ [3, 1, 2, 0] @ [8], [0, 0, 0, 0]) = ([9] @ seg' @ [8], tmp')"
proof -
  have "length [3, 1, 2, 0 :: nat] \<le> length [0, 0, 0, 0 :: nat]" by simp
  from merge_sort_in_place [OF comparator_nat this, where pre = "[9]" and post = "[8]"]
  show ?thesis .
qed

lemma CFQSortArray_sorts:
  assumes "comparator (\<lambda>a b. cmp a b ctx)" "0 < elementSize"
    and "length garbage = length l" "length l \<le> length tmp" "length l \<le> (2 ^ 63 - 1) div 8"
  shows "stable_sort_of (\<lambda>a b. cmp a b ctx) l (CFQSortArray garbage tmp l elementSize cmp ctx)
    \<and> CFMergeSortArray garbage tmp l elementSize cmp ctx
       = CFQSortArray garbage tmp l elementSize cmp ctx"
proof -
  let ?c = "\<lambda>a b. cmp (l ! a) (l ! b) ctx"
  let ?is = "CFSortIndexes garbage tmp (length l) ?c"
  have "comparator ?c" by (rule comparator_on [OF assms(1)])
  then have "stable_sort_of ?c [0..<length l] ?is"
    using assms(3-5) by (rule CFSortIndexes_correct)
  then have "stable_sort_of (\<lambda>a b. cmp a b ctx) l (map (\<lambda>i. l ! i) ?is)" "length ?is = length l"
    using stable_sort_of_map [OF _ assms(1)] stable_sort_of_length [of ?c "[0..<length l]" ?is] by simp_all
  moreover have "map (\<lambda>idx. l ! (?is ! idx)) [0..<length l] = map (\<lambda>i. l ! i) ?is"
    using calculation(2) by (intro nth_equalityI) simp_all
  ultimately show ?thesis
    using stable_sort_small [of l] assms(2)
    by (simp add: CFQSortArray_def CFMergeSortArray_def Let_def)
qed

text \<open>C5. \<open>CFQSortArray\<close> and \<open>CFMergeSortArray\<close> both return the stable sort of the
  array: a permutation, in the order of the comparator, with elements that compare equal in
  their original order, whatever the scratch buffers held.\<close>

theorem array_sorts_stable:
  assumes "comparator (\<lambda>a b. cmp a b ctx)" "0 < elementSize"
    and "length garbage = length l" "length l \<le> length tmp" "length l \<le> (2 ^ 63 - 1) div 8"
  shows "stable_sort_of (\<lambda>a b. cmp a b ctx) l (CFQSortArray garbage tmp l elementSize cmp ctx)
    \<and> CFMergeSortArray garbage tmp l elementSize cmp ctx
       = CFQSortArray garbage tmp l elementSize cmp ctx"
  using assms by (rule CFQSortArray_sorts)

theorem array_sorts_stable_witness:
  "stable_sort_of (\<lambda>a b. nat_compare (a mod 10) (b mod 10)) [21, 11, 30]
     (CFQSortArray [0, 0, 0] [0, 0, 0] [21, 11, 30] 8 (\<lambda>a b c. nat_compare (a mod c) (b mod c)) 10)"
proof -
  have c: "comparator (\<lambda>a b. nat_compare (a mod 10) (b mod 10))"
    by (rule comparator_on [OF comparator_nat])
  have bound: "length [21, 11, 30 :: nat] \<le> (2 ^ 63 - 1) div 8" by simp
  have sizes: "0 < (8 :: nat)" "length [0, 0, 0 :: nat] = length [21, 11, 30 :: nat]"
    "length [21, 11, 30 :: nat] \<le> length [0, 0, 0 :: nat]" by simp_all
  show ?thesis 
    by (rule conjunct1 [OF array_sorts_stable [where cmp = "\<lambda>a b c. nat_compare (a mod c) (b mod c)"
          and ctx = 10, OF c sizes bound]])
qed

text \<open>C32. The parallel merge step: of two sorted neighbours the left worker gets the first
  \<open>cnt1\<close> elements of their stable merge and the right worker the rest, so that the two
  results together are the merge. The right loop never reaches its two exhausted-run branches,
  which would skip an element, because the right run is never longer than the left one.\<close>

theorem parallel_merge_step:
  assumes "comparator cmp" "ordered_by cmp l1" "ordered_by cmp l2" "length l2 \<le> length l1" "l2 \<noteq> []"
  shows "CFSortIndexesNMerge cmp l1 l2 False @ CFSortIndexesNMerge cmp l1 l2 True = stable_merge cmp l1 l2
    \<and> length (CFSortIndexesNMerge cmp l1 l2 False) = length l1"
  using comparator.CFSortIndexesNMerge_eq [OF assms] by simp

theorem parallel_merge_step_witness:
  "CFSortIndexesNMerge nat_compare [2, 4, 6] [1, 5] False @ CFSortIndexesNMerge nat_compare [2, 4, 6] [1, 5] True
     = stable_merge nat_compare [2, 4, 6] [1, 5]"
proof -
  have "ordered_by nat_compare [2, 4, 6]" "ordered_by nat_compare [1, 5]"
    by (simp_all add: ordered_by_def nat_compare_def)
  from parallel_merge_step [OF comparator_nat this] show ?thesis by simp
qed

end
