(* ===== verification/BigNumber.thy ===== *)
theory BigNumber
  imports Prelude "HOL-Library.Signed_Division"
begin

text \<open>
  CFBigNumber.c: the fixed size decimal numbers behind CFNumberFormatter. A number is a sign
  (0 or -1) and five base 1000000000 digits, the least significant first.

  \<open>bn_value\<close> is the integer a number stands for and \<open>canonical\<close> the invariant that
  every digit is below the base and zero has no sign. The lemmas show that initialisation from
  every machine integer is canonical and exact and is inverted by the getters, that comparison
  is the comparison of the values, that addition and subtraction are exact up to the reported
  carry, and that the decimal text round trips. Machine integers are words; \<open>sint\<close> reads
  a signed one. The negation of the least integer, which C leaves undefined, wraps as it does
  in the generated code.
\<close>

section \<open>The number\<close>

record CFBigNum =
  digits :: "u32 list"
  sign :: "8 word"

abbreviation BIG_DIGITS_LIMIT :: nat where "BIG_DIGITS_LIMIT \<equiv> 1000000000"
abbreviation BIG_DIGITS_LIMIT_2 :: nat where "BIG_DIGITS_LIMIT_2 \<equiv> 1000000000000000000"
abbreviation BIG_DIGITS_LIMIT_3 :: nat where "BIG_DIGITS_LIMIT_3 \<equiv> 1000000000000000000000000000"
abbreviation BIG_DIGITS_LIMIT_4 :: nat where
  "BIG_DIGITS_LIMIT_4 \<equiv> 1000000000000000000000000000000000000"

section \<open>Initialisation\<close>

text \<open>The quotient and remainder steps that the initialisers of one width share: in C the
  macros \<open>GET_FIFTH_DIGIT\<close> to \<open>GET_REMAINDER_SECOND_DIGIT\<close> on an unsigned number.\<close>

definition split32 :: "u32 \<Rightarrow> u32 list" where
  "split32 unsignInNum =
     (let dig0 = unsignInNum div of_nat BIG_DIGITS_LIMIT
      in [unsignInNum - dig0 * of_nat BIG_DIGITS_LIMIT, dig0, 0, 0, 0])"

definition split64 :: "u64 \<Rightarrow> u32 list" where
  "split64 unsignInNum =
     (let dig2 = ucast (unsignInNum div of_nat BIG_DIGITS_LIMIT_2) :: u32;
          unsignInNum = unsignInNum - ucast dig2 * of_nat BIG_DIGITS_LIMIT_2;
          dig1 = ucast (unsignInNum div of_nat BIG_DIGITS_LIMIT) :: u32
      in [ucast (unsignInNum - ucast dig1 * of_nat BIG_DIGITS_LIMIT), dig1, dig2, 0, 0])"

definition split128 :: "u128 \<Rightarrow> u32 list" where
  "split128 unsignInNum =
     (let dig4 = ucast (unsignInNum div of_nat BIG_DIGITS_LIMIT_4) :: u32;
          unsignInNum = unsignInNum - ucast dig4 * of_nat BIG_DIGITS_LIMIT_4;
          dig3 = ucast (unsignInNum div of_nat BIG_DIGITS_LIMIT_3) :: u32;
          unsignInNum = unsignInNum - ucast dig3 * of_nat BIG_DIGITS_LIMIT_3;
          dig2 = ucast (unsignInNum div of_nat BIG_DIGITS_LIMIT_2) :: u32;
          unsignInNum = unsignInNum - ucast dig2 * of_nat BIG_DIGITS_LIMIT_2;
          dig1 = ucast (unsignInNum div of_nat BIG_DIGITS_LIMIT) :: u32
      in [ucast (unsignInNum - ucast dig1 * of_nat BIG_DIGITS_LIMIT), dig1, dig2, dig3, dig4])"

text \<open>\<open>if (inNum < 0) { r->sign = -1; unsignInNum = -1 * inNum; }\<close>\<close>

definition sign_of :: "'n::len word \<Rightarrow> 8 word" where
  "sign_of inNum = (if sint inNum < 0 then -1 else 0)"

definition magnitude_of :: "'n::len word \<Rightarrow> 'n word" where
  "magnitude_of inNum = (if sint inNum < 0 then -1 * inNum else inNum)"

definition CFBigNumInitWithInt8 :: "u8 \<Rightarrow> CFBigNum" where
  "CFBigNumInitWithInt8 inNum =
     \<lparr>digits = [ucast (magnitude_of inNum), 0, 0, 0, 0], sign = sign_of inNum\<rparr>"

definition CFBigNumInitWithInt16 :: "u16 \<Rightarrow> CFBigNum" where
  "CFBigNumInitWithInt16 inNum =
     \<lparr>digits = [ucast (magnitude_of inNum), 0, 0, 0, 0], sign = sign_of inNum\<rparr>"

definition CFBigNumInitWithInt32 :: "u32 \<Rightarrow> CFBigNum" where
  "CFBigNumInitWithInt32 inNum =
     \<lparr>digits = split32 (magnitude_of inNum), sign = sign_of inNum\<rparr>"

definition CFBigNumInitWithInt64 :: "u64 \<Rightarrow> CFBigNum" where
  "CFBigNumInitWithInt64 inNum =
     \<lparr>digits = split64 (magnitude_of inNum), sign = sign_of inNum\<rparr>"

definition CFBigNumInitWithInt128 :: "u128 \<Rightarrow> CFBigNum" where
  "CFBigNumInitWithInt128 inNum =
     \<lparr>digits = split128 (magnitude_of inNum), sign = sign_of inNum\<rparr>"

definition CFBigNumInitWithUInt8 :: "u8 \<Rightarrow> CFBigNum" where
  "CFBigNumInitWithUInt8 inNum = \<lparr>digits = [ucast inNum, 0, 0, 0, 0], sign = 0\<rparr>"

definition CFBigNumInitWithUInt16 :: "u16 \<Rightarrow> CFBigNum" where
  "CFBigNumInitWithUInt16 inNum = \<lparr>digits = [ucast inNum, 0, 0, 0, 0], sign = 0\<rparr>"

definition CFBigNumInitWithUInt32 :: "u32 \<Rightarrow> CFBigNum" where
  "CFBigNumInitWithUInt32 inNum = \<lparr>digits = split32 inNum, sign = 0\<rparr>"

definition CFBigNumInitWithUInt64 :: "u64 \<Rightarrow> CFBigNum" where
  "CFBigNumInitWithUInt64 inNum = \<lparr>digits = split64 inNum, sign = 0\<rparr>"

definition CFBigNumInitWithUInt128 :: "u128 \<Rightarrow> CFBigNum" where
  "CFBigNumInitWithUInt128 inNum = \<lparr>digits = split128 inNum, sign = 0\<rparr>"

text \<open>\<open>_CFBigNumInitWithBytes\<close> on an LP64 target: the bytes of a CFNumber value, least
  significant first. The floating point types leave the number as it was.\<close>

datatype CFNumberType = kCFNumberSInt8Type | kCFNumberSInt16Type | kCFNumberSInt32Type
  | kCFNumberSInt64Type | kCFNumberFloat32Type | kCFNumberFloat64Type | kCFNumberCharType
  | kCFNumberShortType | kCFNumberIntType | kCFNumberLongType | kCFNumberLongLongType
  | kCFNumberFloatType | kCFNumberDoubleType | kCFNumberCFIndexType | kCFNumberNSIntegerType
  | kCFNumberCGFloatType | kCFNumberSInt128Type

definition load_le :: "nat \<Rightarrow> u8 list \<Rightarrow> 'n::len word" where
  "load_le n bytes = of_int (foldr (\<lambda>b acc. uint b + 256 * acc) (take n bytes) 0)"

fun CFBigNumInitWithBytes :: "CFBigNum \<Rightarrow> u8 list \<Rightarrow> CFNumberType \<Rightarrow> CFBigNum" where
  "CFBigNumInitWithBytes r bytes kCFNumberSInt8Type = CFBigNumInitWithInt8 (load_le 1 bytes)"
| "CFBigNumInitWithBytes r bytes kCFNumberSInt16Type = CFBigNumInitWithInt16 (load_le 2 bytes)"
| "CFBigNumInitWithBytes r bytes kCFNumberSInt32Type = CFBigNumInitWithInt32 (load_le 4 bytes)"
| "CFBigNumInitWithBytes r bytes kCFNumberSInt64Type = CFBigNumInitWithInt64 (load_le 8 bytes)"
| "CFBigNumInitWithBytes r bytes kCFNumberCharType = CFBigNumInitWithInt8 (load_le 1 bytes)"
| "CFBigNumInitWithBytes r bytes kCFNumberShortType = CFBigNumInitWithInt16 (load_le 2 bytes)"
| "CFBigNumInitWithBytes r bytes kCFNumberIntType = CFBigNumInitWithInt32 (load_le 4 bytes)"
| "CFBigNumInitWithBytes r bytes kCFNumberLongType = CFBigNumInitWithInt64 (load_le 8 bytes)"
| "CFBigNumInitWithBytes r bytes kCFNumberLongLongType = CFBigNumInitWithInt64 (load_le 8 bytes)"
| "CFBigNumInitWithBytes r bytes kCFNumberCFIndexType = CFBigNumInitWithInt64 (load_le 8 bytes)"
| "CFBigNumInitWithBytes r bytes kCFNumberNSIntegerType = CFBigNumInitWithInt64 (load_le 8 bytes)"
| "CFBigNumInitWithBytes r bytes kCFNumberSInt128Type =
     (let high = load_le 8 bytes :: u64;
          low = load_le 8 (drop 8 bytes) :: u64
      in CFBigNumInitWithInt128 (ucast low + push_bit 64 (scast high)))"
| "CFBigNumInitWithBytes r bytes type = r"

section \<open>Getters\<close>

definition with_sign :: "CFBigNum \<Rightarrow> 'n::len word \<Rightarrow> 'n word" where
  "with_sign num result = (if sint (sign num) < 0 then -1 * result else result)"

definition CFBigNumGetUInt8 :: "CFBigNum \<Rightarrow> u8" where
  "CFBigNumGetUInt8 num = ucast (digits num ! 0)"

definition CFBigNumGetUInt16 :: "CFBigNum \<Rightarrow> u16" where
  "CFBigNumGetUInt16 num = ucast (digits num ! 0)"

definition CFBigNumGetUInt32 :: "CFBigNum \<Rightarrow> u32" where
  "CFBigNumGetUInt32 num = digits num ! 0 + digits num ! 1 * of_nat BIG_DIGITS_LIMIT"

definition CFBigNumGetUInt64 :: "CFBigNum \<Rightarrow> u64" where
  "CFBigNumGetUInt64 num = ucast (digits num ! 0)
     + ucast (digits num ! 1) * of_nat BIG_DIGITS_LIMIT
     + ucast (digits num ! 2) * of_nat BIG_DIGITS_LIMIT_2"

definition CFBigNumGetUInt128 :: "CFBigNum \<Rightarrow> u128" where
  "CFBigNumGetUInt128 num = ucast (digits num ! 0)
     + ucast (digits num ! 1) * of_nat BIG_DIGITS_LIMIT
     + ucast (digits num ! 2) * of_nat BIG_DIGITS_LIMIT_2
     + ucast (digits num ! 3) * of_nat BIG_DIGITS_LIMIT_3
     + ucast (digits num ! 4) * of_nat BIG_DIGITS_LIMIT_4"

definition CFBigNumGetInt8 :: "CFBigNum \<Rightarrow> u8" where
  "CFBigNumGetInt8 num = with_sign num (ucast (digits num ! 0))"

definition CFBigNumGetInt16 :: "CFBigNum \<Rightarrow> u16" where
  "CFBigNumGetInt16 num = with_sign num (ucast (digits num ! 0))"

definition CFBigNumGetInt32 :: "CFBigNum \<Rightarrow> u32" where
  "CFBigNumGetInt32 num =
     with_sign num (digits num ! 0 + digits num ! 1 * of_nat BIG_DIGITS_LIMIT)"

definition CFBigNumGetInt64 :: "CFBigNum \<Rightarrow> u64" where
  "CFBigNumGetInt64 num = with_sign num (ucast (digits num ! 0)
     + ucast (digits num ! 1) * of_nat BIG_DIGITS_LIMIT
     + ucast (digits num ! 2) * of_nat BIG_DIGITS_LIMIT_2)"

definition CFBigNumGetInt128 :: "CFBigNum \<Rightarrow> u128" where
  "CFBigNumGetInt128 num = with_sign num (ucast (digits num ! 0)
     + ucast (digits num ! 1) * of_nat BIG_DIGITS_LIMIT
     + ucast (digits num ! 2) * of_nat BIG_DIGITS_LIMIT_2
     + ucast (digits num ! 3) * of_nat BIG_DIGITS_LIMIT_3
     + ucast (digits num ! 4) * of_nat BIG_DIGITS_LIMIT_4)"

section \<open>Comparison\<close>

text \<open>\<open>for (CFIndex i = 5; i--;)\<close>\<close>

fun compare_digits :: "bool \<Rightarrow> u32 list \<Rightarrow> u32 list \<Rightarrow> nat \<Rightarrow> CFComparisonResult" where
  "compare_digits negative a b 0 = kCFCompareEqualTo"
| "compare_digits negative a b (Suc i) =
     (if a ! i < b ! i
      then (if \<not> negative then kCFCompareLessThan else kCFCompareGreaterThan)
      else if b ! i < a ! i
      then (if negative then kCFCompareLessThan else kCFCompareGreaterThan)
      else compare_digits negative a b i)"

definition CFBigNumCompare :: "CFBigNum \<Rightarrow> CFBigNum \<Rightarrow> CFComparisonResult" where
  "CFBigNumCompare a b =
     (let sameSign = (sign a = sign b)
      in if sameSign
         then (let negative = (sint (sign a) < 0) in compare_digits negative (digits a) (digits b) 5)
         else if sint (sign a) < sint (sign b) then kCFCompareLessThan else kCFCompareGreaterThan)"

fun absolute_less_digits :: "u32 list \<Rightarrow> u32 list \<Rightarrow> nat \<Rightarrow> bool" where
  "absolute_less_digits a b 0 = False"
| "absolute_less_digits a b (Suc i) =
     (if a ! i < b ! i then True
      else if b ! i < a ! i then False
      else absolute_less_digits a b i)"

definition CFBigNumAbsoluteLessThan :: "CFBigNum \<Rightarrow> CFBigNum \<Rightarrow> bool" where
  "CFBigNumAbsoluteLessThan a b = absolute_less_digits (digits a) (digits b) 5"

text \<open>\<open>_CFNumberCreateWithBigNum\<close>: the type and value it hands to \<open>CFNumberCreate\<close>, or
  NULL when no machine integer is wide enough.\<close>

definition in_limits :: "CFBigNum \<Rightarrow> CFBigNum \<Rightarrow> CFBigNum \<Rightarrow> bool" where
  "in_limits input maxlimit minlimit =
     (let cr = CFBigNumCompare input maxlimit; crn = CFBigNumCompare input minlimit
      in (kCFCompareLessThan = cr \<or> kCFCompareEqualTo = cr) \<and> kCFCompareLessThan \<noteq> crn)"

definition CFNumberCreateWithBigNum :: "CFBigNum \<Rightarrow> (CFNumberType \<times> int) option" where
  "CFNumberCreateWithBigNum input =
     (let d = digits input
      in if 0 = d ! 4 \<and> 0 = d ! 3 \<and> 0 = d ! 2 \<and> 0 = d ! 1 \<and> d ! 0 \<le> 127
         then Some (kCFNumberSInt8Type, sint (CFBigNumGetInt8 input))
         else if 0 = d ! 4 \<and> 0 = d ! 3 \<and> 0 = d ! 2 \<and> 0 = d ! 1 \<and> d ! 0 \<le> 32767
         then Some (kCFNumberSInt16Type, sint (CFBigNumGetInt16 input))
         else if 0 = d ! 4 \<and> 0 = d ! 3 \<and> 0 = d ! 2
           \<and> in_limits input (CFBigNumInitWithInt32 (2 ^ 31 - 1)) (CFBigNumInitWithInt32 (2 ^ 31))
         then Some (kCFNumberSInt32Type, sint (CFBigNumGetInt32 input))
         else if 0 = d ! 4 \<and> 0 = d ! 3
           \<and> in_limits input (CFBigNumInitWithInt64 (2 ^ 63 - 1)) (CFBigNumInitWithInt64 (2 ^ 63))
         then Some (kCFNumberSInt64Type, sint (CFBigNumGetInt64 input))
         else if in_limits input (CFBigNumInitWithInt128 (2 ^ 127 - 1)) (CFBigNumInitWithInt128 (2 ^ 127))
         then Some (kCFNumberSInt128Type, sint (CFBigNumGetInt128 input))
         else None)"

section \<open>Arithmetic\<close>

definition CFBigNumNeg :: "CFBigNum \<Rightarrow> CFBigNum" where
  "CFBigNumNeg a =
     (let aIsZero = (\<forall>i \<in> set [0..<5]. digits a ! i = 0)
      in if \<not> aIsZero then a\<lparr>sign := sign a * sign a - 1\<rparr> else a)"

text \<open>The digit loops of \<open>_CFBigNumAdd\<close>; they return the digits and the final carry. The
  sum is a \<open>uint32_t\<close>, the difference an \<open>int64_t\<close>.\<close>

fun add_digits :: "u32 list \<Rightarrow> u32 list \<Rightarrow> u8 \<Rightarrow> u32 list \<times> u8" where
  "add_digits (x # xs) (y # ys) carry =
     (let result = x + y + ucast carry;
          (result, carry) = (if of_nat BIG_DIGITS_LIMIT < result
             then (result - of_nat BIG_DIGITS_LIMIT, 1) else (result, 0));
          (rest, carry) = add_digits xs ys carry
      in (result # rest, carry))"
| "add_digits _ _ carry = ([], carry)"

fun sub_digits :: "u32 list \<Rightarrow> u32 list \<Rightarrow> u8 \<Rightarrow> u32 list \<times> u8" where
  "sub_digits (x # xs) (y # ys) carry =
     (let result = uint x - uint y - uint carry;
          (result, carry) = (if result < 0 then (result + int BIG_DIGITS_LIMIT, 1) else (result, 0));
          (rest, carry) = sub_digits xs ys carry
      in (of_int result # rest, carry))"
| "sub_digits _ _ carry = ([], carry)"

definition CFBigNumAdd :: "CFBigNum \<Rightarrow> CFBigNum \<Rightarrow> CFBigNum \<times> u8" where
  "CFBigNumAdd a b =
     (let sameSign = (sign a = sign b)
      in if sameSign
         then (let (ds, carry) = add_digits (digits a) (digits b) 0
               in (\<lparr>digits = ds, sign = sign a\<rparr>, carry))
         else (let (bigNum, smallNum) = (if CFBigNumAbsoluteLessThan a b then (b, a) else (a, b));
                   (ds, carry) = sub_digits (digits bigNum) (digits smallNum) 0
               in (\<lparr>digits = ds, sign = (if sint (sign bigNum) < 0 then -1 else 0)\<rparr>, carry)))"

definition CFBigNumSub :: "CFBigNum \<Rightarrow> CFBigNum \<Rightarrow> CFBigNum \<times> u8" where
  "CFBigNumSub a b = CFBigNumAdd a (CFBigNumNeg b)"

lemma digits_CFBigNumNeg: "digits (CFBigNumNeg a) = digits a"
  by (simp add: CFBigNumNeg_def Let_def)

section \<open>Decimal text\<close>

text \<open>\<open>%09u\<close>\<close>

fun decimal :: "nat \<Rightarrow> string" where
  "decimal n = (if n < 10 then [char_of (48 + n)] else decimal (n div 10) @ [char_of (48 + n mod 10)])"

declare decimal.simps [simp del]

definition pad9 :: "u32 \<Rightarrow> string" where
  "pad9 d = (let s = decimal (unat d) in replicate (9 - length s) CHR ''0'' @ s)"

abbreviation NUL :: char where "NUL \<equiv> CHR 0x00"

text \<open>\<open>_CFBigNumToCString\<close>: the bytes it writes, from the start of \<open>buffer\<close>.\<close>

definition CFBigNumToCString :: "CFBigNum \<Rightarrow> bool \<Rightarrow> bool \<Rightarrow> u64 \<Rightarrow> string" where
  "CFBigNumToCString vp leading_zeros leading_plus buflen =
     (let (prefix, buflen) = (if sint (sign vp) < 0 then (''-'', buflen - 1)
            else if leading_plus then (''+'', buflen - 1) else ('''', buflen));
          d = digits vp;
          tmp = take 45 (pad9 (d ! 4) @ pad9 (d ! 3) @ pad9 (d ! 2) @ pad9 (d ! 1) @ pad9 (d ! 0)) @ [NUL]
      in if leading_zeros
         then (let tocopy = min 46 (unat buflen)
               in prefix @ replicate (unat buflen - tocopy) CHR ''0'' @ drop (46 - tocopy) tmp)
         else (let s = dropWhile (\<lambda>c. c = CHR ''0'') tmp;
                   s = (if hd s = NUL then CHR ''0'' # s else s)
               in if unat buflen = 0 then prefix
                  else prefix @ take (unat buflen - 1) (takeWhile (\<lambda>c. c \<noteq> NUL) s) @ [NUL]))"

text \<open>\<open>atol\<close> of the C library: white space, an optional sign, then digits up to the first
  other character; the result saturates.\<close>

definition is_digit :: "char \<Rightarrow> bool" where
  "is_digit c \<longleftrightarrow> 48 \<le> (of_char c :: nat) \<and> (of_char c :: nat) \<le> 57"

definition is_space :: "char \<Rightarrow> bool" where
  "is_space c \<longleftrightarrow> (of_char c :: nat) = 32 \<or> 9 \<le> (of_char c :: nat) \<and> (of_char c :: nat) \<le> 13"

definition decimal_value :: "string \<Rightarrow> int" where
  "decimal_value s = foldl (\<lambda>acc c. 10 * acc + (int (of_char c) - 48)) 0 s"

definition atol :: "string \<Rightarrow> int" where
  "atol s =
     (let s = dropWhile is_space s;
          (neg, s) = (if s \<noteq> [] \<and> hd s = CHR ''-'' then (True, tl s)
                      else if s \<noteq> [] \<and> hd s = CHR ''+'' then (False, tl s) else (False, s));
          v = decimal_value (takeWhile is_digit s)
      in if neg then max (- (2 ^ 63)) (- v) else min (2 ^ 63 - 1) v)"

text \<open>The digit loop of \<open>_CFBigNumFromCString\<close>: nine characters at a time from the end while
  more than nine remain and a digit is free; the last digit takes the rest.\<close>

fun parse_digits :: "nat \<Rightarrow> string \<Rightarrow> u32 list" where
  "parse_digits 0 working = [of_int (atol working)]"
| "parse_digits (Suc free) working =
     (if 9 < length working
      then of_int (atol (drop (length working - 9) working))
           # parse_digits free (take (length working - 9) working)
      else [of_int (atol working)])"

definition CFBigNumFromCString :: "string \<Rightarrow> CFBigNum" where
  "CFBigNumFromCString str =
     (let (sg, working) = (if str \<noteq> [] \<and> hd str = CHR ''-'' then (-1, tl str)
             else if str \<noteq> [] \<and> hd str = CHR ''+'' then (0, tl str) else (0, str));
          working = dropWhile (\<lambda>c. c = CHR ''0'') working
      in if length working = 0 then \<lparr>digits = [0, 0, 0, 0, 0], sign = sg\<rparr>
         else (let ds = parse_digits 4 working
               in \<lparr>digits = ds @ replicate (5 - length ds) 0, sign = sg\<rparr>))"

section \<open>Values\<close>

text \<open>The number a digit list stands for in a given base.\<close>

definition digits_value :: "int \<Rightarrow> u32 list \<Rightarrow> int" where
  "digits_value base ds = foldr (\<lambda>d acc. uint d + base * acc) ds 0"

lemma digits_value_Nil [simp]: "digits_value base [] = 0"
  and digits_value_Cons [simp]: "digits_value base (d # ds) = uint d + base * digits_value base ds"
  by (simp_all add: digits_value_def)

lemma digits_value_append:
  "digits_value base (xs @ ys) = digits_value base xs + base ^ length xs * digits_value base ys"
  by (induction xs) (simp_all add: algebra_simps)

lemma digits_value_nonneg: "0 \<le> base \<Longrightarrow> 0 \<le> digits_value base ds"
  by (induction ds) simp_all

lemma digits_value_less:
  "\<forall>d \<in> set ds. uint d < base \<Longrightarrow> 0 \<le> base \<Longrightarrow> digits_value base ds < base ^ length ds"
proof (induction ds)
  case (Cons d ds)
  then have "uint d < base" "digits_value base ds + 1 \<le> base ^ length ds" by simp_all
  then have "uint d < base" "base * (digits_value base ds + 1) \<le> base * base ^ length ds"
    using mult_left_mono [OF _ \<open>0 \<le> base\<close>] by blast+
  then show ?case by (simp add: algebra_simps)
qed simp

lemma digits_value_take_Suc:
  "i < length ds \<Longrightarrow>
     digits_value base (take (Suc i) ds) = digits_value base (take i ds) + base ^ i * uint (ds ! i)"
  by (simp add: take_Suc_conv_app_nth digits_value_append min_def)

lemma digits_value_take_less:
  "\<forall>d \<in> set ds. uint d < base \<Longrightarrow> 0 \<le> base \<Longrightarrow> i \<le> length ds \<Longrightarrow>
     digits_value base (take i ds) < base ^ i"
  using digits_value_less [of "take i ds" base] by (auto simp: min_absorb2 dest: in_set_takeD)

lemma digits_value_zero_iff:
  "0 < base \<Longrightarrow> digits_value base ds = 0 \<longleftrightarrow> (\<forall>d \<in> set ds. d = 0)"
proof (induction ds)
  case (Cons d ds)
  have "0 \<le> uint d" "0 \<le> base * digits_value base ds"
    using Cons.prems digits_value_nonneg [of base ds] by simp_all
  then have "digits_value base (d # ds) = 0 \<longleftrightarrow> uint d = 0 \<and> base * digits_value base ds = 0"
    by (simp only: digits_value_Cons add_nonneg_eq_0_iff)
  then show ?case using Cons by (simp add: uint_0_iff)
qed simp

text \<open>\<open>canonical\<close> is the invariant of the component. \<open>bn_value\<close> is the integer.\<close>

definition canonical_digits :: "u32 list \<Rightarrow> bool" where
  "canonical_digits ds \<longleftrightarrow> length ds = 5 \<and> (\<forall>d \<in> set ds. uint d < int BIG_DIGITS_LIMIT)"

abbreviation abs_value :: "CFBigNum \<Rightarrow> int" where
  "abs_value n \<equiv> digits_value (int BIG_DIGITS_LIMIT) (digits n)"

definition bn_value :: "CFBigNum \<Rightarrow> int" where
  "bn_value n = (if sign n = 0 then abs_value n else - abs_value n)"

definition canonical :: "CFBigNum \<Rightarrow> bool" where
  "canonical n \<longleftrightarrow> canonical_digits (digits n) \<and> sign n \<in> {0, -1} \<and> (abs_value n = 0 \<longrightarrow> sign n = 0)"

lemma sint_sign [simp]: "sint (0 :: 8 word) = 0" "sint (-1 :: 8 word) = -1"
  by simp_all

text \<open>Comparison of integers, to which comparison of digits reduces.\<close>

definition int_compare :: "int \<Rightarrow> int \<Rightarrow> CFComparisonResult" where
  "int_compare a b = (if a < b then kCFCompareLessThan
     else if a = b then kCFCompareEqualTo else kCFCompareGreaterThan)"

interpretation int_cmp: comparator int_compare
  by unfold_locales (auto simp: int_compare_def split: if_splits)

lemma top_digit_less:
  fixes x y :: int
  assumes "v < base ^ i" "0 \<le> w" "x < y" "0 \<le> base"
  shows "v + base ^ i * x < w + base ^ i * y"
proof -
  have "base ^ i * (x + 1) \<le> base ^ i * y" using assms by (intro mult_left_mono) auto
  then show ?thesis using assms by (simp add: algebra_simps)
qed

lemma compare_digits_value:
  assumes "\<forall>d \<in> set a. uint d < base" "\<forall>d \<in> set b. uint d < base" "0 \<le> base"
  shows "i \<le> length a \<Longrightarrow> i \<le> length b \<Longrightarrow> compare_digits negative a b i =
     (if negative then int_compare (- digits_value base (take i a)) (- digits_value base (take i b))
      else int_compare (digits_value base (take i a)) (digits_value base (take i b)))"
proof (induction i)
  case 0 then show ?case by (simp add: int_compare_def)
next
  case (Suc i)
  have lim: "digits_value base (take i a) < base ^ i" "digits_value base (take i b) < base ^ i"
    using Suc.prems assms digits_value_take_less by simp_all
  have pos: "0 \<le> digits_value base (take i a)" "0 \<le> digits_value base (take i b)"
    using assms(3) by (simp_all add: digits_value_nonneg)
  have val: "digits_value base (take (Suc i) a) = digits_value base (take i a) + base ^ i * uint (a ! i)"
    "digits_value base (take (Suc i) b) = digits_value base (take i b) + base ^ i * uint (b ! i)"
    using Suc.prems by (simp_all add: digits_value_take_Suc)
  consider "uint (a ! i) < uint (b ! i)" | "uint (b ! i) < uint (a ! i)" | "a ! i = b ! i"
    by (metis linorder_neqE word_uint_eq_iff)
  then show ?case
  proof cases
    case 1
    from top_digit_less [OF lim(1) pos(2) 1 assms(3)] show ?thesis
      using 1 val by (simp add: word_less_def int_compare_def)
  next
    case 2
    from top_digit_less [OF lim(2) pos(1) 2 assms(3)] show ?thesis
      using 2 val by (simp add: word_less_def int_compare_def)
  next
    case 3
    then show ?thesis using Suc val by (simp add: int_compare_def)
  qed
qed

lemma absolute_less_digits_compare:
  "absolute_less_digits a b i \<longleftrightarrow> compare_digits False a b i = kCFCompareLessThan"
  by (induction i) simp_all

lemma canonical_compare_digits:
  assumes "canonical_digits a" "canonical_digits b"
  shows "compare_digits negative a b 5 =
     (if negative then int_compare (- digits_value (int BIG_DIGITS_LIMIT) a) (- digits_value (int BIG_DIGITS_LIMIT) b)
      else int_compare (digits_value (int BIG_DIGITS_LIMIT) a) (digits_value (int BIG_DIGITS_LIMIT) b))"
  using compare_digits_value [of a "int BIG_DIGITS_LIMIT" b 5 negative] assms
  by (simp add: canonical_digits_def)

lemma CFBigNumCompare_canonical:
  assumes "canonical a" "canonical b"
  shows "CFBigNumCompare a b = int_compare (bn_value a) (bn_value b)"
proof -
  have cd: "canonical_digits (digits a)" "canonical_digits (digits b)" using assms by (simp_all add: canonical_def)
  have pos: "0 \<le> abs_value a" "0 \<le> abs_value b" by (simp_all add: digits_value_nonneg)
  have strict: "sign a \<noteq> 0 \<Longrightarrow> 0 < abs_value a" "sign b \<noteq> 0 \<Longrightarrow> 0 < abs_value b"
    using assms pos unfolding canonical_def by (metis order_le_less)+
  have "sign a = 0 \<or> sign a = -1" "sign b = 0 \<or> sign b = -1" using assms by (auto simp: canonical_def)
  then show ?thesis
    using canonical_compare_digits [OF cd] pos strict
    by (elim disjE) (simp_all add: CFBigNumCompare_def bn_value_def int_compare_def)
qed

section \<open>Initialisation is exact\<close>

lemma uint_magnitude_of: "uint (magnitude_of n) = \<bar>sint n\<bar>"
proof (cases "sint n < 0")
  case True
  have "uint (- n) = (- uint n) mod 2 ^ LENGTH('a)" by (simp only: uint_word_ariths)
  also have "uint n = sint n mod 2 ^ LENGTH('a)" by (simp only: uint_sint take_bit_eq_mod)
  also have "(- (sint n mod 2 ^ LENGTH('a))) mod 2 ^ LENGTH('a) = (- sint n) mod 2 ^ LENGTH('a)"
    by (rule mod_minus_eq)
  finally have "uint (- n) = (- sint n) mod 2 ^ LENGTH('a)" .
  moreover have "- (2 ^ (LENGTH('a) - 1)) \<le> sint n" using sint_greater_eq [of n] by simp
  moreover have "(2::int) ^ (LENGTH('a) - 1) < 2 ^ LENGTH('a)" by simp
  ultimately show ?thesis using True by (simp add: magnitude_of_def)
next
  case False
  have "sint n < 2 ^ (LENGTH('a) - 1)" using sint_less [of n] by simp
  also have "(2::int) ^ (LENGTH('a) - 1) < 2 ^ LENGTH('a)" by simp
  finally have "sint n < 2 ^ LENGTH('a)" .
  then show ?thesis using False
    by (simp add: magnitude_of_def uint_sint take_bit_int_eq_self)
qed

lemma minus_div_word: "(w :: 'a::len word) - (w div v) * v = w mod v"
  by (rule minus_div_mult_eq_mod)

lemma split32_digits:
  "canonical_digits (split32 w) \<and> digits_value (int BIG_DIGITS_LIMIT) (split32 w) = uint w"
proof -
  have "uint w < 2 ^ 32" using uint_lt2p [of w] by simp
  then show ?thesis
    by (simp add: split32_def canonical_digits_def Let_def minus_div_word uint_div uint_mod)
qed

lemma ucast_ucast_id:
  "uint w < 2 ^ LENGTH('b::len) \<Longrightarrow> ucast (ucast (w :: 'a::len word) :: 'b word) = w"
  by (rule word_uint_eq_iff [THEN iffD2]) (simp add: unsigned_ucast_eq unsigned_take_bit_eq take_bit_int_eq_self)

lemma ucast_uint_id: "uint (w :: 'a::len word) < 2 ^ LENGTH('b::len) \<Longrightarrow> uint (ucast w :: 'b word) = uint w"
  by (simp add: unsigned_ucast_eq take_bit_int_eq_self)

lemma split64_digits:
  "canonical_digits (split64 w) \<and> digits_value (int BIG_DIGITS_LIMIT) (split64 w) = uint w"
proof -
  have "uint w < 2 ^ 64" using uint_lt2p [of w] by simp
  then have q: "uint w div 1000000000000000000 < 1000000000" by simp
  have m: "uint w mod 1000000000000000000 div 1000000000 < 1000000000" by (simp add: div_less_iff_less_mult)
  show ?thesis using q m
    by (simp add: split64_def canonical_digits_def Let_def minus_div_word uint_div uint_mod ucast_ucast_id ucast_uint_id)
qed

lemma mod_div_less: "0 < q \<Longrightarrow> 0 < r \<Longrightarrow> (x :: int) mod (q * r) div q < r"
proof (rule ccontr)
  assume pos: "0 < q" "0 < r" and "\<not> x mod (q * r) div q < r"
  then have "q * r \<le> q * (x mod (q * r) div q)" by simp
  also have "\<dots> \<le> x mod (q * r)"
    using mult_div_mod_eq [of q "x mod (q * r)"] pos_mod_sign [OF pos(1), of "x mod (q * r)"] by linarith
  also have "\<dots> < q * r" using pos by (intro pos_mod_bound mult_pos_pos)
  finally show False by simp
qed

lemma split_step:
  fixes w c :: "'a::len word" and d :: u32
  assumes "d = ucast (w div c)" "uint w div uint c < 1000000000"
  shows "uint d = uint w div uint c \<and> uint (w - ucast d * c) = uint w mod uint c
    \<and> uint w = uint c * uint d + uint (w - ucast d * c)"
proof -
  have "uint (w div c) < 2 ^ LENGTH(32)" using assms(2) by (simp add: uint_div)
  then show ?thesis using assms(1)
    by (simp add: ucast_ucast_id ucast_uint_id minus_div_word uint_div uint_mod)
qed

lemma split128_digits:
  "canonical_digits (split128 w) \<and> digits_value (int BIG_DIGITS_LIMIT) (split128 w) = uint w"
proof -
  let ?B = "1000000000 :: int" and ?B2 = "1000000000000000000 :: int"
    and ?B3 = "1000000000000000000000000000 :: int" and ?B4 = "1000000000000000000000000000000000000 :: int"
  let ?c = "1000000000 :: u128" and ?c2 = "1000000000000000000 :: u128"
    and ?c3 = "1000000000000000000000000000 :: u128" and ?c4 = "1000000000000000000000000000000000000 :: u128"
  have c: "uint ?c = ?B" "uint ?c2 = ?B2" "uint ?c3 = ?B3" "uint ?c4 = ?B4" by simp_all
  define d4 :: u32 where "d4 = ucast (w div ?c4)"
  define w3 where "w3 = w - ucast d4 * ?c4"
  define d3 :: u32 where "d3 = ucast (w3 div ?c3)"
  define w2 where "w2 = w3 - ucast d3 * ?c3"
  define d2 :: u32 where "d2 = ucast (w2 div ?c2)"
  define w1 where "w1 = w2 - ucast d2 * ?c2"
  define d1 :: u32 where "d1 = ucast (w1 div ?c)"
  define w0 where "w0 = w1 - ucast d1 * ?c"
  have "uint w < 2 ^ 128" using uint_lt2p [of w] by simp
  then have q4: "uint w div uint ?c4 < 1000000000" by simp
  note s4 = split_step [OF d4_def q4, unfolded c, folded w3_def]
  from s4 have "uint w3 = uint w mod ?B4" by blast
  then have q3: "uint w3 div uint ?c3 < 1000000000"
    using mod_div_less [of ?B3 ?B "uint w"] by simp
  note s3 = split_step [OF d3_def q3, unfolded c, folded w2_def]
  from s3 have "uint w2 = uint w3 mod ?B3" by blast
  then have q2: "uint w2 div uint ?c2 < 1000000000"
    using mod_div_less [of ?B2 ?B "uint w3"] by simp
  note s2 = split_step [OF d2_def q2, unfolded c, folded w1_def]
  from s2 have "uint w1 = uint w2 mod ?B2" by blast
  then have q1: "uint w1 div uint ?c < 1000000000"
    using mod_div_less [of ?B ?B "uint w2"] by simp
  note s1 = split_step [OF d1_def q1, unfolded c, folded w0_def]
  from s1 have "uint w0 = uint w1 mod ?B" by blast
  then have q0: "uint w0 < ?B" by simp
  have d0: "uint (ucast w0 :: u32) = uint w0" using q0 by (intro ucast_uint_id) simp
  have "split128 w = [ucast w0, d1, d2, d3, d4]"
    by (simp only: split128_def Let_def w0_def d1_def w1_def d2_def w2_def d3_def w3_def d4_def
        of_nat_numeral)
  moreover have "uint w = ?B4 * uint d4 + uint w3" "uint w3 = ?B3 * uint d3 + uint w2"
    "uint w2 = ?B2 * uint d2 + uint w1" "uint w1 = ?B * uint d1 + uint w0"
    using s4 s3 s2 s1 by blast+
  moreover have "uint d4 < ?B" "uint d3 < ?B" "uint d2 < ?B" "uint d1 < ?B"
    using s4 s3 s2 s1 q4 q3 q2 q1 unfolding c by metis+
  ultimately show ?thesis using q0 d0 by (simp add: canonical_digits_def)
qed

lemma small_digits:
  "uint d < int BIG_DIGITS_LIMIT \<Longrightarrow>
   canonical_digits [d, 0, 0, 0, 0] \<and> digits_value (int BIG_DIGITS_LIMIT) [d, 0, 0, 0, 0] = uint d"
  by (simp add: canonical_digits_def)

lemma signed_init:
  fixes w :: "'n::len word"
  assumes "canonical_digits ds \<and> digits_value (int BIG_DIGITS_LIMIT) ds = uint (magnitude_of w)"
  shows "canonical \<lparr>digits = ds, sign = sign_of w\<rparr> \<and> bn_value \<lparr>digits = ds, sign = sign_of w\<rparr> = sint w"
proof -
  have "digits_value (int BIG_DIGITS_LIMIT) ds = \<bar>sint w\<bar>" using assms by (simp only: uint_magnitude_of)
  then show ?thesis using assms by (auto simp: canonical_def bn_value_def sign_of_def)
qed

lemma unsigned_init:
  assumes "canonical_digits ds \<and> digits_value (int BIG_DIGITS_LIMIT) ds = v"
  shows "canonical \<lparr>digits = ds, sign = 0\<rparr> \<and> bn_value \<lparr>digits = ds, sign = 0\<rparr> = v"
  using assms by (simp add: canonical_def bn_value_def)

lemma small_word:
  fixes w :: "'n::len word"
  assumes "LENGTH('n) \<le> 16"
  shows "canonical_digits [ucast w, 0, 0, 0, 0]
    \<and> digits_value (int BIG_DIGITS_LIMIT) [ucast w, 0, 0, 0, 0] = uint w"
proof -
  have "uint w < 2 ^ LENGTH('n)" by (rule uint_lt2p)
  also have "(2::int) ^ LENGTH('n) \<le> 2 ^ 16" using assms by (intro power_increasing) auto
  finally have lt: "uint w < 65536" by simp
  then have "uint (ucast w :: u32) = uint w" by (intro ucast_uint_id) simp
  with lt show ?thesis using small_digits [of "ucast w"] by simp
qed

lemma init_signed:
  "canonical (CFBigNumInitWithInt8 w8) \<and> bn_value (CFBigNumInitWithInt8 w8) = sint w8"
  "canonical (CFBigNumInitWithInt16 w16) \<and> bn_value (CFBigNumInitWithInt16 w16) = sint w16"
  "canonical (CFBigNumInitWithInt32 w32) \<and> bn_value (CFBigNumInitWithInt32 w32) = sint w32"
  "canonical (CFBigNumInitWithInt64 w64) \<and> bn_value (CFBigNumInitWithInt64 w64) = sint w64"
  "canonical (CFBigNumInitWithInt128 w128) \<and> bn_value (CFBigNumInitWithInt128 w128) = sint w128"
  by (simp_all only: CFBigNumInitWithInt8_def CFBigNumInitWithInt16_def CFBigNumInitWithInt32_def
      CFBigNumInitWithInt64_def CFBigNumInitWithInt128_def)
    ((intro signed_init small_word split32_digits split64_digits split128_digits; simp)+)

lemma init_unsigned:
  "canonical (CFBigNumInitWithUInt8 w8) \<and> bn_value (CFBigNumInitWithUInt8 w8) = uint w8"
  "canonical (CFBigNumInitWithUInt16 w16) \<and> bn_value (CFBigNumInitWithUInt16 w16) = uint w16"
  "canonical (CFBigNumInitWithUInt32 w32) \<and> bn_value (CFBigNumInitWithUInt32 w32) = uint w32"
  "canonical (CFBigNumInitWithUInt64 w64) \<and> bn_value (CFBigNumInitWithUInt64 w64) = uint w64"
  "canonical (CFBigNumInitWithUInt128 w128) \<and> bn_value (CFBigNumInitWithUInt128 w128) = uint w128"
  by (simp_all only: CFBigNumInitWithUInt8_def CFBigNumInitWithUInt16_def CFBigNumInitWithUInt32_def
      CFBigNumInitWithUInt64_def CFBigNumInitWithUInt128_def)
    ((intro unsigned_init small_word split32_digits split64_digits split128_digits; simp)+)

lemma five: "length ds = 5 \<Longrightarrow> \<exists>a b c d e. ds = [a, b, c, d, e]"
  by (auto simp: numeral_eq_Suc length_Suc_conv)

text \<open>A getter returns the value modulo its width when the digits it does not read are 0.\<close>

lemma getters_wrap:
  assumes "length (digits n) = 5" "sign n \<in> {0, -1}"
  shows "CFBigNumGetInt128 n = of_int (bn_value n)"
    and "CFBigNumGetUInt128 n = of_int (abs_value n)"
    and "digits n ! 3 = 0 \<Longrightarrow> digits n ! 4 = 0 \<Longrightarrow> CFBigNumGetInt64 n = of_int (bn_value n)"
    and "digits n ! 3 = 0 \<Longrightarrow> digits n ! 4 = 0 \<Longrightarrow> CFBigNumGetUInt64 n = of_int (abs_value n)"
    and "digits n ! 2 = 0 \<Longrightarrow> digits n ! 3 = 0 \<Longrightarrow> digits n ! 4 = 0 \<Longrightarrow>
      CFBigNumGetInt32 n = of_int (bn_value n)"
    and "digits n ! 2 = 0 \<Longrightarrow> digits n ! 3 = 0 \<Longrightarrow> digits n ! 4 = 0 \<Longrightarrow>
      CFBigNumGetUInt32 n = of_int (abs_value n)"
    and "digits n ! 1 = 0 \<Longrightarrow> digits n ! 2 = 0 \<Longrightarrow> digits n ! 3 = 0 \<Longrightarrow> digits n ! 4 = 0 \<Longrightarrow>
      CFBigNumGetInt16 n = of_int (bn_value n) \<and> CFBigNumGetInt8 n = of_int (bn_value n)
      \<and> CFBigNumGetUInt16 n = of_int (abs_value n) \<and> CFBigNumGetUInt8 n = of_int (abs_value n)"
  using five [OF assms(1)] assms(2)
  by (auto simp: CFBigNumGetInt128_def CFBigNumGetUInt128_def CFBigNumGetInt64_def
      CFBigNumGetUInt64_def CFBigNumGetInt32_def CFBigNumGetUInt32_def CFBigNumGetInt16_def
      CFBigNumGetUInt16_def CFBigNumGetInt8_def CFBigNumGetUInt8_def
      with_sign_def bn_value_def algebra_simps)

lemma abs_value_nonneg: "0 \<le> abs_value n"
  by (simp add: digits_value_nonneg)

lemma abs_bn_value: "\<bar>bn_value n\<bar> = abs_value n"
  by (simp add: bn_value_def digits_value_nonneg)

text \<open>The leading digits that a bound on the value forces to be zero.\<close>

lemma leading_zeros:
  assumes "canonical n"
  shows "abs_value n < 10 ^ 27 \<longleftrightarrow> digits n ! 3 = 0 \<and> digits n ! 4 = 0"
    and "abs_value n < 10 ^ 18 \<longleftrightarrow> digits n ! 2 = 0 \<and> digits n ! 3 = 0 \<and> digits n ! 4 = 0"
    and "abs_value n < 10 ^ 9 \<longleftrightarrow>
      digits n ! 1 = 0 \<and> digits n ! 2 = 0 \<and> digits n ! 3 = 0 \<and> digits n ! 4 = 0"
proof -
  obtain a b c d e where n: "digits n = [a, b, c, d, e]"
    using five [of "digits n"] assms unfolding canonical_def canonical_digits_def by blast
  have pos: "0 \<le> uint a" "0 \<le> uint b" "0 \<le> uint c" "0 \<le> uint d" "0 \<le> uint e" by simp_all
  have lt: "uint a < 1000000000" "uint b < 1000000000" "uint c < 1000000000" "uint d < 1000000000"
    using assms by (simp_all add: canonical_def canonical_digits_def n)
  show "abs_value n < 10 ^ 27 \<longleftrightarrow> digits n ! 3 = 0 \<and> digits n ! 4 = 0"
    using lt by (simp add: n uint_0_iff [symmetric])
      (insert pos, rule iffI, (intro conjI; linarith), (elim conjE, linarith))
  show "abs_value n < 10 ^ 18 \<longleftrightarrow> digits n ! 2 = 0 \<and> digits n ! 3 = 0 \<and> digits n ! 4 = 0"
    using lt by (simp add: n uint_0_iff [symmetric])
      (insert pos, rule iffI, (intro conjI; linarith), (elim conjE, linarith))
  show "abs_value n < 10 ^ 9 \<longleftrightarrow>
      digits n ! 1 = 0 \<and> digits n ! 2 = 0 \<and> digits n ! 3 = 0 \<and> digits n ! 4 = 0"
    using lt by (simp add: n uint_0_iff [symmetric])
      (insert pos, rule iffI, (intro conjI; linarith), (elim conjE, linarith))
qed

lemma canonical_shape: "canonical n \<Longrightarrow> length (digits n) = 5 \<and> sign n \<in> {0, -1}"
  by (simp add: canonical_def canonical_digits_def)

lemma sint_of_int:
  "- (2 ^ (LENGTH('n) - 1)) \<le> v \<Longrightarrow> v < 2 ^ (LENGTH('n) - 1) \<Longrightarrow> sint (of_int v :: 'n::len word) = v"
  by (simp add: signed_of_int signed_take_bit_int_eq_self)

lemma in_limits_value:
  assumes "canonical n" "canonical hi" "canonical lo"
  shows "in_limits n hi lo \<longleftrightarrow> bn_value lo \<le> bn_value n \<and> bn_value n \<le> bn_value hi"
  using assms by (auto simp: in_limits_def CFBigNumCompare_canonical int_compare_def Let_def)

lemma limits:
  assumes "canonical n"
  shows "in_limits n (CFBigNumInitWithInt32 (2 ^ 31 - 1)) (CFBigNumInitWithInt32 (2 ^ 31))
      \<longleftrightarrow> - (2 ^ 31) \<le> bn_value n \<and> bn_value n < 2 ^ 31"
    and "in_limits n (CFBigNumInitWithInt64 (2 ^ 63 - 1)) (CFBigNumInitWithInt64 (2 ^ 63))
      \<longleftrightarrow> - (2 ^ 63) \<le> bn_value n \<and> bn_value n < 2 ^ 63"
    and "in_limits n (CFBigNumInitWithInt128 (2 ^ 127 - 1)) (CFBigNumInitWithInt128 (2 ^ 127))
      \<longleftrightarrow> - (2 ^ 127) \<le> bn_value n \<and> bn_value n < 2 ^ 127"
proof -
  have v: "sint (2 ^ 31 - 1 :: u32) = 2 ^ 31 - 1" "sint (2 ^ 31 :: u32) = - (2 ^ 31)"
    "sint (2 ^ 63 - 1 :: u64) = 2 ^ 63 - 1" "sint (2 ^ 63 :: u64) = - (2 ^ 63)"
    "sint (2 ^ 127 - 1 :: u128) = 2 ^ 127 - 1" "sint (2 ^ 127 :: u128) = - (2 ^ 127)"
    by simp_all
  show "in_limits n (CFBigNumInitWithInt32 (2 ^ 31 - 1)) (CFBigNumInitWithInt32 (2 ^ 31))
      \<longleftrightarrow> - (2 ^ 31) \<le> bn_value n \<and> bn_value n < 2 ^ 31"
    by (simp only: in_limits_value [OF assms] init_signed v) (simp, arith)
  show "in_limits n (CFBigNumInitWithInt64 (2 ^ 63 - 1)) (CFBigNumInitWithInt64 (2 ^ 63))
      \<longleftrightarrow> - (2 ^ 63) \<le> bn_value n \<and> bn_value n < 2 ^ 63"
    by (simp only: in_limits_value [OF assms] init_signed v) (simp, arith)
  show "in_limits n (CFBigNumInitWithInt128 (2 ^ 127 - 1)) (CFBigNumInitWithInt128 (2 ^ 127))
      \<longleftrightarrow> - (2 ^ 127) \<le> bn_value n \<and> bn_value n < 2 ^ 127"
    by (simp only: in_limits_value [OF assms] init_signed v) (simp, arith)
qed

lemma CFNumberCreateWithBigNum_value:
  assumes "canonical n"
  shows "CFNumberCreateWithBigNum n =
    (let v = bn_value n
     in if \<bar>v\<bar> \<le> 127 then Some (kCFNumberSInt8Type, v)
        else if \<bar>v\<bar> \<le> 32767 then Some (kCFNumberSInt16Type, v)
        else if - (2 ^ 31) \<le> v \<and> v < 2 ^ 31 then Some (kCFNumberSInt32Type, v)
        else if - (2 ^ 63) \<le> v \<and> v < 2 ^ 63 then Some (kCFNumberSInt64Type, v)
        else if - (2 ^ 127) \<le> v \<and> v < 2 ^ 127 then Some (kCFNumberSInt128Type, v)
        else None)"
proof -
  note z = leading_zeros [OF assms] and g = getters_wrap [OF conjunct1 [OF canonical_shape [OF assms]]
    conjunct2 [OF canonical_shape [OF assms]]]
  let ?v = "bn_value n"
  obtain a b c d e where n: "digits n = [a, b, c, d, e]"
    using five [of "digits n"] assms unfolding canonical_def canonical_digits_def by blast
  have d0: "digits n ! 1 = 0 \<and> digits n ! 2 = 0 \<and> digits n ! 3 = 0 \<and> digits n ! 4 = 0 \<Longrightarrow>
      abs_value n = uint (digits n ! 0)" by (simp add: n)
  have small: "0 = digits n ! 4 \<and> 0 = digits n ! 3 \<and> 0 = digits n ! 2 \<and> 0 = digits n ! 1 \<and> digits n ! 0 \<le> 127
      \<longleftrightarrow> \<bar>?v\<bar> \<le> 127"
    "0 = digits n ! 4 \<and> 0 = digits n ! 3 \<and> 0 = digits n ! 2 \<and> 0 = digits n ! 1 \<and> digits n ! 0 \<le> 32767
      \<longleftrightarrow> \<bar>?v\<bar> \<le> 32767"
    unfolding abs_bn_value using d0 z(3) by (auto simp: word_le_def)
  have mid: "0 = digits n ! 4 \<and> 0 = digits n ! 3 \<and> 0 = digits n ! 2 \<and> P \<longleftrightarrow> Q"
    if "P \<longleftrightarrow> Q" "Q \<Longrightarrow> abs_value n < 10 ^ 18" for P Q
    using that z(2) by auto
  have high: "0 = digits n ! 4 \<and> 0 = digits n ! 3 \<and> P \<longleftrightarrow> Q"
    if "P \<longleftrightarrow> Q" "Q \<Longrightarrow> abs_value n < 10 ^ 27" for P Q
    using that z(1) by auto
  have c32: "- (2 ^ 31) \<le> ?v \<and> ?v < 2 ^ 31 \<Longrightarrow> abs_value n < 10 ^ 18"
    and c64: "- (2 ^ 63) \<le> ?v \<and> ?v < 2 ^ 63 \<Longrightarrow> abs_value n < 10 ^ 27"
    unfolding abs_bn_value [symmetric] by auto
  have v8: "\<bar>?v\<bar> \<le> 127 \<Longrightarrow> sint (CFBigNumGetInt8 n) = ?v"
    and v16: "\<bar>?v\<bar> \<le> 32767 \<Longrightarrow> sint (CFBigNumGetInt16 n) = ?v"
    using g(7) z(3) abs_bn_value [of n] by (auto intro!: sint_of_int)
  have v32: "- (2 ^ 31) \<le> ?v \<and> ?v < 2 ^ 31 \<Longrightarrow> sint (CFBigNumGetInt32 n) = ?v"
    and v64: "- (2 ^ 63) \<le> ?v \<and> ?v < 2 ^ 63 \<Longrightarrow> sint (CFBigNumGetInt64 n) = ?v"
    and v128: "- (2 ^ 127) \<le> ?v \<and> ?v < 2 ^ 127 \<Longrightarrow> sint (CFBigNumGetInt128 n) = ?v"
    using g(1,3,5) z(1,2) c32 c64 by (auto intro!: sint_of_int)
  have m32: "0 = digits n ! 4 \<and> 0 = digits n ! 3 \<and> 0 = digits n ! 2
      \<and> in_limits n (CFBigNumInitWithInt32 (2 ^ 31 - 1)) (CFBigNumInitWithInt32 (2 ^ 31))
      \<longleftrightarrow> - (2 ^ 31) \<le> ?v \<and> ?v < 2 ^ 31"
    by (rule mid) (rule limits(1) [OF assms], rule c32)
  have m64: "0 = digits n ! 4 \<and> 0 = digits n ! 3
      \<and> in_limits n (CFBigNumInitWithInt64 (2 ^ 63 - 1)) (CFBigNumInitWithInt64 (2 ^ 63))
      \<longleftrightarrow> - (2 ^ 63) \<le> ?v \<and> ?v < 2 ^ 63"
    by (rule high) (rule limits(2) [OF assms], rule c64)
  show ?thesis
    unfolding CFNumberCreateWithBigNum_def Let_def small m32 m64 limits(3) [OF assms]
    by (simp only: v8 v16 v32 v64 v128 cong: if_cong)
qed

section \<open>Comparison is a comparator\<close>

text \<open>The contract of comparison callbacks holds of every number, canonical or not.\<close>

lemma compare_digits_refl: "compare_digits negative a a i = kCFCompareEqualTo"
  by (induction i) simp_all

lemma compare_digits_anti:
  "compare_digits negative a b i = kCFCompareGreaterThan \<longleftrightarrow> compare_digits negative b a i = kCFCompareLessThan"
  by (induction i) auto

lemma compare_digits_trans:
  "compare_digits negative a b i \<noteq> kCFCompareGreaterThan \<Longrightarrow>
   compare_digits negative b c i \<noteq> kCFCompareGreaterThan \<Longrightarrow>
   compare_digits negative a c i \<noteq> kCFCompareGreaterThan"
  by (induction i) (auto split: if_splits)

lemma CFBigNumCompare_ngt:
  "CFBigNumCompare a b \<noteq> kCFCompareGreaterThan \<longleftrightarrow> sint (sign a) < sint (sign b)
     \<or> sign a = sign b \<and> compare_digits (sint (sign a) < 0) (digits a) (digits b) 5 \<noteq> kCFCompareGreaterThan"
  by (simp add: CFBigNumCompare_def)

interpretation bignum_cmp: comparator CFBigNumCompare
proof
  fix a b c :: CFBigNum
  show "CFBigNumCompare a a = kCFCompareEqualTo"
    by (simp add: CFBigNumCompare_def compare_digits_refl)
  show "CFBigNumCompare a b = kCFCompareGreaterThan \<longleftrightarrow> CFBigNumCompare b a = kCFCompareLessThan"
  proof (cases "sign a = sign b")
    case True
    then show ?thesis using compare_digits_anti by (simp add: CFBigNumCompare_def)
  next
    case False
    then have "sint (sign a) \<noteq> sint (sign b)" using signed_word_eqI by blast
    then show ?thesis using False by (auto simp: CFBigNumCompare_def)
  qed
  assume "CFBigNumCompare a b \<noteq> kCFCompareGreaterThan" "CFBigNumCompare b c \<noteq> kCFCompareGreaterThan"
  then show "CFBigNumCompare a c \<noteq> kCFCompareGreaterThan"
    unfolding CFBigNumCompare_ngt using compare_digits_trans by (elim disjE conjE) simp_all
qed

section \<open>Addition\<close>

lemma add_digits_value:
  "length xs = length ys \<Longrightarrow> \<forall>d \<in> set xs. uint d < int BIG_DIGITS_LIMIT \<Longrightarrow>
   \<forall>d \<in> set ys. uint d < int BIG_DIGITS_LIMIT \<Longrightarrow> uint carry \<le> 1 \<Longrightarrow>
   add_digits xs ys carry = (ds, carry') \<Longrightarrow>
     length ds = length xs \<and> uint carry' \<le> 1 \<and>
     digits_value (int BIG_DIGITS_LIMIT) ds + int BIG_DIGITS_LIMIT ^ length xs * uint carry' =
     digits_value (int BIG_DIGITS_LIMIT) xs + digits_value (int BIG_DIGITS_LIMIT) ys + uint carry"
proof (induction xs ys arbitrary: carry ds carry' rule: list_induct2')
  case (4 x xs y ys)
  have c: "uint (ucast carry :: u32) = uint carry" using "4.prems"(4) by (intro ucast_uint_id) simp
  have r: "uint (x + y + ucast carry) = uint x + uint y + uint carry"
    using "4.prems" uint_lt2p [of x] by (simp add: uint_word_ariths c mod_pos_pos_trivial)
  define c1 :: u8 where "c1 = (if 1000000000 < x + y + ucast carry then 1 else 0)"
  define d where "d = (if 1000000000 < x + y + ucast carry then x + y + ucast carry - 1000000000
    else x + y + ucast carry)"
  have c1: "uint c1 \<le> 1" by (simp add: c1_def)
  have dv: "uint d + 1000000000 * uint c1 = uint x + uint y + uint carry"
    using r by (simp add: d_def c1_def word_less_def uint_sub_if')
  obtain rest c2 where rec: "add_digits xs ys c1 = (rest, c2)" by fastforce
  have eq: "ds = d # rest" "carry' = c2"
    using "4.prems"(5) rec by (auto simp: Let_def d_def c1_def split: if_splits)
  have "length rest = length xs \<and> uint c2 \<le> 1 \<and>
     digits_value (int BIG_DIGITS_LIMIT) rest + int BIG_DIGITS_LIMIT ^ length xs * uint c2 =
     digits_value (int BIG_DIGITS_LIMIT) xs + digits_value (int BIG_DIGITS_LIMIT) ys + uint c1"
    using "4.prems" c1 rec by (intro "4.IH") simp_all
  then show ?case using dv by (simp add: eq algebra_simps)
qed auto

lemma sub_digits_value:
  "length xs = length ys \<Longrightarrow> \<forall>d \<in> set xs. uint d < int BIG_DIGITS_LIMIT \<Longrightarrow>
   \<forall>d \<in> set ys. uint d < int BIG_DIGITS_LIMIT \<Longrightarrow> uint carry \<le> 1 \<Longrightarrow>
   sub_digits xs ys carry = (ds, carry') \<Longrightarrow>
     length ds = length xs \<and> uint carry' \<le> 1 \<and> (\<forall>d \<in> set ds. uint d < int BIG_DIGITS_LIMIT) \<and>
     digits_value (int BIG_DIGITS_LIMIT) ds - int BIG_DIGITS_LIMIT ^ length xs * uint carry' =
     digits_value (int BIG_DIGITS_LIMIT) xs - digits_value (int BIG_DIGITS_LIMIT) ys - uint carry"
proof (induction xs ys arbitrary: carry ds carry' rule: list_induct2')
  case (4 x xs y ys)
  define c1 :: u8 where "c1 = (if uint x - uint y - uint carry < 0 then 1 else 0)"
  define v where "v = (if uint x - uint y - uint carry < 0 then uint x - uint y - uint carry + 1000000000
    else uint x - uint y - uint carry)"
  have c1: "uint c1 \<le> 1" by (simp add: c1_def)
  have vr: "0 \<le> v" "v < 1000000000" "v - 1000000000 * uint c1 = uint x - uint y - uint carry"
  proof -
    have b: "0 \<le> uint x" "0 \<le> uint y" "0 \<le> uint carry" by simp_all
    have b': "uint x < 1000000000" "uint y < 1000000000" "uint carry \<le> 1" using "4.prems" by simp_all
    show "0 \<le> v" "v < 1000000000" unfolding v_def using b b' by (simp_all only: split: if_split) linarith+
    show "v - 1000000000 * uint c1 = uint x - uint y - uint carry" by (simp add: v_def c1_def)
  qed
  have dv: "uint (of_int v :: u32) = v" using vr by (simp add: unsigned_of_int take_bit_int_eq_self)
  obtain rest c2 where rec: "sub_digits xs ys c1 = (rest, c2)" by fastforce
  have eq: "ds = of_int v # rest" "carry' = c2"
    using "4.prems"(5) rec by (auto simp: Let_def v_def c1_def split: if_splits)
  have "length rest = length xs \<and> uint c2 \<le> 1 \<and> (\<forall>d \<in> set rest. uint d < int BIG_DIGITS_LIMIT) \<and>
     digits_value (int BIG_DIGITS_LIMIT) rest - int BIG_DIGITS_LIMIT ^ length xs * uint c2 =
     digits_value (int BIG_DIGITS_LIMIT) xs - digits_value (int BIG_DIGITS_LIMIT) ys - uint c1"
    using "4.prems" c1 rec by (intro "4.IH") simp_all
  then show ?case using dv vr by (simp add: eq algebra_simps)
qed auto

text \<open>School addition of two digit lists: whether the sum of some column, with the carry into it, is
  exactly the limit. There the test \<open>result > BIG_DIGITS_LIMIT\<close> does not carry.\<close>

fun column_at_limit :: "u32 list \<Rightarrow> u32 list \<Rightarrow> int \<Rightarrow> bool" where
  "column_at_limit (x # xs) (y # ys) carry =
     (let sum = uint x + uint y + carry
      in sum = int BIG_DIGITS_LIMIT \<or> column_at_limit xs ys (sum div int BIG_DIGITS_LIMIT))"
| "column_at_limit _ _ carry = False"

lemma add_digits_canonical:
  "length xs = length ys \<Longrightarrow> \<forall>d \<in> set xs. uint d < int BIG_DIGITS_LIMIT \<Longrightarrow>
   \<forall>d \<in> set ys. uint d < int BIG_DIGITS_LIMIT \<Longrightarrow> uint carry \<le> 1 \<Longrightarrow>
   add_digits xs ys carry = (ds, carry') \<Longrightarrow>
     (\<forall>d \<in> set ds. uint d \<le> int BIG_DIGITS_LIMIT)
     \<and> ((\<forall>d \<in> set ds. uint d < int BIG_DIGITS_LIMIT) \<longleftrightarrow> \<not> column_at_limit xs ys (uint carry))"
proof (induction xs ys arbitrary: carry ds carry' rule: list_induct2')
  case (4 x xs y ys)
  have c: "uint (ucast carry :: u32) = uint carry" using "4.prems"(4) by (intro ucast_uint_id) simp
  have b: "0 \<le> uint x" "uint x < 1000000000" "0 \<le> uint y" "uint y < 1000000000" "0 \<le> uint carry" "uint carry \<le> 1"
    using "4.prems" by simp_all
  then have r: "uint (x + y + ucast carry) = uint x + uint y + uint carry"
    by (simp add: uint_word_ariths c mod_pos_pos_trivial)
  define c1 :: u8 where "c1 = (if 1000000000 < x + y + ucast carry then 1 else 0)"
  define d where "d = (if 1000000000 < x + y + ucast carry then x + y + ucast carry - 1000000000
    else x + y + ucast carry)"
  have d: "uint d = (if 1000000000 < uint x + uint y + uint carry then uint x + uint y + uint carry - 1000000000
      else uint x + uint y + uint carry)"
    using r b by (simp add: d_def word_less_def uint_sub_if')
  have c1: "uint c1 \<le> 1" "uint x + uint y + uint carry \<noteq> 1000000000 \<Longrightarrow> uint c1 = (uint x + uint y + uint carry) div 1000000000"
    using b r by (auto simp: c1_def word_less_def intro: int_div_pos_eq [of _ _ 1 "uint x + uint y + uint carry - 1000000000", symmetric])
  obtain rest c2 where rec: "add_digits xs ys c1 = (rest, c2)" by fastforce
  have eq: "ds = d # rest"
    using "4.prems"(5) rec by (auto simp: Let_def d_def c1_def split: if_splits)
  have IH: "(\<forall>d \<in> set rest. uint d \<le> int BIG_DIGITS_LIMIT)
     \<and> ((\<forall>d \<in> set rest. uint d < int BIG_DIGITS_LIMIT) \<longleftrightarrow> \<not> column_at_limit xs ys (uint c1))"
    using "4.prems" c1(1) rec by (intro "4.IH") simp_all
  show ?case
  proof (cases "uint x + uint y + uint carry = 1000000000")
    case True
    then show ?thesis using IH d by (simp add: eq)
  next
    case False
    then show ?thesis using IH d b c1(2) by (auto simp: eq Let_def)
  qed
qed auto

lemma CFBigNumAdd_same_sign:
  assumes "canonical_digits (digits a)" "canonical_digits (digits b)" "sign a = sign b"
    and "CFBigNumAdd a b = (r, c)"
  shows "length (digits r) = 5 \<and> sign r = sign a \<and> uint c \<le> 1 \<and>
    abs_value r + 10 ^ 45 * uint c = abs_value a + abs_value b
    \<and> (\<forall>d \<in> set (digits r). uint d \<le> int BIG_DIGITS_LIMIT)
    \<and> (canonical_digits (digits r) \<longleftrightarrow> \<not> column_at_limit (digits a) (digits b) 0)"
proof -
  obtain ds where ds: "add_digits (digits a) (digits b) 0 = (ds, c)" "r = \<lparr>digits = ds, sign = sign a\<rparr>"
    using assms(3,4) by (auto simp: CFBigNumAdd_def Let_def split: prod.splits)
  have c: "length (digits a) = 5" "length (digits b) = 5" "\<forall>d \<in> set (digits a). uint d < int BIG_DIGITS_LIMIT"
    "\<forall>d \<in> set (digits b). uint d < int BIG_DIGITS_LIMIT" "length (digits a) = length (digits b)" "uint (0 :: u8) \<le> 1"
    using assms(1,2) unfolding canonical_digits_def by simp_all
  have v: "length ds = 5 \<and> uint c \<le> 1 \<and> abs_value r + 10 ^ 45 * uint c = abs_value a + abs_value b"
    using add_digits_value [OF c(5,3,4,6) ds(1)] c(1) ds(2) by simp
  show ?thesis
    using v add_digits_canonical [OF c(5,3,4,6) ds(1)] ds(2) unfolding canonical_digits_def by (simp add: order_less_imp_le)
qed

lemma absolute_less_canonical:
  "canonical_digits (digits a) \<Longrightarrow> canonical_digits (digits b) \<Longrightarrow>
     CFBigNumAbsoluteLessThan a b \<longleftrightarrow> abs_value a < abs_value b"
  by (simp add: CFBigNumAbsoluteLessThan_def absolute_less_digits_compare canonical_compare_digits
      int_compare_def)

lemma sub_digits_canonical:
  assumes "canonical_digits xs" "canonical_digits ys" "sub_digits xs ys 0 = (ds, c)"
    and "digits_value (int BIG_DIGITS_LIMIT) ys \<le> digits_value (int BIG_DIGITS_LIMIT) xs"
  shows "canonical_digits ds \<and> c = 0 \<and> digits_value (int BIG_DIGITS_LIMIT) ds =
    digits_value (int BIG_DIGITS_LIMIT) xs - digits_value (int BIG_DIGITS_LIMIT) ys"
proof -
  have r: "length ds = 5 \<and> uint c \<le> 1 \<and> (\<forall>d \<in> set ds. uint d < int BIG_DIGITS_LIMIT) \<and>
     digits_value (int BIG_DIGITS_LIMIT) ds - int BIG_DIGITS_LIMIT ^ 5 * uint c =
     digits_value (int BIG_DIGITS_LIMIT) xs - digits_value (int BIG_DIGITS_LIMIT) ys"
    using sub_digits_value [OF _ _ _ _ assms(3)] assms(1,2) by (simp add: canonical_digits_def)
  then have "digits_value (int BIG_DIGITS_LIMIT) ds < int BIG_DIGITS_LIMIT ^ 5"
    using digits_value_less [of ds "int BIG_DIGITS_LIMIT"] by simp
  then have "uint c < 1" using r assms(4) by (cases "uint c = 1") auto
  moreover have "0 \<le> uint c" by simp
  ultimately have "uint c = 0" by linarith
  then show ?thesis using r by (simp add: canonical_digits_def uint_0_iff)
qed

lemma CFBigNumAdd_opposite_sign:
  assumes "canonical_digits (digits a)" "canonical_digits (digits b)" "sign a \<noteq> sign b"
    and "sign a \<in> {0, -1}" "sign b \<in> {0, -1}" and "CFBigNumAdd a b = (r, c)"
  shows "canonical_digits (digits r) \<and> sign r \<in> {0, -1} \<and> c = 0 \<and> bn_value r = bn_value a + bn_value b"
proof (cases "CFBigNumAbsoluteLessThan a b")
  case True
  then have le: "abs_value a \<le> abs_value b" using assms(1,2) by (simp add: absolute_less_canonical)
  obtain ds where ds: "sub_digits (digits b) (digits a) 0 = (ds, c)"
      "r = \<lparr>digits = ds, sign = (if sint (sign b) < 0 then -1 else 0)\<rparr>"
    using assms(3,6) True by (auto simp: CFBigNumAdd_def Let_def split: prod.splits)
  show ?thesis
    using sub_digits_canonical [OF assms(2,1) ds(1) le] ds(2) assms(3-5) by (auto simp: bn_value_def)
next
  case False
  then have le: "abs_value b \<le> abs_value a" using assms(1,2) by (simp add: absolute_less_canonical)
  obtain ds where ds: "sub_digits (digits a) (digits b) 0 = (ds, c)"
      "r = \<lparr>digits = ds, sign = (if sint (sign a) < 0 then -1 else 0)\<rparr>"
    using assms(3,6) False by (auto simp: CFBigNumAdd_def Let_def split: prod.splits)
  show ?thesis
    using sub_digits_canonical [OF assms(1,2) ds(1) le] ds(2) assms(3-5) by (auto simp: bn_value_def)
qed

lemma CFBigNumAdd_value:
  assumes "canonical a" "canonical b" "CFBigNumAdd a b = (r, c)"
  shows "bn_value r + (if sign r = 0 then 1 else -1) * 10 ^ 45 * uint c = bn_value a + bn_value b
    \<and> uint c \<le> 1 \<and> (sign a \<noteq> sign b \<longrightarrow> c = 0)
    \<and> length (digits r) = 5 \<and> (\<forall>d \<in> set (digits r). uint d \<le> int BIG_DIGITS_LIMIT)
    \<and> (canonical_digits (digits r) \<longleftrightarrow> \<not> (sign a = sign b \<and> column_at_limit (digits a) (digits b) 0))"
proof (cases "sign a = sign b")
  case True
  have c: "canonical_digits (digits a)" "canonical_digits (digits b)" "sign a \<in> {0, -1}"
    using assms(1,2) unfolding canonical_def by blast+
  have s: "length (digits r) = 5" "sign r = sign a" "uint c \<le> 1"
    "abs_value r + 10 ^ 45 * uint c = abs_value a + abs_value b"
    "\<forall>d \<in> set (digits r). uint d \<le> int BIG_DIGITS_LIMIT"
    "canonical_digits (digits r) \<longleftrightarrow> \<not> column_at_limit (digits a) (digits b) 0"
    using CFBigNumAdd_same_sign [OF c(1,2) True assms(3)] by blast+
  have "bn_value r + (if sign r = 0 then 1 else -1) * 10 ^ 45 * uint c = bn_value a + bn_value b"
    using s(2,4) True c(3) unfolding bn_value_def by auto
  then show ?thesis using s True by blast
next
  case False
  have o: "canonical_digits (digits r)" "c = 0" "bn_value r = bn_value a + bn_value b"
    using CFBigNumAdd_opposite_sign [OF _ _ False _ _ assms(3)] assms(1,2) unfolding canonical_def by blast+
  then have "\<forall>d \<in> set (digits r). uint d \<le> int BIG_DIGITS_LIMIT" "length (digits r) = 5"
    unfolding canonical_digits_def by (blast intro: order_less_imp_le)+
  then show ?thesis using o False by simp
qed

lemma CFBigNumNeg_value:
  assumes "canonical a"
  shows "canonical (CFBigNumNeg a) \<and> bn_value (CFBigNumNeg a) = - bn_value a"
proof -
  obtain d0 d1 d2 d3 d4 where n: "digits a = [d0, d1, d2, d3, d4]"
    using five [of "digits a"] assms unfolding canonical_def canonical_digits_def by blast
  have "(\<forall>i \<in> set [0..<5]. digits a ! i = 0) \<longleftrightarrow> (\<forall>d \<in> set (digits a). d = 0)"
    by (simp add: n numeral_eq_Suc upt_rec)
  also have "\<dots> \<longleftrightarrow> abs_value a = 0"
    using digits_value_zero_iff [of "int BIG_DIGITS_LIMIT" "digits a"] by simp
  finally have z: "(\<forall>i \<in> set [0..<5]. digits a ! i = 0) \<longleftrightarrow> abs_value a = 0" .
  show ?thesis
  proof (cases "abs_value a = 0")
    case True
    then show ?thesis using assms z by (simp add: CFBigNumNeg_def bn_value_def)
  next
    case False
    then have "CFBigNumNeg a = a\<lparr>sign := sign a * sign a - 1\<rparr>" using z by (simp only: CFBigNumNeg_def Let_def) simp
    then show ?thesis using False assms by (auto simp: canonical_def bn_value_def)
  qed
qed

section \<open>Decimal text\<close>

abbreviation digit_string :: "string \<Rightarrow> bool" where
  "digit_string s \<equiv> \<forall>c \<in> set s. is_digit c"

lemma decimal_value_Nil [simp]: "decimal_value [] = 0"
  and decimal_value_snoc: "decimal_value (s @ [c]) = 10 * decimal_value s + (int (of_char c) - 48)"
  by (simp_all add: decimal_value_def)

lemma decimal_value_append: "decimal_value (s @ t) = decimal_value s * 10 ^ length t + decimal_value t"
proof (induction t rule: rev_induct)
  case (snoc c t)
  then show ?case
    using decimal_value_snoc [of "s @ t" c] decimal_value_snoc [of t c] by (simp add: algebra_simps)
qed simp

lemma decimal_value_bounds:
  "digit_string s \<Longrightarrow> 0 \<le> decimal_value s \<and> decimal_value s < 10 ^ length s"
proof (induction s rule: rev_induct)
  case (snoc c s)
  then show ?case by (simp add: decimal_value_snoc is_digit_def)
qed simp

lemma digit_char: "(n :: nat) < 10 \<Longrightarrow> is_digit (char_of (48 + n)) \<and> of_char (char_of (48 + n) :: char) = 48 + n"
  by (simp add: is_digit_def)

lemma decimal_digits:
  "digit_string (decimal n) \<and> decimal_value (decimal n) = int n \<and> (n < 10 ^ Suc k \<longrightarrow> length (decimal n) \<le> Suc k)"
proof (induction n arbitrary: k rule: decimal.induct)
  case (1 n)
  show ?case
  proof (cases "n < 10")
    case True
    then show ?thesis using digit_char [of n] decimal_value_snoc [of "[]"] by (simp add: decimal.simps [of n])
  next
    case False
    have "length (decimal (n div 10)) \<le> k" if "n < 10 ^ Suc k"
    proof (cases k)
      case 0 then show ?thesis using that False by simp
    next
      case (Suc j)
      then have "n div 10 < 10 ^ Suc j" using that by (simp add: less_mult_imp_div_less)
      then show ?thesis using "1" [OF False, of j] Suc by blast
    qed
    moreover have "10 * int (n div 10) + int (n mod 10) = int n"
      by (metis mult_div_mod_eq of_nat_add of_nat_mult of_nat_numeral)
    ultimately show ?thesis
      using "1" [OF False] False digit_char [of "n mod 10"]
      by (subst (1 2 3) decimal.simps) (auto simp: decimal_value_snoc)
  qed
qed

lemma pad9_digits:
  assumes "uint d < int BIG_DIGITS_LIMIT"
  shows "digit_string (pad9 d) \<and> decimal_value (pad9 d) = uint d \<and> length (pad9 d) = 9"
proof -
  have z: "decimal_value (replicate k CHR ''0'') = 0" for k
  proof (induction k)
    case (Suc k)
    then show ?case using decimal_value_snoc [of "replicate k CHR ''0''" "CHR ''0''"]
      by (simp add: replicate_append_same)
  qed simp
  have u: "int (unat d) = uint d" by simp
  then have "unat d < BIG_DIGITS_LIMIT" using assms by (simp only: of_nat_less_iff flip: u)
  then have "unat d < 10 ^ Suc 8" by simp
  then have "digit_string (decimal (unat d))" "decimal_value (decimal (unat d)) = uint d"
    "length (decimal (unat d)) \<le> 9"
    using decimal_digits [of "unat d" 8] u by simp_all
  moreover have "is_digit CHR ''0''" by (simp add: is_digit_def)
  ultimately show ?thesis by (simp add: pad9_def Let_def decimal_value_append z ball_Un)
qed

lemma decimal_value_dropWhile:
  "decimal_value (dropWhile (\<lambda>c. c = CHR ''0'') s) = decimal_value s"
proof (induction s)
  case (Cons c s)
  have "decimal_value (CHR ''0'' # s) = decimal_value s"
    using decimal_value_append [of "[CHR ''0'']" s] decimal_value_snoc [of "[]" "CHR ''0''"] by simp
  then show ?case using Cons by simp
qed simp

lemma atol_digits:
  assumes "digit_string s" "length s \<le> 18"
  shows "atol s = decimal_value s"
proof -
  have "dropWhile is_space s = s"
    using assms(1) by (cases s) (auto simp: is_digit_def is_space_def)
  moreover have "decimal_value (takeWhile is_digit s) = decimal_value s"
    using assms(1) by (simp add: takeWhile_eq_all_conv [THEN iffD2])
  moreover have "s \<noteq> [] \<Longrightarrow> hd s \<noteq> CHR ''-'' \<and> hd s \<noteq> CHR ''+''"
    using assms(1) by (cases s) (auto simp: is_digit_def)
  moreover have "decimal_value s < 10 ^ 18"
    using decimal_value_bounds [OF assms(1)] power_increasing [OF assms(2), of "10 :: int"] by simp
  ultimately show ?thesis by (auto simp: atol_def Let_def)
qed

lemma parse_digit:
  assumes "digit_string w" "length w \<le> 9"
  shows "uint (of_int (atol w) :: u32) = decimal_value w \<and> decimal_value w < int BIG_DIGITS_LIMIT"
proof -
  have "0 \<le> decimal_value w" "decimal_value w < 10 ^ 9"
    using decimal_value_bounds [OF assms(1)] power_increasing [OF assms(2), of "10 :: int"] by simp_all
  then show ?thesis using assms by (simp add: atol_digits unsigned_of_int take_bit_int_eq_self)
qed

lemma parse_digits_value:
  "digit_string w \<Longrightarrow> length w \<le> 9 * Suc free \<Longrightarrow>
     length (parse_digits free w) \<le> Suc free \<and>
     (\<forall>d \<in> set (parse_digits free w). uint d < int BIG_DIGITS_LIMIT) \<and>
     digits_value (int BIG_DIGITS_LIMIT) (parse_digits free w) = decimal_value w"
proof (induction free arbitrary: w)
  case 0
  then show ?case using parse_digit [of w] by simp
next
  case (Suc free)
  show ?case
  proof (cases "9 < length w")
    case True
    let ?hi = "take (length w - 9) w" and ?lo = "drop (length w - 9) w"
    have "digit_string ?hi" "digit_string ?lo"
      using Suc.prems(1) by (auto dest: in_set_takeD in_set_dropD)
    moreover have "decimal_value w = decimal_value ?hi * 10 ^ 9 + decimal_value ?lo"
      using decimal_value_append [of ?hi ?lo] True by simp
    ultimately show ?thesis using True Suc parse_digit [of ?lo] by simp
  next
    case False
    then show ?thesis using Suc.prems parse_digit [of w] by simp
  qed
qed

lemma digits_value_replicate: "digits_value base (ds @ replicate k 0) = digits_value base ds"
proof -
  have "digits_value base (replicate k 0) = 0" by (induction k) simp_all
  then show ?thesis by (simp add: digits_value_append)
qed

text \<open>A sign and a digit string of at most 45 significant digits.\<close>

lemma CFBigNumFromCString_value:
  assumes "digit_string s" "length (dropWhile (\<lambda>c. c = CHR ''0'') s) \<le> 45"
    and "prefix = '''' \<and> sg = 0 \<or> prefix = ''+'' \<and> sg = 0 \<or> prefix = ''-'' \<and> sg = -1"
  shows "canonical_digits (digits (CFBigNumFromCString (prefix @ s)))
    \<and> abs_value (CFBigNumFromCString (prefix @ s)) = decimal_value s
    \<and> sign (CFBigNumFromCString (prefix @ s)) = sg"
proof -
  let ?w = "dropWhile (\<lambda>c. c = CHR ''0'') s"
  let ?ds = "parse_digits 4 ?w"
  let ?str = "prefix @ s"
  have "(if ?str \<noteq> [] \<and> hd ?str = CHR ''-'' then (-1, tl ?str)
      else if ?str \<noteq> [] \<and> hd ?str = CHR ''+'' then (0, tl ?str) else (0, ?str)) = (sg, s)"
    using assms(1,3) by (cases s; elim disjE conjE) (auto simp: is_digit_def)
  then have eq: "CFBigNumFromCString ?str =
      (if ?w = [] then \<lparr>digits = [0, 0, 0, 0, 0], sign = sg\<rparr>
       else \<lparr>digits = ?ds @ replicate (5 - length ?ds) 0, sign = sg\<rparr>)"
    unfolding CFBigNumFromCString_def by (simp only: Let_def prod.case length_0_conv)
  have v: "decimal_value ?w = decimal_value s" by (rule decimal_value_dropWhile)
  show ?thesis
  proof (cases "?w = []")
    case True
    then have "decimal_value s = 0" using v by (simp only: decimal_value_Nil)
    then show ?thesis using eq True by (simp add: canonical_digits_def del: dropWhile_eq_Nil_conv)
  next
    case False
    have "digit_string ?w" using assms(1) by (auto dest: set_dropWhileD)
    then have "length ?ds \<le> 5 \<and> (\<forall>d \<in> set ?ds. uint d < int BIG_DIGITS_LIMIT) \<and>
        digits_value (int BIG_DIGITS_LIMIT) ?ds = decimal_value ?w"
      using parse_digits_value [of ?w 4] assms(2) by simp
    then show ?thesis
      using False eq v digits_value_replicate by (auto simp: canonical_digits_def)
  qed
qed

lemma digits_value_unique:
  "length xs = length ys \<Longrightarrow> \<forall>d \<in> set xs. uint d < base \<Longrightarrow> \<forall>d \<in> set ys. uint d < base \<Longrightarrow>
     digits_value base xs = digits_value base ys \<Longrightarrow> xs = ys"
proof (induction xs ys rule: list_induct2)
  case (Cons x xs y ys)
  have "(uint x + base * digits_value base xs) mod base = (uint y + base * digits_value base ys) mod base"
    using Cons.prems(3) by simp
  then have "uint x = uint y" using Cons.prems(1,2) by (simp add: mod_pos_pos_trivial)
  then have "x = y" by (simp add: word_uint_eq_iff)
  moreover have "0 < base" using Cons.prems(1) order_le_less_trans [OF uint_ge_0 [of x], of base] by (simp del: uint_ge_0)
  ultimately show ?case using Cons by simp
qed simp

text \<open>The text of a number: the sign and 45 digits with the value.\<close>

lemma number_text:
  assumes "canonical_digits (digits n)"
  obtains t where "digit_string t" "length t = 45" "decimal_value t = abs_value n"
    "\<And>lz lp buflen. CFBigNumToCString n lz lp buflen =
      (let (prefix, buflen) = (if sint (sign n) < 0 then (''-'', buflen - 1)
            else if lp then (''+'', buflen - 1) else ('''', buflen));
          tmp = t @ [NUL]
      in if lz
         then (let tocopy = min 46 (unat buflen)
               in prefix @ replicate (unat buflen - tocopy) CHR ''0'' @ drop (46 - tocopy) tmp)
         else (let s = dropWhile (\<lambda>c. c = CHR ''0'') tmp;
                   s = (if hd s = NUL then CHR ''0'' # s else s)
               in if unat buflen = 0 then prefix
                  else prefix @ take (unat buflen - 1) (takeWhile (\<lambda>c. c \<noteq> NUL) s) @ [NUL]))"
proof -
  obtain a b c d e where n: "digits n = [a, b, c, d, e]"
    using five [of "digits n"] assms unfolding canonical_digits_def by blast
  let ?t = "pad9 e @ pad9 d @ pad9 c @ pad9 b @ pad9 a"
  have p: "digit_string (pad9 x) \<and> decimal_value (pad9 x) = uint x \<and> length (pad9 x) = 9"
    if "x \<in> {a, b, c, d, e}" for x
    using that assms by (intro pad9_digits) (auto simp: canonical_digits_def n)
  then have len: "length ?t = 45" by simp
  have "digit_string ?t" using p by (auto simp: ball_Un)
  moreover have "decimal_value ?t = abs_value n" using p by (simp add: decimal_value_append n)
  ultimately show thesis
    using that [of ?t] len by (simp add: CFBigNumToCString_def n Let_def)
qed

text \<open>What precedes the first NUL of a buffer.\<close>

definition c_string :: "string \<Rightarrow> string" where
  "c_string buf = takeWhile (\<lambda>c. c \<noteq> NUL) buf"

lemma c_string_digits: "digit_string s \<Longrightarrow> c_string (s @ NUL # rest) = s"
  unfolding c_string_def by (subst takeWhile_append2) (auto simp: is_digit_def)

text \<open>Skipping the leading zeros, but not the last one, keeps the value.\<close>

lemma skip_zeros:
  fixes t
  defines "r \<equiv> dropWhile (\<lambda>c. c = CHR ''0'') (t @ [NUL])"
  assumes "digit_string t"
  obtains s where "digit_string s" "decimal_value s = decimal_value t" "length s \<le> max 1 (length t)"
    "(if hd r = NUL then CHR ''0'' # r else r) = s @ [NUL]"
proof -
  let ?d = "dropWhile (\<lambda>c. c = CHR ''0'') t"
  have r: "r = ?d @ [NUL]"
    unfolding r_def
    by (cases "\<forall>c \<in> set t. c = CHR ''0''") (auto simp: dropWhile_append dropWhile_eq_Nil_conv)
  have d: "digit_string ?d" using assms(2) by (auto dest: set_dropWhileD)
  show ?thesis
  proof (cases "?d = []")
    case True
    then have "decimal_value t = 0" using decimal_value_dropWhile [of t] by (simp only: decimal_value_Nil)
    moreover have "decimal_value ''0'' = 0" "is_digit CHR ''0''"
      by (simp_all add: decimal_value_def is_digit_def)
    ultimately show ?thesis using r True by (intro that [of "''0''"]) (simp_all del: dropWhile_eq_Nil_conv)
  next
    case False
    then have "hd ?d \<noteq> NUL" using d by (cases ?d) (auto simp: is_digit_def)
    then show ?thesis using r d False decimal_value_dropWhile [of t] length_dropWhile_le [of _ t]
      by (intro that [of ?d]) (auto simp: le_max_iff_disj)
  qed
qed

lemma CFBigNumToCString_text:
  assumes "canonical_digits (digits n)" "sign n \<in> {0, -1}" "47 \<le> unat buflen"
  obtains prefix s where "c_string (CFBigNumToCString n lz lp buflen) = prefix @ s"
    "prefix = '''' \<and> sign n = 0 \<or> prefix = ''+'' \<and> sign n = 0 \<or> prefix = ''-'' \<and> sign n = -1"
    "digit_string s" "decimal_value s = abs_value n" "length (dropWhile (\<lambda>c. c = CHR ''0'') s) \<le> 45"
proof -
  obtain t where t: "digit_string t" "length t = 45" "decimal_value t = abs_value n"
    and shape: "\<And>lz lp buflen. CFBigNumToCString n lz lp buflen =
      (let (prefix, buflen) = (if sint (sign n) < 0 then (''-'', buflen - 1)
            else if lp then (''+'', buflen - 1) else ('''', buflen));
          tmp = t @ [NUL]
      in if lz
         then (let tocopy = min 46 (unat buflen)
               in prefix @ replicate (unat buflen - tocopy) CHR ''0'' @ drop (46 - tocopy) tmp)
         else (let s = dropWhile (\<lambda>c. c = CHR ''0'') tmp;
                   s = (if hd s = NUL then CHR ''0'' # s else s)
               in if unat buflen = 0 then prefix
                  else prefix @ take (unat buflen - 1) (takeWhile (\<lambda>c. c \<noteq> NUL) s) @ [NUL]))"
    by (rule number_text [OF assms(1)]) blast
  define pre where "pre = (if sint (sign n) < 0 then ''-'' else if lp then ''+'' else '''')"
  define len where "len = (if sint (sign n) < 0 \<or> lp then buflen - 1 else buflen)"
  have sel: "(if sint (sign n) < 0 then (''-'', buflen - 1)
      else if lp then (''+'', buflen - 1) else ('''', buflen)) = (pre, len)"
    by (simp add: pre_def len_def)
  have len: "46 \<le> unat len"
    using assms(3) by (auto simp: len_def unat_sub_if_size)
  have pre: "pre = '''' \<and> sign n = 0 \<or> pre = ''+'' \<and> sign n = 0 \<or> pre = ''-'' \<and> sign n = -1"
    using assms(2) by (auto simp: pre_def)
  have prec: "c_string (pre @ s) = pre @ c_string s" for s
    by (auto simp: c_string_def pre_def)
  show thesis
  proof (cases lz)
    case True
    let ?s = "replicate (unat len - 46) CHR ''0'' @ t"
    have "CFBigNumToCString n lz lp buflen = pre @ ?s @ [NUL]"
      unfolding shape sel using True len by (simp add: Let_def min_absorb1)
    moreover have s: "digit_string ?s" using t(1) by (auto simp: is_digit_def)
    moreover have "dropWhile (\<lambda>c. c = CHR ''0'') (replicate k CHR ''0'' @ t) = dropWhile (\<lambda>c. c = CHR ''0'') t" for k
      by (induction k) simp_all
    ultimately show thesis
      using that [OF _ pre s] t prec c_string_digits [OF s, of "[]"]
        decimal_value_dropWhile [of ?s] decimal_value_dropWhile [of t]
        length_dropWhile_le [of _ t] by simp
  next
    case False
    obtain s where s: "digit_string s" "decimal_value s = decimal_value t" "length s \<le> max 1 (length t)"
      and eq: "(if hd (dropWhile (\<lambda>c. c = CHR ''0'') (t @ [NUL])) = NUL
        then CHR ''0'' # dropWhile (\<lambda>c. c = CHR ''0'') (t @ [NUL])
        else dropWhile (\<lambda>c. c = CHR ''0'') (t @ [NUL])) = s @ [NUL]"
      using skip_zeros [OF t(1)] by blast
    have "takeWhile (\<lambda>c. c \<noteq> NUL) (s @ [NUL]) = s"
      using c_string_digits [OF s(1), of "[]"] by (simp add: c_string_def)
    then have "CFBigNumToCString n lz lp buflen = pre @ s @ [NUL]"
      unfolding shape sel using False len s(3) t(2) by (simp add: Let_def eq)
    moreover have "length (dropWhile (\<lambda>c. c = CHR ''0'') s) \<le> 45"
      using length_dropWhile_le [of _ s] s(3) t(2) le_trans by fastforce
    ultimately show thesis
      using that [OF _ pre s(1)] s t prec c_string_digits [OF s(1), of "[]"] by simp
  qed
qed

lemma unsigned_sign [simp]:
  "sign (CFBigNumInitWithUInt8 u8) = 0" "sign (CFBigNumInitWithUInt16 u16) = 0"
  "sign (CFBigNumInitWithUInt32 u32) = 0" "sign (CFBigNumInitWithUInt64 u64) = 0"
  "sign (CFBigNumInitWithUInt128 u128) = 0"
  by (simp_all add: CFBigNumInitWithUInt8_def CFBigNumInitWithUInt16_def CFBigNumInitWithUInt32_def
      CFBigNumInitWithUInt64_def CFBigNumInitWithUInt128_def)

lemma getters_canonical:
  assumes "canonical n"
  shows "CFBigNumGetInt128 n = of_int (bn_value n)"
    and "sign n = 0 \<Longrightarrow> CFBigNumGetUInt128 n = of_int (bn_value n)"
    and "\<bar>bn_value n\<bar> < 10 ^ 27 \<Longrightarrow> CFBigNumGetInt64 n = of_int (bn_value n)"
    and "\<bar>bn_value n\<bar> < 10 ^ 27 \<Longrightarrow> sign n = 0 \<Longrightarrow> CFBigNumGetUInt64 n = of_int (bn_value n)"
    and "\<bar>bn_value n\<bar> < 10 ^ 18 \<Longrightarrow> CFBigNumGetInt32 n = of_int (bn_value n)"
    and "\<bar>bn_value n\<bar> < 10 ^ 18 \<Longrightarrow> sign n = 0 \<Longrightarrow> CFBigNumGetUInt32 n = of_int (bn_value n)"
    and "\<bar>bn_value n\<bar> < 10 ^ 9 \<Longrightarrow> CFBigNumGetInt16 n = of_int (bn_value n) \<and> CFBigNumGetInt8 n = of_int (bn_value n)"
    and "\<bar>bn_value n\<bar> < 10 ^ 9 \<Longrightarrow> sign n = 0 \<Longrightarrow>
      CFBigNumGetUInt16 n = of_int (bn_value n) \<and> CFBigNumGetUInt8 n = of_int (bn_value n)"
proof -
  note g = getters_wrap [OF conjunct1 [OF canonical_shape [OF assms]] conjunct2 [OF canonical_shape [OF assms]]]
  show "CFBigNumGetInt128 n = of_int (bn_value n)" by (rule g)
  show "sign n = 0 \<Longrightarrow> CFBigNumGetUInt128 n = of_int (bn_value n)" using g(2) by (simp add: bn_value_def)
  show "\<bar>bn_value n\<bar> < 10 ^ 27 \<Longrightarrow> CFBigNumGetInt64 n = of_int (bn_value n)"
    unfolding abs_bn_value leading_zeros [OF assms] using g(3) by blast
  show "\<bar>bn_value n\<bar> < 10 ^ 27 \<Longrightarrow> sign n = 0 \<Longrightarrow> CFBigNumGetUInt64 n = of_int (bn_value n)"
    unfolding abs_bn_value leading_zeros [OF assms] using g(4) by (simp add: bn_value_def)
  show "\<bar>bn_value n\<bar> < 10 ^ 18 \<Longrightarrow> CFBigNumGetInt32 n = of_int (bn_value n)"
    unfolding abs_bn_value leading_zeros [OF assms] using g(5) by blast
  show "\<bar>bn_value n\<bar> < 10 ^ 18 \<Longrightarrow> sign n = 0 \<Longrightarrow> CFBigNumGetUInt32 n = of_int (bn_value n)"
    unfolding abs_bn_value leading_zeros [OF assms] using g(6) by (simp add: bn_value_def)
  show "\<bar>bn_value n\<bar> < 10 ^ 9 \<Longrightarrow> CFBigNumGetInt16 n = of_int (bn_value n) \<and> CFBigNumGetInt8 n = of_int (bn_value n)"
    unfolding abs_bn_value leading_zeros [OF assms] using g(7) by blast
  show "\<bar>bn_value n\<bar> < 10 ^ 9 \<Longrightarrow> sign n = 0 \<Longrightarrow>
      CFBigNumGetUInt16 n = of_int (bn_value n) \<and> CFBigNumGetUInt8 n = of_int (bn_value n)"
    unfolding abs_bn_value leading_zeros [OF assms] using g(7) by (simp add: bn_value_def)
qed

lemma abs_sint_less: "\<bar>sint (w :: 'n::len word)\<bar> < 2 ^ LENGTH('n)"
  using uint_lt2p [of "magnitude_of w"] by (simp add: uint_magnitude_of)

lemma get_init_signed:
  "CFBigNumGetInt8 (CFBigNumInitWithInt8 i8) = i8" "CFBigNumGetInt16 (CFBigNumInitWithInt16 i16) = i16"
  "CFBigNumGetInt32 (CFBigNumInitWithInt32 i32) = i32" "CFBigNumGetInt64 (CFBigNumInitWithInt64 i64) = i64"
  "CFBigNumGetInt128 (CFBigNumInitWithInt128 i128) = i128"
  using getters_canonical(7) [OF conjunct1 [OF init_signed(1) [of i8]]]
    getters_canonical(7) [OF conjunct1 [OF init_signed(2) [of i16]]]
    getters_canonical(5) [OF conjunct1 [OF init_signed(3) [of i32]]]
    getters_canonical(3) [OF conjunct1 [OF init_signed(4) [of i64]]]
    getters_canonical(1) [OF conjunct1 [OF init_signed(5) [of i128]]]
    abs_sint_less [of i8] abs_sint_less [of i16] abs_sint_less [of i32] abs_sint_less [of i64]
  by (simp_all add: init_signed)

lemma get_init_unsigned:
  "CFBigNumGetUInt8 (CFBigNumInitWithUInt8 u8) = u8" "CFBigNumGetUInt16 (CFBigNumInitWithUInt16 u16) = u16"
  "CFBigNumGetUInt32 (CFBigNumInitWithUInt32 u32) = u32" "CFBigNumGetUInt64 (CFBigNumInitWithUInt64 u64) = u64"
  "CFBigNumGetUInt128 (CFBigNumInitWithUInt128 u128) = u128"
  using getters_canonical(8) [OF conjunct1 [OF init_unsigned(1) [of u8]]]
    getters_canonical(8) [OF conjunct1 [OF init_unsigned(2) [of u16]]]
    getters_canonical(6) [OF conjunct1 [OF init_unsigned(3) [of u32]]]
    getters_canonical(4) [OF conjunct1 [OF init_unsigned(4) [of u64]]]
    getters_canonical(2) [OF conjunct1 [OF init_unsigned(5) [of u128]]]
    uint_lt2p [of u8] uint_lt2p [of u16] uint_lt2p [of u32] uint_lt2p [of u64]
  by (simp_all add: init_unsigned)

lemma compare_digits_top:
  "compare_digits False [a, b, 0, 0, 0] [c, d, 0, 0, 0] 5 =
     (if b < d then kCFCompareLessThan else if d < b then kCFCompareGreaterThan
      else if a < c then kCFCompareLessThan else if c < a then kCFCompareGreaterThan
      else kCFCompareEqualTo)"
  by (simp add: numeral_eq_Suc)

section \<open>Properties\<close>

text \<open>Initialisation from every machine integer gives a canonical number whose value is the
  integer, also for the least signed ones.\<close>

theorem bignum_init_exact:
  "canonical (CFBigNumInitWithInt8 i8) \<and> bn_value (CFBigNumInitWithInt8 i8) = sint i8
   \<and> canonical (CFBigNumInitWithInt16 i16) \<and> bn_value (CFBigNumInitWithInt16 i16) = sint i16
   \<and> canonical (CFBigNumInitWithInt32 i32) \<and> bn_value (CFBigNumInitWithInt32 i32) = sint i32
   \<and> canonical (CFBigNumInitWithInt64 i64) \<and> bn_value (CFBigNumInitWithInt64 i64) = sint i64
   \<and> canonical (CFBigNumInitWithInt128 i128) \<and> bn_value (CFBigNumInitWithInt128 i128) = sint i128
   \<and> canonical (CFBigNumInitWithUInt8 u8) \<and> bn_value (CFBigNumInitWithUInt8 u8) = uint u8
   \<and> canonical (CFBigNumInitWithUInt16 u16) \<and> bn_value (CFBigNumInitWithUInt16 u16) = uint u16
   \<and> canonical (CFBigNumInitWithUInt32 u32) \<and> bn_value (CFBigNumInitWithUInt32 u32) = uint u32
   \<and> canonical (CFBigNumInitWithUInt64 u64) \<and> bn_value (CFBigNumInitWithUInt64 u64) = uint u64
   \<and> canonical (CFBigNumInitWithUInt128 u128) \<and> bn_value (CFBigNumInitWithUInt128 u128) = uint u128"
  by (simp only: init_signed init_unsigned)

text \<open>Each getter inverts the initialiser of its type.\<close>

theorem bignum_get_init:
  "CFBigNumGetInt8 (CFBigNumInitWithInt8 i8) = i8 \<and> CFBigNumGetUInt8 (CFBigNumInitWithUInt8 u8) = u8
   \<and> CFBigNumGetInt16 (CFBigNumInitWithInt16 i16) = i16 \<and> CFBigNumGetUInt16 (CFBigNumInitWithUInt16 u16) = u16
   \<and> CFBigNumGetInt32 (CFBigNumInitWithInt32 i32) = i32 \<and> CFBigNumGetUInt32 (CFBigNumInitWithUInt32 u32) = u32
   \<and> CFBigNumGetInt64 (CFBigNumInitWithInt64 i64) = i64 \<and> CFBigNumGetUInt64 (CFBigNumInitWithUInt64 u64) = u64
   \<and> CFBigNumGetInt128 (CFBigNumInitWithInt128 i128) = i128
   \<and> CFBigNumGetUInt128 (CFBigNumInitWithUInt128 u128) = u128"
  by (simp only: get_init_signed get_init_unsigned)

text \<open>C16. \<open>_CFBigNumCompare\<close> on canonical numbers is the comparison of the integers they
  stand for.\<close>

theorem bignum_compare_value:
  assumes "canonical a" "canonical b"
  shows "CFBigNumCompare a b = (if bn_value a < bn_value b then kCFCompareLessThan
     else if bn_value a = bn_value b then kCFCompareEqualTo else kCFCompareGreaterThan)"
  using CFBigNumCompare_canonical [OF assms] by (simp add: int_compare_def)

theorem bignum_compare_value_witness:
  "CFBigNumCompare (CFBigNumInitWithInt32 (-5)) (CFBigNumInitWithUInt64 7) = kCFCompareLessThan"
proof -
  have "canonical (CFBigNumInitWithInt32 (-5))" "canonical (CFBigNumInitWithUInt64 7)"
    by (simp_all only: init_signed init_unsigned)
  from bignum_compare_value [OF this] show ?thesis by (simp add: init_signed init_unsigned)
qed

text \<open>C25. \<open>_CFBigNumAdd\<close> and \<open>_CFBigNumSub\<close> are exact: the value of the result and the
  returned carry, which is 0 or 1 and counts 10 to the 45 with the sign of the result, add up to the
  sum or difference, and there is no carry when the signs of the addends differ. The result has five
  digits, all from 0 to 999999999 as the header of CFBigNumber.c says, except in one case: when
  magnitudes are added and some column, with the carry into it, sums to exactly 1000000000, the test
  \<open>result > BIG_DIGITS_LIMIT\<close> (CFBigNumber.c:471) does not carry and the digit 1000000000 is
  stored. The theorem says exactly when that happens.\<close>

theorem bignum_add_sub_exact:
  assumes "canonical a" "canonical b" "CFBigNumAdd a b = (s, sc)" "CFBigNumSub a b = (d, dc)"
  shows "bn_value s + (if sign s = 0 then 1 else -1) * 10 ^ 45 * uint sc = bn_value a + bn_value b
    \<and> bn_value d + (if sign d = 0 then 1 else -1) * 10 ^ 45 * uint dc = bn_value a - bn_value b
    \<and> uint sc \<le> 1 \<and> uint dc \<le> 1 \<and> (sign a \<noteq> sign b \<longrightarrow> sc = 0)
    \<and> length (digits s) = 5 \<and> (\<forall>x \<in> set (digits s). uint x \<le> int BIG_DIGITS_LIMIT)
    \<and> (canonical_digits (digits s) \<longleftrightarrow>
         \<not> (sign a = sign b \<and> column_at_limit (digits a) (digits b) 0))
    \<and> length (digits d) = 5 \<and> (\<forall>x \<in> set (digits d). uint x \<le> int BIG_DIGITS_LIMIT)
    \<and> (canonical_digits (digits d) \<longleftrightarrow>
         \<not> (sign a = sign (CFBigNumNeg b) \<and> column_at_limit (digits a) (digits b) 0))"
proof -
  note n = CFBigNumNeg_value [OF assms(2)]
  have d: "CFBigNumAdd a (CFBigNumNeg b) = (d, dc)" using assms(4) by (simp add: CFBigNumSub_def)
  have "bn_value a + bn_value (CFBigNumNeg b) = bn_value a - bn_value b" using conjunct2 [OF n] by linarith
  note difference = CFBigNumAdd_value [OF assms(1) conjunct1 [OF n] d, unfolded this digits_CFBigNumNeg]
  show ?thesis using CFBigNumAdd_value [OF assms(1,2,3)] difference by (elim conjE, intro conjI)
qed

theorem bignum_add_sub_exact_witness:
  "bn_value (fst (CFBigNumAdd (CFBigNumInitWithInt32 (-5)) (CFBigNumInitWithUInt64 7))) = 2
   \<and> canonical_digits (digits (fst (CFBigNumAdd (CFBigNumInitWithInt32 (-5)) (CFBigNumInitWithUInt64 7))))"
proof -
  let ?a = "CFBigNumInitWithInt32 (-5)" and ?b = "CFBigNumInitWithUInt64 7"
  have c: "canonical ?a" "canonical ?b" by (simp_all only: init_signed init_unsigned)
  have s: "sign ?a \<noteq> sign ?b" by (simp add: CFBigNumInitWithInt32_def CFBigNumInitWithUInt64_def sign_of_def)
  have v: "bn_value ?a = -5" "bn_value ?b = 7" by (simp_all add: init_signed init_unsigned)
  note e = bignum_add_sub_exact [OF c surjective_pairing surjective_pairing]
  then have "snd (CFBigNumAdd ?a ?b) = 0" "canonical_digits (digits (fst (CFBigNumAdd ?a ?b)))" using s by blast+
  then show ?thesis using conjunct1 [OF e] v by simp
qed

text \<open>\<open>_CFNumberCreateWithBigNum\<close> hands \<open>CFNumberCreate\<close> exactly the value of the
  number, in the narrowest of its types that holds the value (one step wider for the two least
  values -128 and -32768), and gives NULL exactly when the value has more than 128 bits.\<close>

theorem bignum_create_number:
  assumes "canonical n"
  shows "CFNumberCreateWithBigNum n =
    (let v = bn_value n
     in if \<bar>v\<bar> \<le> 127 then Some (kCFNumberSInt8Type, v)
        else if \<bar>v\<bar> \<le> 32767 then Some (kCFNumberSInt16Type, v)
        else if - (2 ^ 31) \<le> v \<and> v < 2 ^ 31 then Some (kCFNumberSInt32Type, v)
        else if - (2 ^ 63) \<le> v \<and> v < 2 ^ 63 then Some (kCFNumberSInt64Type, v)
        else if - (2 ^ 127) \<le> v \<and> v < 2 ^ 127 then Some (kCFNumberSInt128Type, v)
        else None)"
  by (rule CFNumberCreateWithBigNum_value [OF assms])

theorem bignum_create_number_witness:
  "CFNumberCreateWithBigNum (CFBigNumInitWithInt8 (-128)) = Some (kCFNumberSInt16Type, -128)"
proof -
  have "canonical (CFBigNumInitWithInt8 (-128))" by (simp only: init_signed)
  from bignum_create_number [OF this] show ?thesis by (simp add: init_signed)
qed

text \<open>C33. \<open>_CFBigNumFromCString\<close> reads back what \<open>_CFBigNumToCString\<close> wrote, with or
  without leading zeros and a leading plus, for every number with digits below the base, when
  the buffer holds the sign, 45 digits and the NUL.\<close>

theorem bignum_text_round_trip:
  assumes "canonical_digits (digits n)" "sign n \<in> {0, -1}" "47 \<le> unat buflen"
  shows "CFBigNumFromCString (c_string (CFBigNumToCString n leading_zeros leading_plus buflen)) = n"
proof -
  obtain prefix s where t: "c_string (CFBigNumToCString n leading_zeros leading_plus buflen) = prefix @ s"
    "prefix = '''' \<and> sign n = 0 \<or> prefix = ''+'' \<and> sign n = 0 \<or> prefix = ''-'' \<and> sign n = -1"
    "digit_string s" "decimal_value s = abs_value n" "length (dropWhile (\<lambda>c. c = CHR ''0'') s) \<le> 45"
    using CFBigNumToCString_text [OF assms] by blast
  note p = CFBigNumFromCString_value [OF t(3,5,2)]
  then have "digits (CFBigNumFromCString (prefix @ s)) = digits n"
    using assms(1) t(4) by (intro digits_value_unique [where base = "int BIG_DIGITS_LIMIT"]) (auto simp: canonical_digits_def)
  then show ?thesis using p t(1) by simp
qed

theorem bignum_text_round_trip_witness:
  "CFBigNumFromCString (c_string (CFBigNumToCString (CFBigNumInitWithInt32 (-5)) False True 1024))
     = CFBigNumInitWithInt32 (-5)"
proof -
  have c: "canonical (CFBigNumInitWithInt32 (-5))" by (simp only: init_signed)
  show ?thesis using c by (intro bignum_text_round_trip) (simp_all add: canonical_def)
qed

text \<open>The digit loop of \<open>_CFBigNumAdd\<close> carries only above 1000000000, so a digit sum of
  exactly 1000000000 is stored as one digit: the value is right, but the number is not
  canonical, and \<open>_CFBigNumCompare\<close> puts it below the same value in canonical form.\<close>

theorem bignum_add_boundary:
  assumes "0 < d" "d < 1000000000"
  defines "s \<equiv> CFBigNumAdd (CFBigNumInitWithUInt32 d) (CFBigNumInitWithUInt32 (1000000000 - d))"
  shows "bn_value (fst s) = 1000000000 \<and> snd s = 0 \<and>
    CFBigNumCompare (fst s) (CFBigNumInitWithUInt32 1000000000) = kCFCompareLessThan"
proof -
  have lt: "d div 1000000000 = 0" "(1000000000 - d) div 1000000000 = 0"
    using assms(1,2) by (simp_all add: word_uint_eq_iff uint_div word_less_def uint_sub_if')
  then have "digits (CFBigNumInitWithUInt32 d) = [d, 0, 0, 0, 0]"
    "digits (CFBigNumInitWithUInt32 (1000000000 - d)) = [1000000000 - d, 0, 0, 0, 0]"
    by (simp_all add: CFBigNumInitWithUInt32_def split32_def)
  then have "s = (\<lparr>digits = [1000000000, 0, 0, 0, 0], sign = 0\<rparr>, 0)"
    by (simp add: s_def CFBigNumAdd_def)
  moreover have "digits (CFBigNumInitWithUInt32 1000000000) = [0, 1, 0, 0, 0]"
    by (simp add: CFBigNumInitWithUInt32_def split32_def)
  ultimately show ?thesis by (simp add: bn_value_def CFBigNumCompare_def compare_digits_top)
qed

theorem bignum_add_boundary_witness:
  "CFBigNumCompare (fst (CFBigNumAdd (CFBigNumInitWithUInt32 1) (CFBigNumInitWithUInt32 (1000000000 - 1))))
     (CFBigNumInitWithUInt32 1000000000) = kCFCompareLessThan"
  using bignum_add_boundary [of 1] by simp

text \<open>Subtracting a negative number from itself gives a zero with the sign -1, which
  \<open>_CFBigNumCompare\<close> puts below zero.\<close>

theorem bignum_negative_zero:
  assumes "canonical a" "bn_value a < 0"
  shows "bn_value (fst (CFBigNumSub a a)) = 0 \<and>
    CFBigNumCompare (fst (CFBigNumSub a a)) (CFBigNumInitWithUInt8 0) = kCFCompareLessThan"
proof -
  have sg: "sign a = -1" and pos: "0 < abs_value a" and cd: "canonical_digits (digits a)"
    using assms digits_value_nonneg [of "int BIG_DIGITS_LIMIT" "digits a"]
    by (auto simp: canonical_def bn_value_def split: if_splits)
  have ng: "bn_value (CFBigNumNeg a) = - bn_value a" "canonical (CFBigNumNeg a)"
    using CFBigNumNeg_value [OF assms(1)] by simp_all
  then have sn: "sign (CFBigNumNeg a) = 0"
    using assms(2) digits_value_nonneg [of "int BIG_DIGITS_LIMIT" "digits (CFBigNumNeg a)"]
    by (auto simp: bn_value_def split: if_splits)
  obtain r c where r: "CFBigNumAdd a (CFBigNumNeg a) = (r, c)" by fastforce
  have "abs_value (CFBigNumNeg a) = abs_value a" using ng(1) sg sn by (simp add: bn_value_def)
  then have "\<not> CFBigNumAbsoluteLessThan a (CFBigNumNeg a)"
    using absolute_less_canonical [OF cd, of "CFBigNumNeg a"] ng(2) by (simp add: canonical_def)
  then have "sign r = -1"
    using r sg sn by (auto simp: CFBigNumAdd_def Let_def split: prod.splits)
  moreover have "bn_value r = 0"
    using CFBigNumAdd_opposite_sign [OF cd _ _ _ _ r] ng sg sn by (simp add: canonical_def)
  ultimately show ?thesis by (simp add: CFBigNumSub_def r CFBigNumCompare_def)
qed

theorem bignum_negative_zero_witness:
  "CFBigNumCompare (fst (CFBigNumSub (CFBigNumInitWithInt8 (-1)) (CFBigNumInitWithInt8 (-1))))
     (CFBigNumInitWithUInt8 0) = kCFCompareLessThan"
proof -
  have "canonical (CFBigNumInitWithInt8 (-1))" "bn_value (CFBigNumInitWithInt8 (-1)) < 0"
    by (simp_all add: init_signed)
  from bignum_negative_zero [OF this] show ?thesis by blast
qed

end
