(* ===== verification/BitVector.thy ===== *)
theory BitVector
  imports Prelude
begin

text \<open>
  CFBitVector.c: bit vectors in buckets of one byte, bit 0 the most significant bit of the
  first bucket.

  \<open>bv_bits\<close> is the list of bits a vector stands for. Every operation that works on a
  range goes through \<open>__CFBitVectorInternalMap\<close>, which cuts the range into at most one
  leading fragment, full buckets and at most one trailing fragment and hands each bucket with
  its mask to a mapper. The interface \<open>bit_mapper\<close> says what a mapper does to each bit,
  and the effect of the map on the bits is proved once under it; the file's mappers are its
  instances. Ranges are given by natural numbers, since the functions take no negative ones.
\<close>

section \<open>The vector\<close>

record CFBitVector =
  bv_count :: nat
  bv_capacity :: nat
  bv_buckets :: "u8 list"
  bv_mutable :: bool

type_synonym CFRange = "nat \<times> nat"

definition CFBitVectorRoundUpCapacity :: "nat \<Rightarrow> nat" where
  "CFBitVectorRoundUpCapacity capacity =
     (let capacity = (if 0 = capacity then 1 else capacity) in ((capacity + 63) div 64) * 64)"

definition CFBitVectorNumBuckets :: "nat \<Rightarrow> nat" where
  "CFBitVectorNumBuckets capacity = capacity div 8 + 1"

definition CFBitBucketMask :: "nat \<Rightarrow> nat \<Rightarrow> u8" where
  "CFBitBucketMask bottomBit topBit =
     (let shiftL = 8 - topBit + bottomBit - 1;
          result = NOT 0;
          result = push_bit shiftL result
      in drop_bit bottomBit result)"

definition CFBitVectorBit :: "u8 list \<Rightarrow> nat \<Rightarrow> bool" where
  "CFBitVectorBit buckets idx =
     (let bucketIdx = idx div 8; bitOfBucket = idx mod 8
      in drop_bit (7 - bitOfBucket) (buckets ! bucketIdx) AND 1 = 1)"

definition CFSetBitVectorBit :: "u8 list \<Rightarrow> nat \<Rightarrow> bool \<Rightarrow> u8 list" where
  "CFSetBitVectorBit buckets idx val =
     (let bucketIdx = idx div 8; bitOfBucket = idx mod 8
      in if val
         then buckets[bucketIdx := buckets ! bucketIdx OR push_bit (7 - bitOfBucket) 1]
         else buckets[bucketIdx := buckets ! bucketIdx AND NOT (push_bit (7 - bitOfBucket) 1)])"

definition CFFlipBitVectorBit :: "u8 list \<Rightarrow> nat \<Rightarrow> u8 list" where
  "CFFlipBitVectorBit buckets idx =
     (let bucketIdx = idx div 8; bitOfBucket = idx mod 8
      in buckets[bucketIdx := buckets ! bucketIdx XOR push_bit (7 - bitOfBucket) 1])"

text \<open>The loop of \<open>__CFBitVectorEqual\<close>, over \<open>n\<close> more buckets.\<close>

fun equal_buckets :: "u8 list \<Rightarrow> u8 list \<Rightarrow> nat \<Rightarrow> nat \<Rightarrow> bool" where
  "equal_buckets b1 b2 idx 0 = True"
| "equal_buckets b1 b2 idx (Suc n) =
     (if b1 ! idx \<noteq> b2 ! idx then False else equal_buckets b1 b2 (idx + 1) n)"

definition CFBitVectorEqual :: "CFBitVector \<Rightarrow> CFBitVector \<Rightarrow> bool" where
  "CFBitVectorEqual bv1 bv2 =
     (let cnt = bv_count bv1
      in if cnt \<noteq> bv_count bv2 then False
         else if 0 = cnt then True
         else equal_buckets (bv_buckets bv1) (bv_buckets bv2) 0 (cnt div 8 + 1))"

definition CFBitVectorHash :: "CFBitVector \<Rightarrow> nat" where
  "CFBitVectorHash bv = bv_count bv"

section \<open>Creation\<close>

text \<open>\<open>memmove(memory->_buckets, bytes, n)\<close>\<close>

definition store_bytes :: "u8 list \<Rightarrow> u8 list \<Rightarrow> nat \<Rightarrow> u8 list" where
  "store_bytes buckets bytes n = take n bytes @ drop n buckets"

definition CFBitVectorInit :: "bool \<Rightarrow> nat \<Rightarrow> u8 list option \<Rightarrow> nat \<Rightarrow> CFBitVector" where
  "CFBitVectorInit mutable capacity bytes numBits =
     (let cap = CFBitVectorRoundUpCapacity numBits;
          buckets = replicate (CFBitVectorNumBuckets cap) 0;
          buckets = (case bytes of None \<Rightarrow> buckets
             | Some bs \<Rightarrow> store_bytes buckets bs (numBits div 8 + (if numBits mod 8 \<noteq> 0 then 1 else 0)))
      in \<lparr>bv_count = numBits, bv_capacity = cap, bv_buckets = buckets, bv_mutable = mutable\<rparr>)"

definition CFBitVectorCreate :: "u8 list \<Rightarrow> nat \<Rightarrow> CFBitVector" where
  "CFBitVectorCreate bytes numBits = CFBitVectorInit False numBits (Some bytes) numBits"

definition CFBitVectorCreateMutable :: "nat \<Rightarrow> CFBitVector" where
  "CFBitVectorCreateMutable capacity = CFBitVectorInit True capacity None 0"

definition CFBitVectorCreateCopy :: "CFBitVector \<Rightarrow> CFBitVector" where
  "CFBitVectorCreateCopy bv = CFBitVectorInit False (bv_count bv) (Some (bv_buckets bv)) (bv_count bv)"

definition CFBitVectorCreateMutableCopy :: "nat \<Rightarrow> CFBitVector \<Rightarrow> CFBitVector" where
  "CFBitVectorCreateMutableCopy capacity bv = CFBitVectorInit True capacity (Some (bv_buckets bv)) (bv_count bv)"

section \<open>The map over a range\<close>

type_synonym 'c mapper = "u8 \<Rightarrow> u8 \<Rightarrow> 'c \<Rightarrow> u8 \<times> 'c"

definition map_fragment :: "'c mapper \<Rightarrow> nat \<Rightarrow> u8 \<Rightarrow> u8 list \<times> 'c \<Rightarrow> u8 list \<times> 'c" where
  "map_fragment mapper bucketIdx bucketValMask = (\<lambda>(buckets, context).
     (let (newBucketVal, context) = mapper (buckets ! bucketIdx) bucketValMask context
      in (buckets[bucketIdx := (buckets ! bucketIdx AND NOT bucketValMask)
            OR (newBucketVal AND bucketValMask)], context)))"

text \<open>\<open>while (nBuckets--)\<close>\<close>

fun map_full_buckets :: "'c mapper \<Rightarrow> nat \<Rightarrow> nat \<Rightarrow> u8 list \<times> 'c \<Rightarrow> u8 list \<times> 'c" where
  "map_full_buckets mapper bucketIdx 0 s = s"
| "map_full_buckets mapper bucketIdx (Suc nBuckets) (buckets, context) =
     (let (newBucketVal, context) = mapper (buckets ! bucketIdx) (NOT 0) context
      in map_full_buckets mapper (bucketIdx + 1) nBuckets (buckets[bucketIdx := newBucketVal], context))"

definition CFBitVectorInternalMap :: "CFRange \<Rightarrow> 'c mapper \<Rightarrow> u8 list \<times> 'c \<Rightarrow> u8 list \<times> 'c" where
  "CFBitVectorInternalMap rng mapper s =
     (let (location, len) = rng
      in if 0 = len then s
         else (let bucketIdx = location div 8;
                   bitOfBucket = location mod 8;
                   (bucketValMask, len) = (if bitOfBucket + len < 8
                     then (CFBitBucketMask bitOfBucket (bitOfBucket + len - 1), 0)
                     else (CFBitBucketMask bitOfBucket 7, len - (8 - bitOfBucket)));
                   s = map_fragment mapper bucketIdx bucketValMask s;
                   bucketIdx = bucketIdx + 1;
                   nBuckets = len div 8;
                   len = len - nBuckets * 8;
                   s = map_full_buckets mapper bucketIdx nBuckets s;
                   bucketIdx = bucketIdx + nBuckets
               in if 0 \<noteq> len then map_fragment mapper bucketIdx (CFBitBucketMask 0 (len - 1)) s else s))"

section \<open>Counting and reading bits\<close>

definition CFNibbleBitCount :: "nat list" where
  "CFNibbleBitCount = [0, 1, 1, 2, 1, 2, 2, 3, 1, 2, 2, 3, 2, 3, 3, 4]"

text \<open>The context is the bit counted and the count so far.\<close>

definition CFBitVectorCountBits :: "(bool \<times> nat) mapper" where
  "CFBitVectorCountBits bucketValue bucketValueMask = (\<lambda>(val, cnt).
     (let v = (if val then bucketValue AND bucketValueMask else NOT bucketValue AND bucketValueMask);
          cnt = cnt + CFNibbleBitCount ! unat (v AND 0xF);
          v = drop_bit 4 v;
          cnt = cnt + CFNibbleBitCount ! unat (v AND 0xF)
      in (bucketValue, (val, cnt))))"

definition CFBitVectorGetCountOfBit :: "CFBitVector \<Rightarrow> CFRange \<Rightarrow> bool \<Rightarrow> nat" where
  "CFBitVectorGetCountOfBit bv rng val =
     (if 0 = snd rng then 0
      else snd (snd (CFBitVectorInternalMap rng CFBitVectorCountBits (bv_buckets bv, (val, 0)))))"

definition CFBitVectorContainsBit :: "CFBitVector \<Rightarrow> CFRange \<Rightarrow> bool \<Rightarrow> bool" where
  "CFBitVectorContainsBit bv rng val = (CFBitVectorGetCountOfBit bv rng val \<noteq> 0)"

definition CFBitVectorGetBitAtIndex :: "CFBitVector \<Rightarrow> nat \<Rightarrow> bool" where
  "CFBitVectorGetBitAtIndex bv idx = CFBitVectorBit (bv_buckets bv) idx"

text \<open>\<open>struct _getBitsContext\<close>, with the caller's buffer and \<open>curByte\<close> as an index
  into it.\<close>

record getBitsContext =
  out_bytes :: "u8 list"
  curByte :: nat
  initBits :: nat
  totalBits :: int
  ignoreFirstInitBits :: bool

definition put_byte :: "u8 \<Rightarrow> getBitsContext \<Rightarrow> getBitsContext" where
  "put_byte b context = context\<lparr>out_bytes := (out_bytes context)[curByte context := b]\<rparr>"

definition CFBitVectorGetBits_mapper :: "getBitsContext mapper" where
  "CFBitVectorGetBits_mapper bucketValue bucketValueMask context =
     (let val = bucketValue AND bucketValueMask;
          nBits = min (8 - int (initBits context)) (totalBits context);
          (val, context) = (if 0 < initBits context
             then (let context = (if \<not> ignoreFirstInitBits context
                      then (put_byte (out_bytes context ! curByte context OR drop_bit (8 - initBits context) val) context)
                             \<lparr>curByte := curByte context + 1,
                              totalBits := totalBits context - int (initBits context),
                              ignoreFirstInitBits := False\<rparr>
                      else context)
                   in (push_bit (initBits context) val, context))
             else (val, context));
          (nBits, val, context) = (if 8 \<le> nBits
             then (nBits - 8, 0, (put_byte (drop_bit (8 - 8) val) context)
                     \<lparr>curByte := curByte context + 1, totalBits := totalBits context - int (initBits context)\<rparr>)
             else (nBits, val, context));
          context = (if 0 < nBits
             then (put_byte (drop_bit (8 - 8) val) context)\<lparr>totalBits := totalBits context - nBits\<rparr>
             else context)
      in (bucketValue, context))"

definition CFBitVectorGetBits :: "CFBitVector \<Rightarrow> CFRange \<Rightarrow> u8 list \<Rightarrow> u8 list" where
  "CFBitVectorGetBits bv rng bytes =
     (if 0 = snd rng then bytes
      else (let context = \<lparr>out_bytes = bytes, curByte = 0, initBits = fst rng mod 8,
                  totalBits = int (snd rng), ignoreFirstInitBits = True\<rparr>
            in out_bytes (snd (CFBitVectorInternalMap rng CFBitVectorGetBits_mapper (bv_buckets bv, context)))))"

text \<open>\<open>kCFNotFound\<close> is None.\<close>

fun first_index :: "CFBitVector \<Rightarrow> nat \<Rightarrow> bool \<Rightarrow> nat \<Rightarrow> nat option" where
  "first_index bv location val 0 = None"
| "first_index bv location val (Suc n) =
     (if val = CFBitVectorGetBitAtIndex bv location then Some location
      else first_index bv (location + 1) val n)"

definition CFBitVectorGetFirstIndexOfBit :: "CFBitVector \<Rightarrow> CFRange \<Rightarrow> bool \<Rightarrow> nat option" where
  "CFBitVectorGetFirstIndexOfBit bv rng val = first_index bv (fst rng) val (snd rng)"

fun last_index :: "CFBitVector \<Rightarrow> nat \<Rightarrow> bool \<Rightarrow> nat \<Rightarrow> nat option" where
  "last_index bv location val 0 = None"
| "last_index bv location val (Suc idx) =
     (if val = CFBitVectorGetBitAtIndex bv (location + idx) then Some (location + idx)
      else last_index bv location val idx)"

definition CFBitVectorGetLastIndexOfBit :: "CFBitVector \<Rightarrow> CFRange \<Rightarrow> bool \<Rightarrow> nat option" where
  "CFBitVectorGetLastIndexOfBit bv rng val = last_index bv (fst rng) val (snd rng)"

section \<open>Mutation\<close>

text \<open>Reallocated memory beyond the old size has unspecified contents \<open>junk\<close>.\<close>

definition CFBitVectorGrow :: "(nat \<Rightarrow> u8) \<Rightarrow> CFBitVector \<Rightarrow> nat \<Rightarrow> CFBitVector" where
  "CFBitVectorGrow junk bv numNewValues =
     (let oldCount = bv_count bv;
          capacity = CFBitVectorRoundUpCapacity (oldCount + numNewValues);
          old = bv_buckets bv
      in bv\<lparr>bv_capacity := capacity,
            bv_buckets := map (\<lambda>i. if i < length old then old ! i else junk i)
              [0..<CFBitVectorNumBuckets capacity]\<rparr>)"

definition CFBitVectorZeroBits :: "unit mapper" where
  "CFBitVectorZeroBits bucketValue bucketValueMask context = (0, context)"

definition CFBitVectorOneBits :: "unit mapper" where
  "CFBitVectorOneBits bucketValue bucketValueMask context = (NOT 0, context)"

definition CFBitVectorFlipBits_mapper :: "unit mapper" where
  "CFBitVectorFlipBits_mapper bucketValue bucketValueMask context = (NOT 0 XOR bucketValue, context)"

definition map_buckets :: "CFRange \<Rightarrow> unit mapper \<Rightarrow> CFBitVector \<Rightarrow> CFBitVector" where
  "map_buckets rng mapper bv = bv\<lparr>bv_buckets := fst (CFBitVectorInternalMap rng mapper (bv_buckets bv, ()))\<rparr>"

definition CFBitVectorSetCount :: "(nat \<Rightarrow> u8) \<Rightarrow> CFBitVector \<Rightarrow> nat \<Rightarrow> CFBitVector" where
  "CFBitVectorSetCount junk bv cnt =
     (let oldCount = bv_count bv;
          bv = (if bv_mutable bv \<and> oldCount < cnt then CFBitVectorGrow junk bv (cnt - oldCount) else bv);
          bv = (if oldCount < cnt then map_buckets (oldCount, cnt - oldCount) CFBitVectorZeroBits bv else bv)
      in bv\<lparr>bv_count := cnt\<rparr>)"

definition CFBitVectorFlipBitAtIndex :: "CFBitVector \<Rightarrow> nat \<Rightarrow> CFBitVector" where
  "CFBitVectorFlipBitAtIndex bv idx = bv\<lparr>bv_buckets := CFFlipBitVectorBit (bv_buckets bv) idx\<rparr>"

definition CFBitVectorFlipBits :: "CFBitVector \<Rightarrow> CFRange \<Rightarrow> CFBitVector" where
  "CFBitVectorFlipBits bv rng =
     (if 0 = snd rng then bv else map_buckets rng CFBitVectorFlipBits_mapper bv)"

definition CFBitVectorSetBitAtIndex :: "CFBitVector \<Rightarrow> nat \<Rightarrow> bool \<Rightarrow> CFBitVector" where
  "CFBitVectorSetBitAtIndex bv idx val = bv\<lparr>bv_buckets := CFSetBitVectorBit (bv_buckets bv) idx val\<rparr>"

definition CFBitVectorSetBits :: "CFBitVector \<Rightarrow> CFRange \<Rightarrow> bool \<Rightarrow> CFBitVector" where
  "CFBitVectorSetBits bv rng val =
     (if 0 = snd rng then bv
      else if val then map_buckets rng CFBitVectorOneBits bv
      else map_buckets rng CFBitVectorZeroBits bv)"

definition CFBitVectorSetAllBits :: "CFBitVector \<Rightarrow> bool \<Rightarrow> CFBitVector" where
  "CFBitVectorSetAllBits bv val =
     (let nBuckets = bv_count bv div 8;
          leftover = bv_count bv - nBuckets * 8;
          bv = (if 0 < leftover
             then (if val then map_buckets (nBuckets * 8, leftover) CFBitVectorOneBits bv
                   else map_buckets (nBuckets * 8, leftover) CFBitVectorZeroBits bv)
             else bv)
      in bv\<lparr>bv_buckets := store_bytes (bv_buckets bv) (replicate nBuckets (if val then NOT 0 else 0)) nBuckets\<rparr>)"

section \<open>Bits\<close>

lemma CFBitVectorBit_iff: "CFBitVectorBit buckets idx \<longleftrightarrow> bit (buckets ! (idx div 8)) (7 - idx mod 8)"
  by (simp add: CFBitVectorBit_def bit_iff_and_drop_bit_eq_1)

lemma bit_mask_iff:
  "bottomBit \<le> topBit \<Longrightarrow> topBit < 8 \<Longrightarrow> k < 8 \<Longrightarrow>
     bit (CFBitBucketMask bottomBit topBit) (7 - k) \<longleftrightarrow> bottomBit \<le> k \<and> k \<le> topBit"
  by (auto simp: CFBitBucketMask_def bit_simps)

lemma full_mask: "CFBitBucketMask 0 7 = NOT 0"
  by (simp add: CFBitBucketMask_def)

text \<open>The buckets a range touches, each with the mask of the bits of the range in it.\<close>

definition range_pieces :: "CFRange \<Rightarrow> (nat \<times> u8) list" where
  "range_pieces rng = (let (location, len) = rng; q = location div 8; r = location mod 8;
      n = (len - (8 - r)) div 8; l = (len - (8 - r)) - n * 8
    in if len = 0 then []
       else if r + len < 8 then [(q, CFBitBucketMask r (r + len - 1))]
       else (q, CFBitBucketMask r 7) # map (\<lambda>i. (i, NOT 0)) [q + 1..<q + 1 + n]
         @ (if l = 0 then [] else [(q + 1 + n, CFBitBucketMask 0 (l - 1))]))"

definition map_pieces :: "'c mapper \<Rightarrow> (nat \<times> u8) list \<Rightarrow> u8 list \<times> 'c \<Rightarrow> u8 list \<times> 'c" where
  "map_pieces mapper = fold (\<lambda>(i, m). map_fragment mapper i m)"

lemma map_pieces_simps [simp]:
  "map_pieces mapper [] s = s"
  "map_pieces mapper ((i, m) # ps) s = map_pieces mapper ps (map_fragment mapper i m s)"
  "map_pieces mapper (ps @ qs) s = map_pieces mapper qs (map_pieces mapper ps s)"
  by (simp_all add: map_pieces_def)

lemma map_full_buckets_pieces:
  "map_full_buckets mapper i n s = map_pieces mapper (map (\<lambda>i. (i, NOT 0)) [i..<i + n]) s"
proof (induction n arbitrary: i s)
  case (Suc n)
  obtain b c where s: "s = (b, c)" by fastforce
  have "[i..<i + Suc n] = i # [Suc i..<Suc i + n]" by (simp add: upt_rec)
  then show ?case
    by (simp add: Suc s map_fragment_def split: prod.split)
qed simp

lemma CFBitVectorInternalMap_pieces:
  "CFBitVectorInternalMap rng mapper s = map_pieces mapper (range_pieces rng) s"
proof -
  obtain location len where rng: "rng = (location, len)" by fastforce
  show ?thesis
  proof (cases "location mod 8 + len < 8")
    case True
    then show ?thesis
      by (simp add: rng CFBitVectorInternalMap_def range_pieces_def Let_def)
  next
    case False
    then have "len \<noteq> 0" by (metis add.right_neutral mod_less_divisor zero_less_numeral)
    with False show ?thesis
      by (simp only: rng CFBitVectorInternalMap_def range_pieces_def Let_def map_full_buckets_pieces
          prod.case if_False if_not_P map_pieces_simps) simp
  qed
qed

definition covers :: "(nat \<times> u8) list \<Rightarrow> nat \<Rightarrow> bool" where
  "covers ps idx \<longleftrightarrow> (\<exists>(i, m) \<in> set ps. idx div 8 = i \<and> bit m (7 - idx mod 8))"

lemma covers_simps [simp]:
  "covers [] idx \<longleftrightarrow> False"
  "covers ((i, m) # ps) idx \<longleftrightarrow> idx div 8 = i \<and> bit m (7 - idx mod 8) \<or> covers ps idx"
  "covers (ps @ qs) idx \<longleftrightarrow> covers ps idx \<or> covers qs idx"
  by (auto simp: covers_def)

lemma covers_full: "covers (map (\<lambda>i. (i, -1)) is) idx \<longleftrightarrow> idx div 8 \<in> set is"
  by (induction "is") (auto simp: bit_simps)

lemma range_pieces_short:
  "r + len < 8 \<Longrightarrow> len \<noteq> 0 \<Longrightarrow> r < 8 \<Longrightarrow>
     range_pieces (8 * q + r, len) = [(q, CFBitBucketMask r (r + len - 1))]"
  by (simp add: range_pieces_def)

lemma range_pieces_long:
  "r < 8 \<Longrightarrow> l < 8 \<Longrightarrow> range_pieces (8 * q + r, 8 - r + 8 * n + l) =
     (q, CFBitBucketMask r 7) # map (\<lambda>i. (i, NOT 0)) [q + 1..<q + 1 + n]
         @ (if l = 0 then [] else [(q + 1 + n, CFBitBucketMask 0 (l - 1))])"
  by (simp add: range_pieces_def Let_def)

text \<open>A range is empty, within one bucket, or a leading fragment, full buckets and a rest.\<close>

lemma range_cases:
  fixes len location :: nat
  obtains "len = 0"
  | q r where "location = 8 * q + r" "r < 8" "len \<noteq> 0" "r + len < 8"
  | q r n l where "location = 8 * q + r" "r < 8" "len = 8 - r + 8 * n + l" "l < 8"
proof (cases "len = 0 \<or> location mod 8 + len < 8")
  case True
  then show thesis using that(1) that(2) [of "location div 8" "location mod 8"] by fastforce
next
  case False
  let ?r = "location mod 8"
  have "len = 8 - ?r + 8 * ((len - (8 - ?r)) div 8) + (len - (8 - ?r)) mod 8" using False by simp
  then show thesis
    using that(3) [of "location div 8" ?r "(len - (8 - ?r)) div 8" "(len - (8 - ?r)) mod 8"] by simp
qed

lemma range_pieces_cover: "covers (range_pieces (location, len)) idx \<longleftrightarrow> location \<le> idx \<and> idx < location + len"
proof -
  obtain i k where ik: "idx div 8 = i" "idx mod 8 = k" by blast
  then have idx: "idx = 8 * i + k" "k < 8" by auto
  show ?thesis
  proof (cases rule: range_cases [where len = len and location = location])
    case 1 then show ?thesis by (simp add: range_pieces_def)
  next
    case (2 q r)
    have "range_pieces (location, len) = [(q, CFBitBucketMask r (r + len - 1))]"
      unfolding 2(1) by (rule range_pieces_short) (use 2 in auto)
    then have "covers (range_pieces (location, len)) idx \<longleftrightarrow> i = q \<and> r \<le> k \<and> k \<le> r + len - 1"
      using 2(2-4) idx(2) bit_mask_iff [of r "r + len - 1" k] by (simp add: ik)
    also have "\<dots> \<longleftrightarrow> 8 * q + r \<le> 8 * i + k \<and> 8 * i + k < 8 * q + r + len"
      using 2(2-4) idx(2) by (cases i q rule: linorder_cases) auto
    finally show ?thesis by (simp only: 2(1) idx(1))
  next
    case (3 q r n l)
    have rp: "range_pieces (location, len) = (q, CFBitBucketMask r 7) # map (\<lambda>i. (i, NOT 0)) [q + 1..<q + 1 + n]
         @ (if l = 0 then [] else [(q + 1 + n, CFBitBucketMask 0 (l - 1))])"
      unfolding 3(1,3) by (rule range_pieces_long [OF 3(2,4)])
    have "covers (range_pieces (location, len)) idx \<longleftrightarrow>
        i = q \<and> r \<le> k \<or> q + 1 \<le> i \<and> i < q + 1 + n \<or> l \<noteq> 0 \<and> i = q + 1 + n \<and> k \<le> l - 1"
      unfolding rp using 3(2,4) idx(2) bit_mask_iff [of r 7 k] bit_mask_iff [of 0 "l - 1" k]
      by (cases "l = 0") (simp_all add: covers_full ik Suc_le_eq del: upt.simps)
    also have "\<dots> \<longleftrightarrow> 8 * q + r \<le> 8 * i + k \<and> 8 * i + k < 8 * q + r + (8 - r + 8 * n + l)"
      using 3(2,4) idx(2)
      by (cases i q rule: linorder_cases; cases i "q + 1 + n" rule: linorder_cases) auto
    finally show ?thesis by (simp only: 3(1,3) idx(1))
  qed
qed

lemma range_pieces_shape:
  "map fst (range_pieces (location, len)) = [location div 8..<location div 8 + length (range_pieces (location, len))]
   \<and> length (range_pieces (location, len)) = (if len = 0 then 0 else (location mod 8 + len + 7) div 8)"
proof (cases rule: range_cases [where len = len and location = location])
  case 1 then show ?thesis by (simp add: range_pieces_def)
next
  case (2 q r) then show ?thesis by (simp add: range_pieces_short)
next
  case (3 q r n l)
  have rp: "range_pieces (location, len) = (q, CFBitBucketMask r 7) # map (\<lambda>i. (i, NOT 0)) [q + 1..<q + 1 + n]
       @ (if l = 0 then [] else [(q + 1 + n, CFBitBucketMask 0 (l - 1))])"
    unfolding 3(1,3) by (rule range_pieces_long [OF 3(2,4)])
  have qr: "location div 8 = q" "location mod 8 = r" using 3(1,2) by simp_all
  have head: "q # [Suc q..<Suc (q + n)] = [q..<Suc (q + n)]"
    using upt_conv_Cons [of q "Suc (q + n)"] by simp
  have tail: "q # [Suc q..<Suc (q + n)] @ [Suc (q + n)] = [q..<Suc (Suc (q + n))]"
    using upt_Suc_append [of q "Suc (q + n)"] head by (metis append_Cons le_SucI le_add1)
  have len: "len \<noteq> 0" "r + len + 7 = 15 + 8 * n + l" using 3(2,3) by simp_all
  have "l \<noteq> 0 \<Longrightarrow> (15 + 8 * n + l) div 8 = Suc (Suc n)" "(15 + 8 * n) div 8 = Suc n"
    using 3(4) by presburger+
  then show ?thesis
    unfolding rp qr using len head tail by (cases "l = 0") (simp_all add: comp_def del: upt.simps)
qed

section \<open>What a mapper does to the bits\<close>

lemma map_fragment_bit:
  assumes "i < length bs" "\<And>j. j < 8 \<Longrightarrow> bit (fst (mapper (bs ! i) m c)) j = f (bit (bs ! i) j)"
  shows "CFBitVectorBit (fst (map_fragment mapper i m (bs, c))) idx =
    (if idx div 8 = i \<and> bit m (7 - idx mod 8) then f (CFBitVectorBit bs idx) else CFBitVectorBit bs idx)"
  using assms by (cases "idx div 8 = i")
    (auto simp: map_fragment_def CFBitVectorBit_iff bit_simps split: prod.split)

lemma length_map_fragment [simp]: "length (fst (map_fragment mapper i m s)) = length (fst s)"
  by (cases s) (simp add: map_fragment_def split: prod.split)

lemma length_map_pieces [simp]: "length (fst (map_pieces mapper ps s)) = length (fst s)"
proof (induction ps arbitrary: s)
  case (Cons p ps) then show ?case by (cases p) simp
qed simp

text \<open>A mapper that changes each bit by \<open>f\<close>, whatever it does with its context.\<close>

locale bit_mapper =
  fixes mapper :: "'c mapper" and f :: "bool \<Rightarrow> bool"
  assumes mapper_bit: "j < 8 \<Longrightarrow> bit (fst (mapper v m c)) j = f (bit v j)"
begin

lemma map_pieces_bit:
  "distinct (map fst ps) \<Longrightarrow> \<forall>(i, m) \<in> set ps. i < length bs \<Longrightarrow>
     CFBitVectorBit (fst (map_pieces mapper ps (bs, c))) idx =
     (if covers ps idx then f (CFBitVectorBit bs idx) else CFBitVectorBit bs idx)"
proof (induction ps arbitrary: bs c)
  case (Cons p ps)
  obtain i m where p: "p = (i, m)" by fastforce
  obtain bs' c' where s: "map_fragment mapper i m (bs, c) = (bs', c')" by fastforce
  have len: "length bs' = length bs" using length_map_fragment [of mapper i m "(bs, c)"] s by simp
  have b: "CFBitVectorBit bs' idx =
      (if idx div 8 = i \<and> bit m (7 - idx mod 8) then f (CFBitVectorBit bs idx) else CFBitVectorBit bs idx)"
    using map_fragment_bit [of i bs mapper m c f idx] mapper_bit Cons.prems(2) s p by simp
  have "covers ps idx \<Longrightarrow> idx div 8 \<noteq> i"
    using Cons.prems(1) p by (force simp: covers_def)
  then show ?case
    using Cons.IH [of bs' c'] Cons.prems b s len by (auto simp: p)
qed simp

lemma internal_map_bit:
  assumes "location + len \<le> 8 * length bs"
  shows "CFBitVectorBit (fst (CFBitVectorInternalMap (location, len) mapper (bs, c))) idx =
     (if location \<le> idx \<and> idx < location + len then f (CFBitVectorBit bs idx) else CFBitVectorBit bs idx)"
proof -
  have d: "distinct (map fst (range_pieces (location, len)))"
    by (simp only: conjunct1 [OF range_pieces_shape] distinct_upt)
  have "i < length bs" if "(i, m) \<in> set (range_pieces (location, len))" for i m
  proof -
    have "i \<in> set (map fst (range_pieces (location, len)))" using that by force
    then have "i < location div 8 + length (range_pieces (location, len))" "len \<noteq> 0"
      using range_pieces_shape [of location len] by (auto split: if_splits)
    then have "i < location div 8 + (location mod 8 + len + 7) div 8"
      using range_pieces_shape [of location len] by simp
    also have "\<dots> = (8 * (location div 8) + (location mod 8 + len + 7)) div 8"
      by (simp only: div_mult_self4 [of 8, simplified])
    also have "\<dots> = (location + len + 7) div 8" by (simp add: add.assoc [symmetric])
    also have "\<dots> \<le> (8 * length bs + 7) div 8" using assms by (intro div_le_mono) simp
    finally show ?thesis by simp
  qed
  then have "\<forall>(i, m) \<in> set (range_pieces (location, len)). i < length bs" by blast
  from map_pieces_bit [OF d this] show ?thesis
    by (simp only: CFBitVectorInternalMap_pieces range_pieces_cover)
qed

end

interpretation zero_bits: bit_mapper CFBitVectorZeroBits "\<lambda>_. False"
  by unfold_locales (simp add: CFBitVectorZeroBits_def)

interpretation one_bits: bit_mapper CFBitVectorOneBits "\<lambda>_. True"
  by unfold_locales (simp add: CFBitVectorOneBits_def bit_simps)

interpretation flip_bits: bit_mapper CFBitVectorFlipBits_mapper Not
  by unfold_locales (simp add: CFBitVectorFlipBits_mapper_def bit_simps)

interpretation count_bits: bit_mapper CFBitVectorCountBits "\<lambda>b. b"
  by unfold_locales (simp add: CFBitVectorCountBits_def Let_def split: prod.split)

interpretation get_bits: bit_mapper CFBitVectorGetBits_mapper "\<lambda>b. b"
  by unfold_locales (simp add: CFBitVectorGetBits_mapper_def Let_def split: prod.split)

section \<open>Counting\<close>

definition popcount :: "u8 \<Rightarrow> nat" where
  "popcount v = card {k. k < 8 \<and> bit v (7 - k)}"

lemma popcount_sum: "popcount v = (\<Sum>k<8. of_bool (bit v (7 - k)))"
  by (simp add: popcount_def sum.If_cases of_bool_def Collect_conj_eq lessThan_def Int_commute)

lemma nibble_count:
  "n < 16 \<Longrightarrow> CFNibbleBitCount ! n = of_bool (bit n 0) + of_bool (bit n 1) + of_bool (bit n 2) + of_bool (bit n 3)"
proof -
  assume "n < 16"
  then have "n \<in> {0, 1, 2, 3, 4, 5, 6, 7, 8, 9, 10, 11, 12, 13, 14, 15}" unfolding insert_iff empty_iff by presburger
  then show ?thesis
    unfolding CFNibbleBitCount_def by (elim insertE emptyE) (simp_all add: bit_numeral_rec bit_0)
qed

lemma nibble_bits:
  fixes v :: u8
  shows "CFNibbleBitCount ! unat (v AND 0xF) = of_bool (bit v 0) + of_bool (bit v 1) + of_bool (bit v 2) + of_bool (bit v 3)"
proof -
  have m: "v AND 0xF = take_bit 4 v" by (simp add: take_bit_eq_mask mask_eq_exp_minus_1)
  have "unat (v AND 0xF) < 16" unfolding m using take_bit_nat_less_exp [of 4 "unat v"]
    by (simp add: unsigned_take_bit_eq)
  then show ?thesis using nibble_count [of "unat (v AND 0xF)"] by (simp add: m unsigned_take_bit_eq bit_take_bit_iff bit_unsigned_iff)
qed

lemma count_bits_popcount:
  "CFBitVectorCountBits v m (val, n) =
     (v, (val, n + popcount ((if val then v else NOT v) AND m)))"
  by (simp add: CFBitVectorCountBits_def Let_def nibble_bits popcount_sum bit_simps numeral_eq_Suc)

lemma map_fragment_count:
  "map_fragment CFBitVectorCountBits i m (bs, (val, n)) =
     (bs, (val, n + popcount ((if val then bs ! i else NOT (bs ! i)) AND m)))"
proof -
  have "(b AND NOT m) OR (b AND m) = b" for b :: u8
    by (rule bit_eqI) (auto simp: bit_simps)
  then show ?thesis by (simp add: map_fragment_def count_bits_popcount)
qed

lemma popcount_covers:
  "popcount ((if val then b else NOT b) AND m) = card {idx. idx div 8 = i \<and> bit m (7 - idx mod 8) \<and> bit b (7 - idx mod 8) = val}"
proof -
  have "{idx. idx div 8 = i \<and> bit m (7 - idx mod 8) \<and> bit b (7 - idx mod 8) = val}
      = (\<lambda>k. 8 * i + k) ` {k. k < 8 \<and> bit ((if val then b else NOT b) AND m) (7 - k)}"
  proof (intro equalityI subsetI)
    fix idx assume "idx \<in> {idx. idx div 8 = i \<and> bit m (7 - idx mod 8) \<and> bit b (7 - idx mod 8) = val}"
    then show "idx \<in> (\<lambda>k. 8 * i + k) ` {k. k < 8 \<and> bit ((if val then b else NOT b) AND m) (7 - k)}"
      by (intro image_eqI [of _ _ "idx mod 8"]) (auto simp: bit_simps)
  qed (auto simp: bit_simps split: if_splits)
  then show ?thesis by (simp add: popcount_def card_image inj_on_def)
qed

lemma map_pieces_count:
  "distinct (map fst ps) \<Longrightarrow> map_pieces CFBitVectorCountBits ps (bs, (val, n)) =
     (bs, (val, n + card {idx. covers ps idx \<and> CFBitVectorBit bs idx = val}))"
proof (induction ps arbitrary: n)
  case (Cons p ps)
  obtain i m where p: "p = (i, m)" by fastforce
  let ?A = "{idx. idx div 8 = i \<and> bit m (7 - idx mod 8) \<and> bit (bs ! i) (7 - idx mod 8) = val}"
  let ?B = "{idx. covers ps idx \<and> CFBitVectorBit bs idx = val}"
  have fin: "finite {idx. idx div 8 = i}" for i :: nat
    by (rule finite_subset [of _ "{..<8 * i + 8}"]) auto
  have "?B \<subseteq> (\<Union>(i, m) \<in> set ps. {idx. idx div 8 = i})" by (auto simp: covers_def)
  then have finB: "finite ?B" by (rule finite_subset) (auto intro: fin)
  have finA: "finite ?A" using fin [of i] by (auto intro: finite_subset)
  have "?A \<inter> ?B = {}" using Cons.prems p by (force simp: covers_def)
  moreover have "{idx. covers (p # ps) idx \<and> CFBitVectorBit bs idx = val} = ?A \<union> ?B"
    by (auto simp: p CFBitVectorBit_iff)
  ultimately have "card {idx. covers (p # ps) idx \<and> CFBitVectorBit bs idx = val} = card ?A + card ?B"
    using finA finB by (simp add: card_Un_disjoint)
  then show ?case
    using Cons by (simp add: p map_fragment_count popcount_covers [where i = i])
qed simp

lemma CFBitVectorGetCountOfBit_card:
  "CFBitVectorGetCountOfBit bv (location, len) val =
     card {idx. location \<le> idx \<and> idx < location + len \<and> CFBitVectorBit (bv_buckets bv) idx = val}"
proof -
  have "distinct (map fst (range_pieces (location, len)))"
    by (simp only: conjunct1 [OF range_pieces_shape] distinct_upt)
  then show ?thesis
    by (auto simp: CFBitVectorGetCountOfBit_def CFBitVectorInternalMap_pieces map_pieces_count
        range_pieces_cover conj_assoc)
qed

section \<open>Reading bits\<close>

lemma map_fragment_getbits:
  "map_fragment CFBitVectorGetBits_mapper i m (bs, c) = (bs, snd (CFBitVectorGetBits_mapper (bs ! i) m c))"
proof -
  have "(b AND NOT m) OR (b AND m) = b" for b :: u8
    by (rule bit_eqI) (auto simp: bit_simps)
  moreover have "fst (CFBitVectorGetBits_mapper b m c) = b" for b
    by (simp add: CFBitVectorGetBits_mapper_def Let_def split: prod.split)
  moreover obtain b' c' where "CFBitVectorGetBits_mapper (bs ! i) m c = (b', c')" by fastforce
  ultimately show ?thesis by (simp add: map_fragment_def) (metis fst_conv list_update_id)
qed

text \<open>With no initial bits to skip, a bucket's masked value is stored as the next byte.\<close>

lemma getbits_step:
  assumes "initBits c = 0" "8 \<le> totalBits c"
  shows "snd (CFBitVectorGetBits_mapper v m c) =
    c\<lparr>out_bytes := (out_bytes c)[curByte c := v AND m], curByte := curByte c + 1\<rparr>"
  using assms by (simp add: CFBitVectorGetBits_mapper_def Let_def put_byte_def)

lemma getbits_short:
  assumes "initBits c = 0" "0 < totalBits c" "totalBits c < 8"
  shows "out_bytes (snd (CFBitVectorGetBits_mapper v m c)) = (out_bytes c)[curByte c := v AND m]"
  using assms by (simp add: CFBitVectorGetBits_mapper_def Let_def put_byte_def)

lemma getbits_pieces:
  "initBits c = 0 \<Longrightarrow> 8 \<le> totalBits c \<Longrightarrow> curByte c + length ps \<le> length (out_bytes c) \<Longrightarrow>
   out_bytes (snd (map_pieces CFBitVectorGetBits_mapper ps (bs, c))) =
     take (curByte c) (out_bytes c) @ map (\<lambda>(i, m). bs ! i AND m) ps @ drop (curByte c + length ps) (out_bytes c)"
proof (induction ps arbitrary: c)
  case (Cons p ps)
  obtain i m where p: "p = (i, m)" by fastforce
  let ?c = "c\<lparr>out_bytes := (out_bytes c)[curByte c := bs ! i AND m], curByte := curByte c + 1\<rparr>"
  have "out_bytes (snd (map_pieces CFBitVectorGetBits_mapper ps (bs, ?c))) =
     take (curByte ?c) (out_bytes ?c) @ map (\<lambda>(i, m). bs ! i AND m) ps @ drop (curByte ?c + length ps) (out_bytes ?c)"
    using Cons.prems by (intro Cons.IH) simp_all
  then show ?case
    using Cons.prems take_Suc_list_update [of "curByte c" "out_bytes c" "bs ! i AND m"]
    by (simp add: p map_fragment_getbits getbits_step)
qed simp

lemma getbits_aligned_bytes:
  assumes "location mod 8 = 0" "len \<noteq> 0" "(len + 7) div 8 \<le> length bytes"
  shows "CFBitVectorGetBits bv (location, len) bytes =
    map (\<lambda>(i, m). bv_buckets bv ! i AND m) (range_pieces (location, len)) @ drop ((len + 7) div 8) bytes"
proof -
  have n: "length (range_pieces (location, len)) = (len + 7) div 8"
    using range_pieces_shape [of location len] assms by simp
  show ?thesis
  proof (cases "len < 8")
    case True
    then obtain q m where "range_pieces (location, len) = [(q, m)]"
      using assms by (auto simp: range_pieces_def Let_def)
    moreover have "(len + 7) div 8 = 1" using True assms(2) by auto
    moreover obtain b bs where "bytes = b # bs" using assms(3) calculation(2) by (cases bytes) auto
    ultimately show ?thesis
      using True assms
      by (simp add: CFBitVectorGetBits_def CFBitVectorInternalMap_pieces map_fragment_getbits getbits_short)
  next
    case False
    then show ?thesis
      using assms n by (simp add: CFBitVectorGetBits_def CFBitVectorInternalMap_pieces getbits_pieces)
  qed
qed

lemma CFBitVectorGetBits_aligned:
  assumes "location mod 8 = 0" "(len + 7) div 8 \<le> length bytes"
  shows "\<forall>idx < 8 * ((len + 7) div 8). CFBitVectorBit (CFBitVectorGetBits bv (location, len) bytes) idx
      \<longleftrightarrow> idx < len \<and> CFBitVectorBit (bv_buckets bv) (location + idx)"
proof (cases "len = 0")
  case False
  let ?ps = "range_pieces (location, len)" and ?n = "(len + 7) div 8"
  obtain q where q: "location = 8 * q" using assms(1) by (auto simp: mod_eq_0_iff_dvd)
  have n: "length ?ps = ?n" and fsts: "map fst ?ps = [q..<q + ?n]"
    using range_pieces_shape [of location len] False q by simp_all
  show ?thesis
  proof (intro allI impI)
    fix idx assume idx: "idx < 8 * ?n"
    let ?j = "idx div 8"
    have j: "?j < ?n" using idx by (simp add: less_mult_imp_div_less mult.commute)
    have "fst (?ps ! ?j) = map fst ?ps ! ?j" using j n by simp
    also have "\<dots> = q + ?j" using j by (simp add: fsts)
    finally obtain m where pj: "?ps ! ?j = (q + ?j, m)" by (metis prod.collapse)
    have div: "(location + idx) div 8 = q + ?j" "(location + idx) mod 8 = idx mod 8" by (simp_all add: q)
    have dist: "distinct (map fst ?ps)" by (simp add: fsts)
    have "covers ?ps (location + idx) \<longleftrightarrow> bit m (7 - idx mod 8)"
    proof
      assume "covers ?ps (location + idx)"
      then obtain m' where m': "(q + ?j, m') \<in> set ?ps" "bit m' (7 - idx mod 8)"
        by (auto simp: covers_def div)
      moreover have "(q + ?j, m) \<in> set ?ps" using pj j n nth_mem by metis
      ultimately show "bit m (7 - idx mod 8)" using dist by (metis eq_key_imp_eq_value)
    next
      assume "bit m (7 - idx mod 8)"
      moreover have "(q + ?j, m) \<in> set ?ps" using pj j n nth_mem by metis
      ultimately show "covers ?ps (location + idx)" by (auto simp: covers_def div)
    qed
    then have "idx < len \<longleftrightarrow> bit m (7 - idx mod 8)" by (simp add: range_pieces_cover)
    moreover have "CFBitVectorGetBits bv (location, len) bytes ! ?j = bv_buckets bv ! (q + ?j) AND m"
      using getbits_aligned_bytes [OF assms(1) False assms(2)] j n pj by (simp add: nth_append)
    ultimately show "CFBitVectorBit (CFBitVectorGetBits bv (location, len) bytes) idx
        \<longleftrightarrow> idx < len \<and> CFBitVectorBit (bv_buckets bv) (location + idx)"
      by (auto simp: CFBitVectorBit_iff div bit_simps)
  qed
qed simp

section \<open>The list of bits\<close>

definition bv_bits :: "CFBitVector \<Rightarrow> bool list" where
  "bv_bits bv = map (CFBitVectorBit (bv_buckets bv)) [0..<bv_count bv]"

text \<open>The invariant: the buckets are as many as the capacity says, and hold the count.\<close>

definition bv_ok :: "CFBitVector \<Rightarrow> bool" where
  "bv_ok bv \<longleftrightarrow> length (bv_buckets bv) = CFBitVectorNumBuckets (bv_capacity bv) \<and> bv_count bv \<le> bv_capacity bv"

lemma bv_ok_room: "bv_ok bv \<Longrightarrow> bv_count bv < 8 * length (bv_buckets bv)"
  by (simp add: bv_ok_def CFBitVectorNumBuckets_def) presburger

lemma RoundUpCapacity_ge: "n \<le> CFBitVectorRoundUpCapacity n"
  by (simp add: CFBitVectorRoundUpCapacity_def Let_def) presburger

lemma length_internal_map [simp]: "length (fst (CFBitVectorInternalMap rng mapper s)) = length (fst s)"
  by (simp add: CFBitVectorInternalMap_pieces)

lemma bv_ok_map [simp]: "bv_ok (map_buckets rng mapper bv) \<longleftrightarrow> bv_ok bv"
  by (simp add: bv_ok_def map_buckets_def)

lemma length_bv_bits [simp]: "length (bv_bits bv) = bv_count bv"
  by (simp add: bv_bits_def)

text \<open>Replacing a range of a list.\<close>

definition splice :: "nat \<Rightarrow> nat \<Rightarrow> ('a \<Rightarrow> 'a) \<Rightarrow> 'a list \<Rightarrow> 'a list" where
  "splice location len f xs = take location xs @ map f (take len (drop location xs)) @ drop (location + len) xs"

lemma splice_map:
  "location + len \<le> n \<Longrightarrow>
   splice location len f (map g [0..<n]) =
     map (\<lambda>i. if location \<le> i \<and> i < location + len then f (g i) else g i) [0..<n]"
  by (rule nth_equalityI) (auto simp: splice_def nth_append)

lemma map_buckets_bits:
  assumes "bit_mapper mapper f" "bv_ok bv" "location + len \<le> bv_count bv"
  shows "bv_bits (map_buckets (location, len) mapper bv) = splice location len f (bv_bits bv)"
proof -
  have "location + len \<le> 8 * length (bv_buckets bv)" using bv_ok_room [OF assms(2)] assms(3) by simp
  then show ?thesis
    by (simp add: bv_bits_def map_buckets_def splice_map [OF assms(3)] bit_mapper.internal_map_bit [OF assms(1)])
qed

lemma store_bytes_bit:
  "n \<le> length bytes \<Longrightarrow> n \<le> length bs \<Longrightarrow> idx < 8 * length bs \<Longrightarrow> CFBitVectorBit (store_bytes bs bytes n) idx =
     (if idx < 8 * n then CFBitVectorBit bytes idx else CFBitVectorBit bs idx)"
  by (auto simp: CFBitVectorBit_iff store_bytes_def nth_append less_mult_imp_div_less
      div_less_iff_less_mult mult.commute)

lemma CFBitVectorInit_ok:
  assumes "\<forall>bs. bytes = Some bs \<longrightarrow> numBits \<le> 8 * length bs"
  shows "bv_ok (CFBitVectorInit mutable capacity bytes numBits)"
    and "bv_bits (CFBitVectorInit mutable capacity bytes numBits) =
      (case bytes of None \<Rightarrow> replicate numBits False | Some bs \<Rightarrow> map (CFBitVectorBit bs) [0..<numBits])"
proof -
  define n where "n = numBits div 8 + (if numBits mod 8 \<noteq> 0 then 1 else 0)"
  have n: "numBits \<le> 8 * n" by (simp add: n_def) presburger
  have cap: "numBits \<le> CFBitVectorRoundUpCapacity numBits" by (rule RoundUpCapacity_ge)
  then have len: "n \<le> CFBitVectorNumBuckets (CFBitVectorRoundUpCapacity numBits)"
    unfolding n_def CFBitVectorNumBuckets_def using div_le_mono by fastforce
  have by8: "n \<le> length bs" if "bytes = Some bs" for bs
  proof -
    have "numBits \<le> 8 * length bs" using assms that by blast
    then show ?thesis unfolding n_def by presburger
  qed
  show "bv_ok (CFBitVectorInit mutable capacity bytes numBits)"
    using cap len by8 by (auto simp: bv_ok_def CFBitVectorInit_def Let_def store_bytes_def n_def split: option.split)
  have "8 * n \<le> 8 * CFBitVectorNumBuckets (CFBitVectorRoundUpCapacity numBits)" using len by simp
  then show "bv_bits (CFBitVectorInit mutable capacity bytes numBits) =
      (case bytes of None \<Rightarrow> replicate numBits False | Some bs \<Rightarrow> map (CFBitVectorBit bs) [0..<numBits])"
  proof (cases bytes)
    case None
    have "idx div 8 < CFBitVectorNumBuckets (CFBitVectorRoundUpCapacity numBits)" if "idx < numBits" for idx
      using that cap div_le_mono [of idx _ 8] by (simp add: CFBitVectorNumBuckets_def le_imp_less_Suc)
    then show ?thesis
      using None by (auto simp: bv_bits_def CFBitVectorInit_def Let_def CFBitVectorBit_iff
          intro!: nth_equalityI)
  next
    case (Some bs)
    have "CFBitVectorBit (store_bytes (replicate (CFBitVectorNumBuckets (CFBitVectorRoundUpCapacity numBits)) 0) bs n) idx
        = CFBitVectorBit bs idx" if "idx < numBits" for idx
      using that n len by8 [OF Some] by (subst store_bytes_bit) simp_all
    then show ?thesis
      unfolding n_def using Some by (simp add: bv_bits_def CFBitVectorInit_def Let_def)
  qed
qed

lemma CFBitVectorGrow_ok:
  assumes "bv_ok bv"
  shows "bv_ok ((CFBitVectorGrow junk bv n)\<lparr>bv_count := bv_count bv + n\<rparr>)"
    and "idx < bv_count bv \<Longrightarrow> CFBitVectorBit (bv_buckets (CFBitVectorGrow junk bv n)) idx = CFBitVectorBit (bv_buckets bv) idx"
proof -
  have cap: "bv_count bv + n \<le> CFBitVectorRoundUpCapacity (bv_count bv + n)" by (rule RoundUpCapacity_ge)
  then show "bv_ok ((CFBitVectorGrow junk bv n)\<lparr>bv_count := bv_count bv + n\<rparr>)"
    by (simp add: bv_ok_def CFBitVectorGrow_def Let_def)
  assume idx: "idx < bv_count bv"
  have "idx div 8 < length (bv_buckets bv)"
    using bv_ok_room [OF assms] idx by (simp add: div_less_iff_less_mult mult.commute)
  moreover have "idx div 8 < CFBitVectorNumBuckets (CFBitVectorRoundUpCapacity (bv_count bv + n))"
    using cap idx div_le_mono [of idx _ 8] by (simp add: CFBitVectorNumBuckets_def le_imp_less_Suc)
  ultimately show "CFBitVectorBit (bv_buckets (CFBitVectorGrow junk bv n)) idx = CFBitVectorBit (bv_buckets bv) idx"
    by (simp add: CFBitVectorGrow_def Let_def CFBitVectorBit_iff del: upt.simps)
qed

lemma CFBitVectorSetCount_bits:
  assumes "bv_ok bv" "bv_mutable bv"
  shows "bv_ok (CFBitVectorSetCount junk bv n) \<and>
    bv_bits (CFBitVectorSetCount junk bv n) = take n (bv_bits bv) @ replicate (n - bv_count bv) False"
proof (cases "bv_count bv < n")
  case True
  let ?g = "CFBitVectorGrow junk bv (n - bv_count bv)"
  let ?h = "?g\<lparr>bv_count := n\<rparr>"
  have ok: "bv_ok ?h" using CFBitVectorGrow_ok(1) [OF assms(1), of "n - bv_count bv"] True by simp
  have eq: "CFBitVectorSetCount junk bv n = map_buckets (bv_count bv, n - bv_count bv) CFBitVectorZeroBits ?h"
    using True assms(2) by (simp add: CFBitVectorSetCount_def map_buckets_def Let_def)
  have "bv_bits (CFBitVectorSetCount junk bv n) = splice (bv_count bv) (n - bv_count bv) (\<lambda>_. False) (bv_bits ?h)"
    unfolding eq using True ok zero_bits.bit_mapper_axioms by (intro map_buckets_bits) simp_all
  also have "\<dots> = bv_bits bv @ replicate (n - bv_count bv) False"
  proof -
    have "take (bv_count bv) (bv_bits ?h) = bv_bits bv"
      using True CFBitVectorGrow_ok(2) [OF assms(1)]
      by (simp add: bv_bits_def take_map min_def del: upt.simps)
    then show ?thesis using True by (simp add: splice_def map_replicate_const)
  qed
  finally show ?thesis using ok True by (simp add: eq)
next
  case False
  then show ?thesis
    using assms(1) by (auto simp: CFBitVectorSetCount_def bv_ok_def bv_bits_def take_map Let_def)
qed

text \<open>Single bits.\<close>

lemma bucket_bit_of:
  "idx < 8 * length bs \<Longrightarrow>
   CFBitVectorBit (bs[idx div 8 := b]) k = (if k div 8 = idx div 8 then bit b (7 - k mod 8) else CFBitVectorBit bs k)"
  by (simp add: CFBitVectorBit_iff less_mult_imp_div_less mult.commute)

lemma same_position: "k div 8 = idx div 8 \<Longrightarrow> 7 - k mod 8 = 7 - idx mod 8 \<longleftrightarrow> k = (idx :: nat)"
proof -
  assume d: "k div 8 = idx div 8"
  have "k mod 8 \<le> 7" "idx mod 8 \<le> 7" by (simp_all add: less_Suc_eq_le [symmetric])
  then have "7 - k mod 8 = 7 - idx mod 8 \<longleftrightarrow> k mod 8 = idx mod 8" by linarith
  also have "\<dots> \<longleftrightarrow> k = idx" using d by (metis div_mult_mod_eq)
  finally show ?thesis .
qed

lemma CFSetBitVectorBit_bit:
  "idx < 8 * length bs \<Longrightarrow> CFBitVectorBit (CFSetBitVectorBit bs idx val) k = (if k = idx then val else CFBitVectorBit bs k)"
  using same_position [of k idx]
  by (auto simp: CFSetBitVectorBit_def Let_def bucket_bit_of bit_simps) (auto simp: CFBitVectorBit_iff)

lemma CFFlipBitVectorBit_bit:
  "idx < 8 * length bs \<Longrightarrow> CFBitVectorBit (CFFlipBitVectorBit bs idx) k = (if k = idx then \<not> CFBitVectorBit bs k else CFBitVectorBit bs k)"
  using same_position [of k idx]
  by (auto simp: CFFlipBitVectorBit_def Let_def bucket_bit_of bit_simps) (auto simp: CFBitVectorBit_iff)

lemma CFBitVectorSetAllBits_bits:
  assumes "bv_ok bv"
  shows "bv_ok (CFBitVectorSetAllBits bv val) \<and> bv_bits (CFBitVectorSetAllBits bv val) = replicate (bv_count bv) val"
proof -
  let ?n = "bv_count bv div 8" and ?l = "bv_count bv - bv_count bv div 8 * 8"
  define m where "m = (if 0 < ?l then (if val then map_buckets (?n * 8, ?l) CFBitVectorOneBits bv
      else map_buckets (?n * 8, ?l) CFBitVectorZeroBits bv) else bv)"
  have eq: "CFBitVectorSetAllBits bv val =
      m\<lparr>bv_buckets := store_bytes (bv_buckets m) (replicate ?n (if val then NOT 0 else 0)) ?n\<rparr>"
    by (simp only: CFBitVectorSetAllBits_def Let_def m_def)
  have ok: "bv_ok m" "bv_count m = bv_count bv" using assms unfolding m_def by (auto simp: map_buckets_def bv_ok_def)
  have room: "?n * 8 + ?l \<le> 8 * length (bv_buckets bv)" "?n * 8 + ?l = bv_count bv"
    using bv_ok_room [OF assms] by simp_all
  have n: "?n \<le> length (bv_buckets m)" using bv_ok_room [OF ok(1)] ok(2) by (simp add: less_mult_imp_div_less mult.commute less_imp_le)
  have tail: "CFBitVectorBit (bv_buckets m) idx = val" if "?n * 8 \<le> idx" "idx < bv_count bv" for idx
    using that room one_bits.internal_map_bit [OF room(1)] zero_bits.internal_map_bit [OF room(1)]
    by (auto simp: m_def map_buckets_def)
  have "CFBitVectorBit (store_bytes (bv_buckets m) (replicate ?n (if val then NOT 0 else 0)) ?n) idx = val"
    if "idx < bv_count bv" for idx
  proof (cases "idx < 8 * ?n")
    case True
    then have "idx div 8 < ?n" by (simp add: less_mult_imp_div_less mult.commute)
    then show ?thesis using True that n bv_ok_room [OF ok(1)] ok(2)
      by (subst store_bytes_bit) (auto simp: CFBitVectorBit_iff bit_simps)
  next
    case False
    then show ?thesis using tail [of idx] that n bv_ok_room [OF ok(1)] ok(2)
      by (subst store_bytes_bit) (auto simp: mult.commute)
  qed
  then show ?thesis
    using ok n by (auto simp: eq bv_ok_def bv_bits_def store_bytes_def intro!: nth_equalityI)
qed

lemma equal_buckets_iff: "equal_buckets b1 b2 idx n \<longleftrightarrow> (\<forall>i. idx \<le> i \<and> i < idx + n \<longrightarrow> b1 ! i = b2 ! i)"
proof (induction n arbitrary: idx)
  case (Suc n)
  have "(\<forall>i. idx \<le> i \<and> i < idx + Suc n \<longrightarrow> b1 ! i = b2 ! i) \<longleftrightarrow>
      b1 ! idx = b2 ! idx \<and> (\<forall>i. Suc idx \<le> i \<and> i < Suc idx + n \<longrightarrow> b1 ! i = b2 ! i)"
    by (metis Suc_le_eq add_Suc add_Suc_right le_less less_add_Suc1)
  then show ?case by (simp add: Suc)
qed auto

text \<open>No bits set behind the count, in the buckets that \<open>__CFBitVectorEqual\<close> compares.\<close>

definition bv_clean :: "CFBitVector \<Rightarrow> bool" where
  "bv_clean bv \<longleftrightarrow> (\<forall>idx. bv_count bv \<le> idx \<and> idx < 8 * (bv_count bv div 8 + 1) \<longrightarrow> \<not> CFBitVectorBit (bv_buckets bv) idx)"

lemma bucket_eqI:
  assumes "\<And>k. k < 8 \<Longrightarrow> CFBitVectorBit b1 (8 * i + k) = CFBitVectorBit b2 (8 * i + k)"
  shows "b1 ! i = b2 ! i"
proof (rule bit_eqI)
  fix n
  show "bit (b1 ! i) n = bit (b2 ! i) n"
  proof (cases "n < 8")
    case True
    define k where "k = 7 - n"
    then have k: "k < 8" "n = 7 - k" using True by auto
    have "(8 * i + k) div 8 = i" "(8 * i + k) mod 8 = k" using k(1) by simp_all
    then show ?thesis using assms [OF k(1)] by (simp add: CFBitVectorBit_iff k(2))
  next
    case False
    then show ?thesis using bit_imp_le_length by fastforce
  qed
qed

lemma CFBitVectorEqual_iff:
  assumes "bv_clean a" "bv_clean b"
  shows "CFBitVectorEqual a b \<longleftrightarrow> bv_bits a = bv_bits b"
proof
  assume "CFBitVectorEqual a b"
  then have "bv_count a = bv_count b" and "bv_count a \<noteq> 0 \<Longrightarrow> \<forall>i \<le> bv_count a div 8. bv_buckets a ! i = bv_buckets b ! i"
    by (auto simp: CFBitVectorEqual_def equal_buckets_iff Let_def split: if_splits)
  then show "bv_bits a = bv_bits b"
    by (auto simp: bv_bits_def CFBitVectorBit_iff div_le_mono)
next
  assume eq: "bv_bits a = bv_bits b"
  then have n: "bv_count a = bv_count b" using length_bv_bits by metis
  have low: "CFBitVectorBit (bv_buckets a) idx = CFBitVectorBit (bv_buckets b) idx" if "idx < bv_count a" for idx
    using eq that n by (simp add: bv_bits_def)
  have all: "CFBitVectorBit (bv_buckets a) idx = CFBitVectorBit (bv_buckets b) idx"
    if "idx < 8 * (bv_count a div 8 + 1)" for idx
    using that low [of idx] assms n unfolding bv_clean_def by (cases "idx < bv_count a") simp_all
  have "bv_buckets a ! i = bv_buckets b ! i" if "i \<le> bv_count a div 8" for i
    using that by (intro bucket_eqI all) simp
  then show "CFBitVectorEqual a b" using n by (simp add: CFBitVectorEqual_def equal_buckets_iff)
qed

text \<open>Searching.\<close>

lemma first_index_spec:
  "case first_index bv location val n of
     None \<Rightarrow> \<forall>i. location \<le> i \<and> i < location + n \<longrightarrow> CFBitVectorBit (bv_buckets bv) i \<noteq> val
   | Some k \<Rightarrow> location \<le> k \<and> k < location + n \<and> CFBitVectorBit (bv_buckets bv) k = val
       \<and> (\<forall>i. location \<le> i \<and> i < k \<longrightarrow> CFBitVectorBit (bv_buckets bv) i \<noteq> val)"
proof (induction n arbitrary: location)
  case (Suc n)
  show ?case
  proof (cases "val = CFBitVectorGetBitAtIndex bv location")
    case True
    then show ?thesis by (auto simp: CFBitVectorGetBitAtIndex_def)
  next
    case False
    then have "\<And>i. location \<le> i \<and> CFBitVectorBit (bv_buckets bv) i = val \<Longrightarrow> Suc location \<le> i"
      by (metis CFBitVectorGetBitAtIndex_def le_eq_less_or_eq Suc_le_eq)
    then show ?thesis using Suc [of "Suc location"] False by (fastforce split: option.splits)
  qed
qed auto

lemma last_index_spec:
  "case last_index bv location val n of
     None \<Rightarrow> \<forall>i. location \<le> i \<and> i < location + n \<longrightarrow> CFBitVectorBit (bv_buckets bv) i \<noteq> val
   | Some k \<Rightarrow> location \<le> k \<and> k < location + n \<and> CFBitVectorBit (bv_buckets bv) k = val
       \<and> (\<forall>i. k < i \<and> i < location + n \<longrightarrow> CFBitVectorBit (bv_buckets bv) i \<noteq> val)"
proof (induction n)
  case (Suc n)
  then show ?case
    by (auto simp: CFBitVectorGetBitAtIndex_def less_Suc_eq split: option.splits)
qed auto

section \<open>Properties\<close>

text \<open>C34. The range operations on a well-formed vector: \<open>CFBitVectorSetBits\<close> and
  \<open>CFBitVectorFlipBits\<close> change exactly the bits of the range, \<open>CFBitVectorSetAllBits\<close>
  changes all of them, and each keeps the vector well formed.\<close>

theorem bitvector_range_updates:
  assumes "bv_ok bv" "location + len \<le> bv_count bv"
  shows "bv_bits (CFBitVectorSetBits bv (location, len) val) =
      take location (bv_bits bv) @ replicate len val @ drop (location + len) (bv_bits bv)
    \<and> bv_bits (CFBitVectorFlipBits bv (location, len)) =
      take location (bv_bits bv) @ map Not (take len (drop location (bv_bits bv))) @ drop (location + len) (bv_bits bv)
    \<and> bv_bits (CFBitVectorSetAllBits bv val) = replicate (bv_count bv) val
    \<and> bv_ok (CFBitVectorSetBits bv (location, len) val) \<and> bv_ok (CFBitVectorFlipBits bv (location, len))
    \<and> bv_ok (CFBitVectorSetAllBits bv val)"
  using map_buckets_bits [OF one_bits.bit_mapper_axioms assms] map_buckets_bits [OF zero_bits.bit_mapper_axioms assms]
    map_buckets_bits [OF flip_bits.bit_mapper_axioms assms] CFBitVectorSetAllBits_bits [OF assms(1)] assms
  by (simp add: CFBitVectorSetBits_def CFBitVectorFlipBits_def splice_def map_replicate_const)

theorem bitvector_range_updates_witness:
  "bv_bits (CFBitVectorSetBits (CFBitVectorCreate [0, 0] 16) (3, 7) True) =
     take 3 (bv_bits (CFBitVectorCreate [0, 0] 16)) @ replicate 7 True @ drop (3 + 7) (bv_bits (CFBitVectorCreate [0, 0] 16))"
proof -
  have "bv_ok (CFBitVectorCreate [0, 0] 16)"
    unfolding CFBitVectorCreate_def by (rule CFBitVectorInit_ok) simp
  moreover have "3 + 7 \<le> bv_count (CFBitVectorCreate [0, 0] 16)"
    by (simp add: CFBitVectorCreate_def CFBitVectorInit_def Let_def)
  ultimately show ?thesis using bitvector_range_updates by blast
qed

text \<open>\<open>CFBitVectorSetBitAtIndex\<close> and \<open>CFBitVectorFlipBitAtIndex\<close> change one bit.\<close>

theorem bitvector_point_updates:
  assumes "bv_ok bv" "idx < bv_count bv"
  shows "bv_bits (CFBitVectorSetBitAtIndex bv idx val) = (bv_bits bv)[idx := val]
    \<and> bv_bits (CFBitVectorFlipBitAtIndex bv idx) = (bv_bits bv)[idx := \<not> bv_bits bv ! idx]
    \<and> CFBitVectorGetBitAtIndex bv idx = bv_bits bv ! idx"
proof -
  have "idx < 8 * length (bv_buckets bv)" using bv_ok_room [OF assms(1)] assms(2) by simp
  then show ?thesis
    using assms(2) by (auto simp: bv_bits_def CFBitVectorSetBitAtIndex_def CFBitVectorFlipBitAtIndex_def
        CFBitVectorGetBitAtIndex_def CFSetBitVectorBit_bit CFFlipBitVectorBit_bit nth_list_update
        intro!: nth_equalityI)
qed

theorem bitvector_point_updates_witness:
  "bv_bits (CFBitVectorFlipBitAtIndex (CFBitVectorCreate [0xF0] 8) 3) =
     (bv_bits (CFBitVectorCreate [0xF0] 8))[3 := \<not> bv_bits (CFBitVectorCreate [0xF0] 8) ! 3]"
proof -
  have "bv_ok (CFBitVectorCreate [0xF0] 8)"
    unfolding CFBitVectorCreate_def by (rule CFBitVectorInit_ok) simp
  moreover have "3 < bv_count (CFBitVectorCreate [0xF0] 8)"
    by (simp add: CFBitVectorCreate_def CFBitVectorInit_def Let_def)
  ultimately show ?thesis using bitvector_point_updates by blast
qed

text \<open>C15. \<open>CFBitVectorSetCount\<close> on a mutable vector truncates the bits or extends them with
  zeros, whatever the reallocated memory holds, and keeps the vector well formed.\<close>

theorem bitvector_set_count:
  assumes "bv_ok bv" "bv_mutable bv"
  shows "bv_ok (CFBitVectorSetCount junk bv n) \<and>
    bv_bits (CFBitVectorSetCount junk bv n) = take n (bv_bits bv) @ replicate (n - bv_count bv) False"
  by (rule CFBitVectorSetCount_bits [OF assms])

theorem bitvector_set_count_witness:
  "bv_bits (CFBitVectorSetCount (\<lambda>_. 0xFF) (CFBitVectorCreateMutable 0) 70) =
     take 70 (bv_bits (CFBitVectorCreateMutable 0)) @ replicate (70 - bv_count (CFBitVectorCreateMutable 0)) False"
proof -
  have "bv_ok (CFBitVectorCreateMutable 0)"
    unfolding CFBitVectorCreateMutable_def by (rule CFBitVectorInit_ok) simp
  moreover have "bv_mutable (CFBitVectorCreateMutable 0)"
    by (simp add: CFBitVectorCreateMutable_def CFBitVectorInit_def Let_def)
  ultimately show ?thesis using bitvector_set_count by blast
qed

text \<open>\<open>CFBitVectorGetCountOfBit\<close> returns the number of bits of the range with the value,
  \<open>CFBitVectorContainsBit\<close> whether there is one, and the two searches the first and last of
  them or not found.\<close>

theorem bitvector_queries:
  defines "hits bv location len val \<equiv>
    {idx. location \<le> idx \<and> idx < location + len \<and> CFBitVectorBit (bv_buckets bv) idx = val}"
  shows "CFBitVectorGetCountOfBit bv (location, len) val = card (hits bv location len val)
    \<and> CFBitVectorContainsBit bv (location, len) val = (hits bv location len val \<noteq> {})
    \<and> CFBitVectorGetFirstIndexOfBit bv (location, len) val =
        (if hits bv location len val = {} then None else Some (Min (hits bv location len val)))
    \<and> CFBitVectorGetLastIndexOfBit bv (location, len) val =
        (if hits bv location len val = {} then None else Some (Max (hits bv location len val)))"
proof (intro conjI)
  let ?H = "hits bv location len val"
  have fin: "finite ?H" by (simp add: hits_def)
  show c: "CFBitVectorGetCountOfBit bv (location, len) val = card ?H"
    by (simp add: CFBitVectorGetCountOfBit_card hits_def)
  show "CFBitVectorContainsBit bv (location, len) val = (?H \<noteq> {})"
    using fin by (simp add: CFBitVectorContainsBit_def c)
  show "CFBitVectorGetFirstIndexOfBit bv (location, len) val = (if ?H = {} then None else Some (Min ?H))"
  proof (cases "CFBitVectorGetFirstIndexOfBit bv (location, len) val")
    case None
    then show ?thesis using first_index_spec [where bv = bv and location = location and val = val and n = len]
      by (auto simp: hits_def CFBitVectorGetFirstIndexOfBit_def)
  next
    case (Some k)
    then have "k \<in> ?H" "\<forall>i \<in> ?H. k \<le> i"
      using first_index_spec [where bv = bv and location = location and val = val and n = len] by (force simp: hits_def CFBitVectorGetFirstIndexOfBit_def)+
    then show ?thesis using Some fin Min_eqI [of ?H k] by auto
  qed
  show "CFBitVectorGetLastIndexOfBit bv (location, len) val = (if ?H = {} then None else Some (Max ?H))"
  proof (cases "CFBitVectorGetLastIndexOfBit bv (location, len) val")
    case None
    then show ?thesis using last_index_spec [where bv = bv and location = location and val = val and n = len]
      by (auto simp: hits_def CFBitVectorGetLastIndexOfBit_def)
  next
    case (Some k)
    then have k: "k \<in> ?H" and "\<forall>i. k < i \<and> i < location + len \<longrightarrow> CFBitVectorBit (bv_buckets bv) i \<noteq> val"
      using last_index_spec [where bv = bv and location = location and val = val and n = len]
      by (simp_all add: hits_def CFBitVectorGetLastIndexOfBit_def)
    then have "\<forall>i \<in> ?H. i \<le> k" unfolding hits_def by (metis (mono_tags, lifting) mem_Collect_eq not_less)
    then show ?thesis using Some k fin Max_eqI [of ?H k] by auto
  qed
qed

text \<open>\<open>CFBitVectorGetBits\<close> on a range that starts at a bucket boundary copies the bits
  of the range to the start of the buffer, and sets the rest of the last byte to zero.\<close>

theorem bitvector_get_bits_aligned:
  assumes "location mod 8 = 0" "(len + 7) div 8 \<le> length bytes"
  shows "\<forall>idx < 8 * ((len + 7) div 8). CFBitVectorBit (CFBitVectorGetBits bv (location, len) bytes) idx
      \<longleftrightarrow> idx < len \<and> CFBitVectorBit (bv_buckets bv) (location + idx)"
  by (rule CFBitVectorGetBits_aligned [OF assms])

theorem bitvector_get_bits_aligned_witness:
  "CFBitVectorBit (CFBitVectorGetBits (CFBitVectorCreate [0xA5, 0x3C] 16) (0, 13) [0, 0, 0]) 12
      = CFBitVectorBit (bv_buckets (CFBitVectorCreate [0xA5, 0x3C] 16)) 12
    \<and> \<not> CFBitVectorBit (CFBitVectorGetBits (CFBitVectorCreate [0xA5, 0x3C] 16) (0, 13) [0, 0, 0]) 13"
  using bitvector_get_bits_aligned [of 0 13 "[0, 0, 0]" "CFBitVectorCreate [0xA5, 0x3C] 16"] by simp

text \<open>On a range that starts inside a bucket and ends inside the next,
  \<open>__CFBitVectorGetBits\<close> never clears \<open>ignoreFirstInitBits\<close> and shifts the leading bits of
  the second bucket away: eight bits from bit 4 always read as zero.\<close>

theorem bitvector_get_bits_unaligned:
  "CFBitVectorGetBits (CFBitVectorCreate [b0, b1] 16) (4, 8) [x] = [0]"
proof -
  have pieces: "range_pieces (4, 8) = [(0, CFBitBucketMask 4 7), (1, CFBitBucketMask 0 3)]"
    by (simp add: range_pieces_def)
  have low: "push_bit 4 (CFBitBucketMask 0 3) = 0"
    by (rule bit_eqI) (auto simp: CFBitBucketMask_def bit_simps)
  show ?thesis
    by (simp add: CFBitVectorGetBits_def CFBitVectorInternalMap_pieces pieces map_fragment_getbits
        CFBitVectorGetBits_mapper_def put_byte_def low)
qed

text \<open>\<open>__CFBitVectorEqual\<close> is equality of the bits for vectors that have no bits set
  behind their count.\<close>

theorem bitvector_equal:
  assumes "bv_clean a" "bv_clean b"
  shows "CFBitVectorEqual a b \<longleftrightarrow> bv_bits a = bv_bits b"
  by (rule CFBitVectorEqual_iff [OF assms])

theorem bitvector_equal_witness:
  "CFBitVectorEqual (CFBitVectorCreateMutable 0) (CFBitVectorCreateMutable 9)
     \<longleftrightarrow> bv_bits (CFBitVectorCreateMutable 0) = bv_bits (CFBitVectorCreateMutable 9)"
proof -
  have "bv_clean (CFBitVectorCreateMutable n)" for n
    by (auto simp: bv_clean_def CFBitVectorCreateMutable_def CFBitVectorInit_def Let_def CFBitVectorBit_iff
        CFBitVectorNumBuckets_def less_mult_imp_div_less)
  then show ?thesis using bitvector_equal by blast
qed

text \<open>\<open>__CFBitVectorEqual\<close> compares whole buckets: two vectors created from bytes that
  agree on the counted bits and differ behind them have the same bits and are not equal.\<close>

theorem bitvector_equal_stale_bits:
  assumes "0 < n" "n < 8" "b \<noteq> c" "\<forall>k < n. bit b (7 - k) = bit c (7 - k)"
  shows "bv_bits (CFBitVectorCreate [b] n) = bv_bits (CFBitVectorCreate [c] n)
    \<and> \<not> CFBitVectorEqual (CFBitVectorCreate [b] n) (CFBitVectorCreate [c] n)"
proof
  have "bv_bits (CFBitVectorCreate [x] n) = map (CFBitVectorBit [x]) [0..<n]" for x
    unfolding CFBitVectorCreate_def using assms(2) CFBitVectorInit_ok(2) [of "Some [x]" n] by simp
  then show "bv_bits (CFBitVectorCreate [b] n) = bv_bits (CFBitVectorCreate [c] n)"
    using assms(2,4) by (simp add: CFBitVectorBit_iff)
  have "bv_buckets (CFBitVectorCreate [x] n) ! 0 = x" "bv_count (CFBitVectorCreate [x] n) = n" for x
    using assms(1,2) by (simp_all add: CFBitVectorCreate_def CFBitVectorInit_def Let_def store_bytes_def)
  then show "\<not> CFBitVectorEqual (CFBitVectorCreate [b] n) (CFBitVectorCreate [c] n)"
    using assms(1-3) by (simp add: CFBitVectorEqual_def equal_buckets_iff)
qed

theorem bitvector_equal_stale_bits_witness:
  "bv_bits (CFBitVectorCreate [0xFF] 4) = bv_bits (CFBitVectorCreate [0xF0] 4)
    \<and> \<not> CFBitVectorEqual (CFBitVectorCreate [0xFF] 4) (CFBitVectorCreate [0xF0] 4)"
proof -
  have "\<forall>k < 4. bit (0xFF :: u8) (7 - k) = bit (0xF0 :: u8) (7 - k)"
    by (simp add: numeral_eq_Suc All_less_Suc)
  then show ?thesis by (intro bitvector_equal_stale_bits) simp_all
qed

end
