(* ===== verification/Date.thy ===== *)
theory Date
  imports Prelude
begin

text \<open>
  CFDate.c: Gregorian dates. A day is counted from 2001/1/1, which is day 0, and a year from
  2001, which is year 0.

  The code computes with whole days in 64-bit integers and in doubles that hold whole numbers;
  both are integers here. A \<open>CFAbsoluteTime\<close> is a whole number of seconds: fractions of a
  second and the rounding of doubles beyond 2 to the 53 are not modelled. The fields of dates and
  units are 32-bit integers: a sum that may leave 32 bits goes through \<open>int32\<close>, which wraps
  around where C leaves the overflow undefined, and the properties exclude it. A time zone is a
  parameter, the function \<open>CFTimeZoneGetSecondsFromGMT\<close> of it. \<open>year_start\<close> gives the
  first day of a year in closed form; the loops over years and months are proved against it.
\<close>

section \<open>Months and years\<close>

definition daysInMonth :: "int list" where
  "daysInMonth = [0, 31, 28, 31, 30, 31, 30, 31, 31, 30, 31, 30, 31, 0, 0, 0]"

definition daysBeforeMonth :: "int list" where
  "daysBeforeMonth = [0, 0, 31, 59, 90, 120, 151, 181, 212, 243, 273, 304, 334, 365, 0, 0]"

definition daysAfterMonth :: "int list" where
  "daysAfterMonth = [365, 334, 306, 275, 245, 214, 184, 153, 122, 92, 61, 31, 0, 0, 0, 0]"

definition isleap :: "int \<Rightarrow> bool" where
  "isleap year =
     (let y = cmod (year + 1) 400;
          y = (if y < 0 then - y else y)
      in y mod 4 = 0 \<and> 100 \<noteq> y \<and> 200 \<noteq> y \<and> 300 \<noteq> y)"

definition CFDaysInMonth :: "int \<Rightarrow> int \<Rightarrow> bool \<Rightarrow> int" where
  "CFDaysInMonth month year leap = daysInMonth ! nat month + of_bool (2 = month \<and> leap)"

definition CFDaysBeforeMonth :: "int \<Rightarrow> int \<Rightarrow> bool \<Rightarrow> int" where
  "CFDaysBeforeMonth month year leap = daysBeforeMonth ! nat month + of_bool (2 < month \<and> leap)"

definition CFDaysAfterMonth :: "int \<Rightarrow> int \<Rightarrow> bool \<Rightarrow> int" where
  "CFDaysAfterMonth month year leap = daysAfterMonth ! nat month + of_bool (month < 2 \<and> leap)"

lemma CFDaysAfterMonth_0: "CFDaysAfterMonth 0 year leap = 365 + of_bool leap"
  by (simp add: CFDaysAfterMonth_def daysAfterMonth_def)

section \<open>Days to dates\<close>

text \<open>The loops of \<open>__CFYMDFromAbsolute\<close>: back to a year that starts no later than the day,
  forward to the year that contains it, and forward to its month. The month search stops at
  the end of the table, which it never reaches.\<close>

function years_back :: "int \<Rightarrow> int \<Rightarrow> int \<times> int" where
  "years_back absolute y =
     (if absolute < 0
      then years_back (absolute + CFDaysAfterMonth 0 (y - 1) (isleap (y - 1))) (y - 1)
      else (absolute, y))"
  by pat_completeness auto
termination
  by (relation "measure (\<lambda>(absolute, y). nat (- absolute))") (auto simp: CFDaysAfterMonth_0 of_bool_def split: if_splits)

function years_forward :: "int \<Rightarrow> int \<Rightarrow> int \<times> int" where
  "years_forward absolute y =
     (let ydays = CFDaysAfterMonth 0 y (isleap y)
      in if ydays \<le> absolute then years_forward (absolute - ydays) (y + 1) else (absolute, y))"
  by pat_completeness auto
termination
  by (relation "measure (\<lambda>(absolute, y). nat absolute)") (auto simp: CFDaysAfterMonth_0 of_bool_def split: if_splits)

function month_search :: "int \<Rightarrow> int \<Rightarrow> bool \<Rightarrow> int \<Rightarrow> int" where
  "month_search absolute y leap m =
     (if m + 1 < 16 \<and> CFDaysBeforeMonth (m + 1) y leap \<le> absolute
      then month_search absolute y leap (m + 1) else m)"
  by pat_completeness auto
termination
  by (relation "measure (\<lambda>(absolute, y, leap, m). nat (16 - m))") auto

declare years_back.simps [simp del] years_forward.simps [simp del] month_search.simps [simp del]

definition CFYMDFromAbsolute :: "int \<Rightarrow> int \<times> int \<times> int" where
  "CFYMDFromAbsolute absolute =
     (let b = cdiv absolute 146097;
          y = b * 400;
          absolute = absolute - b * 146097;
          (absolute, y) = years_back absolute y;
          (absolute, y) = years_forward absolute y;
          m = cdiv absolute 33 + 1;
          leap = isleap y;
          m = month_search absolute y leap m
      in (y, m, absolute - CFDaysBeforeMonth m y leap + 1))"

text \<open>The two loops of \<open>__CFAbsoluteFromYMD\<close>.\<close>

function subtract_years :: "int \<Rightarrow> int \<Rightarrow> int" where
  "subtract_years idx absolute =
     (if idx < 0 then subtract_years (idx + 1) (absolute - CFDaysAfterMonth 0 idx (isleap idx)) else absolute)"
  by pat_completeness auto
termination
  by (relation "measure (\<lambda>(idx, absolute). nat (- idx))") auto

function add_years :: "int \<Rightarrow> int \<Rightarrow> int \<Rightarrow> int" where
  "add_years idx year absolute =
     (if idx < year then add_years (idx + 1) year (absolute + CFDaysAfterMonth 0 idx (isleap idx)) else absolute)"
  by pat_completeness auto
termination
  by (relation "measure (\<lambda>(idx, year, absolute). nat (year - idx))") auto

declare subtract_years.simps [simp del] add_years.simps [simp del]

definition CFAbsoluteFromYMD :: "int \<Rightarrow> int \<Rightarrow> int \<Rightarrow> int" where
  "CFAbsoluteFromYMD year month day =
     (let b = cdiv year 400;
          absolute = b * 146097;
          year = year - b * 400;
          absolute = (if year < 0 then subtract_years year absolute else add_years 0 year absolute)
      in absolute + CFDaysBeforeMonth month year (isleap year) + day - 1)"

section \<open>Dates and times\<close>






type_synonym timezone = "(int \<Rightarrow> int) option"


definition fixed_at :: "int \<Rightarrow> timezone \<Rightarrow> int" where
  "fixed_at at tz = at + (case tz of None \<Rightarrow> 0 | Some secondsFromGMT \<Rightarrow> secondsFromGMT at)"

definition CFDoubleModToInt :: "int \<Rightarrow> int \<Rightarrow> int" where
  "CFDoubleModToInt d modulus =
     (let result = d - d div modulus * modulus in if result < 0 then result + modulus else result)"



section \<open>Adding units\<close>










section \<open>Days and weeks\<close>

definition CFAbsoluteTimeGetDayOfWeek :: "int \<Rightarrow> timezone \<Rightarrow> int" where
  "CFAbsoluteTimeGetDayOfWeek at tz =
     (let absolute = fixed_at at tz div 86400
      in if absolute < 0 then cmod (absolute + 1) 7 + 7 else cmod absolute 7 + 1)"

definition CFAbsoluteTimeGetDayOfYear :: "int \<Rightarrow> timezone \<Rightarrow> int" where
  "CFAbsoluteTimeGetDayOfYear at tz =
     (let absolute = fixed_at at tz div 86400;
          (year, month, day) = CFYMDFromAbsolute absolute
      in CFDaysBeforeMonth month year (isleap year) + day)"

definition CFAbsoluteTimeGetWeekOfYear :: "int \<Rightarrow> timezone \<Rightarrow> int" where
  "CFAbsoluteTimeGetWeekOfYear at tz =
     (let absolute = fixed_at at tz div 86400;
          (year, month, day) = CFYMDFromAbsolute absolute;
          dow0101 = CFDoubleModToInt (CFAbsoluteFromYMD year 1 1) 7 + 1;
          dow20101 = CFDoubleModToInt (CFAbsoluteFromYMD (year + 1) 1 1) 7 + 1
      in if 1 = month \<and> day < 4
            \<and> (day < 4 \<and> 5 = dow0101 \<or> day < 3 \<and> 6 = dow0101 \<or> day < 2 \<and> 7 = dow0101)
         then 53
         else if 12 = month \<and> 28 < day
            \<and> (28 < day \<and> 4 = dow20101 \<or> 29 < day \<and> 3 = dow20101 \<or> 30 < day \<and> 2 = dow20101)
         then 1
         else cdiv (CFDaysBeforeMonth month year (isleap year) + day + cmod (dow0101 - 11) 7 + 2) 7 + 1)"

section \<open>Leap years and the start of a year\<close>

lemma cmod_abs: "0 < b \<Longrightarrow> \<bar>cmod a b\<bar> = \<bar>a\<bar> mod b"
  by (cases "a < 0") (simp_all add: cmod_neg cmod_nonneg)

lemma mod_100_cases:
  fixes x :: int
  assumes "0 \<le> x" "x < 400"
  shows "x mod 100 = 0 \<longleftrightarrow> x = 0 \<or> x = 100 \<or> x = 200 \<or> x = 300"
proof
  assume "x mod 100 = 0"
  then obtain k where k: "x = 100 * k" by (auto simp: mod_eq_0_iff_dvd)
  then have "0 \<le> k" "k < 4" using assms by auto
  then have "k = 0 \<or> k = 1 \<or> k = 2 \<or> k = 3" by linarith
  then show "x = 0 \<or> x = 100 \<or> x = 200 \<or> x = 300" using k by auto
qed auto

lemma isleap_iff: "isleap year \<longleftrightarrow> 4 dvd (year + 1) \<and> (\<not> 100 dvd (year + 1) \<or> 400 dvd (year + 1))"
proof -
  let ?a = "\<bar>year + 1\<bar>"
  have m: "(if cmod (year + 1) 400 < 0 then - cmod (year + 1) 400 else cmod (year + 1) 400) = ?a mod 400"
    using cmod_abs [of 400 "year + 1"] by auto
  have d: "n dvd (year + 1) \<longleftrightarrow> ?a mod n = 0" for n :: int by (simp add: mod_eq_0_iff_dvd)
  define x where "x = ?a mod 400"
  have "?a mod 4 = x mod 4" "?a mod 100 = x mod 100" by (simp_all add: x_def mod_mod_cancel)
  moreover have "x mod 100 = 0 \<longleftrightarrow> x = 0 \<or> x = 100 \<or> x = 200 \<or> x = 300"
    by (rule mod_100_cases) (simp_all add: x_def)
  ultimately show ?thesis
    unfolding isleap_def Let_def m d by (fold x_def) auto
qed

lemma div_step:
  fixes y n :: int
  assumes "0 < n"
  shows "(y + 1) div n = y div n + of_bool (n dvd (y + 1))"
proof (cases "n dvd (y + 1)")
  case True
  then obtain q where q: "y + 1 = n * q" by auto
  then have "y = n * (q - 1) + (n - 1)" by (simp add: algebra_simps)
  then have "y div n = q - 1" using assms by (intro int_div_pos_eq [where r = "n - 1"]) auto
  moreover have "(y + 1) div n = q" unfolding q using assms by simp
  ultimately show ?thesis using True by simp
next
  case False
  then have "(y + 1) mod n \<noteq> 0" by (simp add: dvd_eq_mod_eq_0)
  moreover have "0 \<le> (y + 1) mod n" "(y + 1) mod n < n" using assms by simp_all
  moreover have "y = n * ((y + 1) div n) + ((y + 1) mod n - 1)"
    using mult_div_mod_eq [of n "y + 1"] by linarith
  ultimately have "y div n = (y + 1) div n" by (intro int_div_pos_eq [where r = "(y + 1) mod n - 1"]) auto
  then show ?thesis using False by simp
qed

text \<open>The first day of a year.\<close>

definition year_start :: "int \<Rightarrow> int" where
  "year_start y = 365 * y + y div 4 - y div 100 + y div 400"

definition year_length :: "int \<Rightarrow> int" where
  "year_length y = 365 + of_bool (isleap y)"

lemma year_start_Suc: "year_start (y + 1) = year_start y + year_length y"
proof -
  define a b c where "a = (4 dvd (y + 1))" "b = (100 dvd (y + 1))" "c = (400 dvd (y + 1))"
  have "c \<Longrightarrow> b" "b \<Longrightarrow> a" unfolding a_b_c_def by (erule dvd_trans [rotated], simp)+
  then have sum: "of_bool a - of_bool b + of_bool c = (of_bool (a \<and> (\<not> b \<or> c)) :: int)"
    by (cases a; cases b; cases c) auto
  have steps: "(y + 1) div 4 = y div 4 + of_bool a" "(y + 1) div 100 = y div 100 + of_bool b"
    "(y + 1) div 400 = y div 400 + of_bool c"
    unfolding a_b_c_def by (rule div_step, simp)+
  have "year_start (y + 1) = 365 * (y + 1) + (y div 4 + of_bool a) - (y div 100 + of_bool b) + (y div 400 + of_bool c)"
    by (simp only: year_start_def steps)
  moreover have "year_length y = 365 + of_bool (a \<and> (\<not> b \<or> c))"
    by (simp only: year_length_def isleap_iff a_b_c_def)
  moreover have "365 * (y + 1) + (p + i) - (q + j) + (r + k) = (365 * y + p - q + r) + (365 + (i - j + k))"
    for p q r i j k :: int by simp
  ultimately show ?thesis by (simp only: sum year_start_def [of y])
qed

lemma year_length_pos: "365 \<le> year_length y" "year_length y \<le> 366"
  by (simp_all add: year_length_def)

lemma year_start_period: "year_start (y + 400 * b) = year_start y + 146097 * b"
proof -
  have "(y + 400 * b) div 4 = y div 4 + 100 * b" "(y + 400 * b) div 100 = y div 100 + 4 * b"
    "(y + 400 * b) div 400 = y div 400 + b"
    using div_mult_self2 [of 4 y "100 * b"] div_mult_self2 [of 100 y "4 * b"] by simp_all
  then show ?thesis by (simp add: year_start_def)
qed

lemma isleap_period: "isleap (y + 400 * b) = isleap y"
  using year_start_Suc [of y] year_start_Suc [of "y + 400 * b"]
    year_start_period [of y b] year_start_period [of "y + 1" b]
  by (simp add: year_length_def algebra_simps of_bool_eq_iff)

lemma year_start_mono: "y < y' \<Longrightarrow> year_start y + year_length y \<le> year_start y'"
proof (induction "nat (y' - y)" arbitrary: y' rule: less_induct)
  case less
  show ?case
  proof (cases "y' = y + 1")
    case True then show ?thesis by (simp add: year_start_Suc)
  next
    case False
    then have "year_start y + year_length y \<le> year_start (y' - 1)" using less by auto
    also have "\<dots> \<le> year_start y'"
      using year_start_Suc [of "y' - 1"] year_length_pos(1) [of "y' - 1"] by simp
    finally show ?thesis .
  qed
qed

lemma year_unique:
  assumes "year_start y \<le> a" "a < year_start y + year_length y"
    and "year_start y' \<le> a" "a < year_start y' + year_length y'"
  shows "y = y'"
  using year_start_mono [of y y'] year_start_mono [of y' y] assms by (cases y y' rule: linorder_cases) auto

section \<open>The loops over years\<close>

lemma years_back_spec:
  "years_back a y = (a', y') \<Longrightarrow> year_start y + a = year_start y' + a' \<and> 0 \<le> a'"
proof (induction a y rule: years_back.induct)
  case (1 a y)
  then show ?case
    using year_start_Suc [of "y - 1"]
    by (cases "a < 0") (auto simp: years_back.simps [of a y] CFDaysAfterMonth_0 year_length_def)
qed

lemma years_forward_spec:
  "years_forward a y = (a', y') \<Longrightarrow> 0 \<le> a \<Longrightarrow>
     year_start y + a = year_start y' + a' \<and> 0 \<le> a' \<and> a' < year_length y'"
proof (induction a y rule: years_forward.induct)
  case (1 a y)
  show ?case
  proof (cases "year_length y \<le> a")
    case True
    then have "years_forward (a - year_length y) (y + 1) = (a', y')"
      using "1.prems"(1) by (simp add: years_forward.simps [of a y] CFDaysAfterMonth_0 year_length_def)
    then show ?thesis
      using "1.IH" [of "year_length y"] True "1.prems" year_start_Suc [of y]
      by (simp add: CFDaysAfterMonth_0 year_length_def)
  next
    case False
    then show ?thesis
      using "1.prems" by (simp add: years_forward.simps [of a y] CFDaysAfterMonth_0 year_length_def)
  qed
qed

lemma subtract_years_spec: "idx \<le> 0 \<Longrightarrow> subtract_years idx a = a + year_start idx"
proof (induction idx a rule: subtract_years.induct)
  case (1 idx a)
  then show ?case
    using year_start_Suc [of idx] year_start_def [of 0]
    by (subst subtract_years.simps) (auto simp: CFDaysAfterMonth_0 year_length_def)
qed

lemma add_years_spec: "idx \<le> year \<Longrightarrow> add_years idx year a = a + year_start year - year_start idx"
proof (induction idx year a rule: add_years.induct)
  case (1 idx year a)
  then show ?case
    using year_start_Suc [of idx]
    by (subst add_years.simps) (auto simp: CFDaysAfterMonth_0 year_length_def)
qed

lemma CFAbsoluteFromYMD_eq:
  "CFAbsoluteFromYMD y m d = year_start y + CFDaysBeforeMonth m y (isleap y) + d - 1"
proof -
  let ?b = "cdiv y 400" and ?r = "y - cdiv y 400 * 400"
  have y: "y = ?r + 400 * ?b" by simp
  have "year_start y = year_start ?r + 146097 * ?b" "isleap y = isleap ?r"
    using year_start_period [of ?r ?b] isleap_period [of ?r ?b] y by simp_all
  then show ?thesis
    using subtract_years_spec [of ?r "?b * 146097"] add_years_spec [of 0 ?r "?b * 146097"]
    by (auto simp: CFAbsoluteFromYMD_def Let_def CFDaysBeforeMonth_def year_start_def [of 0])
qed

section \<open>Months\<close>

lemma month_cases:
  fixes m :: int
  assumes "1 \<le> m" "m \<le> 12"
  obtains "m = 1" | "m = 2" | "m = 3" | "m = 4" | "m = 5" | "m = 6"
    | "m = 7" | "m = 8" | "m = 9" | "m = 10" | "m = 11" | "m = 12"
proof -
  have "m = 1 \<or> m = 2 \<or> m = 3 \<or> m = 4 \<or> m = 5 \<or> m = 6
      \<or> m = 7 \<or> m = 8 \<or> m = 9 \<or> m = 10 \<or> m = 11 \<or> m = 12"
    using assms by presburger
  then show thesis using that by blast
qed

lemma before_Suc:
  assumes "1 \<le> m" "m \<le> 12"
  shows "CFDaysBeforeMonth (m + 1) y leap = CFDaysBeforeMonth m y leap + CFDaysInMonth m y leap"
  using assms by (cases rule: month_cases)
    (simp_all add: CFDaysBeforeMonth_def CFDaysInMonth_def daysBeforeMonth_def daysInMonth_def)

lemma month_length_pos:
  assumes "1 \<le> m" "m \<le> 12"
  shows "28 \<le> CFDaysInMonth m y leap"
  using assms by (cases rule: month_cases) (simp_all add: CFDaysInMonth_def daysInMonth_def)

lemma before_1 [simp]: "CFDaysBeforeMonth 1 y leap = 0"
  and before_13: "CFDaysBeforeMonth 13 y leap = 365 + of_bool leap"
  by (simp_all add: CFDaysBeforeMonth_def daysBeforeMonth_def)

lemma before_mono:
  assumes "1 \<le> m"
  shows "m \<le> m' \<Longrightarrow> m' \<le> 13 \<Longrightarrow> CFDaysBeforeMonth m y leap \<le> CFDaysBeforeMonth m' y leap"
proof (induction m' rule: int_ge_induct)
  case (step i)
  then show ?case using before_Suc [of i y leap] month_length_pos [of i y leap] assms by simp
qed simp

lemma month_unique:
  assumes "1 \<le> m" "m \<le> 12" "CFDaysBeforeMonth m y leap \<le> d" "d < CFDaysBeforeMonth (m + 1) y leap"
    and "1 \<le> m'" "m' \<le> 12" "CFDaysBeforeMonth m' y leap \<le> d" "d < CFDaysBeforeMonth (m' + 1) y leap"
  shows "m = m'"
  using before_mono [of "m + 1" m' y leap] before_mono [of "m' + 1" m y leap] assms
  by (cases m m' rule: linorder_cases) auto

lemma month_search_spec:
  "1 \<le> m \<Longrightarrow> m \<le> 12 \<Longrightarrow> CFDaysBeforeMonth m y leap \<le> d \<Longrightarrow> d < CFDaysBeforeMonth 13 y leap \<Longrightarrow>
     1 \<le> month_search d y leap m \<and> month_search d y leap m \<le> 12 \<and>
     CFDaysBeforeMonth (month_search d y leap m) y leap \<le> d \<and>
     d < CFDaysBeforeMonth (month_search d y leap m + 1) y leap"
proof (induction d y leap m rule: month_search.induct)
  case (1 d y leap m)
  show ?case
  proof (cases "CFDaysBeforeMonth (m + 1) y leap \<le> d")
    case True
    then have "m + 1 \<noteq> 13" using "1.prems"(4) by auto
    then have "m + 1 \<le> 12" "m + 1 < 16" using "1.prems"(2) by linarith+
    moreover from this(2) have "month_search d y leap m = month_search d y leap (m + 1)"
      using True by (subst month_search.simps) simp
    ultimately show ?thesis using "1.IH" True "1.prems" by simp
  next
    case False
    then have "month_search d y leap m = m" by (subst month_search.simps) simp
    then show ?thesis using False "1.prems" by simp
  qed
qed

text \<open>The approximation the search starts from is not too late.\<close>

lemma month_start:
  assumes "0 \<le> d" "d < 365 + of_bool leap"
  shows "1 \<le> cdiv d 33 + 1 \<and> cdiv d 33 + 1 \<le> 12 \<and> CFDaysBeforeMonth (cdiv d 33 + 1) y leap \<le> d"
proof -
  have q: "cdiv d 33 = d div 33" using assms(1) by (simp add: cdiv_nonneg)
  have "d < 396" using assms(2) by (cases leap) auto
  then have "0 \<le> d div 33" "d div 33 < 12" "33 * (d div 33) \<le> d" using assms(1) by auto
  then have m: "1 \<le> d div 33 + 1" "d div 33 + 1 \<le> 12" and d: "33 * (d div 33 + 1) - 33 \<le> d" by auto
  have "CFDaysBeforeMonth (d div 33 + 1) y leap \<le> 33 * (d div 33 + 1) - 33"
    using m by (cases rule: month_cases) (simp_all add: CFDaysBeforeMonth_def daysBeforeMonth_def)
  then show ?thesis using m d unfolding q by linarith
qed

section \<open>Days and dates are inverse\<close>

definition date_valid :: "int \<Rightarrow> int \<Rightarrow> int \<Rightarrow> bool" where
  "date_valid y m d \<longleftrightarrow> 1 \<le> m \<and> m \<le> 12 \<and> 1 \<le> d \<and> d \<le> CFDaysInMonth m y (isleap y)"

lemma CFYMDFromAbsolute_spec:
  assumes "CFYMDFromAbsolute a = (y, m, d)"
  shows "date_valid y m d \<and> a = year_start y + CFDaysBeforeMonth m y (isleap y) + d - 1
    \<and> year_start y \<le> a \<and> a < year_start y + year_length y"
proof -
  let ?b = "cdiv a 146097"
  obtain a1 y1 where s1: "years_back (a - ?b * 146097) (?b * 400) = (a1, y1)" by fastforce
  obtain a2 y2 where s2: "years_forward a1 y1 = (a2, y2)" by fastforce
  have e1: "year_start (?b * 400) + (a - ?b * 146097) = year_start y1 + a1" "0 \<le> a1"
    using years_back_spec [OF s1] by simp_all
  have e2: "year_start y1 + a1 = year_start y2 + a2" "0 \<le> a2" "a2 < year_length y2"
    using years_forward_spec [OF s2 e1(2)] by simp_all
  have "year_start (?b * 400) = ?b * 146097"
    using year_start_period [of 0 ?b] by (simp add: year_start_def mult.commute)
  then have a: "a = year_start y2 + a2" using e1(1) e2(1) by simp
  let ?m = "month_search a2 y2 (isleap y2) (cdiv a2 33 + 1)"
  have "1 \<le> ?m \<and> ?m \<le> 12 \<and> CFDaysBeforeMonth ?m y2 (isleap y2) \<le> a2
      \<and> a2 < CFDaysBeforeMonth (?m + 1) y2 (isleap y2)"
    using month_start [of a2 "isleap y2" y2] e2
    by (intro month_search_spec) (auto simp: before_13 year_length_def)
  moreover have "y = y2" "m = ?m" "d = a2 - CFDaysBeforeMonth ?m y2 (isleap y2) + 1"
    using assms s1 s2 by (auto simp: CFYMDFromAbsolute_def Let_def)
  ultimately show ?thesis
    using a e2 before_Suc [of ?m y2 "isleap y2"] by (simp add: date_valid_def)
qed

lemma CFYMDFromAbsolute_of_date:
  assumes "date_valid y m d"
  shows "CFYMDFromAbsolute (CFAbsoluteFromYMD y m d) = (y, m, d)"
proof -
  let ?a = "CFAbsoluteFromYMD y m d"
  obtain y' m' d' where r: "CFYMDFromAbsolute ?a = (y', m', d')" by (metis prod_cases3)
  note s = CFYMDFromAbsolute_spec [OF r]
  have v: "1 \<le> m" "m \<le> 12" "1 \<le> d" "d \<le> CFDaysInMonth m y (isleap y)" using assms by (auto simp: date_valid_def)
  have a: "?a = year_start y + CFDaysBeforeMonth m y (isleap y) + d - 1" by (rule CFAbsoluteFromYMD_eq)
  have lo: "0 \<le> CFDaysBeforeMonth m y (isleap y)" using before_mono [of 1 m y "isleap y"] v by simp
  have hi: "CFDaysBeforeMonth (m + 1) y (isleap y) \<le> year_length y"
    using before_mono [of "m + 1" 13 y "isleap y"] v by (simp add: before_13 year_length_def)
  have m: "CFDaysBeforeMonth (m + 1) y (isleap y) = CFDaysBeforeMonth m y (isleap y) + CFDaysInMonth m y (isleap y)"
    using v by (simp add: before_Suc)
  have y: "y' = y" using s a lo hi m v by (intro year_unique [of _ ?a]) auto
  have "m' = m"
    using s a m v before_Suc [of m' y "isleap y"] y
    by (intro month_unique [of m' y "isleap y" "?a - year_start y"]) (auto simp: date_valid_def)
  then show ?thesis using r y s a by auto
qed

section \<open>Adding units to a date\<close>















section \<open>Times\<close>

lemma CFDoubleModToInt_mod: "0 < n \<Longrightarrow> CFDoubleModToInt d n = d mod n"
  by (simp add: CFDoubleModToInt_def Let_def minus_div_mult_eq_mod not_less)








section \<open>Weeks\<close>

text \<open>The ISO 8601 week of a day: the number of its Thursday's week in the Thursday's year.\<close>

definition week_thursday :: "int \<Rightarrow> int" where
  "week_thursday a = a - a mod 7 + 3"

definition iso_week :: "int \<Rightarrow> int" where
  "iso_week a = (let t = week_thursday a; (y, m, d) = CFYMDFromAbsolute t in (t - year_start y) div 7 + 1)"

lemma iso_week_eq:
  assumes "year_start y \<le> week_thursday a" "week_thursday a < year_start y + year_length y"
  shows "iso_week a = (week_thursday a - year_start y) div 7 + 1"
proof -
  obtain y' m d where r: "CFYMDFromAbsolute (week_thursday a) = (y', m, d)" by (metis prod_cases3)
  have "y' = y" using CFYMDFromAbsolute_spec [OF r] assms by (intro year_unique) auto
  then show ?thesis by (simp add: iso_week_def r)
qed

lemma first_days:
  fixes w d :: int
  assumes "0 \<le> w" "w < 7" "0 \<le> d"
  shows "d - (w + d) mod 7 + 3 < 0 \<longleftrightarrow> w = 4 \<and> d < 3 \<or> w = 5 \<and> d < 2 \<or> w = 6 \<and> d < 1"
proof (cases "d < 3")
  case True
  then have "d = 0 \<or> d = 1 \<or> d = 2" using assms(3) by auto
  moreover have "w = 0 \<or> w = 1 \<or> w = 2 \<or> w = 3 \<or> w = 4 \<or> w = 5 \<or> w = 6" using assms by auto
  ultimately show ?thesis by (elim disjE) simp_all
next
  case False
  moreover have "(w + d) mod 7 < 7" by simp
  ultimately show ?thesis by linarith
qed

lemma last_days:
  fixes v e :: int
  assumes "0 \<le> v" "v < 7" "0 \<le> e"
  shows "(v - 1 - e) mod 7 \<le> 2 - e \<longleftrightarrow> v = 3 \<and> e < 3 \<or> v = 2 \<and> e < 2 \<or> v = 1 \<and> e < 1"
proof (cases "e < 3")
  case True
  then have "e = 0 \<or> e = 1 \<or> e = 2" using assms(3) by auto
  moreover have "v = 0 \<or> v = 1 \<or> v = 2 \<or> v = 3 \<or> v = 4 \<or> v = 5 \<or> v = 6" using assms by auto
  ultimately show ?thesis by (elim disjE) simp_all
next
  case False
  moreover have "0 \<le> (v - 1 - e) mod 7" by simp
  ultimately show ?thesis by linarith
qed

lemma middle_days:
  fixes w d :: int
  assumes "0 \<le> w" "w < 7" "0 \<le> d" "0 \<le> d - (w + d) mod 7 + 3"
  shows "cdiv (d + 1 + cmod (w + 1 - 11) 7 + 2) 7 = (d - (w + d) mod 7 + 3) div 7"
proof -
  define q where "q = (w + d) div 7"
  have "w + d = 7 * q + (w + d) mod 7" by (simp add: q_def)
  then have t: "d - (w + d) mod 7 + 3 = 7 * q + (3 - w)" by linarith
  have w: "w = 0 \<or> w = 1 \<or> w = 2 \<or> w = 3 \<or> w = 4 \<or> w = 5 \<or> w = 6" using assms by auto
  have q: "0 \<le> 7 * q + (3 - w)" using assms(4) t by simp
  have lo: "w \<le> 3 \<Longrightarrow> (7 * q + (3 - w)) div 7 = q" using assms(1)
    by (intro int_div_pos_eq [where r = "3 - w"]) auto
  have hi: "3 < w \<Longrightarrow> (7 * q + (3 - w)) div 7 = q - 1" using assms(2)
    by (intro int_div_pos_eq [where r = "10 - w"]) auto
  have c: "w \<le> 3 \<Longrightarrow> cmod (w + 1 - 11) 7 = w - 3" "3 < w \<Longrightarrow> cmod (w + 1 - 11) 7 = w - 10"
    using w by (elim disjE; simp add: cmod_def cdiv_def)+
  show ?thesis
  proof (cases "w \<le> 3")
    case True
    then have a: "d + 1 + cmod (w + 1 - 11) 7 + 2 = w + d" using c(1) by simp
    have "cdiv (w + d) 7 = q" using assms(1,3) by (simp add: cdiv_nonneg q_def)
    then show ?thesis unfolding a t using lo [OF True] by simp
  next
    case False
    then have a: "d + 1 + cmod (w + 1 - 11) 7 + 2 = w + d - 7" using c(2) by simp
    have "1 \<le> q" using q False by linarith
    then have "7 \<le> w + d" using \<open>w + d = 7 * q + (w + d) mod 7\<close> pos_mod_sign [of 7 "w + d"] by linarith
    moreover have "(w + d - 7) div 7 = q - 1" unfolding q_def by simp
    ultimately have "cdiv (w + d - 7) 7 = q - 1" by (simp add: cdiv_nonneg)
    then show ?thesis unfolding a t using hi False by simp
  qed
qed

lemma CFAbsoluteTimeGetWeekOfYear_iso:
  assumes "CFYMDFromAbsolute (fixed_at at tz div 86400) = (y, m, d)"
  shows "CFAbsoluteTimeGetWeekOfYear at tz =
    (if week_thursday (fixed_at at tz div 86400) < year_start y then 53 else iso_week (fixed_at at tz div 86400))"
proof -
  define a where "a = fixed_at at tz div 86400"
  let ?leap = "isleap y"
  define d0 where "d0 = CFDaysBeforeMonth m y ?leap + d - 1"
  define w where "w = year_start y mod 7"
  define v where "v = year_start (y + 1) mod 7"
  have s: "date_valid y m d" "a = year_start y + d0" "year_start y \<le> a" "a < year_start y + year_length y"
    using CFYMDFromAbsolute_spec [OF assms] by (simp_all add: a_def d0_def)
  have v1: "1 \<le> m" "m \<le> 12" "1 \<le> d" "d \<le> CFDaysInMonth m y ?leap" using s(1) by (auto simp: date_valid_def)
  have d0: "0 \<le> d0" "d0 < year_length y" using s by simp_all
  have w: "0 \<le> w" "w < 7" and v: "0 \<le> v" "v < 7" by (simp_all add: w_def v_def)
  have am: "a mod 7 = (w + d0) mod 7" by (simp add: s(2) w_def mod_simps)
  have t: "week_thursday a = year_start y + (d0 - (w + d0) mod 7 + 3)"
    unfolding week_thursday_def am by (simp add: s(2))
  have dow: "CFDoubleModToInt (CFAbsoluteFromYMD y 1 1) 7 + 1 = w + 1"
    "CFDoubleModToInt (CFAbsoluteFromYMD (y + 1) 1 1) 7 + 1 = v + 1"
    by (simp_all add: CFDoubleModToInt_mod CFAbsoluteFromYMD_eq w_def v_def)
  have bm: "CFDaysBeforeMonth m y ?leap \<le> d0" "d0 < CFDaysBeforeMonth (m + 1) y ?leap"
    using v1 before_Suc [of m y ?leap] by (simp_all add: d0_def)
  have b2: "CFDaysBeforeMonth 2 y ?leap = 31" "CFDaysBeforeMonth 12 y ?leap = year_length y - 31"
      "CFDaysBeforeMonth 13 y ?leap = year_length y"
    by (simp_all add: CFDaysBeforeMonth_def daysBeforeMonth_def year_length_def)
  have jan: "1 = m \<and> d < k + 1 \<longleftrightarrow> d0 < k" if "k \<le> 3" for k
  proof
    assume "d0 < k"
    then have "m = 1" using that d0(1) bm v1 b2(1)
      by (intro month_unique [of m y ?leap d0 1]) simp_all
    then show "1 = m \<and> d < k + 1" using \<open>d0 < k\<close> by (simp add: d0_def)
  qed (auto simp: d0_def)
  define e where "e = year_length y - 1 - d0"
  have e: "0 \<le> e" using d0(2) by (simp add: e_def)
  have dec: "12 = m \<and> 31 - k < d \<longleftrightarrow> e < k" if "k \<le> 3" for k
  proof
    assume "e < k"
    then have "m = 12" using that d0(2) bm v1 b2(2,3)
      by (intro month_unique [of m y ?leap d0 12]) (simp_all add: e_def)
    then show "12 = m \<and> 31 - k < d" using \<open>e < k\<close> b2(2) by (simp add: d0_def e_def)
  qed (use b2(2) in \<open>auto simp: d0_def e_def\<close>)
  have same: "(w + d0) mod 7 = (v - 1 - e) mod 7"
  proof -
    have "(v - 1 - e) mod 7 = (year_start (y + 1) - 1 - e) mod 7" unfolding v_def by (simp only: diff_diff_eq mod_diff_left_eq)
    also have "year_start (y + 1) - 1 - e = year_start y + d0" by (simp add: e_def year_start_Suc)
    finally show ?thesis by (simp add: w_def mod_simps)
  qed
  let ?T = "d0 - (w + d0) mod 7 + 3"
  have early: "1 = m \<and> d < 4 \<and> (d < 4 \<and> 5 = w + 1 \<or> d < 3 \<and> 6 = w + 1 \<or> d < 2 \<and> 7 = w + 1) \<longleftrightarrow> ?T < 0"
    unfolding first_days [OF w d0(1)] using jan [of 3] jan [of 2] jan [of 1] by auto
  have late: "12 = m \<and> 28 < d \<and> (28 < d \<and> 4 = v + 1 \<or> 29 < d \<and> 3 = v + 1 \<or> 30 < d \<and> 2 = v + 1)
      \<longleftrightarrow> year_length y \<le> ?T"
  proof -
    have "year_length y \<le> ?T \<longleftrightarrow> (v - 1 - e) mod 7 \<le> 2 - e" unfolding same by (auto simp: e_def)
    also have "\<dots> \<longleftrightarrow> v = 3 \<and> e < 3 \<or> v = 2 \<and> e < 2 \<or> v = 1 \<and> e < 1" by (rule last_days [OF v e])
    finally show ?thesis using dec [of 3] dec [of 2] dec [of 1] by auto
  qed
  have code: "CFAbsoluteTimeGetWeekOfYear at tz =
      (if ?T < 0 then 53 else if year_length y \<le> ?T then 1 else cdiv (d0 + 1 + cmod (w + 1 - 11) 7 + 2) 7 + 1)"
    unfolding CFAbsoluteTimeGetWeekOfYear_def Let_def assms prod.case dow early late by (simp add: d0_def)
  show ?thesis
  proof (cases "?T < 0")
    case True
    then show ?thesis using code t by (simp flip: a_def)
  next
    case nonneg: False
    show ?thesis
    proof (cases "year_length y \<le> ?T")
      case True
      have "?T \<le> d0 + 3" by simp
      then have small: "?T - year_length y < 7" using d0(2) by linarith
      have "iso_week a = (week_thursday a - year_start (y + 1)) div 7 + 1"
        using True small year_length_pos(1) [of "y + 1"] by (intro iso_week_eq) (simp_all add: t year_start_Suc)
      also have "week_thursday a - year_start (y + 1) = ?T - year_length y" by (simp add: t year_start_Suc)
      also have "(?T - year_length y) div 7 = 0" using True small by (simp add: div_pos_pos_trivial)
      finally show ?thesis using True nonneg code t by (simp flip: a_def)
    next
      case False
      have "iso_week a = ?T div 7 + 1"
        using False nonneg iso_week_eq [of y a] by (simp add: t)
      then show ?thesis
        using False nonneg code t middle_days [OF w d0(1)] by (simp flip: a_def)
    qed
  qed
qed

section \<open>Properties\<close>

text \<open>C12. \<open>__CFYMDFromAbsolute\<close> and \<open>__CFAbsoluteFromYMD\<close> are inverse: every day has a valid
  date that counts back to the day, before and after 2001, and every valid date is the date of
  its day.\<close>

theorem date_day_round_trip:
  "(let (y, m, d) = CFYMDFromAbsolute a
    in date_valid y m d \<and> CFAbsoluteFromYMD y m d = a)
   \<and> (date_valid year month day \<longrightarrow> CFYMDFromAbsolute (CFAbsoluteFromYMD year month day) = (year, month, day))"
proof -
  obtain y m d where r: "CFYMDFromAbsolute a = (y, m, d)" by (metis prod_cases3)
  then show ?thesis
    using CFYMDFromAbsolute_spec [OF r] CFYMDFromAbsolute_of_date by (auto simp: CFAbsoluteFromYMD_eq)
qed

theorem date_day_round_trip_witness:
  "CFYMDFromAbsolute (CFAbsoluteFromYMD (-1) 2 29) = (-1, 2, 29)"
proof -
  have "date_valid (-1) 2 29"
    by (simp add: date_valid_def CFDaysInMonth_def daysInMonth_def isleap_iff)
  then show ?thesis using date_day_round_trip [of 0 "-1" 2 29] by blast
qed





text \<open>\<open>CFAbsoluteTimeGetDayOfWeek\<close> counts the days from Monday, 1, to Sunday, 7, also before
  2001, \<open>CFAbsoluteTimeGetDayOfYear\<close> counts from the start of the year, and
  \<open>CFAbsoluteTimeGetWeekOfYear\<close> is the ISO 8601 week, except that every day whose week belongs
  to the previous year is put into week 53.\<close>

theorem date_week:
  assumes "CFYMDFromAbsolute (fixed_at at tz div 86400) = (y, m, d)"
  defines "a \<equiv> fixed_at at tz div 86400"
  shows "CFAbsoluteTimeGetDayOfWeek at tz = a mod 7 + 1
    \<and> CFAbsoluteTimeGetDayOfYear at tz = a - year_start y + 1
    \<and> CFAbsoluteTimeGetWeekOfYear at tz = (if week_thursday a < year_start y then 53 else iso_week a)"
proof -
  have "CFAbsoluteTimeGetDayOfWeek at tz = a mod 7 + 1"
  proof (cases "a < 0")
    case True
    have "cmod (a + 1) 7 + 7 = a mod 7 + 1"
    proof (cases "a + 1 < 0")
      case True
      have "(- (a + 1)) mod 7 = 6 - a mod 7" by (simp add: zmod_zminus1_eq_if) presburger
      then show ?thesis using True by (simp add: cmod_neg)
    next
      case False
      then have "a = -1" using \<open>a < 0\<close> by simp
      then show ?thesis by (simp add: cmod_def cdiv_def)
    qed
    then show ?thesis using True by (simp add: CFAbsoluteTimeGetDayOfWeek_def Let_def a_def)
  next
    case False
    then show ?thesis by (simp add: CFAbsoluteTimeGetDayOfWeek_def Let_def cmod_nonneg a_def)
  qed
  moreover have "CFAbsoluteTimeGetDayOfYear at tz = a - year_start y + 1"
    using CFYMDFromAbsolute_spec [OF assms(1)] assms(1)
    by (simp add: CFAbsoluteTimeGetDayOfYear_def a_def)
  ultimately show ?thesis
    using CFAbsoluteTimeGetWeekOfYear_iso [OF assms(1)] by (simp add: a_def)
qed

theorem date_week_witness: "CFAbsoluteTimeGetDayOfWeek (-1) None = 7"
proof -
  have v: "date_valid (-1) 12 31" by (simp add: date_valid_def CFDaysInMonth_def daysInMonth_def)
  have "CFAbsoluteFromYMD (-1) 12 31 = -1"
    by (simp add: CFAbsoluteFromYMD_eq year_start_def CFDaysBeforeMonth_def daysBeforeMonth_def isleap_iff)
  then have "CFYMDFromAbsolute (fixed_at (-1) None div 86400) = (-1, 12, 31)"
    using CFYMDFromAbsolute_of_date [OF v] by (simp add: fixed_at_def)
  from date_week [OF this] show ?thesis by (simp add: fixed_at_def)
qed

text \<open>The exception matters: 2022/1/1 is in week 52 of 2021 by ISO 8601, which the function's
  comment names, and the code answers 53.\<close>

theorem date_week_53_wrong:
  "CFAbsoluteTimeGetWeekOfYear (86400 * CFAbsoluteFromYMD (2022 - 2001) 1 1) None = 53
   \<and> iso_week (CFAbsoluteFromYMD (2022 - 2001) 1 1) = 52"
proof -
  have a: "CFAbsoluteFromYMD 21 1 1 = 7670" by (simp add: CFAbsoluteFromYMD_eq year_start_def)
  have "date_valid 21 1 1" by (simp add: date_valid_def CFDaysInMonth_def daysInMonth_def)
  then have "CFYMDFromAbsolute (fixed_at (86400 * 7670) None div 86400) = (21, 1, 1)"
    using CFYMDFromAbsolute_of_date [of 21 1 1] by (simp add: fixed_at_def a)
  from CFAbsoluteTimeGetWeekOfYear_iso [OF this]
  have "CFAbsoluteTimeGetWeekOfYear (86400 * 7670) None = 53"
    by (simp add: fixed_at_def week_thursday_def year_start_def)
  moreover have "iso_week 7670 = 52"
    using iso_week_eq [of 20 7670] year_length_pos(1) [of 20] by (simp add: week_thursday_def year_start_def)
  ultimately show ?thesis by (simp add: a)
qed

end
