(* ===== verification/DispatchTime.thy ===== *)
theory DispatchTime
  imports Prelude
begin

text \<open>
  Time values of libdispatch: src/time.c and the encoding of src/shims/time.h, on a platform
  whose clocks count nanoseconds (\<open>DISPATCH_TIME_UNIT_USES_NANOSECONDS\<close>), so that
  \<open>_dispatch_time_nano2mach\<close> and \<open>_dispatch_time_mach2nano\<close> are the identity. The readings of
  the three system clocks are a parameter. An \<open>int64_t\<close> is its 64-bit word, read by \<open>sint\<close>.
\<close>

section \<open>Encoding\<close>

datatype dispatch_clock_t = DISPATCH_CLOCK_UPTIME | DISPATCH_CLOCK_MONOTONIC | DISPATCH_CLOCK_WALL

record dispatch_clocks =
  uptime_now :: u64
  monotonic_now :: u64
  wall_now :: u64

definition DISPATCH_TIME_NOW :: u64 where "DISPATCH_TIME_NOW = 0"
definition DISPATCH_TIME_FOREVER :: u64 where "DISPATCH_TIME_FOREVER = NOT 0"
definition DISPATCH_WALLTIME_NOW :: u64 where "DISPATCH_WALLTIME_NOW = NOT 1"
definition DISPATCH_UP_OR_MONOTONIC_TIME_MASK :: u64 where "DISPATCH_UP_OR_MONOTONIC_TIME_MASK = push_bit 63 1"
definition DISPATCH_MONOTONICTIME_NOW :: u64 where "DISPATCH_MONOTONICTIME_NOW = push_bit 63 1"
definition DISPATCH_WALLTIME_MASK :: u64 where "DISPATCH_WALLTIME_MASK = push_bit 62 1"
definition DISPATCH_TIME_MAX_VALUE :: u64 where "DISPATCH_TIME_MAX_VALUE = DISPATCH_WALLTIME_MASK - 1"

definition dispatch_time_to_clock_and_value ::
  "dispatch_clocks \<Rightarrow> u64 \<Rightarrow> bool \<Rightarrow> dispatch_clock_t \<times> u64" where
  "dispatch_time_to_clock_and_value sys time allow_now =
     (if allow_now \<and> time = DISPATCH_TIME_NOW then (DISPATCH_CLOCK_UPTIME, uptime_now sys)
      else if allow_now \<and> time = DISPATCH_MONOTONICTIME_NOW then (DISPATCH_CLOCK_MONOTONIC, monotonic_now sys)
      else if allow_now \<and> time = DISPATCH_WALLTIME_NOW then (DISPATCH_CLOCK_WALL, wall_now sys)
      else
        (let (clock, actual_value) =
           (if sint time < 0
            then if time AND DISPATCH_WALLTIME_MASK \<noteq> 0 then (DISPATCH_CLOCK_WALL, - time)
                 else (DISPATCH_CLOCK_MONOTONIC, time AND NOT DISPATCH_UP_OR_MONOTONIC_TIME_MASK)
            else (DISPATCH_CLOCK_UPTIME, time))
         in (clock, if DISPATCH_TIME_MAX_VALUE < actual_value then DISPATCH_TIME_FOREVER else actual_value)))"

fun dispatch_clock_and_value_to_time :: "dispatch_clock_t \<Rightarrow> u64 \<Rightarrow> u64" where
  "dispatch_clock_and_value_to_time clock v =
     (if DISPATCH_TIME_MAX_VALUE \<le> v then DISPATCH_TIME_FOREVER
      else case clock of
        DISPATCH_CLOCK_WALL \<Rightarrow> - v
      | DISPATCH_CLOCK_UPTIME \<Rightarrow> v
      | DISPATCH_CLOCK_MONOTONIC \<Rightarrow> v OR DISPATCH_UP_OR_MONOTONIC_TIME_MASK)"

declare dispatch_clock_and_value_to_time.simps [simp del]

section \<open>Operations\<close>

definition dispatch_time :: "dispatch_clocks \<Rightarrow> u64 \<Rightarrow> u64 \<Rightarrow> u64" where
  "dispatch_time sys inval delta =
     (if inval = DISPATCH_TIME_FOREVER then DISPATCH_TIME_FOREVER
      else
        (let (clock, v) = dispatch_time_to_clock_and_value sys inval True
         in if v = DISPATCH_TIME_FOREVER then v
            else if clock = DISPATCH_CLOCK_WALL
            then (let v' = v + delta
                  in if 0 \<le> sint delta
                     then if sint v' \<le> 0 then DISPATCH_TIME_FOREVER
                          else dispatch_clock_and_value_to_time DISPATCH_CLOCK_WALL v'
                     else if sint v' < 1 then dispatch_clock_and_value_to_time DISPATCH_CLOCK_WALL 2
                          else dispatch_clock_and_value_to_time DISPATCH_CLOCK_WALL v')
            else if 0 \<le> sint delta
            then if sint (v + delta) \<le> 0 then DISPATCH_TIME_FOREVER
                 else dispatch_clock_and_value_to_time clock (v + delta)
            else if sint (v - (- delta)) < 1 then dispatch_clock_and_value_to_time clock 1
                 else dispatch_clock_and_value_to_time clock (v - (- delta))))"

text \<open>The public clock names; \<open>None\<close> is the result \<open>false\<close>.\<close>

datatype dispatch_clockid_t = DISPATCH_CLOCKID_UPTIME | DISPATCH_CLOCKID_MONOTONIC | DISPATCH_CLOCKID_WALLTIME

definition dispatch_time_to_nsec :: "dispatch_clocks \<Rightarrow> u64 \<Rightarrow> (dispatch_clockid_t \<times> u64) option" where
  "dispatch_time_to_nsec sys time =
     (if time \<noteq> DISPATCH_TIME_FOREVER
      then (case dispatch_time_to_clock_and_value sys time True of
              (DISPATCH_CLOCK_WALL, v) \<Rightarrow> Some (DISPATCH_CLOCKID_WALLTIME, v)
            | (DISPATCH_CLOCK_UPTIME, v) \<Rightarrow> Some (DISPATCH_CLOCKID_UPTIME, v)
            | (DISPATCH_CLOCK_MONOTONIC, v) \<Rightarrow> Some (DISPATCH_CLOCKID_MONOTONIC, v))
      else None)"

definition dispatch_time_from_nsec :: "dispatch_clockid_t \<Rightarrow> u64 \<Rightarrow> u64" where
  "dispatch_time_from_nsec clock deadline =
     (let deadline = (if deadline < 2 then 2 else deadline)
      in case clock of
           DISPATCH_CLOCKID_WALLTIME \<Rightarrow> dispatch_clock_and_value_to_time DISPATCH_CLOCK_WALL deadline
         | DISPATCH_CLOCKID_MONOTONIC \<Rightarrow> dispatch_clock_and_value_to_time DISPATCH_CLOCK_MONOTONIC deadline
         | DISPATCH_CLOCKID_UPTIME \<Rightarrow> dispatch_clock_and_value_to_time DISPATCH_CLOCK_UPTIME deadline)"

text \<open>\<open>struct timespec\<close> as its two fields, \<open>tv_sec\<close> and \<open>tv_nsec\<close>.\<close>

definition dispatch_timespec_to_nano :: "u64 \<times> u64 \<Rightarrow> u64" where
  "dispatch_timespec_to_nano ts = fst ts * 1000000000 + snd ts"

definition dispatch_walltime :: "dispatch_clocks \<Rightarrow> (u64 \<times> u64) option \<Rightarrow> u64 \<Rightarrow> u64" where
  "dispatch_walltime sys inval delta =
     (let nsec = (case inval of Some ts \<Rightarrow> dispatch_timespec_to_nano ts | None \<Rightarrow> wall_now sys);
          nsec = nsec + delta
      in if sint nsec \<le> 1 then if 0 \<le> sint delta then DISPATCH_TIME_FOREVER else - 2 else - nsec)"

definition dispatch_timeout :: "dispatch_clocks \<Rightarrow> u64 \<Rightarrow> u64" where
  "dispatch_timeout sys when =
     (if when = DISPATCH_TIME_FOREVER then DISPATCH_TIME_FOREVER
      else if when = DISPATCH_TIME_NOW \<or> when = DISPATCH_MONOTONICTIME_NOW \<or> when = DISPATCH_WALLTIME_NOW then 0
      else
        (let (clock, v) = dispatch_time_to_clock_and_value sys when False;
             now = (case clock of DISPATCH_CLOCK_WALL \<Rightarrow> wall_now sys
                    | DISPATCH_CLOCK_UPTIME \<Rightarrow> uptime_now sys
                    | DISPATCH_CLOCK_MONOTONIC \<Rightarrow> monotonic_now sys)
         in if v \<le> now then 0 else v - now))"

definition dispatch_time_nanoseconds_since_epoch :: "dispatch_clocks \<Rightarrow> u64 \<Rightarrow> u64" where
  "dispatch_time_nanoseconds_since_epoch sys when =
     (if when = DISPATCH_TIME_FOREVER then DISPATCH_TIME_FOREVER
      else if sint when < 0 then - when
      else wall_now sys + dispatch_timeout sys when)"

lemmas dispatch_time_consts = DISPATCH_TIME_NOW_def DISPATCH_TIME_FOREVER_def DISPATCH_WALLTIME_NOW_def
  DISPATCH_UP_OR_MONOTONIC_TIME_MASK_def DISPATCH_MONOTONICTIME_NOW_def DISPATCH_WALLTIME_MASK_def
  DISPATCH_TIME_MAX_VALUE_def

section \<open>The values of the words\<close>

lemma uint_u64_bound: "uint (v :: u64) < 18446744073709551616"
  using uint_lt2p [of v] by simp

lemma sint_u64: "sint (v :: u64) = (if uint v < 9223372036854775808 then uint v else uint v - 18446744073709551616)"
proof (cases "uint v < 9223372036854775808")
  case True
  then have "signed_take_bit 63 (uint v) = uint v"
    by (intro signed_take_bit_int_eq_self) (simp_all add: order.trans [OF _ uint_ge_0])
  then show ?thesis using True by (simp add: sint_uint)
next
  case False
  have "uint v div 9223372036854775808 = 1"
    by (rule int_div_pos_eq [where r = "uint v - 9223372036854775808"])
      (use False uint_u64_bound [of v] in simp_all)
  then have "signed_take_bit 63 (uint v) = uint v - 2 ^ 64"
    using False uint_u64_bound [of v] by (simp add: signed_take_bit_int_greater_eq_self_iff signed_take_bit_eq_take_bit_minus
      bit_iff_odd take_bit_int_eq_self)
  then show ?thesis using False by (simp add: sint_uint)
qed

lemma uint_minus_u64: "uint (- v :: u64) = (if v = 0 then 0 else 18446744073709551616 - uint v)"
  using uint_u64_bound [of v] by (simp add: uint_word_ariths(4) zmod_zminus1_eq_if uint_0_iff)

lemma uint_plus_u64: "uint (v + w :: u64) =
    (if uint v + uint w < 18446744073709551616 then uint v + uint w else uint v + uint w - 18446744073709551616)"
  using uint_plus_if' [of v w] by simp

lemma u64_eq_iff: "(v :: u64) = w \<longleftrightarrow> uint v = uint w"
  by (simp add: word_uint_eq_iff)

lemma wall_bit: "v AND push_bit 62 1 \<noteq> 0 \<longleftrightarrow> odd (uint v div 4611686018427387904)" for v :: u64
  using and_exp_eq_0_iff_not_bit [of v 62] bit_uint_iff [of v 62]
  by (simp add: bit_iff_odd push_bit_eq_mult)

lemma clear_top: "uint (v AND NOT (push_bit 63 1)) = uint v mod 9223372036854775808" for v :: u64
proof -
  have "v AND NOT (push_bit 63 1) = take_bit 63 v"
    by (rule bit_word_eqI) (auto simp: bit_simps less_Suc_eq numeral_eq_Suc)
  then have "uint (v AND NOT (push_bit 63 1)) = uint v mod 2 ^ 63"
    by (simp only: unsigned_take_bit_eq) (simp add: take_bit_eq_mod)
  then show ?thesis by simp
qed

lemma set_top: "uint v < 9223372036854775808 \<Longrightarrow> uint (v OR push_bit 63 1) = uint v + 9223372036854775808"
  for v :: u64
proof -
  assume v: "uint v < 9223372036854775808"
  then have "\<not> bit (uint v) 63" by (simp add: bit_iff_odd div_pos_pos_trivial)
  then have "v AND push_bit 63 1 = 0"
    using and_exp_eq_0_iff_not_bit [of v 63] by (simp add: bit_uint_iff push_bit_eq_mult)
  then have "v OR push_bit 63 1 = v + push_bit 63 1" by (simp only: disjunctive_add_eq_or)
  moreover have "uint (push_bit 63 1 :: u64) = 9223372036854775808" by (simp add: push_bit_eq_mult)
  ultimately show ?thesis using v by (simp add: uint_plus_u64)
qed

lemma mask_values:
  "uint DISPATCH_TIME_FOREVER = 18446744073709551615" "uint DISPATCH_TIME_NOW = 0"
  "uint DISPATCH_WALLTIME_NOW = 18446744073709551614" "uint DISPATCH_MONOTONICTIME_NOW = 9223372036854775808"
  "uint DISPATCH_TIME_MAX_VALUE = 4611686018427387903"
  by (simp_all add: dispatch_time_consts push_bit_eq_mult unsigned_minus_1_eq_mask mask_eq_exp_minus_1)

section \<open>Moments\<close>

text \<open>What a time value means: a point on one of the clocks, or never.\<close>

datatype moment = Forever | At dispatch_clock_t int

definition moment_of :: "u64 \<Rightarrow> moment" where
  "moment_of t =
     (if uint t < 4611686018427387904 then At DISPATCH_CLOCK_UPTIME (uint t)
      else if uint t < 9223372036854775808 then Forever
      else if uint t < 13835058055282163712 then At DISPATCH_CLOCK_MONOTONIC (uint t - 9223372036854775808)
      else if uint t = 13835058055282163712 \<or> uint t = 18446744073709551615 then Forever
      else At DISPATCH_CLOCK_WALL (18446744073709551616 - uint t))"

text \<open>The moment \<open>delta\<close> nanoseconds after another on the same clock, as far as a time value can
  say it: beyond the range of the values it is never, below the range the earliest time, which on
  the wall clock is 2, since the word of 1 is taken by never.\<close>

definition least_time :: "dispatch_clock_t \<Rightarrow> int" where
  "least_time clock = (if clock = DISPATCH_CLOCK_WALL then 2 else 1)"

fun after :: "moment \<Rightarrow> int \<Rightarrow> moment" where
  "after Forever delta = Forever"
| "after (At clock v) delta =
     (if 4611686018427387903 \<le> v + delta then Forever else At clock (max (least_time clock) (v + delta)))"

lemma decode_uptime:
  "uint t < 9223372036854775808 \<Longrightarrow> dispatch_time_to_clock_and_value sys t False
    = (DISPATCH_CLOCK_UPTIME, if 4611686018427387904 \<le> uint t then DISPATCH_TIME_FOREVER else t)"
  by (simp add: dispatch_time_to_clock_and_value_def sint_u64 mask_values word_less_def)

lemma bit_62:
  assumes "9223372036854775808 \<le> uint (t :: u64)"
  shows "odd (uint t div 4611686018427387904) \<longleftrightarrow> 13835058055282163712 \<le> uint t"
proof (cases "13835058055282163712 \<le> uint t")
  case True
  have "uint t div 4611686018427387904 = 3"
    by (rule int_div_pos_eq [where r = "uint t - 13835058055282163712"])
      (use True uint_u64_bound [of t] in simp_all)
  then show ?thesis using True by simp
next
  case False
  have "uint t div 4611686018427387904 = 2"
    by (rule int_div_pos_eq [where r = "uint t - 9223372036854775808"]) (use False assms in simp_all)
  then show ?thesis using False by simp
qed

lemma decode_monotonic:
  assumes "9223372036854775808 \<le> uint t" "uint t < 13835058055282163712"
  shows "dispatch_time_to_clock_and_value sys t False
    = (DISPATCH_CLOCK_MONOTONIC, t AND NOT DISPATCH_UP_OR_MONOTONIC_TIME_MASK)
    \<and> uint (t AND NOT DISPATCH_UP_OR_MONOTONIC_TIME_MASK) = uint t - 9223372036854775808"
proof -
  have "uint t mod 9223372036854775808 = uint t - 9223372036854775808"
    by (rule int_mod_pos_eq [where q = 1]) (use assms in simp_all)
  then have c: "uint (t AND NOT DISPATCH_UP_OR_MONOTONIC_TIME_MASK) = uint t - 9223372036854775808"
    unfolding DISPATCH_UP_OR_MONOTONIC_TIME_MASK_def clear_top .
  have b: "t AND DISPATCH_WALLTIME_MASK = 0"
    unfolding DISPATCH_WALLTIME_MASK_def using wall_bit [of t] bit_62 [OF assms(1)] assms(2) by simp
  show ?thesis using assms c b uint_u64_bound [of t]
    by (simp add: dispatch_time_to_clock_and_value_def sint_u64 mask_values word_less_def)
qed

lemma decode_wall:
  assumes "13835058055282163712 \<le> uint t"
  shows "dispatch_time_to_clock_and_value sys t False
    = (DISPATCH_CLOCK_WALL, if uint t = 13835058055282163712 then DISPATCH_TIME_FOREVER else - t)
    \<and> uint (- t) = 18446744073709551616 - uint t"
proof -
  have b: "t AND DISPATCH_WALLTIME_MASK \<noteq> 0"
    unfolding DISPATCH_WALLTIME_MASK_def using wall_bit [of t] bit_62 [of t] assms by simp
  have "t \<noteq> 0" using assms by auto
  then have "uint (- t) = 18446744073709551616 - uint t" by (simp add: uint_minus_u64)
  then show ?thesis using assms b uint_u64_bound [of t]
    by (simp add: dispatch_time_to_clock_and_value_def sint_u64 mask_values word_less_def)
qed

text \<open>The decoder without the current times computes the moment.\<close>

lemma decode_moment:
  assumes "t \<noteq> DISPATCH_TIME_FOREVER" "dispatch_time_to_clock_and_value sys t False = (clock, v)"
  shows "moment_of t = (if v = DISPATCH_TIME_FOREVER then Forever else At clock (uint v))"
proof -
  have n: "uint t \<noteq> 18446744073709551615" using assms(1) by (simp add: u64_eq_iff mask_values)
  consider "uint t < 9223372036854775808"
    | "9223372036854775808 \<le> uint t" "uint t < 13835058055282163712" | "13835058055282163712 \<le> uint t"
    by linarith
  then show ?thesis
  proof cases
    case 1
    then show ?thesis using assms(2)
      by (auto simp: decode_uptime moment_of_def u64_eq_iff mask_values split: if_splits)
  next
    case 2
    then show ?thesis using assms(2) decode_monotonic [OF 2, of sys]
      by (auto simp: moment_of_def u64_eq_iff mask_values)
  next
    case 3
    then show ?thesis using assms(2) decode_wall [OF 3, of sys] n
      by (auto simp: moment_of_def u64_eq_iff mask_values split: if_splits)
  qed
qed

text \<open>The encoder produces the moment it is asked for, in the range of the values.\<close>

lemma encode_moment:
  "moment_of (dispatch_clock_and_value_to_time clock v) =
    (if 4611686018427387903 \<le> uint v then Forever
     else if clock = DISPATCH_CLOCK_WALL \<and> v = 0 then At DISPATCH_CLOCK_UPTIME 0
     else if clock = DISPATCH_CLOCK_WALL \<and> v = 1 then Forever
     else At clock (uint v))"
proof (cases "4611686018427387903 \<le> uint v")
  case True
  then show ?thesis
    by (simp add: dispatch_clock_and_value_to_time.simps word_le_def mask_values moment_of_def)
next
  case False
  show ?thesis
  proof (cases clock)
    case DISPATCH_CLOCK_MONOTONIC
    have n: "\<not> 4611686018427387904 + uint v < 0" using uint_ge_0 [of v] by linarith
    show ?thesis using DISPATCH_CLOCK_MONOTONIC False set_top [of v] n
      by (simp add: dispatch_clock_and_value_to_time.simps word_le_def mask_values moment_of_def
          DISPATCH_UP_OR_MONOTONIC_TIME_MASK_def)
  next
    case DISPATCH_CLOCK_UPTIME
    then show ?thesis using False
      by (simp add: dispatch_clock_and_value_to_time.simps word_le_def mask_values moment_of_def)
  next
    case DISPATCH_CLOCK_WALL
    have "v = 1 \<longleftrightarrow> uint v = 1" "v = 0 \<longleftrightarrow> uint v = 0" "0 \<le> uint v" by (simp_all add: u64_eq_iff)
    then show ?thesis using False DISPATCH_CLOCK_WALL
      by (simp add: dispatch_clock_and_value_to_time.simps word_le_def mask_values moment_of_def uint_minus_u64)
  qed
qed

section \<open>Adding to a time\<close>

text \<open>The moment a time value means when the system clocks are read, the names of the current
  times included. The clocks have started, and are far from the end of their range, which they
  reach after 146 years.\<close>

definition moment_at :: "dispatch_clocks \<Rightarrow> u64 \<Rightarrow> moment" where
  "moment_at sys t =
     (if t = DISPATCH_TIME_NOW then At DISPATCH_CLOCK_UPTIME (uint (uptime_now sys))
      else if t = DISPATCH_MONOTONICTIME_NOW then At DISPATCH_CLOCK_MONOTONIC (uint (monotonic_now sys))
      else if t = DISPATCH_WALLTIME_NOW then At DISPATCH_CLOCK_WALL (uint (wall_now sys))
      else moment_of t)"

definition clocks_in_range :: "dispatch_clocks \<Rightarrow> bool" where
  "clocks_in_range sys \<longleftrightarrow>
     (\<forall>now \<in> {uptime_now sys, monotonic_now sys, wall_now sys}. 1 \<le> uint now \<and> uint now < 4611686018427387904)"

lemma moment_of_range: "moment_of t = At clock v \<Longrightarrow> 0 \<le> v \<and> v < 4611686018427387904"
  using uint_ge_0 [of t] uint_u64_bound [of t] by (auto simp: moment_of_def split: if_splits)

lemma decode_now:
  assumes "t \<noteq> DISPATCH_TIME_FOREVER" "clocks_in_range sys"
    "dispatch_time_to_clock_and_value sys t True = (clock, v)"
  shows "moment_at sys t = (if v = DISPATCH_TIME_FOREVER then Forever else At clock (uint v))
    \<and> (v = DISPATCH_TIME_FOREVER \<or> 1 \<le> uint v \<and> uint v < 4611686018427387904)"
proof (cases "t = DISPATCH_TIME_NOW \<or> t = DISPATCH_MONOTONICTIME_NOW \<or> t = DISPATCH_WALLTIME_NOW")
  case True
  have d: "DISPATCH_MONOTONICTIME_NOW \<noteq> DISPATCH_TIME_NOW" "DISPATCH_WALLTIME_NOW \<noteq> DISPATCH_TIME_NOW"
    "DISPATCH_WALLTIME_NOW \<noteq> DISPATCH_MONOTONICTIME_NOW"
    by (simp_all add: u64_eq_iff mask_values)
  have "v \<noteq> DISPATCH_TIME_FOREVER" if "uint v < 4611686018427387904" for v
    using that by (auto simp: mask_values)
  then show ?thesis using True d assms(2,3)
    by (auto simp: dispatch_time_to_clock_and_value_def moment_at_def clocks_in_range_def)
next
  case False
  then have "dispatch_time_to_clock_and_value sys t False = (clock, v)" "moment_at sys t = moment_of t"
    using assms(3) by (simp_all add: dispatch_time_to_clock_and_value_def moment_at_def)
  then have "moment_of t = (if v = DISPATCH_TIME_FOREVER then Forever else At clock (uint v))"
    "moment_at sys t = moment_of t" using decode_moment [OF assms(1)] by blast+
  moreover have "uint t \<noteq> 0" "uint t \<noteq> 9223372036854775808"
    using False by (simp_all add: u64_eq_iff mask_values)
  then have "0 < uint t" "uint t \<noteq> 9223372036854775808" using uint_ge_0 [of t] by linarith+
  then have "1 \<le> x" if "moment_of t = At clock x" for x
    using that uint_u64_bound [of t] by (auto simp: moment_of_def split: if_splits)
  ultimately show ?thesis using moment_of_range [of t clock "uint v"] by (auto split: if_splits)
qed

lemma sint_range_u64: "- 9223372036854775808 \<le> sint (v :: u64)" "sint (v :: u64) < 9223372036854775808"
proof -
  define x where "x = uint v"
  have x: "0 \<le> x" "x < 18446744073709551616" using uint_u64_bound [of v] by (simp_all add: x_def)
  show "- 9223372036854775808 \<le> sint v" "sint v < 9223372036854775808"
    using x unfolding sint_u64 x_def [symmetric] by simp_all
qed

lemma sum_u64:
  assumes "uint v < 4611686018427387904"
  shows "sint (v + delta :: u64) = (if uint v + sint delta < 9223372036854775808 then uint v + sint delta
      else uint v + sint delta - 18446744073709551616)"
    and "0 \<le> uint v + sint delta \<Longrightarrow> uint (v + delta) = uint v + sint delta"
proof -
  define x d where "x = uint v" and "d = uint delta"
  have x: "0 \<le> x" "x < 4611686018427387904" "0 \<le> d" "d < 18446744073709551616"
    using assms uint_u64_bound [of delta] by (simp_all add: x_def d_def)
  show "sint (v + delta :: u64) = (if uint v + sint delta < 9223372036854775808 then uint v + sint delta
      else uint v + sint delta - 18446744073709551616)"
    using x unfolding sint_u64 uint_plus_u64 x_def [symmetric] d_def [symmetric] by simp
  show "0 \<le> uint v + sint delta \<Longrightarrow> uint (v + delta) = uint v + sint delta"
    using x unfolding sint_u64 uint_plus_u64 x_def [symmetric] d_def [symmetric]
    by (simp split: if_splits)
qed

lemma clock_step:
  assumes "1 \<le> uint v" "uint v < 4611686018427387904"
  shows "moment_of (if 0 \<le> sint delta
      then if sint (v + delta) \<le> 0 then DISPATCH_TIME_FOREVER else dispatch_clock_and_value_to_time clock (v + delta)
      else if sint (v + delta) < 1
           then dispatch_clock_and_value_to_time clock (if clock = DISPATCH_CLOCK_WALL then 2 else 1)
           else dispatch_clock_and_value_to_time clock (v + delta))
    = (if clock = DISPATCH_CLOCK_WALL \<and> uint v + sint delta = 1 then Forever
       else after (At clock (uint v)) (sint delta))"
proof -
  note sint_range_u64 [of delta]
  have f: "moment_of DISPATCH_TIME_FOREVER = Forever" by (simp add: moment_of_def mask_values)
  consider "uint v + sint delta < 1" | "1 \<le> uint v + sint delta" "uint v + sint delta < 9223372036854775808"
    | "9223372036854775808 \<le> uint v + sint delta" by linarith
  then show ?thesis
  proof cases
    case 1
    then have "sint (v + delta) = uint v + sint delta" "\<not> 0 \<le> sint delta"
      using sum_u64(1) [OF assms(2), of delta] assms(1) by simp_all
    then show ?thesis using 1 by (simp add: f encode_moment least_time_def)
  next
    case 2
    then have s: "sint (v + delta) = uint v + sint delta" "uint (v + delta) = uint v + sint delta"
      using sum_u64 [OF assms(2), of delta] by simp_all
    have e: "v + delta = 0 \<longleftrightarrow> uint v + sint delta = 0" "v + delta = 1 \<longleftrightarrow> uint v + sint delta = 1"
      using s(2) by (simp_all add: u64_eq_iff)
    show ?thesis using 2 by (simp add: s e encode_moment least_time_def)
  next
    case 3
    then have "sint (v + delta) = uint v + sint delta - 18446744073709551616" "0 \<le> sint delta"
      using sum_u64(1) [OF assms(2), of delta] assms by simp_all
    then show ?thesis using 3 assms sint_range_u64(2) [of delta] by (simp add: f)
  qed
qed

text \<open>The wall time 1 is the one time whose word means another moment: it is that of never.\<close>

definition falls_on_wall_1 :: "moment \<Rightarrow> int \<Rightarrow> bool" where
  "falls_on_wall_1 m delta \<longleftrightarrow> m = At DISPATCH_CLOCK_WALL (1 - delta)"

lemma falls_on_wall_1_At [simp]:
  "falls_on_wall_1 Forever delta \<longleftrightarrow> False"
  "falls_on_wall_1 (At clock v) delta \<longleftrightarrow> clock = DISPATCH_CLOCK_WALL \<and> v + delta = 1"
  by (auto simp: falls_on_wall_1_def)

lemma dispatch_time_moment:
  assumes "clocks_in_range sys"
  shows "moment_of (dispatch_time sys inval delta) =
    (if falls_on_wall_1 (moment_at sys inval) (sint delta) then Forever
     else after (moment_at sys inval) (sint delta))"
proof (cases "inval = DISPATCH_TIME_FOREVER")
  case True
  then have "moment_at sys inval = Forever" by (simp add: moment_at_def moment_of_def u64_eq_iff mask_values)
  then show ?thesis using True by (simp add: dispatch_time_def moment_of_def mask_values)
next
  case False
  obtain clock v where d: "dispatch_time_to_clock_and_value sys inval True = (clock, v)" by fastforce
  note m = decode_now [OF False assms d]
  show ?thesis
  proof (cases "v = DISPATCH_TIME_FOREVER")
    case True
    then show ?thesis using m False d by (simp add: dispatch_time_def moment_of_def mask_values)
  next
    case v: False
    then have "1 \<le> uint v" "uint v < 4611686018427387904" using m by simp_all
    note c = clock_step [OF this, of delta clock]
    show ?thesis
    proof (cases "clock = DISPATCH_CLOCK_WALL")
      case True
      then show ?thesis using m v False d c [unfolded True]
        by (auto simp: dispatch_time_def Let_def split: if_splits)
    next
      case u: False
      then show ?thesis using m v False d c by (auto simp: dispatch_time_def Let_def split: if_splits)
    qed
  qed
qed

lemma dispatch_time_wall_1:
  assumes "clocks_in_range sys" "falls_on_wall_1 (moment_at sys inval) (sint delta)"
  shows "dispatch_time sys inval delta = DISPATCH_TIME_FOREVER"
proof (cases "inval = DISPATCH_TIME_FOREVER")
  case True
  then show ?thesis by (simp add: dispatch_time_def)
next
  case False
  obtain clock v where d: "dispatch_time_to_clock_and_value sys inval True = (clock, v)" by fastforce
  note m = decode_now [OF False assms(1) d]
  then have w: "v \<noteq> DISPATCH_TIME_FOREVER" "clock = DISPATCH_CLOCK_WALL" "uint v + sint delta = 1"
    "uint v < 4611686018427387904"
    using assms(2) by (auto split: if_splits)
  then have s: "v + delta = 1" using sum_u64(2) [OF w(4), of delta] by (simp add: u64_eq_iff)
  have "dispatch_clock_and_value_to_time DISPATCH_CLOCK_WALL 1 = DISPATCH_TIME_FOREVER"
    by (simp add: dispatch_clock_and_value_to_time.simps word_le_def mask_values DISPATCH_TIME_FOREVER_def)
  then show ?thesis using d w(1,2) s False by (simp add: dispatch_time_def)
qed

text \<open>C14. \<open>dispatch_time\<close> computes the moment \<open>delta\<close> nanoseconds after its argument and
  saturates: the result is the exact sum on the same clock, a sum beyond the representable values is
  never, a sum below them the earliest time, and no 64-bit wrap-around is observable, whatever the
  two arguments, with one exception. A wall time that falls on exactly 1 is below the earliest, and
  the comment in the code promises -2, the word of wall time 2, for it; the test lets it through and
  the result is never.\<close>

theorem dispatch_time_saturates:
  assumes "clocks_in_range sys"
  shows "(moment_of (dispatch_time sys inval delta) = after (moment_at sys inval) (sint delta)
      \<longleftrightarrow> \<not> falls_on_wall_1 (moment_at sys inval) (sint delta))
    \<and> (falls_on_wall_1 (moment_at sys inval) (sint delta) \<longrightarrow>
         after (moment_at sys inval) (sint delta) = At DISPATCH_CLOCK_WALL 2
         \<and> dispatch_time sys inval delta = DISPATCH_TIME_FOREVER)"
  using dispatch_time_moment [OF assms, of inval delta] dispatch_time_wall_1 [OF assms, of inval delta]
  by (auto simp: falls_on_wall_1_def least_time_def)

theorem dispatch_time_saturates_witness:
  "let sys = \<lparr>uptime_now = 1000, monotonic_now = 2000, wall_now = 3000\<rparr>
   in moment_of (dispatch_time sys DISPATCH_TIME_NOW 500) = At DISPATCH_CLOCK_UPTIME 1500
      \<and> moment_of (dispatch_time sys DISPATCH_MONOTONICTIME_NOW (push_bit 62 1)) = Forever
      \<and> moment_of (dispatch_time sys DISPATCH_WALLTIME_NOW (- 5000)) = At DISPATCH_CLOCK_WALL 2
      \<and> dispatch_time sys DISPATCH_WALLTIME_NOW (- 2999) = DISPATCH_TIME_FOREVER"
proof -
  define sys where "sys = \<lparr>uptime_now = 1000, monotonic_now = 2000, wall_now = (3000 :: u64)\<rparr>"
  have "clocks_in_range sys" by (simp add: clocks_in_range_def sys_def)
  note t = dispatch_time_saturates [OF this]
  have m: "moment_at sys DISPATCH_TIME_NOW = At DISPATCH_CLOCK_UPTIME 1000"
    "moment_at sys DISPATCH_MONOTONICTIME_NOW = At DISPATCH_CLOCK_MONOTONIC 2000"
    "moment_at sys DISPATCH_WALLTIME_NOW = At DISPATCH_CLOCK_WALL 3000"
    by (simp_all add: moment_at_def sys_def u64_eq_iff mask_values)
  have s: "sint (500 :: u64) = 500" "sint (- 5000 :: u64) = - 5000" "sint (- 2999 :: u64) = - 2999"
    "sint (push_bit 62 1 :: u64) = 4611686018427387904"
    by (simp_all add: sint_u64 uint_minus_u64 push_bit_eq_mult)
  have "moment_of (dispatch_time sys DISPATCH_TIME_NOW 500) = At DISPATCH_CLOCK_UPTIME 1500"
    "moment_of (dispatch_time sys DISPATCH_MONOTONICTIME_NOW (push_bit 62 1)) = Forever"
    "moment_of (dispatch_time sys DISPATCH_WALLTIME_NOW (- 5000)) = At DISPATCH_CLOCK_WALL 2"
    using t [of DISPATCH_TIME_NOW 500] t [of DISPATCH_MONOTONICTIME_NOW "push_bit 62 1"]
      t [of DISPATCH_WALLTIME_NOW "- 5000"]
    by (simp_all add: m s least_time_def del: push_bit_of_1)
  moreover have "dispatch_time sys DISPATCH_WALLTIME_NOW (- 2999) = DISPATCH_TIME_FOREVER"
    using t [of DISPATCH_WALLTIME_NOW "- 2999"] by (simp add: m s)
  ultimately show ?thesis unfolding sys_def [symmetric] Let_def by blast
qed

section \<open>Nanoseconds and the wall clock\<close>

lemma moment_of_Forever [simp]: "moment_of DISPATCH_TIME_FOREVER = Forever"
  by (simp add: moment_of_def mask_values)

lemma decode_of_moment:
  assumes "moment_of t = At clock (uint v)" "t \<noteq> DISPATCH_TIME_FOREVER"
  shows "dispatch_time_to_clock_and_value sys t False = (clock, v)"
proof -
  obtain clock' v' where d: "dispatch_time_to_clock_and_value sys t False = (clock', v')" by fastforce
  then show ?thesis using decode_moment [OF assms(2) d] assms(1) by (auto split: if_splits simp: u64_eq_iff)
qed

lemma uptime_encode_value:
  "uint v < 4611686018427387903 \<Longrightarrow> uint (dispatch_clock_and_value_to_time clock v) =
    (case clock of DISPATCH_CLOCK_UPTIME \<Rightarrow> uint v
     | DISPATCH_CLOCK_MONOTONIC \<Rightarrow> uint v + 9223372036854775808
     | DISPATCH_CLOCK_WALL \<Rightarrow> if v = 0 then 0 else 18446744073709551616 - uint v)"
  using set_top [of v]
  by (cases clock) (simp_all add: dispatch_clock_and_value_to_time.simps word_le_def mask_values
      DISPATCH_UP_OR_MONOTONIC_TIME_MASK_def uint_minus_u64)

definition clock_of :: "dispatch_clockid_t \<Rightarrow> dispatch_clock_t" where
  "clock_of c = (case c of DISPATCH_CLOCKID_UPTIME \<Rightarrow> DISPATCH_CLOCK_UPTIME
     | DISPATCH_CLOCKID_MONOTONIC \<Rightarrow> DISPATCH_CLOCK_MONOTONIC | DISPATCH_CLOCKID_WALLTIME \<Rightarrow> DISPATCH_CLOCK_WALL)"

lemma from_nsec_encode:
  "dispatch_time_from_nsec clock deadline
    = dispatch_clock_and_value_to_time (clock_of clock) (if deadline < 2 then 2 else deadline)"
  by (cases clock) (simp_all add: dispatch_time_from_nsec_def clock_of_def Let_def)

text \<open>A deadline in nanoseconds goes into a time value and back unchanged: on the up time and
  the monotonic clock from 2 to the largest value, on the wall clock from 3, since 2 is encoded
  as the name of the current wall time. Larger deadlines are never, and \<open>dispatch_timeout\<close> is the
  distance of the deadline from the current time of its clock, 0 once it has passed.\<close>

theorem dispatch_time_nsec_round_trip:
  assumes "2 < deadline" "deadline < DISPATCH_TIME_MAX_VALUE"
  shows "dispatch_time_to_nsec sys (dispatch_time_from_nsec clock deadline) = Some (clock, deadline)
    \<and> uint (dispatch_timeout sys (dispatch_time_from_nsec clock deadline)) =
        max 0 (uint deadline - uint (case clock of DISPATCH_CLOCKID_UPTIME \<Rightarrow> uptime_now sys
          | DISPATCH_CLOCKID_MONOTONIC \<Rightarrow> monotonic_now sys | DISPATCH_CLOCKID_WALLTIME \<Rightarrow> wall_now sys))
    \<and> (DISPATCH_TIME_MAX_VALUE \<le> large \<longrightarrow> dispatch_time_from_nsec clock large = DISPATCH_TIME_FOREVER)"
proof -
  let ?t = "dispatch_time_from_nsec clock deadline"
  have d: "2 < uint deadline" "uint deadline < 4611686018427387903"
    using assms by (simp_all add: word_less_def mask_values)
  have t: "?t = dispatch_clock_and_value_to_time (clock_of clock) deadline"
    using assms(1) by (auto simp: from_nsec_encode dest: order.strict_trans)
  have nz: "deadline \<noteq> 0" "deadline \<noteq> 1" using d by auto
  have u: "uint ?t = (case clock_of clock of DISPATCH_CLOCK_UPTIME \<Rightarrow> uint deadline
     | DISPATCH_CLOCK_MONOTONIC \<Rightarrow> uint deadline + 9223372036854775808
     | DISPATCH_CLOCK_WALL \<Rightarrow> 18446744073709551616 - uint deadline)"
    unfolding t uptime_encode_value [OF d(2)] using nz by simp
  have r: "?t \<noteq> DISPATCH_TIME_FOREVER" "?t \<noteq> DISPATCH_TIME_NOW" "?t \<noteq> DISPATCH_MONOTONICTIME_NOW"
      "?t \<noteq> DISPATCH_WALLTIME_NOW"
    using u d by (cases "clock_of clock"; simp add: u64_eq_iff mask_values)+
  have m: "moment_of ?t = At (clock_of clock) (uint deadline)"
    unfolding t encode_moment using d nz by simp
  have dec: "dispatch_time_to_clock_and_value sys ?t False = (clock_of clock, deadline)"
    by (rule decode_of_moment [OF m r(1)])
  then have "dispatch_time_to_clock_and_value sys ?t True = (clock_of clock, deadline)"
    using r by (simp add: dispatch_time_to_clock_and_value_def)
  then have "dispatch_time_to_nsec sys ?t = Some (clock, deadline)"
    using r by (cases clock) (simp_all add: dispatch_time_to_nsec_def clock_of_def)
  moreover have "uint (dispatch_timeout sys ?t) =
        max 0 (uint deadline - uint (case clock of DISPATCH_CLOCKID_UPTIME \<Rightarrow> uptime_now sys
          | DISPATCH_CLOCKID_MONOTONIC \<Rightarrow> monotonic_now sys | DISPATCH_CLOCKID_WALLTIME \<Rightarrow> wall_now sys))"
    using r dec by (cases clock) (simp_all add: dispatch_timeout_def clock_of_def Let_def word_le_def uint_sub_if')
  moreover have "DISPATCH_TIME_MAX_VALUE \<le> large \<longrightarrow> dispatch_time_from_nsec clock large = DISPATCH_TIME_FOREVER"
    by (auto simp: from_nsec_encode dispatch_clock_and_value_to_time.simps word_le_def word_less_def mask_values)
  ultimately show ?thesis by blast
qed

theorem dispatch_time_nsec_round_trip_witness:
  "dispatch_time_to_nsec \<lparr>uptime_now = 7, monotonic_now = 8, wall_now = 9\<rparr>
     (dispatch_time_from_nsec DISPATCH_CLOCKID_WALLTIME 12345) = Some (DISPATCH_CLOCKID_WALLTIME, 12345)"
  using dispatch_time_nsec_round_trip [of 12345] by (simp add: word_less_def mask_values)

lemma walltime_value:
  "wall_now sys + delta = s \<Longrightarrow> dispatch_walltime sys None delta =
    (if sint s \<le> 1 then if 0 \<le> sint delta then DISPATCH_TIME_FOREVER else - 2 else - s)"
  by (simp add: dispatch_walltime_def Let_def)

lemma dispatch_time_wall:
  assumes "uint (wall_now sys) < 4611686018427387904" "wall_now sys + delta = s"
  shows "dispatch_time sys DISPATCH_WALLTIME_NOW delta =
    (if sint s < 1 then if 0 \<le> sint delta then DISPATCH_TIME_FOREVER else - 2
     else dispatch_clock_and_value_to_time DISPATCH_CLOCK_WALL s)"
proof -
  have "dispatch_time_to_clock_and_value sys DISPATCH_WALLTIME_NOW True = (DISPATCH_CLOCK_WALL, wall_now sys)"
    by (simp add: dispatch_time_to_clock_and_value_def u64_eq_iff mask_values)
  moreover have "DISPATCH_WALLTIME_NOW \<noteq> DISPATCH_TIME_FOREVER" "wall_now sys \<noteq> DISPATCH_TIME_FOREVER"
    using assms(1) by (auto simp: u64_eq_iff mask_values)
  moreover have "dispatch_clock_and_value_to_time DISPATCH_CLOCK_WALL 2 = - 2"
    by (simp add: dispatch_clock_and_value_to_time.simps word_le_def mask_values)
  ultimately show ?thesis using assms(2) by (simp add: dispatch_time_def Let_def not_le less_le)
qed

text \<open>The header promises that \<open>dispatch_walltime(NULL, delta)\<close> returns the same value as
  \<open>dispatch_time(DISPATCH_WALLTIME_NOW, delta)\<close>. It does exactly when the sum is in the range of
  time values or overflows 64 bits, and is not 1 by a negative delta. Beyond the range
  \<open>dispatch_time\<close> answers never and \<open>dispatch_walltime\<close> a value that is read as a time of
  another clock; at 1 \<open>dispatch_time\<close> answers never for a time in the past.\<close>

theorem dispatch_walltime_agrees:
  assumes "uint (wall_now sys) < 4611686018427387904"
  shows "dispatch_walltime sys None delta = dispatch_time sys DISPATCH_WALLTIME_NOW delta \<longleftrightarrow>
    \<not> (4611686018427387903 \<le> uint (wall_now sys) + sint delta \<and> uint (wall_now sys) + sint delta < 9223372036854775808)
    \<and> \<not> (uint (wall_now sys) + sint delta = 1 \<and> sint delta < 0)"
proof -
  define s where "s = wall_now sys + delta"
  define x where "x = uint (wall_now sys) + sint delta"
  have s: "sint s = (if x < 9223372036854775808 then x else x - 18446744073709551616)" "0 \<le> x \<Longrightarrow> uint s = x"
    unfolding s_def x_def by (rule sum_u64 [OF assms])+
  have x: "x < 13835058055282163712" using assms sint_range_u64(2) [of delta] by (simp add: x_def)
  note eqs = walltime_value [OF s_def [symmetric]] dispatch_time_wall [OF assms s_def [symmetric]]
  consider "x < 1" | "x = 1" | "1 < x" "x < 4611686018427387903"
    | "4611686018427387903 \<le> x" "x < 9223372036854775808" | "9223372036854775808 \<le> x" by linarith
  then have "dispatch_walltime sys None delta = dispatch_time sys DISPATCH_WALLTIME_NOW delta \<longleftrightarrow>
    \<not> (4611686018427387903 \<le> x \<and> x < 9223372036854775808) \<and> \<not> (x = 1 \<and> sint delta < 0)"
  proof cases
    case 1
    then have "sint s < 1" "sint s \<le> 1" using s(1) by simp_all
    then show ?thesis using 1 by (simp add: eqs)
  next
    case 2
    then have "sint s = 1" "s = 1" using s by (simp_all add: u64_eq_iff)
    moreover have "dispatch_clock_and_value_to_time DISPATCH_CLOCK_WALL 1 = DISPATCH_TIME_FOREVER"
      by (simp add: dispatch_clock_and_value_to_time.simps word_le_def mask_values DISPATCH_TIME_FOREVER_def)
    moreover have "- 2 \<noteq> DISPATCH_TIME_FOREVER" by (simp add: DISPATCH_TIME_FOREVER_def)
    ultimately show ?thesis using 2 by (simp add: eqs)
  next
    case 3
    then have "sint s = x" "uint s = x" using s by simp_all
    then show ?thesis using 3
      by (simp add: eqs dispatch_clock_and_value_to_time.simps word_le_def mask_values)
  next
    case 4
    then have v: "sint s = x" "uint s = x" using s by simp_all
    then have "s \<noteq> 1" using 4 by auto
    then have "- s \<noteq> DISPATCH_TIME_FOREVER" by (simp add: DISPATCH_TIME_FOREVER_def minus_equation_iff)
    then show ?thesis using 4 v
      by (simp add: eqs dispatch_clock_and_value_to_time.simps word_le_def mask_values)
  next
    case 5
    then have "sint s < 1" "sint s \<le> 1" using s(1) x by simp_all
    then show ?thesis using 5 by (simp add: eqs)
  qed
  then show ?thesis by (simp add: x_def)
qed

theorem dispatch_walltime_agrees_witness:
  "let sys = \<lparr>uptime_now = 7, monotonic_now = 8, wall_now = 900\<rparr>
   in dispatch_walltime sys None 5 = dispatch_time sys DISPATCH_WALLTIME_NOW 5
      \<and> dispatch_walltime sys None (- 899) \<noteq> dispatch_time sys DISPATCH_WALLTIME_NOW (- 899)"
proof -
  define sys where "sys = \<lparr>uptime_now = 7, monotonic_now = 8, wall_now = (900 :: u64)\<rparr>"
  have "uint (wall_now sys) < 4611686018427387904" by (simp add: sys_def)
  note t = dispatch_walltime_agrees [OF this]
  show ?thesis unfolding sys_def [symmetric] Let_def t by (simp add: sys_def sint_u64 uint_minus_u64)
qed

end
