(* ===== verification/DispatchData.thy ===== *)
theory DispatchData
  imports Prelude
begin

text \<open>
  Dispatch data objects: src/data.c and src/data_internal.h of libdispatch.

  A data object is immutable apart from its reference count and the cache of its contiguous
  bytes, so it is a value here: a leaf holds its bytes, a composite object its records. The
  address \<open>buf + n\<close> into a buffer is the rest of its bytes from \<open>n\<close> on, a null pointer
  \<open>None\<close>. The allocation of objects does not fail; the allocation of a contiguous buffer is a
  parameter, \<open>None\<close> when it fails. Sizes are natural numbers: an object of more than 2 to the 64
  bytes, which many references to one buffer could describe, is not considered. A crash of the
  library is the result \<open>None\<close>.
\<close>

section \<open>Objects\<close>

text \<open>The constants for destructors, and a block of the client.\<close>

datatype destructor = DESTRUCTOR_DEFAULT | DESTRUCTOR_FREE | DESTRUCTOR_NONE | DESTRUCTOR_VM_DEALLOCATE
  | DESTRUCTOR_INLINE | Block nat

type_synonym queue = nat

datatype dispatch_data = Data (dd_buf: "u8 list option") (dd_destructor: destructor)
    (dd_targetq: "queue option") (dd_size: nat) (dd_records: "range_record list")
  and range_record = Range (rr_data_object: dispatch_data) (rr_from: nat) (rr_length: nat)

definition dispatch_data_leaf :: "dispatch_data \<Rightarrow> bool" where
  "dispatch_data_leaf dd = (length (dd_records dd) = 0)"

definition dispatch_data_num_records :: "dispatch_data \<Rightarrow> nat" where
  "dispatch_data_num_records dd = (if length (dd_records dd) \<noteq> 0 then length (dd_records dd) else 1)"

text \<open>The singleton without bytes, and a new composite object: no buffer, no destructor.\<close>

definition dispatch_data_empty :: dispatch_data where
  "dispatch_data_empty = Data None DESTRUCTOR_NONE None 0 []"

definition dispatch_data_composite :: "nat \<Rightarrow> range_record list \<Rightarrow> dispatch_data" where
  "dispatch_data_composite sz records = Data None DESTRUCTOR_DEFAULT None sz records"

text \<open>The result is the buffer, the object it belongs to and the offset in it.\<close>

definition dispatch_data_map_direct :: "dispatch_data \<Rightarrow> nat \<Rightarrow> u8 list option \<times> dispatch_data \<times> nat" where
  "dispatch_data_map_direct dd offset =
     (let (dd, offset) =
        (if \<not> dispatch_data_leaf dd \<and> dispatch_data_num_records dd = 1
         then (rr_data_object (dd_records dd ! 0), offset + rr_from (dd_records dd ! 0))
         else (dd, offset));
        buffer = (case dd_buf dd of None \<Rightarrow> None | Some buf \<Rightarrow> Some (drop offset buf))
      in (buffer, dd, offset))"

section \<open>Creation and disposal\<close>

text \<open>What becomes of a buffer that is no longer needed.\<close>

datatype buffer_action = Free_buffer | Keep_buffer | Deallocate_pages | Call_async "queue option" destructor

definition dispatch_data_destroy_buffer :: "queue option \<Rightarrow> destructor \<Rightarrow> buffer_action" where
  "dispatch_data_destroy_buffer queue destructor =
     (if destructor = DESTRUCTOR_FREE then Free_buffer
      else if destructor = DESTRUCTOR_NONE then Keep_buffer
      else if destructor = DESTRUCTOR_VM_DEALLOCATE then Deallocate_pages
      else Call_async queue destructor)"

text \<open>The object and the action on a buffer that is not used. A null destructor is the default
  one, which copies.\<close>

definition dispatch_data_create ::
  "u8 list option \<Rightarrow> nat \<Rightarrow> queue option \<Rightarrow> destructor \<Rightarrow> dispatch_data \<times> buffer_action option" where
  "dispatch_data_create buffer sz queue destructor =
     (case buffer of
        None \<Rightarrow> (dispatch_data_empty,
          if destructor \<noteq> DESTRUCTOR_DEFAULT then Some (dispatch_data_destroy_buffer queue destructor) else None)
      | Some b \<Rightarrow>
          if sz = 0
          then (dispatch_data_empty,
            if destructor \<noteq> DESTRUCTOR_DEFAULT then Some (dispatch_data_destroy_buffer queue destructor) else None)
          else
            (let destructor =
               (if destructor = DESTRUCTOR_DEFAULT then DESTRUCTOR_FREE
                else if destructor = DESTRUCTOR_INLINE then DESTRUCTOR_NONE
                else destructor)
             in (Data (Some (take sz b)) destructor queue sz [], None)))"

text \<open>The actions on the buffer of a leaf, or the objects that are released.\<close>

definition dispatch_data_dispose :: "dispatch_data \<Rightarrow> buffer_action option \<times> dispatch_data list" where
  "dispatch_data_dispose dd =
     (if dispatch_data_leaf dd
      then (Some (dispatch_data_destroy_buffer (dd_targetq dd) (dd_destructor dd)), [])
      else (case dd_buf dd of None \<Rightarrow> None | Some _ \<Rightarrow> Some Free_buffer, map rr_data_object (dd_records dd)))"

section \<open>Concatenation\<close>

definition concat_records :: "dispatch_data \<Rightarrow> range_record list" where
  "concat_records dd = (if dispatch_data_leaf dd then [Range dd 0 (dd_size dd)] else dd_records dd)"

definition dispatch_data_create_concat :: "dispatch_data \<Rightarrow> dispatch_data \<Rightarrow> dispatch_data" where
  "dispatch_data_create_concat dd1 dd2 =
     (if dd_size dd1 = 0 then dd2
      else if dd_size dd2 = 0 then dd1
      else dispatch_data_composite (dd_size dd1 + dd_size dd2) (concat_records dd1 @ concat_records dd2))"

section \<open>Subranges\<close>

text \<open>The record that contains the offset, and the offset in it.\<close>

fun skip_records :: "range_record list \<Rightarrow> nat \<Rightarrow> nat \<Rightarrow> nat \<times> nat" where
  "skip_records [] i offset = (i, offset)"
| "skip_records (r # rs) i offset =
     (if rr_length r \<le> offset then skip_records rs (i + 1) (offset - rr_length r) else (i, offset))"

text \<open>The number of records up to the end of the range, on the records after the first, and the
  length left for the last of them.\<close>

fun count_records :: "range_record list \<Rightarrow> nat \<Rightarrow> nat \<Rightarrow> (nat \<times> nat) option" where
  "count_records [] last_length cnt = Some (cnt, last_length)"
| "count_records (r # rs) last_length cnt =
     (if last_length \<le> rr_length r then Some (cnt + 1, last_length)
      else if rs = [] then None
      else count_records rs (last_length - rr_length r) (cnt + 1))"

text \<open>The records of a range that starts at \<open>offset\<close> in record \<open>i\<close> and ends in a later one.\<close>

definition subrange_records :: "range_record list \<Rightarrow> nat \<Rightarrow> nat \<Rightarrow> nat \<Rightarrow> bool \<Rightarrow> range_record list option" where
  "subrange_records rs i offset len to_the_end =
     (case (if to_the_end then Some (length rs - i, 0)
            else count_records (drop (i + 1) rs) (len - (rr_length (rs ! i) - offset)) 1) of
        None \<Rightarrow> None
      | Some (cnt, last_length) \<Rightarrow>
          (let records = take cnt (drop i rs);
               records = (if offset \<noteq> 0
                 then records[0 := Range (rr_data_object (records ! 0)) (rr_from (records ! 0) + offset)
                        (rr_length (records ! 0) - offset)]
                 else records);
               records = (if \<not> to_the_end
                 then records[cnt - 1 := Range (rr_data_object (records ! (cnt - 1)))
                        (rr_from (records ! (cnt - 1))) last_length]
                 else records)
           in Some records))"

lemma size_record_object: "r \<in> set (dd_records dd) \<Longrightarrow> size (rr_data_object r) < size dd"
proof -
  assume r: "r \<in> set (dd_records dd)"
  have "size (rr_data_object r) < size r" by (cases r) simp
  also have "size r \<le> size_list size (dd_records dd)" by (rule size_list_estimation' [OF r order_refl])
  also have "\<dots> \<le> size dd" by (cases dd) simp
  finally show ?thesis .
qed

function dispatch_data_create_subrange :: "dispatch_data \<Rightarrow> nat \<Rightarrow> nat \<Rightarrow> dispatch_data option" where
  "dispatch_data_create_subrange dd offset len =
     (if dd_size dd \<le> offset \<or> len = 0 then Some dispatch_data_empty
      else if \<not> dd_size dd - offset < len \<and> len = dd_size dd then Some dd
      else
        (let len = (if dd_size dd - offset < len then dd_size dd - offset else len)
         in if dispatch_data_leaf dd then Some (dispatch_data_composite len [Range dd offset len])
            else
              (let to_the_end = (offset + len = dd_size dd);
                   (i, offset) = skip_records (dd_records dd) 0 offset
               in if dispatch_data_num_records dd \<le> i then None
                  else if offset + len \<le> rr_length (dd_records dd ! i)
                  then dispatch_data_create_subrange (rr_data_object (dd_records dd ! i))
                         (rr_from (dd_records dd ! i) + offset) len
                  else
                    (case subrange_records (dd_records dd) i offset len to_the_end of
                       None \<Rightarrow> None
                     | Some records \<Rightarrow> Some (dispatch_data_composite len records)))))"
  by pat_completeness auto

termination
proof (relation "measure (\<lambda>(dd, _, _). size dd)", simp, clarsimp)
  fix dd i
  assume "\<not> dispatch_data_leaf dd" "\<not> dispatch_data_num_records dd \<le> i"
  then have "dd_records dd ! i \<in> set (dd_records dd)"
    by (auto simp: dispatch_data_leaf_def dispatch_data_num_records_def)
  then show "size (rr_data_object (dd_records dd ! i)) < size dd" by (rule size_record_object)
qed

declare dispatch_data_create_subrange.simps [simp del]

section \<open>Traversal and contiguous buffers\<close>

text \<open>The applier gets its context, the region, its offset and its bytes; it returns whether to
  go on and the new context.\<close>

type_synonym 'c applier = "'c \<Rightarrow> dispatch_data \<Rightarrow> nat \<Rightarrow> u8 list \<Rightarrow> bool \<times> 'c"

fun data_apply :: "'c applier \<Rightarrow> dispatch_data \<Rightarrow> nat \<Rightarrow> nat \<Rightarrow> nat \<Rightarrow> 'c \<Rightarrow> bool \<times> 'c"
  and records_apply :: "'c applier \<Rightarrow> range_record list \<Rightarrow> nat \<Rightarrow> 'c \<Rightarrow> bool \<times> 'c"
  and record_apply :: "'c applier \<Rightarrow> range_record \<Rightarrow> nat \<Rightarrow> 'c \<Rightarrow> bool \<times> 'c" where
  "data_apply applier (Data buf ds q whole records) offset from sz ctxt =
     (case fst (dispatch_data_map_direct (Data buf ds q whole records) 0) of
        Some buffer \<Rightarrow> applier ctxt (Data buf ds q whole records) offset (take sz (drop from buffer))
      | None \<Rightarrow> records_apply applier records offset ctxt)"
| "records_apply applier [] offset ctxt = (True, ctxt)"
| "records_apply applier (r # rs) offset ctxt =
     (let (result, ctxt) = record_apply applier r offset ctxt
      in if result then records_apply applier rs (offset + rr_length r) ctxt else (False, ctxt))"
| "record_apply applier (Range dd from len) offset ctxt = data_apply applier dd offset from len ctxt"

definition dispatch_data_apply :: "dispatch_data \<Rightarrow> 'c applier \<Rightarrow> 'c \<Rightarrow> bool \<times> 'c" where
  "dispatch_data_apply dd applier ctxt =
     (if dd_size dd = 0 then (True, ctxt) else data_apply applier dd 0 0 (dd_size dd) ctxt)"

definition memcpy_at :: "nat \<Rightarrow> u8 list \<Rightarrow> u8 list \<Rightarrow> u8 list" where
  "memcpy_at off bs buffer = take off buffer @ bs @ drop (off + length bs) buffer"

text \<open>The memory that \<open>malloc\<close> returns is a parameter.\<close>

definition dispatch_data_flatten :: "u8 list option \<Rightarrow> dispatch_data \<Rightarrow> u8 list option" where
  "dispatch_data_flatten memory dd =
     (case memory of None \<Rightarrow> None
      | Some buffer \<Rightarrow>
          Some (snd (dispatch_data_apply dd (\<lambda>buffer region off buf. (True, memcpy_at off buf buffer)) buffer)))"

text \<open>The object, \<open>None\<close> when there is no memory, the buffer and its size.\<close>

definition dispatch_data_create_map ::
  "u8 list option \<Rightarrow> dispatch_data \<Rightarrow> dispatch_data option \<times> u8 list option \<times> nat" where
  "dispatch_data_create_map memory dd =
     (if dd_size dd = 0 then (Some dispatch_data_empty, None, 0)
      else case fst (dispatch_data_map_direct dd 0) of
        Some buffer \<Rightarrow> (Some dd, Some buffer, dd_size dd)
      | None \<Rightarrow>
          (case dispatch_data_flatten memory dd of
             Some buffer \<Rightarrow> (Some (fst (dispatch_data_create (Some buffer) (dd_size dd) None DESTRUCTOR_FREE)),
               Some buffer, dd_size dd)
           | None \<Rightarrow> (None, None, 0)))"

text \<open>The bytes, and the object whose buffer caches them afterwards.\<close>

definition dispatch_data_get_flattened_bytes ::
  "u8 list option \<Rightarrow> dispatch_data \<Rightarrow> u8 list option \<times> dispatch_data" where
  "dispatch_data_get_flattened_bytes memory dd =
     (if dd_size dd = 0 then (None, dd)
      else case dispatch_data_map_direct dd 0 of
        (Some buffer, _, _) \<Rightarrow> (Some buffer, dd)
      | (None, dd', offset) \<Rightarrow>
          (case dispatch_data_flatten memory dd' of
             Some flatbuf \<Rightarrow> (Some (drop offset flatbuf),
               Data (Some flatbuf) (dd_destructor dd') (dd_targetq dd') (dd_size dd') (dd_records dd'))
           | None \<Rightarrow> (None, dd')))"

section \<open>Regions\<close>

text \<open>The record with the location, the offset in it, the length of the region and the offset
  of the region.\<close>

fun search_region :: "range_record list \<Rightarrow> nat \<Rightarrow> nat \<Rightarrow> nat \<Rightarrow> (range_record \<times> nat \<times> nat \<times> nat) option" where
  "search_region [] from location offset = None"
| "search_region (r # rs) from location offset =
     (if rr_length r \<le> from then search_region rs (from - rr_length r) location offset
      else
        (let len = rr_length r - from
         in if offset + len \<le> location then search_region rs 0 location (offset + len)
            else Some (r, from, len, offset)))"

lemma search_region_mem: "search_region rs f location offset = Some (r, x) \<Longrightarrow> r \<in> set rs"
  by (induction rs f location offset rule: search_region.induct) (auto simp: Let_def split: if_splits)

lemma size_map_direct: "dispatch_data_map_direct dd f = (b, dd', f') \<Longrightarrow> size dd' \<le> size dd"
  using size_record_object [of "dd_records dd ! 0" dd]
  by (auto simp: dispatch_data_map_direct_def dispatch_data_leaf_def dispatch_data_num_records_def Let_def
      less_imp_le split: if_splits)

function copy_region :: "dispatch_data \<Rightarrow> nat \<Rightarrow> nat \<Rightarrow> nat \<Rightarrow> nat \<Rightarrow> (dispatch_data \<times> nat) option" where
  "copy_region dd from sz location offset_ptr =
     (case dispatch_data_map_direct dd from of
        (Some _, dd', from') \<Rightarrow>
          Some (if from = 0 \<and> sz = dd_size dd then dd
                else if from' = 0 \<and> sz = dd_size dd' then dd'
                else dispatch_data_composite sz [Range dd' from' sz], offset_ptr)
      | (None, dd', from') \<Rightarrow>
          (case search_region (dd_records dd') from' location 0 of
             None \<Rightarrow> None
           | Some (r, from', len, offset) \<Rightarrow>
               copy_region (rr_data_object r) (from' + rr_from r) len (location - offset) (offset_ptr + offset)))"
  by pat_completeness auto

termination
proof (relation "measure (\<lambda>(dd, _). size dd)", simp, clarsimp)
  fix dd f location dd' f' r x
  assume "(None, dd', f') = dispatch_data_map_direct dd f" "search_region (dd_records dd') f' location 0 = Some (r, x)"
  then have "size dd' \<le> size dd" "size (rr_data_object r) < size dd'"
    by (auto dest!: search_region_mem size_record_object intro: size_map_direct [OF sym])
  then show "size (rr_data_object r) < size dd" by simp
qed

declare copy_region.simps [simp del]

definition dispatch_data_copy_region :: "dispatch_data \<Rightarrow> nat \<Rightarrow> (dispatch_data \<times> nat) option" where
  "dispatch_data_copy_region dd location =
     (if dd_size dd \<le> location then Some (dispatch_data_empty, dd_size dd)
      else copy_region dd 0 (dd_size dd) location 0)"

section \<open>Bytes and invariant\<close>

text \<open>The bytes of an object, and the invariants of the comment at the head of data.c: a leaf
  has a buffer of its size, a composite object points to non-empty ranges of leaves, and a cached
  contiguous buffer holds the bytes of the records.\<close>

definition leaf_bytes :: "dispatch_data \<Rightarrow> u8 list" where
  "leaf_bytes dd = (case dd_buf dd of None \<Rightarrow> [] | Some b \<Rightarrow> b)"

definition record_bytes :: "range_record \<Rightarrow> u8 list" where
  "record_bytes r = take (rr_length r) (drop (rr_from r) (leaf_bytes (rr_data_object r)))"

definition records_bytes :: "range_record list \<Rightarrow> u8 list" where
  "records_bytes rs = concat (map record_bytes rs)"

definition data_bytes :: "dispatch_data \<Rightarrow> u8 list" where
  "data_bytes dd = (if dispatch_data_leaf dd then leaf_bytes dd else records_bytes (dd_records dd))"

definition leaf_ok :: "dispatch_data \<Rightarrow> bool" where
  "leaf_ok dd \<longleftrightarrow> dispatch_data_leaf dd \<and> dd_buf dd = Some (leaf_bytes dd)
     \<and> length (leaf_bytes dd) = dd_size dd \<and> 0 < dd_size dd"

definition record_ok :: "range_record \<Rightarrow> bool" where
  "record_ok r \<longleftrightarrow> leaf_ok (rr_data_object r) \<and> 0 < rr_length r
     \<and> rr_from r + rr_length r \<le> dd_size (rr_data_object r)"

definition records_length :: "range_record list \<Rightarrow> nat" where
  "records_length rs = sum_list (map rr_length rs)"

definition composite_ok :: "dispatch_data \<Rightarrow> bool" where
  "composite_ok dd \<longleftrightarrow> \<not> dispatch_data_leaf dd \<and> list_all record_ok (dd_records dd)
     \<and> dd_size dd = records_length (dd_records dd)
     \<and> (dd_buf dd = None \<or> dd_buf dd = Some (records_bytes (dd_records dd)) \<and> length (dd_records dd) \<noteq> 1)"

definition empty_ok :: "dispatch_data \<Rightarrow> bool" where
  "empty_ok dd \<longleftrightarrow> dispatch_data_leaf dd \<and> dd_buf dd = None \<and> dd_size dd = 0"

definition data_ok :: "dispatch_data \<Rightarrow> bool" where
  "data_ok dd \<longleftrightarrow> leaf_ok dd \<or> composite_ok dd \<or> empty_ok dd"

lemma records_bytes_simps [simp]:
  "records_bytes [] = []" "records_bytes (r # rs) = record_bytes r @ records_bytes rs"
  "records_bytes (rs @ rs') = records_bytes rs @ records_bytes rs'"
  "records_length [] = 0" "records_length (r # rs) = rr_length r + records_length rs"
  "records_length (rs @ rs') = records_length rs + records_length rs'"
  by (simp_all add: records_bytes_def records_length_def)

lemma length_record_bytes [simp]: "record_ok r \<Longrightarrow> length (record_bytes r) = rr_length r"
  by (auto simp: record_ok_def leaf_ok_def record_bytes_def)

lemma length_records_bytes [simp]: "list_all record_ok rs \<Longrightarrow> length (records_bytes rs) = records_length rs"
  by (induction rs) simp_all

lemma length_data_bytes: "data_ok dd \<Longrightarrow> length (data_bytes dd) = dd_size dd"
  by (auto simp: data_ok_def data_bytes_def leaf_ok_def composite_ok_def empty_ok_def leaf_bytes_def)

lemma records_length_pos: "list_all record_ok rs \<Longrightarrow> rs \<noteq> [] \<Longrightarrow> 0 < records_length rs"
  by (cases rs) (auto simp: record_ok_def)

lemma leaf_iff: "dispatch_data_leaf dd \<longleftrightarrow> dd_records dd = []"
  by (simp add: dispatch_data_leaf_def)

lemma empty_ok_empty [simp]: "data_ok dispatch_data_empty" "data_bytes dispatch_data_empty = []"
  by (simp_all add: dispatch_data_empty_def data_ok_def empty_ok_def data_bytes_def leaf_bytes_def dispatch_data_leaf_def)

lemma composite_data_ok:
  "list_all record_ok rs \<Longrightarrow> rs \<noteq> [] \<Longrightarrow> sz = records_length rs
    \<Longrightarrow> data_ok (dispatch_data_composite sz rs) \<and> data_bytes (dispatch_data_composite sz rs) = records_bytes rs"
  by (simp add: dispatch_data_composite_def data_ok_def composite_ok_def data_bytes_def dispatch_data_leaf_def)

lemma data_ok_size_0: "data_ok dd \<Longrightarrow> dd_size dd = 0 \<Longrightarrow> data_bytes dd = []"
  using length_data_bytes [of dd] by simp

section \<open>Creation and concatenation\<close>

lemma create_spec:
  assumes "sz \<le> length b"
  shows "data_ok (fst (dispatch_data_create (Some b) sz q ds))
    \<and> data_bytes (fst (dispatch_data_create (Some b) sz q ds)) = take sz b"
  using assms
proof (cases "sz = 0")
  case True
  then show ?thesis by (simp add: dispatch_data_create_def)
next
  case False
  then show ?thesis using assms
    by (simp add: dispatch_data_create_def data_ok_def leaf_ok_def leaf_bytes_def data_bytes_def
        dispatch_data_leaf_def Let_def)
qed

lemma concat_records_spec:
  assumes "data_ok dd" "dd_size dd \<noteq> 0"
  shows "list_all record_ok (concat_records dd)" "concat_records dd \<noteq> []"
    "records_length (concat_records dd) = dd_size dd" "records_bytes (concat_records dd) = data_bytes dd"
  using assms
  by (auto simp: concat_records_def data_ok_def composite_ok_def empty_ok_def data_bytes_def record_ok_def
      record_bytes_def leaf_ok_def leaf_iff)

lemma concat_spec:
  assumes "data_ok dd1" "data_ok dd2"
  shows "data_ok (dispatch_data_create_concat dd1 dd2)
    \<and> data_bytes (dispatch_data_create_concat dd1 dd2) = data_bytes dd1 @ data_bytes dd2"
proof (cases "dd_size dd1 = 0 \<or> dd_size dd2 = 0")
  case True
  then show ?thesis using assms by (auto simp: dispatch_data_create_concat_def data_ok_size_0)
next
  case False
  then show ?thesis
    using concat_records_spec [OF assms(1)] concat_records_spec [OF assms(2)]
      composite_data_ok [of "concat_records dd1 @ concat_records dd2" "dd_size dd1 + dd_size dd2"]
    by (simp add: dispatch_data_create_concat_def)
qed

section \<open>Subranges\<close>

text \<open>A range of a leaf, as a record.\<close>

lemma range_of_record:
  assumes "record_ok r" "f + len \<le> rr_length r" "0 < len"
  shows "record_ok (Range (rr_data_object r) (rr_from r + f) len)
    \<and> record_bytes (Range (rr_data_object r) (rr_from r + f) len) = take len (drop f (record_bytes r))"
  using assms by (auto simp: record_ok_def record_bytes_def drop_take add.commute)

lemma subrange_leaf:
  assumes "leaf_ok dd" "offset + len \<le> dd_size dd" "0 < len"
  shows "\<exists>d. dispatch_data_create_subrange dd offset len = Some d \<and> data_ok d
    \<and> data_bytes d = take len (drop offset (leaf_bytes dd))"
proof (cases "len = dd_size dd")
  case True
  then have "dispatch_data_create_subrange dd offset len = Some dd"
    using assms by (simp add: dispatch_data_create_subrange.simps [of dd])
  then show ?thesis using True assms by (auto simp: data_ok_def data_bytes_def leaf_ok_def)
next
  case False
  let ?r = "Range dd offset len"
  have "dispatch_data_create_subrange dd offset len = Some (dispatch_data_composite len [?r])"
    using assms False by (auto simp: dispatch_data_create_subrange.simps [of dd] leaf_ok_def Let_def)
  moreover have "record_ok ?r" "record_bytes ?r = take len (drop offset (leaf_bytes dd))"
    using assms by (simp_all add: record_ok_def record_bytes_def)
  ultimately show ?thesis using composite_data_ok [of "[?r]" len] by simp
qed

lemma skip_records_spec:
  assumes "list_all record_ok rs" "offset < records_length rs"
  shows "\<exists>pre r post f. rs = pre @ r # post \<and> skip_records rs i offset = (i + length pre, f)
    \<and> offset = records_length pre + f \<and> f < rr_length r"
  using assms
proof (induction rs i offset rule: skip_records.induct)
  case (2 r rs i offset)
  show ?case
  proof (cases "rr_length r \<le> offset")
    case True
    with 2 obtain pre r' post f where "rs = pre @ r' # post"
        "skip_records rs (i + 1) (offset - rr_length r) = (i + 1 + length pre, f)"
        "offset - rr_length r = records_length pre + f" "f < rr_length r'"
      by (auto simp: less_diff_conv2 add.commute)
    then show ?thesis using True by (intro exI [of _ "r # pre"] exI [of _ r'] exI [of _ post] exI [of _ f]) simp
  next
    case False
    then show ?thesis by (intro exI [of _ "[]"] exI [of _ r] exI [of _ rs] exI [of _ offset]) simp
  qed
qed simp

lemma count_records_spec:
  assumes "list_all record_ok rs" "l \<le> records_length rs" "0 < l"
  shows "\<exists>mid r post l'. rs = mid @ r # post \<and> count_records rs l n = Some (n + length mid + 1, l')
    \<and> l = records_length mid + l' \<and> 0 < l' \<and> l' \<le> rr_length r"
  using assms
proof (induction rs l n rule: count_records.induct)
  case (2 r rs l n)
  show ?case
  proof (cases "l \<le> rr_length r")
    case True
    then show ?thesis using 2 by (intro exI [of _ "[]"] exI [of _ r] exI [of _ rs] exI [of _ l]) simp
  next
    case False
    then have "rs \<noteq> []" using "2.prems" by auto
    then have "\<exists>mid r' post l'. rs = mid @ r' # post
        \<and> count_records rs (l - rr_length r) (n + 1) = Some (n + 1 + length mid + 1, l')
        \<and> l - rr_length r = records_length mid + l' \<and> 0 < l' \<and> l' \<le> rr_length r'"
      using 2 False by (intro "2.IH") auto
    then obtain mid r' post l' where "rs = mid @ r' # post"
        "count_records rs (l - rr_length r) (n + 1) = Some (n + 1 + length mid + 1, l')"
        "l - rr_length r = records_length mid + l'" "0 < l'" "l' \<le> rr_length r'"
      by blast
    then show ?thesis using False \<open>rs \<noteq> []\<close>
      by (intro exI [of _ "r # mid"] exI [of _ r'] exI [of _ post] exI [of _ l']) simp
  qed
qed simp

lemma range_first:
  assumes "record_ok r" "f < rr_length r"
  shows "record_ok (Range (rr_data_object r) (rr_from r + f) (rr_length r - f))"
    "record_bytes (Range (rr_data_object r) (rr_from r + f) (rr_length r - f)) = drop f (record_bytes r)"
  using range_of_record [OF assms(1), of f "rr_length r - f"] assms by simp_all

lemma range_last:
  assumes "record_ok r" "0 < l" "l \<le> rr_length r"
  shows "record_ok (Range (rr_data_object r) (rr_from r) l)"
    "record_bytes (Range (rr_data_object r) (rr_from r) l) = take l (record_bytes r)"
  using range_of_record [OF assms(1), of 0 l] assms by simp_all

lemma subrange_records_spec:
  assumes ok: "record_ok r" "list_all record_ok post" and rs: "rs = pre @ r # post"
    and f: "f < rr_length r" "rr_length r < f + l" "l \<le> rr_length r - f + records_length post"
  shows "\<exists>records. subrange_records rs (length pre) f l (l = rr_length r - f + records_length post) = Some records
    \<and> list_all record_ok records \<and> records \<noteq> [] \<and> records_length records = l
    \<and> records_bytes records = take l (drop f (record_bytes r) @ records_bytes post)"
proof -
  let ?first = "Range (rr_data_object r) (rr_from r + f) (rr_length r - f)"
  have first: "(if f \<noteq> 0 then (r # xs)[0 := Range (rr_data_object ((r # xs) ! 0)) (rr_from ((r # xs) ! 0) + f)
       (rr_length ((r # xs) ! 0) - f)] else r # xs) = ?first # xs" for xs
    by (cases r) simp
  note firsts = range_first [OF ok(1) f(1)]
  show ?thesis
  proof (cases "l = rr_length r - f + records_length post")
    case True
    then have "subrange_records rs (length pre) f l True = Some (?first # post)"
      by (simp add: subrange_records_def rs first [simplified])
    moreover have "length (drop f (record_bytes r) @ records_bytes post) = l" using True ok by simp
    ultimately show ?thesis using True ok f firsts by (intro exI [of _ "?first # post"]) auto
  next
    case False
    have "l - (rr_length r - f) \<le> records_length post" "0 < l - (rr_length r - f)" using f by linarith+
    from count_records_spec [OF ok(2) this, of 1] obtain mid r' post' l' where c: "post = mid @ r' # post'"
        "count_records post (l - (rr_length r - f)) 1 = Some (1 + length mid + 1, l')"
        "l - (rr_length r - f) = records_length mid + l'" "0 < l'" "l' \<le> rr_length r'"
      by blast
    let ?last = "Range (rr_data_object r') (rr_from r') l'"
    let ?records = "?first # mid @ [?last]"
    have "subrange_records rs (length pre) f l False = Some ?records"
      using c(2) by (simp add: subrange_records_def rs first [simplified] c(1) nth_append)
    moreover have "records_bytes ?records = take l (drop f (record_bytes r) @ records_bytes post)"
      using firsts range_last [of r' l'] ok c f by simp
    ultimately show ?thesis using False ok c f firsts range_last [of r' l']
      by (intro exI [of _ ?records]) simp
  qed
qed

lemma subrange_composite:
  assumes ok: "composite_ok dd" and pos: "0 < len" "offset < dd_size dd"
    and whole: "\<not> (\<not> dd_size dd - offset < len \<and> len = dd_size dd)"
  shows "\<exists>d. dispatch_data_create_subrange dd offset len = Some d \<and> data_ok d
    \<and> data_bytes d = take len (drop offset (data_bytes dd))"
proof -
  let ?rs = "dd_records dd"
  define l where "l = (if dd_size dd - offset < len then dd_size dd - offset else len)"
  have rs: "list_all record_ok ?rs" "dd_size dd = records_length ?rs" "?rs \<noteq> []" and nl: "\<not> dispatch_data_leaf dd"
    using ok by (simp_all add: composite_ok_def leaf_iff)
  obtain pre r post f where s: "?rs = pre @ r # post" "skip_records ?rs 0 offset = (length pre, f)"
      "offset = records_length pre + f" "f < rr_length r"
    using skip_records_spec [OF rs(1), of offset 0] pos(2) rs(2) by auto
  have ok_parts: "list_all record_ok pre" "record_ok r" "list_all record_ok post" using rs(1) s(1) by simp_all
  have n: "dispatch_data_num_records dd = Suc (length pre + length post)" "?rs ! length pre = r"
    using s(1) by (simp_all add: dispatch_data_num_records_def)
  have l: "0 < l" "offset + l \<le> dd_size dd" using pos by (auto simp: l_def)
  have bytes: "take len (drop offset (data_bytes dd)) = take l (drop f (record_bytes r) @ records_bytes post)"
  proof -
    have "drop offset (data_bytes dd) = drop f (record_bytes r) @ records_bytes post"
      using nl ok_parts s by (simp add: data_bytes_def)
    moreover have "length (drop offset (data_bytes dd)) = dd_size dd - offset"
      using length_data_bytes [of dd] ok by (simp add: data_ok_def)
    ultimately show ?thesis by (auto simp: l_def)
  qed
  have step: "dispatch_data_create_subrange dd offset len =
     (if f + l \<le> rr_length r then dispatch_data_create_subrange (rr_data_object r) (rr_from r + f) l
      else case subrange_records ?rs (length pre) f l (offset + l = dd_size dd) of
             None \<Rightarrow> None | Some records \<Rightarrow> Some (dispatch_data_composite l records))"
    by (subst dispatch_data_create_subrange.simps) (use pos whole nl s(2) n in \<open>auto simp: l_def Let_def split: option.split\<close>)
  show ?thesis
  proof (cases "f + l \<le> rr_length r")
    case True
    have "leaf_ok (rr_data_object r)" "rr_from r + f + l \<le> dd_size (rr_data_object r)"
      using True ok_parts(2) by (simp_all add: record_ok_def)
    from subrange_leaf [OF this l(1)] obtain d where
      "dispatch_data_create_subrange (rr_data_object r) (rr_from r + f) l = Some d" "data_ok d"
      "data_bytes d = take l (drop (rr_from r + f) (leaf_bytes (rr_data_object r)))" by blast
    moreover have "take l (drop f (record_bytes r) @ records_bytes post) = take l (drop f (record_bytes r))"
      using True ok_parts(2) by simp
    moreover have "take l (drop f (record_bytes r)) = take l (drop (rr_from r + f) (leaf_bytes (rr_data_object r)))"
      using range_of_record [OF ok_parts(2) True l(1)] by (simp add: record_bytes_def [of "Range _ _ _"])
    ultimately show ?thesis using True step bytes by simp
  next
    case False
    have e: "(offset + l = dd_size dd) = (l = rr_length r - f + records_length post)"
      using s rs(2) by auto
    have "rr_length r < f + l" "l \<le> rr_length r - f + records_length post"
      using False l(2) rs(2) s(1,3,4) by simp_all
    from subrange_records_spec [OF ok_parts(2,3) s(1,4) this]
    obtain records where "subrange_records ?rs (length pre) f l (offset + l = dd_size dd) = Some records"
        "list_all record_ok records" "records \<noteq> []" "records_length records = l"
        "records_bytes records = take l (drop f (record_bytes r) @ records_bytes post)"
      unfolding e by blast
    then show ?thesis using False step bytes composite_data_ok [of records l] by simp
  qed
qed

lemma subrange_spec:
  assumes "data_ok dd"
  shows "\<exists>d. dispatch_data_create_subrange dd offset len = Some d \<and> data_ok d
    \<and> data_bytes d = take len (drop offset (data_bytes dd))"
proof -
  consider "dd_size dd \<le> offset \<or> len = 0" | "offset < dd_size dd" "0 < len" "len = dd_size dd" "offset = 0"
    | "offset < dd_size dd" "0 < len" "\<not> (len = dd_size dd \<and> offset = 0)" "leaf_ok dd"
    | "offset < dd_size dd" "0 < len" "\<not> (len = dd_size dd \<and> offset = 0)" "composite_ok dd"
    using assms unfolding data_ok_def empty_ok_def by (metis gr0I le_eq_less_or_eq less_nat_zero_code not_le)
  then show ?thesis
  proof cases
    case 1
    then show ?thesis using length_data_bytes [OF assms]
      by (auto simp: dispatch_data_create_subrange.simps [of dd])
  next
    case 2
    then show ?thesis using length_data_bytes [OF assms] assms
      by (auto simp: dispatch_data_create_subrange.simps [of dd])
  next
    case 3
    define l where "l = min len (dd_size dd - offset)"
    let ?r = "Range dd offset l"
    have l: "0 < l" "offset + l \<le> dd_size dd" "take l (drop offset (leaf_bytes dd)) = take len (drop offset (data_bytes dd))"
      using 3 by (auto simp: l_def leaf_ok_def data_bytes_def min_def)
    have "dispatch_data_create_subrange dd offset len = Some (dispatch_data_composite l [?r])"
      using 3 by (auto simp: dispatch_data_create_subrange.simps [of dd] leaf_ok_def Let_def l_def min_def)
    moreover have "record_ok ?r" "record_bytes ?r = take l (drop offset (leaf_bytes dd))"
      using 3 l by (simp_all add: record_ok_def record_bytes_def)
    ultimately show ?thesis using composite_data_ok [of "[?r]" l] l(3) by simp
  next
    case 4
    then show ?thesis by (intro subrange_composite) auto
  qed
qed

section \<open>Traversal\<close>

text \<open>The regions of an object in the order the applier sees them: one if the bytes are
  contiguous, one for each record otherwise, each with its offset and its bytes.\<close>

fun record_regions :: "nat \<Rightarrow> range_record list \<Rightarrow> (dispatch_data \<times> nat \<times> u8 list) list" where
  "record_regions offset [] = []"
| "record_regions offset (r # rs) =
     (rr_data_object r, offset, record_bytes r) # record_regions (offset + rr_length r) rs"

definition contiguous :: "dispatch_data \<Rightarrow> bool" where
  "contiguous dd \<longleftrightarrow> fst (dispatch_data_map_direct dd 0) \<noteq> None"

definition data_regions :: "dispatch_data \<Rightarrow> (dispatch_data \<times> nat \<times> u8 list) list" where
  "data_regions dd =
     (if dd_size dd = 0 then []
      else if contiguous dd then [(dd, 0, data_bytes dd)]
      else record_regions 0 (dd_records dd))"

definition regions_bytes :: "(dispatch_data \<times> nat \<times> u8 list) list \<Rightarrow> u8 list" where
  "regions_bytes regions = concat (map (\<lambda>(region, offset, bytes). bytes) regions)"

lemma regions_bytes_simps [simp]:
  "regions_bytes [] = []" "regions_bytes ((region, offset, bytes) # rest) = bytes @ regions_bytes rest"
  by (simp_all add: regions_bytes_def)

fun apply_regions :: "'c applier \<Rightarrow> (dispatch_data \<times> nat \<times> u8 list) list \<Rightarrow> 'c \<Rightarrow> bool \<times> 'c" where
  "apply_regions applier [] ctxt = (True, ctxt)"
| "apply_regions applier ((region, offset, bytes) # rest) ctxt =
     (let (result, ctxt) = applier ctxt region offset bytes
      in if result then apply_regions applier rest ctxt else (False, ctxt))"

lemma map_direct_leaf:
  "leaf_ok dd \<Longrightarrow> dispatch_data_map_direct dd f = (Some (drop f (leaf_bytes dd)), dd, f)"
  by (simp add: dispatch_data_map_direct_def leaf_ok_def Let_def)

lemma map_direct_trivial:
  "dd_records dd = [r] \<Longrightarrow> leaf_ok (rr_data_object r) \<Longrightarrow> dispatch_data_map_direct dd f
    = (Some (drop (f + rr_from r) (leaf_bytes (rr_data_object r))), rr_data_object r, f + rr_from r)"
  by (simp add: dispatch_data_map_direct_def leaf_ok_def leaf_iff dispatch_data_num_records_def Let_def)

lemma map_direct_composite:
  "1 < length (dd_records dd) \<Longrightarrow> dispatch_data_map_direct dd f
    = (case dd_buf dd of None \<Rightarrow> None | Some b \<Rightarrow> Some (drop f b), dd, f)"
  by (auto simp: dispatch_data_map_direct_def dispatch_data_num_records_def Let_def)

lemma direct_cases:
  assumes "data_ok dd" "dd_size dd \<noteq> 0"
  obtains buffer where "contiguous dd" "fst (dispatch_data_map_direct dd 0) = Some buffer"
      "take (dd_size dd) buffer = data_bytes dd"
  | "\<not> contiguous dd" "composite_ok dd" "dd_buf dd = None" "1 < length (dd_records dd)"
      "dispatch_data_map_direct dd 0 = (None, dd, 0)"
proof -
  consider "leaf_ok dd" | r where "composite_ok dd" "dd_records dd = [r]"
    | "composite_ok dd" "1 < length (dd_records dd)"
  proof -
    have "dd_records dd = [] \<or> (\<exists>r. dd_records dd = [r]) \<or> 1 < length (dd_records dd)"
      by (cases "dd_records dd" rule: list.exhaust; cases "tl (dd_records dd)") auto
    then show thesis using assms that by (auto simp: data_ok_def empty_ok_def composite_ok_def leaf_iff)
  qed
  then show thesis
  proof cases
    case 1
    then have "data_bytes dd = leaf_bytes dd" "take (dd_size dd) (leaf_bytes dd) = leaf_bytes dd"
      by (simp_all add: data_bytes_def leaf_ok_def take_all)
    then show thesis using 1 by (intro that(1) [of "leaf_bytes dd"]) (simp_all add: contiguous_def map_direct_leaf)
  next
    case 2
    then have "record_ok r" "dd_size dd = rr_length r" "data_bytes dd = record_bytes r"
      by (simp_all add: composite_ok_def data_bytes_def leaf_iff)
    then show thesis using 2
      by (intro that(1)) (simp_all add: contiguous_def map_direct_trivial record_ok_def record_bytes_def)
  next
    case 3
    show thesis
    proof (cases "dd_buf dd")
      case None
      then show thesis using 3 by (intro that(2)) (simp_all add: contiguous_def map_direct_composite)
    next
      case (Some b)
      then have "b = data_bytes dd" "length b = dd_size dd"
        using 3 by (auto simp: composite_ok_def data_bytes_def)
      then show thesis using Some 3
        by (intro that(1) [of "data_bytes dd"]) (simp_all add: contiguous_def map_direct_composite)
    qed
  qed
qed

lemma record_apply_leaf:
  assumes "record_ok r"
  shows "record_apply applier r offset ctxt = applier ctxt (rr_data_object r) offset (record_bytes r)"
proof (cases r)
  case (Range dd f len)
  then have l: "leaf_ok dd" using assms by (simp add: record_ok_def)
  obtain buf ds q whole records where dd: "dd = Data buf ds q whole records" by (cases dd)
  show ?thesis using l Range map_direct_leaf [OF l, of 0]
    by (simp add: dd record_bytes_def)
qed

lemma records_apply_regions:
  "list_all record_ok rs \<Longrightarrow> records_apply applier rs offset ctxt = apply_regions applier (record_regions offset rs) ctxt"
  by (induction rs arbitrary: offset ctxt) (simp_all add: record_apply_leaf split: prod.split)

lemma dispatch_data_apply_regions:
  assumes "data_ok dd"
  shows "dispatch_data_apply dd applier ctxt = apply_regions applier (data_regions dd) ctxt"
proof (cases "dd_size dd = 0")
  case True
  then show ?thesis by (simp add: dispatch_data_apply_def data_regions_def)
next
  case False
  obtain buf ds q whole records where dd: "dd = Data buf ds q whole records" by (cases dd)
  show ?thesis
    using assms False
  proof (cases rule: direct_cases)
    case (1 buffer)
    then show ?thesis using False by (auto simp: dispatch_data_apply_def data_regions_def dd split: prod.split)
  next
    case 2
    then have "list_all record_ok (dd_records dd)" by (simp add: composite_ok_def)
    then show ?thesis using 2 False records_apply_regions [of "dd_records dd" applier 0]
      by (simp add: dispatch_data_apply_def data_regions_def dd)
  qed
qed

lemma record_regions_bytes: "regions_bytes (record_regions offset rs) = records_bytes rs"
  by (induction rs arbitrary: offset) simp_all

lemma data_regions_bytes:
  assumes "data_ok dd"
  shows "regions_bytes (data_regions dd) = data_bytes dd"
proof (cases "dd_size dd = 0")
  case True
  then show ?thesis using data_ok_size_0 [OF assms] by (simp add: data_regions_def)
next
  case False
  show ?thesis using assms False
  proof (cases rule: direct_cases)
    case (1 buffer)
    then show ?thesis using False by (simp add: data_regions_def)
  next
    case 2
    then show ?thesis using False by (simp add: data_regions_def record_regions_bytes data_bytes_def composite_ok_def)
  qed
qed

lemma record_regions_offsets:
  "list_all record_ok rs \<Longrightarrow> record_regions o' rs = pre @ (region, offset, bytes) # post
    \<Longrightarrow> offset = o' + length (regions_bytes pre)"
proof (induction rs arbitrary: o' pre)
  case (Cons r rs)
  show ?case
  proof (cases pre)
    case Nil
    then show ?thesis using Cons.prems by simp
  next
    case (Cons x pre')
    then have "x = (rr_data_object r, o', record_bytes r)"
      "record_regions (o' + rr_length r) rs = pre' @ (region, offset, bytes) # post"
      "list_all record_ok rs" "record_ok r" using Cons.prems by auto
    then show ?thesis using Cons.IH [of "o' + rr_length r" pre'] Cons by simp
  qed
qed simp

lemma data_regions_offsets:
  assumes "data_ok dd" "data_regions dd = pre @ (region, offset, bytes) # post"
  shows "offset = length (regions_bytes pre)"
proof -
  have "dd_size dd \<noteq> 0" using assms(2) by (cases "dd_size dd = 0") (simp_all add: data_regions_def)
  with assms(1) show ?thesis
  proof (cases rule: direct_cases)
    case (1 buffer)
    then show ?thesis using assms(2) \<open>dd_size dd \<noteq> 0\<close> by (cases pre) (auto simp: data_regions_def)
  next
    case 2
    then show ?thesis using record_regions_offsets [of "dd_records dd" 0] assms(2) \<open>dd_size dd \<noteq> 0\<close>
      by (simp add: data_regions_def composite_ok_def)
  qed
qed

section \<open>Contiguous copies\<close>

lemma flatten_regions:
  assumes "\<And>pre region offset bytes post. rest = pre @ (region, offset, bytes) # post
      \<Longrightarrow> offset = length front + length (regions_bytes pre)"
    and "length (front @ regions_bytes rest) = length (front @ old)"
  shows "apply_regions (\<lambda>buffer region off buf. (True, memcpy_at off buf buffer)) rest (front @ old)
    = (True, front @ regions_bytes rest)"
  using assms
proof (induction rest arbitrary: front old)
  case (Cons x rest)
  obtain region offset bytes where x: "x = (region, offset, bytes)" by (metis prod_cases3)
  have o: "offset = length front" using Cons.prems(1) [of "[]"] x by simp
  have m: "memcpy_at offset bytes (front @ old) = (front @ bytes) @ drop (length bytes) old"
    by (simp add: memcpy_at_def o)
  have "apply_regions (\<lambda>buffer region off buf. (True, memcpy_at off buf buffer)) rest ((front @ bytes) @ drop (length bytes) old)
    = (True, (front @ bytes) @ regions_bytes rest)"
  proof (rule Cons.IH)
    show "offset' = length (front @ bytes) + length (regions_bytes pre)"
      if "rest = pre @ (region', offset', bytes') # post" for pre region' offset' bytes' post
      using Cons.prems(1) [of "x # pre"] that x by simp
    show "length ((front @ bytes) @ regions_bytes rest) = length ((front @ bytes) @ drop (length bytes) old)"
      using Cons.prems(2) x by simp
  qed
  then show ?case by (simp add: x m)
qed simp

lemma flatten_spec:
  assumes "data_ok dd" "length memory = dd_size dd"
  shows "dispatch_data_flatten (Some memory) dd = Some (data_bytes dd)"
proof -
  let ?copy = "\<lambda>buffer region off buf. (True, memcpy_at off buf buffer)"
  have "apply_regions ?copy (data_regions dd) ([] @ memory) = (True, [] @ regions_bytes (data_regions dd))"
  proof (rule flatten_regions)
    show "offset = length ([] :: u8 list) + length (regions_bytes pre)"
      if "data_regions dd = pre @ (region, offset, bytes) # post" for pre region offset bytes post
      using data_regions_offsets [OF assms(1) that] by simp
    show "length ([] @ regions_bytes (data_regions dd)) = length ([] @ memory)"
      using data_regions_bytes [OF assms(1)] length_data_bytes [OF assms(1)] assms(2) by simp
  qed
  then show ?thesis
    by (simp add: dispatch_data_flatten_def dispatch_data_apply_regions [OF assms(1)] data_regions_bytes [OF assms(1)])
qed

section \<open>Regions\<close>

lemma search_region_spec:
  assumes "list_all record_ok rs" "o' \<le> location" "location < o' + records_length rs"
  shows "\<exists>pre r post. rs = pre @ r # post
    \<and> search_region rs 0 location o' = Some (r, 0, rr_length r, o' + records_length pre)
    \<and> o' + records_length pre \<le> location \<and> location < o' + records_length pre + rr_length r"
  using assms
proof (induction rs arbitrary: o')
  case (Cons r rs)
  then have r: "0 < rr_length r" by (simp add: record_ok_def)
  show ?case
  proof (cases "o' + rr_length r \<le> location")
    case True
    then obtain pre r' post where "rs = pre @ r' # post"
        "search_region rs 0 location (o' + rr_length r) = Some (r', 0, rr_length r', o' + rr_length r + records_length pre)"
        "o' + rr_length r + records_length pre \<le> location"
        "location < o' + rr_length r + records_length pre + rr_length r'"
      using Cons.IH [of "o' + rr_length r"] Cons.prems by auto
    then show ?thesis using True r
      by (intro exI [of _ "r # pre"] exI [of _ r'] exI [of _ post]) (simp add: add.assoc)
  next
    case False
    then show ?thesis using r Cons.prems by (intro exI [of _ "[]"] exI [of _ r] exI [of _ rs]) simp
  qed
qed simp

lemma copy_region_leaf:
  assumes "record_ok r"
  shows "copy_region (rr_data_object r) (rr_from r) (rr_length r) location off =
    Some (if rr_from r = 0 \<and> rr_length r = dd_size (rr_data_object r) then rr_data_object r
          else dispatch_data_composite (rr_length r) [r], off)"
  using assms map_direct_leaf [of "rr_data_object r" "rr_from r"]
  by (subst copy_region.simps) (simp add: record_ok_def)

lemma record_object_spec:
  assumes "record_ok r"
  defines "d \<equiv> (if rr_from r = 0 \<and> rr_length r = dd_size (rr_data_object r) then rr_data_object r
          else dispatch_data_composite (rr_length r) [r])"
  shows "data_ok d \<and> data_bytes d = record_bytes r \<and> dd_size d = rr_length r \<and> contiguous d"
proof -
  have l: "leaf_ok (rr_data_object r)" using assms(1) by (simp add: record_ok_def)
  show ?thesis
  proof (cases "rr_from r = 0 \<and> rr_length r = dd_size (rr_data_object r)")
    case True
    then show ?thesis using l
      by (simp add: d_def data_ok_def data_bytes_def record_bytes_def leaf_ok_def contiguous_def map_direct_leaf [OF l])
  next
    case False
    then have d: "d = dispatch_data_composite (rr_length r) [r]" unfolding d_def by (rule if_not_P)
    then have "dd_records d = [r]" by (simp add: dispatch_data_composite_def)
    then show ?thesis using composite_data_ok [of "[r]" "rr_length r"] assms(1) map_direct_trivial [of d r 0] l
      by (simp add: d contiguous_def) (simp add: dispatch_data_composite_def)
  qed
qed

lemma copy_region_spec:
  assumes "data_ok dd" "location < dd_size dd"
  shows "\<exists>d off. dispatch_data_copy_region dd location = Some (d, off) \<and> data_ok d \<and> contiguous d
    \<and> off \<le> location \<and> location < off + dd_size d
    \<and> data_bytes d = take (dd_size d) (drop off (data_bytes dd))"
proof -
  have c: "dispatch_data_copy_region dd location = copy_region dd 0 (dd_size dd) location 0"
    using assms(2) by (simp add: dispatch_data_copy_region_def)
  have nz: "dd_size dd \<noteq> 0" using assms(2) by simp
  from assms(1) nz show ?thesis
  proof (cases rule: direct_cases)
    case (1 buffer)
    then have "dispatch_data_copy_region dd location = Some (dd, 0)"
      unfolding c by (cases "dispatch_data_map_direct dd 0") (simp add: copy_region.simps [of dd])
    then show ?thesis using 1 assms length_data_bytes [OF assms(1)] by simp
  next
    case 2
    let ?rs = "dd_records dd"
    have rs: "list_all record_ok ?rs" "dd_size dd = records_length ?rs" "data_bytes dd = records_bytes ?rs"
      using 2 by (simp_all add: composite_ok_def data_bytes_def)
    obtain pre r post where s: "?rs = pre @ r # post"
        "search_region ?rs 0 location 0 = Some (r, 0, rr_length r, records_length pre)"
        "records_length pre \<le> location" "location < records_length pre + rr_length r"
      using search_region_spec [OF rs(1), of 0 location] assms(2) rs(2) by auto
    have r: "record_ok r" "list_all record_ok pre" using rs(1) s(1) by simp_all
    note d = record_object_spec [OF r(1)]
    have "dispatch_data_copy_region dd location =
        copy_region (rr_data_object r) (rr_from r) (rr_length r) (location - records_length pre) (records_length pre)"
      unfolding c using 2 s(2) by (simp add: copy_region.simps [of dd])
    moreover have "take (rr_length r) (drop (records_length pre) (data_bytes dd)) = record_bytes r"
      using s(1) r by (simp add: rs(3))
    ultimately show ?thesis using d s(3,4) unfolding copy_region_leaf [OF r(1)]
      by (intro exI conjI) auto
  qed
qed

section \<open>The interface of byte containers\<close>

text \<open>What clients rely on: an abstract sequence of bytes with concatenation and total
  subranges.\<close>

locale byte_container =
  fixes ok :: "'d \<Rightarrow> bool" and bytes :: "'d \<Rightarrow> u8 list" and cat :: "'d \<Rightarrow> 'd \<Rightarrow> 'd"
    and sub :: "'d \<Rightarrow> nat \<Rightarrow> nat \<Rightarrow> 'd option"
  assumes cat_ok: "ok x \<Longrightarrow> ok y \<Longrightarrow> ok (cat x y)"
    and cat_bytes: "ok x \<Longrightarrow> ok y \<Longrightarrow> bytes (cat x y) = bytes x @ bytes y"
    and sub_total: "ok x \<Longrightarrow> \<exists>y. sub x i n = Some y \<and> ok y \<and> bytes y = take n (drop i (bytes x))"
begin

text \<open>Cutting a container in two and joining the parts gives the bytes back.\<close>

lemma cut_and_join:
  assumes "ok x"
  obtains a b where "sub x 0 n = Some a" "sub x n (length (bytes x)) = Some b" "ok (cat a b)" "bytes (cat a b) = bytes x"
proof -
  obtain a where a: "sub x 0 n = Some a" "ok a" "bytes a = take n (bytes x)" using sub_total [OF assms, of 0 n] by auto
  obtain b where b: "sub x n (length (bytes x)) = Some b" "ok b" "bytes b = drop n (bytes x)"
    using sub_total [OF assms, of n "length (bytes x)"] by auto
  show thesis using a b by (intro that [of a b]) (simp_all add: cat_ok cat_bytes)
qed

text \<open>Appending the parts one after the other, as the transforms build their output.\<close>

lemma append_all:
  assumes "ok x" "list_all ok ys"
  shows "ok (foldl cat x ys) \<and> bytes (foldl cat x ys) = bytes x @ concat (map bytes ys)"
  using assms by (induction ys arbitrary: x) (simp_all add: cat_ok cat_bytes)

end

interpretation data_object: byte_container data_ok data_bytes dispatch_data_create_concat dispatch_data_create_subrange
  by unfold_locales (simp_all add: concat_spec subrange_spec)

section \<open>Properties\<close>

text \<open>C7. The constructors of data objects keep the invariants of data.c and build the bytes they
  promise: \<open>dispatch_data_create\<close> the bytes of its buffer, \<open>dispatch_data_create_concat\<close> the bytes of
  both objects, \<open>dispatch_data_create_subrange\<close> the bytes of the range clipped to the object,
  without a crash, for every offset and length, and \<open>dispatch_data_create_map\<close> a contiguous object
  with the same bytes, in the caller's buffer or in newly allocated memory of any content.\<close>

theorem dispatch_data_constructors:
  assumes "data_ok dd1" "data_ok dd2" "length memory = dd_size dd1" "sz \<le> length b"
  shows "data_ok (fst (dispatch_data_create (Some b) sz q ds))
    \<and> data_bytes (fst (dispatch_data_create (Some b) sz q ds)) = take sz b
    \<and> data_ok (dispatch_data_create_concat dd1 dd2)
    \<and> data_bytes (dispatch_data_create_concat dd1 dd2) = data_bytes dd1 @ data_bytes dd2
    \<and> (\<exists>d. dispatch_data_create_subrange dd1 offset len = Some d \<and> data_ok d
          \<and> data_bytes d = take len (drop offset (data_bytes dd1)))
    \<and> (\<exists>d. fst (dispatch_data_create_map (Some memory) dd1) = Some d \<and> data_ok d \<and> data_bytes d = data_bytes dd1
          \<and> (dd_size dd1 \<noteq> 0 \<longrightarrow> contiguous d))"
proof -
  have "\<exists>d. fst (dispatch_data_create_map (Some memory) dd1) = Some d \<and> data_ok d \<and> data_bytes d = data_bytes dd1
          \<and> (dd_size dd1 \<noteq> 0 \<longrightarrow> contiguous d)"
  proof (cases "dd_size dd1 = 0")
    case True
    then show ?thesis using data_ok_size_0 [OF assms(1)] by (simp add: dispatch_data_create_map_def)
  next
    case False
    show ?thesis using assms(1) False
    proof (cases rule: direct_cases)
      case (1 buffer)
      then show ?thesis using False assms(1) by (simp add: dispatch_data_create_map_def)
    next
      case 2
      let ?d = "fst (dispatch_data_create (Some (data_bytes dd1)) (dd_size dd1) None DESTRUCTOR_FREE)"
      have "fst (dispatch_data_create_map (Some memory) dd1) = Some ?d"
        using 2 False flatten_spec [OF assms(1,3)] by (simp add: dispatch_data_create_map_def)
      moreover have "contiguous ?d"
        using False by (simp add: dispatch_data_create_def contiguous_def dispatch_data_map_direct_def Let_def
            dispatch_data_leaf_def)
      ultimately show ?thesis
        using create_spec [of "dd_size dd1" "data_bytes dd1" None DESTRUCTOR_FREE] length_data_bytes [OF assms(1)]
        by simp
    qed
  qed
  then show ?thesis
    using create_spec [OF assms(4), of q ds] concat_spec [OF assms(1,2)] subrange_spec [OF assms(1), of offset len]
    by blast
qed

theorem dispatch_data_constructors_witness:
  "let a = fst (dispatch_data_create (Some [1, 2, 3]) 3 None DESTRUCTOR_DEFAULT);
       b = fst (dispatch_data_create (Some [4, 5]) 2 None DESTRUCTOR_DEFAULT)
   in \<exists>d. dispatch_data_create_subrange (dispatch_data_create_concat a b) 2 2 = Some d \<and> data_ok d
        \<and> data_bytes d = [3, 4]"
proof -
  define a where "a = fst (dispatch_data_create (Some [1, 2, 3]) 3 None DESTRUCTOR_DEFAULT)"
  define b where "b = fst (dispatch_data_create (Some [4, 5]) 2 None DESTRUCTOR_DEFAULT)"
  let ?e = dispatch_data_empty
  have e: "length [] = dd_size ?e" by (simp add: dispatch_data_empty_def)
  have a: "data_ok a" "data_bytes a = [1, 2, 3]"
    using dispatch_data_constructors [OF empty_ok_empty(1) empty_ok_empty(1) e, of 3 "[1, 2, 3]"] by (simp_all add: a_def)
  have b: "data_ok b" "data_bytes b = [4, 5]"
    using dispatch_data_constructors [OF empty_ok_empty(1) empty_ok_empty(1) e, of 2 "[4, 5]"] by (simp_all add: b_def)
  let ?c = "dispatch_data_create_concat a b"
  have l: "length (replicate (dd_size a) 0) = dd_size a" "0 \<le> length ([] :: u8 list)" by simp_all
  have "data_ok ?c" "data_bytes ?c = [1, 2, 3, 4, 5]"
    using dispatch_data_constructors [OF a(1) b(1) l] a b by simp_all
  then show ?thesis
    using dispatch_data_constructors [OF \<open>data_ok ?c\<close> b(1), of "replicate (dd_size ?c) 0" 0 "[]" None DESTRUCTOR_NONE 2 2]
    by (simp add: a_def [symmetric] b_def [symmetric])
qed

text \<open>C37. \<open>dispatch_data_apply\<close> calls the applier on the regions of the object one after the other
  until it returns false, each region at the offset where the previous one ended, and the regions
  together are the bytes of the object. The contiguous copy that
  \<open>dispatch_data_get_flattened_bytes_4libxpc\<close> makes with it is exact and is cached in the object
  without changing its meaning.\<close>

theorem dispatch_data_traversal:
  assumes "data_ok dd" "length memory = dd_size dd"
  shows "dispatch_data_apply dd applier ctxt = apply_regions applier (data_regions dd) ctxt
    \<and> regions_bytes (data_regions dd) = data_bytes dd
    \<and> (data_regions dd = pre @ (region, offset, bytes) # post \<longrightarrow> offset = length (regions_bytes pre))
    \<and> (dd_size dd \<noteq> 0 \<longrightarrow> (\<exists>buffer dd'. dispatch_data_get_flattened_bytes (Some memory) dd = (Some buffer, dd')
          \<and> take (dd_size dd) buffer = data_bytes dd \<and> data_ok dd' \<and> data_bytes dd' = data_bytes dd \<and> contiguous dd'))"
proof -
  have "\<exists>buffer dd'. dispatch_data_get_flattened_bytes (Some memory) dd = (Some buffer, dd')
          \<and> take (dd_size dd) buffer = data_bytes dd \<and> data_ok dd' \<and> data_bytes dd' = data_bytes dd \<and> contiguous dd'"
    if nz: "dd_size dd \<noteq> 0"
  using assms(1) nz
  proof (cases rule: direct_cases)
    case (1 buffer)
    then show ?thesis using nz assms(1)
      by (cases "dispatch_data_map_direct dd 0") (simp add: dispatch_data_get_flattened_bytes_def)
  next
    case 2
    let ?dd' = "Data (Some (data_bytes dd)) (dd_destructor dd) (dd_targetq dd) (dd_size dd) (dd_records dd)"
    have "dispatch_data_get_flattened_bytes (Some memory) dd = (Some (data_bytes dd), ?dd')"
      using 2 nz flatten_spec [OF assms] by (simp add: dispatch_data_get_flattened_bytes_def)
    moreover have "data_ok ?dd' \<and> data_bytes ?dd' = data_bytes dd"
      using 2 by (simp add: data_ok_def composite_ok_def data_bytes_def leaf_iff)
    moreover have "contiguous ?dd'" using 2 by (simp add: contiguous_def map_direct_composite)
    ultimately show ?thesis using length_data_bytes [OF assms(1)] by simp
  qed
  then show ?thesis
    using dispatch_data_apply_regions [OF assms(1), of applier ctxt] data_regions_bytes [OF assms(1)]
      data_regions_offsets [OF assms(1), of pre region offset bytes post] by simp
qed

theorem dispatch_data_traversal_witness:
  "regions_bytes (data_regions (Data (Some [7]) DESTRUCTOR_FREE None 1 [])) = [7]"
proof -
  let ?d = "Data (Some [7]) DESTRUCTOR_FREE None 1 []"
  have "data_ok ?d" "length [0 :: u8] = dd_size ?d"
    by (simp_all add: data_ok_def leaf_ok_def leaf_iff leaf_bytes_def)
  from dispatch_data_traversal [OF this, THEN conjunct2, THEN conjunct1]
  show ?thesis by (simp add: data_bytes_def leaf_iff leaf_bytes_def)
qed

text \<open>\<open>dispatch_data_copy_region\<close> never crashes on an object that keeps the invariants: it
  returns a contiguous object around the location, with its offset, that holds the bytes of the
  object there, and the empty object at the end when the location is behind it.\<close>

theorem dispatch_data_copy_region_total:
  assumes "data_ok dd"
  shows "(location < dd_size dd \<longrightarrow> (\<exists>d off. dispatch_data_copy_region dd location = Some (d, off) \<and> data_ok d
      \<and> contiguous d \<and> off \<le> location \<and> location < off + dd_size d
      \<and> data_bytes d = take (dd_size d) (drop off (data_bytes dd))))
    \<and> (dd_size dd \<le> location \<longrightarrow> dispatch_data_copy_region dd location = Some (dispatch_data_empty, dd_size dd))"
  using copy_region_spec [OF assms] by (simp add: dispatch_data_copy_region_def)

theorem dispatch_data_copy_region_total_witness:
  "\<exists>d off. dispatch_data_copy_region (Data (Some [7, 8]) DESTRUCTOR_FREE None 2 []) 1 = Some (d, off) \<and> off \<le> 1"
proof -
  let ?d = "Data (Some [7, 8]) DESTRUCTOR_FREE None 2 []"
  have "data_ok ?d" by (simp add: data_ok_def leaf_ok_def leaf_iff leaf_bytes_def)
  from dispatch_data_copy_region_total [OF this, of 1] show ?thesis by auto
qed

end
