(* ===== verification/Transform.thy ===== *)
theory Transform
  imports DispatchData
begin

text \<open>
  Transforms of data objects: src/transform.c of libdispatch, on a little endian host.

  The appliers of \<open>dispatch_data_apply\<close> are functions of the variables they capture. The memory
  that \<open>malloc\<close> returns for a size is a parameter, \<open>None\<close> when there is none. A null data object is
  the result \<open>None\<close>. The output buffer is a list of bytes with the position of the next write.
\<close>

section \<open>Tables\<close>

definition ascii :: "string \<Rightarrow> u8 list" where
  "ascii s = map (\<lambda>c. word_of_nat (of_char c)) s"

definition base32_encode_table :: "u8 list" where
  "base32_encode_table = ascii ''ABCDEFGHIJKLMNOPQRSTUVWXYZ234567''"

definition base32hex_encode_table :: "u8 list" where
  "base32hex_encode_table = ascii ''0123456789ABCDEFGHIJKLMNOPQRSTUV''"

definition base64_encode_table :: "u8 list" where
  "base64_encode_table = ascii ''ABCDEFGHIJKLMNOPQRSTUVWXYZabcdefghijklmnopqrstuvwxyz0123456789+/''"

definition base32_decode_table :: "int list" where
  "base32_decode_table = [
    -1, -1, -1, -1, -1, -1, -1, -1, -1, -1, -1, -1, -1, -1, -1, -1, -1,
    -1, -1, -1, -1, -1, -1, -1, -1, -1, -1, -1, -1, -1, -1, -1, -1, -1,
    -1, -1, -1, -1, -1, -1, -1, -1, -1, -1, -1, -1, -1, -1, -1, -1, 26,
    27, 28, 29, 30, 31, -1, -1, -1, -1, -1, -2, -1, -1, -1, 0, 1, 2,
    3, 4, 5, 6, 7, 8, 9, 10, 11, 12, 13, 14, 15, 16, 17, 18, 19,
    20, 21, 22, 23, 24, 25]"

definition base32hex_decode_table :: "int list" where
  "base32hex_decode_table = [
    -1, -1, -1, -1, -1, -1, -1, -1, -1, -1, -1, -1, -1, -1, -1, -1, -1,
    -1, -1, -1, -1, -1, -1, -1, -1, -1, -1, -1, -1, -1, -1, -1, -1, -1,
    -1, -1, -1, -1, -1, -1, -1, -1, -1, -1, -1, -1, -1, -1, 0, 1, 2,
    3, 4, 5, 6, 7, 8, 9, -1, -1, -1, -2, -1, -1, -1, 10, 11, 12,
    13, 14, 15, 16, 17, 18, 19, 20, 21, 22, 23, 24, 25, 26, 27, 28, 29,
    30, 31]"

definition base64_decode_table :: "int list" where
  "base64_decode_table = [
    -1, -1, -1, -1, -1, -1, -1, -1, -1, -1, -1, -1, -1, -1, -1, -1, -1,
    -1, -1, -1, -1, -1, -1, -1, -1, -1, -1, -1, -1, -1, -1, -1, -1, -1,
    -1, -1, -1, -1, -1, -1, -1, -1, -1, 62, -1, -1, -1, 63, 52, 53, 54,
    55, 56, 57, 58, 59, 60, 61, -1, -1, -1, -2, -1, -1, -1, 0, 1, 2,
    3, 4, 5, 6, 7, 8, 9, 10, 11, 12, 13, 14, 15, 16, 17, 18, 19,
    20, 21, 22, 23, 24, 25, -1, -1, -1, -1, -1, -1, 26, 27, 28, 29, 30,
    31, 32, 33, 34, 35, 36, 37, 38, 39, 40, 41, 42, 43, 44, 45, 46, 47,
    48, 49, 50, 51]"

text \<open>The sizes as the code computes them. A string constant has a final zero byte.\<close>

definition base32_decode_table_size :: int where
  "base32_decode_table_size = int (length base32_decode_table)"

definition base32hex_decode_table_size :: int where
  "base32hex_decode_table_size = int (length base32hex_encode_table + 1)"

definition base64_decode_table_size :: int where
  "base64_decode_table_size = int (length base64_decode_table)"

section \<open>Helpers\<close>

type_synonym allocator = "nat \<Rightarrow> u8 list option"

definition howmany :: "nat \<Rightarrow> nat \<Rightarrow> nat" where
  "howmany x y = (x + (y - 1)) div y"

text \<open>The bytes at the mapped pointer, \<open>None\<close> for a null object.\<close>

definition dispatch_data_subrange_map :: "allocator \<Rightarrow> dispatch_data \<Rightarrow> nat \<Rightarrow> nat \<Rightarrow> u8 list option" where
  "dispatch_data_subrange_map alloc data offset sz =
     (case dispatch_data_create_subrange data offset sz of
        None \<Rightarrow> None
      | Some subrange \<Rightarrow>
          if dd_size subrange = sz
          then (case dispatch_data_create_map (alloc (dd_size subrange)) subrange of
                  (Some mapped, p, _) \<Rightarrow> p
                | (None, _, _) \<Rightarrow> None)
          else None)"

text \<open>\<open>*ptr++ = v\<close>, for each of the bytes.\<close>

fun put_bytes :: "u8 list \<Rightarrow> u8 list \<times> nat \<Rightarrow> u8 list \<times> nat" where
  "put_bytes [] (dest, ptr) = (dest, ptr)"
| "put_bytes (v # vs) (dest, ptr) = put_bytes vs (dest[ptr := v], ptr + 1)"

section \<open>Base 32 and base 64 encoding\<close>

text \<open>The characters written for byte number \<open>n\<close> of a group, given the byte before, and for the
  rest of the last group.\<close>

definition base64_chars :: "nat \<Rightarrow> u8 \<Rightarrow> u8 \<Rightarrow> u8 list" where
  "base64_chars n prev this_byte =
     (if n = 0 then [base64_encode_table ! unat (drop_bit 2 this_byte AND 0x3f)]
      else if n = 1 then [base64_encode_table ! unat ((push_bit 4 prev OR drop_bit 4 this_byte) AND 0x3f)]
      else [base64_encode_table ! unat ((push_bit 2 prev OR drop_bit 6 this_byte) AND 0x3f),
            base64_encode_table ! unat (this_byte AND 0x3f)])"

definition base64_padding :: "nat \<Rightarrow> u8 \<Rightarrow> u8 list" where
  "base64_padding n prev =
     (if n = 0 then []
      else if n = 1 then base64_encode_table ! unat (push_bit 4 prev AND 0x30) # ascii ''==''
      else base64_encode_table ! unat (push_bit 2 prev AND 0x3c) # ascii ''='')"

definition base32_chars :: "u8 list \<Rightarrow> nat \<Rightarrow> u8 \<Rightarrow> u8 \<Rightarrow> u8 list" where
  "base32_chars table n prev this_byte =
     (if n = 0 then [table ! unat (drop_bit 3 this_byte AND 0x1f)]
      else if n = 1 then [table ! unat ((push_bit 2 prev OR drop_bit 6 this_byte) AND 0x1f),
                          table ! unat (drop_bit 1 this_byte AND 0x1f)]
      else if n = 2 then [table ! unat ((push_bit 4 prev OR drop_bit 4 this_byte) AND 0x1f)]
      else if n = 3 then [table ! unat ((push_bit 1 prev OR drop_bit 7 this_byte) AND 0x1f),
                          table ! unat (drop_bit 2 this_byte AND 0x1f)]
      else [table ! unat ((push_bit 3 prev OR drop_bit 5 this_byte) AND 0x1f),
            table ! unat (this_byte AND 0x1f)])"

definition base32_padding :: "u8 list \<Rightarrow> nat \<Rightarrow> u8 \<Rightarrow> u8 list" where
  "base32_padding table n prev =
     (if n = 0 then []
      else if n = 1 then table ! unat (push_bit 2 prev AND 0x1c) # ascii ''======''
      else if n = 2 then table ! unat (push_bit 4 prev AND 0x10) # ascii ''====''
      else if n = 3 then table ! unat (push_bit 1 prev AND 0x1e) # ascii ''===''
      else table ! unat (push_bit 3 prev AND 0x18) # ascii ''='')"

text \<open>The loop over the bytes of a region, for groups of \<open>g\<close> bytes: the state is the count of
  bytes, the output and its position. The byte before the first of a region is looked up in the
  data object.\<close>

function encode_loop :: "allocator \<Rightarrow> dispatch_data \<Rightarrow> nat \<Rightarrow> (nat \<Rightarrow> u8 \<Rightarrow> u8 \<Rightarrow> u8 list) \<Rightarrow> nat \<Rightarrow> u8 list
    \<Rightarrow> nat \<Rightarrow> nat \<times> u8 list \<times> nat \<Rightarrow> (nat \<times> u8 list \<times> nat) option" where
  "encode_loop alloc data g chars offset bytes i (cnt, out) =
     (if i < length bytes
      then (case (if cnt mod g \<noteq> 0
                  then if i = 0 then map_option (\<lambda>p. p ! 0) (dispatch_data_subrange_map alloc data (offset - 1) 1)
                       else Some (bytes ! (i - 1))
                  else Some 0) of
              None \<Rightarrow> None
            | Some prev \<Rightarrow>
                encode_loop alloc data g chars offset bytes (i + 1)
                  (cnt + 1, put_bytes (chars (cnt mod g) prev (bytes ! i)) out))
      else Some (cnt, out))"
  by pat_completeness auto
termination by (relation "measure (\<lambda>(_, _, _, _, _, bytes, i, _). length bytes - i)") auto

declare encode_loop.simps [simp del]

definition encode_region :: "allocator \<Rightarrow> dispatch_data \<Rightarrow> nat \<Rightarrow> (nat \<Rightarrow> u8 \<Rightarrow> u8 \<Rightarrow> u8 list) \<Rightarrow> (nat \<Rightarrow> u8 \<Rightarrow> u8 list)
    \<Rightarrow> (nat \<times> u8 list \<times> nat) applier" where
  "encode_region alloc data g chars padding st region offset bytes =
     (case encode_loop alloc data g chars offset bytes 0 st of
        None \<Rightarrow> (False, st)
      | Some (cnt, out) \<Rightarrow>
          (True, cnt,
            if offset + length bytes = dd_size data
            then put_bytes (padding (cnt mod g) (bytes ! (length bytes - 1))) out
            else out))"

definition SIZE_MAX :: int where
  "SIZE_MAX = 2 ^ 64 - 1"

text \<open>Groups of \<open>g\<close> bytes become groups of \<open>k\<close> characters.\<close>

definition dispatch_transform_encode :: "allocator \<Rightarrow> nat \<Rightarrow> nat \<Rightarrow> (nat \<Rightarrow> u8 \<Rightarrow> u8 \<Rightarrow> u8 list)
    \<Rightarrow> (nat \<Rightarrow> u8 \<Rightarrow> u8 list) \<Rightarrow> dispatch_data \<Rightarrow> dispatch_data option" where
  "dispatch_transform_encode alloc g k chars padding data =
     (let dest_size = howmany (dd_size data) g
      in if SIZE_MAX div int k < int dest_size then None
         else
           (let dest_size = dest_size * k
            in case alloc dest_size of
                 None \<Rightarrow> None
               | Some dest \<Rightarrow>
                   (case dispatch_data_apply data (encode_region alloc data g chars padding) (0, dest, 0) of
                      (True, _, dest, _) \<Rightarrow> Some (fst (dispatch_data_create (Some dest) dest_size None DESTRUCTOR_FREE))
                    | (False, _) \<Rightarrow> None)))"

definition dispatch_transform_to_base32_with_table :: "allocator \<Rightarrow> dispatch_data \<Rightarrow> u8 list \<Rightarrow> dispatch_data option" where
  "dispatch_transform_to_base32_with_table alloc data table =
     dispatch_transform_encode alloc 5 8 (base32_chars table) (base32_padding table) data"

definition dispatch_transform_to_base64 :: "allocator \<Rightarrow> dispatch_data \<Rightarrow> dispatch_data option" where
  "dispatch_transform_to_base64 alloc data = dispatch_transform_encode alloc 3 4 base64_chars base64_padding data"

definition dispatch_transform_to_base32 :: "allocator \<Rightarrow> dispatch_data \<Rightarrow> dispatch_data option" where
  "dispatch_transform_to_base32 alloc data = dispatch_transform_to_base32_with_table alloc data base32_encode_table"

definition dispatch_transform_to_base32hex :: "allocator \<Rightarrow> dispatch_data \<Rightarrow> dispatch_data option" where
  "dispatch_transform_to_base32hex alloc data =
     dispatch_transform_to_base32_with_table alloc data base32hex_encode_table"

section \<open>Base 32 and base 64 decoding\<close>

text \<open>The captured variables \<open>x\<close>, \<open>count\<close> and \<open>pad\<close>.\<close>

record decoder =
  dc_x :: u64
  dc_count :: u64
  dc_pad :: u64

text \<open>The \<open>n\<close> bytes of a complete group, from the lowest bits of \<open>x\<close>.\<close>

fun group_bytes :: "nat \<Rightarrow> u64 \<Rightarrow> u8 list" where
  "group_bytes 0 x = []"
| "group_bytes (Suc n) x = ucast (drop_bit (8 * n) x AND 0xff) # group_bytes n x"

text \<open>The loop over the bytes of a region, for characters of \<open>b\<close> bits in groups of \<open>k\<close>
  characters and \<open>g\<close> bytes; \<open>None\<close> for a character that is not in the table.\<close>

fun decode_loop :: "int list \<Rightarrow> int \<Rightarrow> nat \<Rightarrow> nat \<Rightarrow> nat \<Rightarrow> u8 list \<Rightarrow> decoder \<times> u8 list \<times> nat
    \<Rightarrow> (decoder \<times> u8 list \<times> nat) option" where
  "decode_loop table table_size b k g [] st = Some st"
| "decode_loop table table_size b k g (c # bytes) (dc, out) =
     (if c = 10 \<or> c = 9 \<or> c = 32 then decode_loop table table_size b k g bytes (dc, out)
      else if table_size \<le> uint c \<or> table ! unat c = -1 then None
      else
        (let v = table ! unat c;
             dc = dc\<lparr>dc_count := dc_count dc + 1\<rparr>;
             (v, dc) = (if v = -2 then (0, dc\<lparr>dc_pad := dc_pad dc + 1\<rparr>) else (v, dc));
             dc = dc\<lparr>dc_x := push_bit b (dc_x dc) + word_of_int v\<rparr>;
             out = (if dc_count dc AND (word_of_nat k - 1) = 0 then put_bytes (group_bytes g (dc_x dc)) out else out)
         in decode_loop table table_size b k g bytes (dc, out)))"

text \<open>The number of bytes dropped for the padding characters.\<close>

definition base32_dropped :: "u64 \<Rightarrow> u64" where
  "base32_dropped pad = (if pad = 1 then 1 else if pad = 3 then 2 else if pad = 4 then 3 else if pad = 6 then 4 else 0)"

definition base64_dropped :: "u64 \<Rightarrow> u64" where
  "base64_dropped pad = (if 0 < pad then pad else 0)"

definition decode_region :: "allocator \<Rightarrow> int list \<Rightarrow> int \<Rightarrow> nat \<Rightarrow> nat \<Rightarrow> nat \<Rightarrow> (u64 \<Rightarrow> u64)
    \<Rightarrow> (decoder \<times> dispatch_data) applier" where
  "decode_region alloc table table_size b k g dropped st region offset bytes =
     (let (dc, rv) = st; dest_size = howmany (length bytes) k * g
      in case alloc dest_size of
           None \<Rightarrow> (False, st)
         | Some dest \<Rightarrow>
             (case decode_loop table table_size b k g bytes (dc, dest, 0) of
                None \<Rightarrow> (False, st)
              | Some (dc, dest, ptr) \<Rightarrow>
                  (let final = word_of_nat ptr - dropped (dc_pad dc) :: u64;
                       val = fst (dispatch_data_create (Some dest) (unat final) None DESTRUCTOR_FREE)
                   in (True, dc, dispatch_data_create_concat rv val))))"

definition dispatch_transform_decode :: "allocator \<Rightarrow> int list \<Rightarrow> int \<Rightarrow> nat \<Rightarrow> nat \<Rightarrow> nat \<Rightarrow> (u64 \<Rightarrow> u64)
    \<Rightarrow> dispatch_data \<Rightarrow> dispatch_data option" where
  "dispatch_transform_decode alloc table table_size b k g dropped data =
     (case dispatch_data_apply data (decode_region alloc table table_size b k g dropped)
             (\<lparr>dc_x = 0, dc_count = 0, dc_pad = 0\<rparr>, dispatch_data_empty) of
        (True, _, rv) \<Rightarrow> Some rv
      | (False, _) \<Rightarrow> None)"

definition dispatch_transform_from_base32_with_table ::
  "allocator \<Rightarrow> dispatch_data \<Rightarrow> int list \<Rightarrow> int \<Rightarrow> dispatch_data option" where
  "dispatch_transform_from_base32_with_table alloc data table table_size =
     dispatch_transform_decode alloc table table_size 5 8 5 base32_dropped data"

definition dispatch_transform_from_base64 :: "allocator \<Rightarrow> dispatch_data \<Rightarrow> dispatch_data option" where
  "dispatch_transform_from_base64 alloc data =
     dispatch_transform_decode alloc base64_decode_table base64_decode_table_size 6 4 3 base64_dropped data"

definition dispatch_transform_from_base32 :: "allocator \<Rightarrow> dispatch_data \<Rightarrow> dispatch_data option" where
  "dispatch_transform_from_base32 alloc data =
     dispatch_transform_from_base32_with_table alloc data base32_decode_table base32_decode_table_size"

definition dispatch_transform_from_base32hex :: "allocator \<Rightarrow> dispatch_data \<Rightarrow> dispatch_data option" where
  "dispatch_transform_from_base32hex alloc data =
     dispatch_transform_from_base32_with_table alloc data base32hex_decode_table base32hex_decode_table_size"

section \<open>Encoding, for every division into regions\<close>

text \<open>The contract of \<open>malloc\<close> when memory is available: a block of the size asked for, with any
  content.\<close>

definition alloc_ok :: "allocator \<Rightarrow> bool" where
  "alloc_ok alloc \<longleftrightarrow> (\<forall>n. \<exists>m. alloc n = Some m \<and> length m = n)"

lemma subrange_map_spec:
  assumes "data_ok data" "alloc_ok alloc" "offset + sz \<le> dd_size data" "0 < sz"
  shows "\<exists>p. dispatch_data_subrange_map alloc data offset sz = Some p
    \<and> take sz p = take sz (drop offset (data_bytes data))"
proof -
  obtain d where d: "dispatch_data_create_subrange data offset sz = Some d" "data_ok d"
      "data_bytes d = take sz (drop offset (data_bytes data))"
    using data_object.sub_total [OF assms(1)] by blast
  have sz: "dd_size d = sz"
    using length_data_bytes [OF d(2)] length_data_bytes [OF assms(1)] d(3) assms(3) by simp
  obtain m where m: "alloc sz = Some m" "length m = sz" using assms(2) by (auto simp: alloc_ok_def)
  have nz: "dd_size d \<noteq> 0" using assms(4) sz by simp
  from d(2) nz show ?thesis
  proof (cases rule: direct_cases)
    case (1 buffer)
    then show ?thesis using d sz nz m by (simp add: dispatch_data_subrange_map_def dispatch_data_create_map_def)
  next
    case 2
    then show ?thesis using d sz nz m flatten_spec [OF d(2), of m]
      by (simp add: dispatch_data_subrange_map_def dispatch_data_create_map_def)
  qed
qed

text \<open>An output of \<open>L\<close> bytes that starts with \<open>w\<close>, to be continued behind it.\<close>

definition written :: "u8 list \<Rightarrow> nat \<Rightarrow> u8 list \<times> nat \<Rightarrow> bool" where
  "written w L out \<longleftrightarrow> (\<exists>rest. out = (w @ rest, length w) \<and> length (w @ rest) = L)"

lemma put_bytes_written: "written w L out \<Longrightarrow> length w + length vs \<le> L \<Longrightarrow> written (w @ vs) L (put_bytes vs out)"
proof (induction vs arbitrary: w out)
  case Nil
  then show ?case by (cases out) simp
next
  case (Cons v vs)
  then obtain rest where o: "out = (w @ rest, length w)" "length (w @ rest) = L" by (auto simp: written_def)
  then obtain r rest' where "rest = r # rest'" using Cons.prems(2) by (cases rest) auto
  then have "written (w @ [v]) L ((w @ rest)[length w := v], length w + 1)"
    using o by (auto simp: written_def list_update_append)
  from Cons.IH [OF this] show ?case using Cons.prems(2) o(1) by simp
qed

lemma written_all: "written w L out \<Longrightarrow> length w = L \<Longrightarrow> fst out = w"
  by (auto simp: written_def)

text \<open>The characters of the bytes without the rest of the last group.\<close>

definition encoded :: "nat \<Rightarrow> (nat \<Rightarrow> u8 \<Rightarrow> u8 \<Rightarrow> u8 list) \<Rightarrow> u8 list \<Rightarrow> u8 list" where
  "encoded g chars bs =
     concat (map (\<lambda>i. chars (i mod g) (if i mod g = 0 then 0 else bs ! (i - 1)) (bs ! i)) [0..<length bs])"

lemma encoded_Nil [simp]: "encoded g chars [] = []"
  by (simp add: encoded_def)

lemma encoded_snoc:
  "encoded g chars (bs @ [c]) =
    encoded g chars bs @ chars (length bs mod g) (if length bs mod g = 0 then 0 else bs ! (length bs - 1)) c"
proof -
  define f where "f xs i = chars (i mod g) (if i mod g = 0 then 0 else xs ! (i - 1)) (xs ! i)" for xs i
  have m: "map (f (bs @ [c])) [0..<length bs] = map (f bs) [0..<length bs]"
    by (rule map_cong) (auto simp: f_def nth_append)
  have "length bs mod g \<noteq> 0 \<Longrightarrow> length bs - 1 < length bs" by (cases "length bs") auto
  then have l: "f (bs @ [c]) (length bs) =
      chars (length bs mod g) (if length bs mod g = 0 then 0 else bs ! (length bs - 1)) c"
    by (auto simp: f_def nth_append)
  have e: "encoded g chars xs = concat (map (f xs) [0..<length xs])" for xs
    by (simp add: encoded_def f_def [abs_def])
  have "encoded g chars (bs @ [c]) = concat (map (f (bs @ [c])) [0..<length bs]) @ f (bs @ [c]) (length bs)"
    by (simp add: e)
  then show ?thesis unfolding m l e [symmetric] .
qed

lemma encoded_prefix: "\<exists>zs. encoded g chars (bs @ cs) = encoded g chars bs @ zs"
proof (induction cs rule: rev_induct)
  case (snoc c cs)
  then show ?case using encoded_snoc [of g chars "bs @ cs" c] by auto
qed simp

lemma encoded_length_mono: "length (encoded g chars bs) \<le> length (encoded g chars (bs @ cs))"
  using encoded_prefix [of g chars bs cs] by auto

lemma encode_loop_spec:
  assumes "data_ok data" "alloc_ok alloc" "data_bytes data = pre @ bytes @ post" "i \<le> length bytes"
    "written (encoded g chars (pre @ take i bytes)) L out" "length (encoded g chars (pre @ bytes)) \<le> L"
  shows "\<exists>out'. encode_loop alloc data g chars (length pre) bytes i (length pre + i, out) = Some (length (pre @ bytes), out')
    \<and> written (encoded g chars (pre @ bytes)) L out'"
  using assms(4,5)
proof (induction "length bytes - i" arbitrary: i out)
  case 0
  then show ?case by (simp add: encode_loop.simps)
next
  case (Suc k)
  then have i: "i < length bytes" by simp
  let ?done = "pre @ take i bytes"
  let ?prev = "if length ?done mod g = 0 then 0 else ?done ! (length ?done - 1)"
  have len: "length ?done = length pre + i" using i by simp
  have nxt: "pre @ take (i + 1) bytes = ?done @ [bytes ! i]" using i by (simp add: take_Suc_conv_app_nth)
  have prev: "(if (length pre + i) mod g \<noteq> 0
      then if i = 0 then map_option (\<lambda>p. p ! 0) (dispatch_data_subrange_map alloc data (length pre - 1) 1)
           else Some (bytes ! (i - 1))
      else Some 0) = Some ?prev"
  proof (cases "(length pre + i) mod g \<noteq> 0 \<and> i = 0")
    case True
    then have p: "pre \<noteq> []" by auto
    have "length pre - 1 + 1 \<le> dd_size data"
      using length_data_bytes [OF assms(1)] assms(3) p by (cases pre) auto
    then obtain q where q: "dispatch_data_subrange_map alloc data (length pre - 1) 1 = Some q"
        "take 1 q = take 1 (drop (length pre - 1) (data_bytes data))"
      using subrange_map_spec [OF assms(1,2), of "length pre - 1" 1] by auto
    have "take 1 (drop (length pre - 1) (data_bytes data)) = [last pre]"
      using p assms(3) by (cases pre rule: rev_cases) auto
    then have "q ! 0 = last pre" using q(2) by (cases q) auto
    then show ?thesis using True p q by (simp add: last_conv_nth)
  next
    case False
    then show ?thesis using len by (auto simp: nth_append min_def)
  qed
  have w: "written (encoded g chars (pre @ take (i + 1) bytes)) L
      (put_bytes (chars ((length pre + i) mod g) ?prev (bytes ! i)) out)"
  proof -
    have e: "encoded g chars (pre @ take (i + 1) bytes) =
        encoded g chars ?done @ chars ((length pre + i) mod g) ?prev (bytes ! i)"
      unfolding nxt encoded_snoc len ..
    have "length (encoded g chars (pre @ take (i + 1) bytes)) \<le> L"
      using encoded_length_mono [of g chars "pre @ take (i + 1) bytes" "drop (i + 1) bytes"] assms(6) by simp
    then show ?thesis unfolding e using Suc.prems(2) by (intro put_bytes_written) simp_all
  qed
  have "\<exists>out'. encode_loop alloc data g chars (length pre) bytes (i + 1) (length pre + (i + 1),
      put_bytes (chars ((length pre + i) mod g) ?prev (bytes ! i)) out) = Some (length (pre @ bytes), out')
    \<and> written (encoded g chars (pre @ bytes)) L out'"
    using Suc.hyps(2) i w by (intro Suc.hyps(1)) auto
  then show ?case unfolding encode_loop.simps [of _ _ _ _ _ _ i] prev using i by simp
qed

lemma record_regions_nonempty:
  "list_all record_ok rs \<Longrightarrow> (region, offset, bytes) \<in> set (record_regions o' rs) \<Longrightarrow> bytes \<noteq> []"
proof (induction rs arbitrary: o')
  case (Cons r rs)
  have "record_bytes r \<noteq> []"
  proof
    assume "record_bytes r = []"
    then show False using Cons.prems(1) length_record_bytes [of r] by (simp add: record_ok_def)
  qed
  then show ?case using Cons by auto
qed simp

lemma data_regions_nonempty:
  assumes "data_ok dd" "(region, offset, bytes) \<in> set (data_regions dd)"
  shows "bytes \<noteq> []"
proof -
  have nz: "dd_size dd \<noteq> 0" using assms(2) by (cases "dd_size dd = 0") (simp_all add: data_regions_def)
  with assms(1) show ?thesis
  proof (cases rule: direct_cases)
    case (1 buffer)
    then show ?thesis using assms(2) nz length_data_bytes [OF assms(1)] by (auto simp: data_regions_def)
  next
    case 2
    then show ?thesis using assms(2) nz record_regions_nonempty [of "dd_records dd"]
      by (auto simp: data_regions_def composite_ok_def)
  qed
qed

lemma regions_bytes_append [simp]: "regions_bytes (xs @ ys) = regions_bytes xs @ regions_bytes ys"
  by (simp add: regions_bytes_def)

text \<open>What the encoder needs of a code: the characters of the bytes and the rest of the last group
  fill the groups exactly.\<close>

definition encoding :: "nat \<Rightarrow> (nat \<Rightarrow> u8 \<Rightarrow> u8 \<Rightarrow> u8 list) \<Rightarrow> (nat \<Rightarrow> u8 \<Rightarrow> u8 list) \<Rightarrow> u8 list \<Rightarrow> u8 list" where
  "encoding g chars padding bs = encoded g chars bs @ padding (length bs mod g) (bs ! (length bs - 1))"

locale group_code =
  fixes g k :: nat and chars :: "nat \<Rightarrow> u8 \<Rightarrow> u8 \<Rightarrow> u8 list" and padding :: "nat \<Rightarrow> u8 \<Rightarrow> u8 list"
  assumes fill: "length (encoding g chars padding bs) = howmany (length bs) g * k"
begin

lemma encode_regions:
  assumes ok: "data_ok data" "alloc_ok alloc" and L: "L = howmany (dd_size data) g * k"
    and split: "data_regions data = front @ rest" "rest \<noteq> []"
    and out: "written (encoded g chars (regions_bytes front)) L out"
  shows "\<exists>out'. apply_regions (encode_region alloc data g chars padding) rest (length (regions_bytes front), out)
      = (True, length (data_bytes data), out') \<and> written (encoding g chars padding (data_bytes data)) L out'"
  using split out
proof (induction rest arbitrary: front out)
  case (Cons x rest)
  obtain region offset bytes where x: "x = (region, offset, bytes)" by (metis prod_cases3)
  let ?pre = "regions_bytes front"
  have o: "offset = length ?pre" using data_regions_offsets [OF ok(1)] Cons.prems(1) x by blast
  have all: "data_bytes data = ?pre @ bytes @ regions_bytes rest"
    using data_regions_bytes [OF ok(1)] Cons.prems(1) x by simp
  have ne: "bytes \<noteq> []" by (rule data_regions_nonempty [OF ok(1)]) (use Cons.prems(1) x in auto)
  have fits: "length (encoding g chars padding (data_bytes data)) = L"
    using fill length_data_bytes [OF ok(1)] L by simp
  have "length (encoded g chars (?pre @ bytes)) \<le> L"
    using encoded_length_mono [of g chars "?pre @ bytes" "regions_bytes rest"] fits all by (simp add: encoding_def)
  then obtain out' where loop: "encode_loop alloc data g chars (length ?pre) bytes 0 (length ?pre, out)
        = Some (length (?pre @ bytes), out')" "written (encoded g chars (?pre @ bytes)) L out'"
    using encode_loop_spec [OF ok all, of 0 g chars L out] Cons.prems(3) by auto
  show ?case
  proof (cases rest)
    case Nil
    let ?pad = "padding (length (data_bytes data) mod g) (data_bytes data ! (length (data_bytes data) - 1))"
    have b: "data_bytes data = ?pre @ bytes" using all Nil by simp
    have l: "bytes ! (length bytes - 1) = data_bytes data ! (length (data_bytes data) - 1)"
      using ne by (cases bytes rule: rev_cases) (simp_all add: b nth_append)
    have e: "encoding g chars padding (data_bytes data) = encoded g chars (?pre @ bytes) @ ?pad"
      unfolding encoding_def b ..
    have "encode_region alloc data g chars padding (length ?pre, out) region offset bytes =
        (True, length (data_bytes data), put_bytes ?pad out')"
      using loop(1) length_data_bytes [OF ok(1)] l by (simp add: encode_region_def o b)
    moreover have "written (encoding g chars padding (data_bytes data)) L (put_bytes ?pad out')"
      unfolding e by (rule put_bytes_written [OF loop(2)]) (use fits in \<open>simp add: e\<close>)
    ultimately show ?thesis by (simp add: x Nil)
  next
    case (Cons y rest')
    have "regions_bytes rest \<noteq> []"
    proof -
      obtain ry oy bs where y: "y = (ry, oy, bs)" by (metis prod_cases3)
      have "bs \<noteq> []" by (rule data_regions_nonempty [OF ok(1)]) (use Cons.prems(1) Cons y in auto)
      then show ?thesis using Cons y by simp
    qed
    then have "0 < length (regions_bytes rest)" by simp
    moreover have "dd_size data = offset + length bytes + length (regions_bytes rest)"
      using length_data_bytes [OF ok(1)] o all by simp
    ultimately have "offset + length bytes \<noteq> dd_size data" by linarith
    then have s: "encode_region alloc data g chars padding (length ?pre, out) region offset bytes =
        (True, length (regions_bytes (front @ [x])), out')"
      using loop(1) by (simp add: encode_region_def o x)
    have "\<exists>out''. apply_regions (encode_region alloc data g chars padding) rest (length (regions_bytes (front @ [x])), out')
        = (True, length (data_bytes data), out'') \<and> written (encoding g chars padding (data_bytes data)) L out''"
      by (rule Cons.IH) (use Cons.prems(1) Cons loop(2) x in simp_all)
    then show ?thesis using s by (simp add: x)
  qed
qed simp

lemma encode_spec:
  assumes "data_ok data" "alloc_ok alloc" "dd_size data \<noteq> 0" "int (howmany (dd_size data) g) \<le> SIZE_MAX div int k"
  shows "\<exists>d. dispatch_transform_encode alloc g k chars padding data = Some d \<and> data_ok d \<and> (dd_size d \<noteq> 0 \<longrightarrow> contiguous d)
    \<and> data_bytes d = encoding g chars padding (data_bytes data)"
proof -
  let ?L = "howmany (dd_size data) g * k" and ?e = "encoding g chars padding (data_bytes data)"
  obtain dest where dest: "alloc ?L = Some dest" "length dest = ?L" using assms(2) by (auto simp: alloc_ok_def)
  have "data_regions data \<noteq> []"
    using data_regions_bytes [OF assms(1)] length_data_bytes [OF assms(1)] assms(3) by auto
  then obtain out where r: "apply_regions (encode_region alloc data g chars padding) (data_regions data) (0, dest, 0)
      = (True, length (data_bytes data), out)" "written ?e ?L out"
    using encode_regions [OF assms(1,2) refl, of "[]" "data_regions data" "(dest, 0)"] dest
    by (auto simp: written_def)
  have l: "length ?e = ?L" using fill length_data_bytes [OF assms(1)] by simp
  obtain ptr where out: "out = (?e, ptr)" using written_all [OF r(2) l] by (cases out) simp
  let ?d = "fst (dispatch_data_create (Some ?e) ?L None DESTRUCTOR_FREE)"
  have "dispatch_transform_encode alloc g k chars padding data = Some ?d"
    using assms(4) dest r(1) out
    by (simp add: dispatch_transform_encode_def dispatch_data_apply_regions [OF assms(1)] not_less)
  moreover have "contiguous ?d" if "?L \<noteq> 0"
    using that by (simp add: contiguous_def dispatch_data_create_def dispatch_data_map_direct_def
        dispatch_data_leaf_def Let_def)
  moreover have "dd_size ?d = ?L" by (simp add: dispatch_data_create_def dispatch_data_empty_def)
  ultimately show ?thesis using create_spec [of ?L ?e None DESTRUCTOR_FREE] l by simp
qed

end

section \<open>Characters as bits\<close>

text \<open>The \<open>n\<close> lowest bits of a value, the highest first.\<close>

definition bits_of :: "nat \<Rightarrow> 'a::semiring_bits \<Rightarrow> bool list" where
  "bits_of n v = map (bit v) (rev [0..<n])"

lemma bits_of_Suc: "bits_of (Suc n) v = bit v n # bits_of n v"
  by (simp add: bits_of_def)

lemma bits_of_0 [simp]: "bits_of 0 v = []"
  by (simp add: bits_of_def)

lemma length_bits_of [simp]: "length (bits_of n v) = n"
  by (simp add: bits_of_def)

lemma bits_of_zero: "bits_of n 0 = replicate n False"
  by (induction n) (simp_all add: bits_of_Suc)

lemma bits_of_unat [simp]: "bits_of n (unat w) = bits_of n w"
  by (simp add: bits_of_def bit_unsigned_iff cong: map_cong)

definition bytes_bits :: "u8 list \<Rightarrow> bool list" where
  "bytes_bits bs = concat (map (bits_of 8) bs)"

definition values_bits :: "nat \<Rightarrow> nat list \<Rightarrow> bool list" where
  "values_bits b vs = concat (map (bits_of b) vs)"

lemma bytes_bits_simps [simp]: "bytes_bits [] = []" "bytes_bits (x # xs) = bits_of 8 x @ bytes_bits xs"
    "bytes_bits (xs @ ys) = bytes_bits xs @ bytes_bits ys"
  by (simp_all add: bytes_bits_def)

lemma values_bits_simps [simp]: "values_bits b [] = []" "values_bits b (x # xs) = bits_of b x @ values_bits b xs"
    "values_bits b (xs @ ys) = values_bits b xs @ values_bits b ys"
  by (simp_all add: values_bits_def)

lemma bits_of_inject: "bits_of 8 x = bits_of 8 y \<longleftrightarrow> x = y" for x y :: u8
proof
  assume "bits_of 8 x = bits_of 8 y"
  then have "map (bit x) (rev [0..<8]) = map (bit y) (rev [0..<8])" by (simp add: bits_of_def)
  then have "\<forall>n < 8. bit x n = bit y n" by (simp add: map_eq_conv)
  then show "x = y" by (intro bit_word_eqI) simp
qed simp

lemma eval_bits: "bits_of 8 x = [bit x 7, bit x 6, bit x 5, bit x 4, bit x 3, bit x 2, bit x 1, bit x 0]"
  "bits_of 6 x = [bit x 5, bit x 4, bit x 3, bit x 2, bit x 1, bit x 0]"
  "bits_of 5 x = [bit x 4, bit x 3, bit x 2, bit x 1, bit x 0]"
  by (simp_all add: bits_of_def numeral_eq_Suc)

lemma no_bit_u8: "8 \<le> n \<Longrightarrow> \<not> bit (x :: u8) n"
  by (auto dest: bit_imp_le_length)

section \<open>Codes by groups\<close>

text \<open>The characters of a code stand for \<open>b\<close> bits each: \<open>k\<close> characters for \<open>g\<close> bytes. \<open>vals\<close> are the
  numbers of the characters of one group, of the bytes up to its end.\<close>

function all_values :: "nat \<Rightarrow> (u8 list \<Rightarrow> nat list) \<Rightarrow> u8 list \<Rightarrow> nat list" where
  "all_values g vals bs =
     (if length bs \<le> g \<or> g = 0 then vals bs else vals (take g bs) @ all_values g vals (drop g bs))"
  by pat_completeness auto
termination by (relation "measure (\<lambda>(g, vals, bs). length bs)") auto

declare all_values.simps [simp del]

lemma nth_last_append: "ys \<noteq> [] \<Longrightarrow> (xs @ ys) ! (length (xs @ ys) - 1) = ys ! (length ys - 1)"
  by (metis append_is_Nil_conv last_appendR last_conv_nth)

lemma encoded_group:
  assumes "length grp = g" "0 < g"
  shows "encoded g chars (grp @ rest) = encoded g chars grp @ encoded g chars rest"
proof (induction rest rule: rev_induct)
  case (snoc c rest)
  have "length rest mod g \<noteq> 0 \<Longrightarrow> rest \<noteq> []" by auto
  then have "(if length (grp @ rest) mod g = 0 then 0 else (grp @ rest) ! (length (grp @ rest) - 1))
      = (if length rest mod g = 0 then 0 else rest ! (length rest - 1))"
    using nth_last_append [of rest grp] assms(1) by simp
  then show ?case
    using snoc encoded_snoc [of g chars "grp @ rest" c] encoded_snoc [of g chars rest c] assms(1) by simp
qed simp

lemma encoding_group:
  assumes "length grp = g" "0 < g" "rest \<noteq> []"
  shows "encoding g chars padding (grp @ rest) = encoded g chars grp @ encoding g chars padding rest"
  using nth_last_append [OF assms(3), of grp] encoded_group [OF assms(1,2)] assms(1) by (simp add: encoding_def)

lemma howmany_add: "0 < g \<Longrightarrow> howmany (g + n) g = howmany n g + 1"
proof -
  assume g: "0 < g"
  then have "g + n + (g - 1) = (n + (g - 1)) + g" by simp
  then show ?thesis using g by (simp only: howmany_def div_add_self2)
qed

lemma group_induct [consumes 1, case_names small group]:
  assumes "0 < g"
    and "\<And>bs. length bs \<le> g \<Longrightarrow> P bs"
    and "\<And>grp rest. length grp = g \<Longrightarrow> rest \<noteq> [] \<Longrightarrow> P rest \<Longrightarrow> P (grp @ rest)"
  shows "P bs"
proof (induction bs rule: measure_induct_rule [of length])
  case (less bs)
  show ?case
  proof (cases "length bs \<le> g")
    case False
    then show ?thesis using less [of "drop g bs"] assms(1) assms(3) [of "take g bs" "drop g bs"] by simp
  qed (rule assms(2))
qed

text \<open>The number of padding characters that complete the last group.\<close>

definition pads :: "nat \<Rightarrow> nat \<Rightarrow> (u8 list \<Rightarrow> nat list) \<Rightarrow> u8 list \<Rightarrow> nat" where
  "pads g k vals bs = howmany (length bs) g * k - length (all_values g vals bs)"

locale base_code =
  fixes g k b :: nat and table :: "u8 list" and chars :: "nat \<Rightarrow> u8 \<Rightarrow> u8 \<Rightarrow> u8 list"
    and padding :: "nat \<Rightarrow> u8 \<Rightarrow> u8 list" and vals :: "u8 list \<Rightarrow> nat list"
  assumes dims: "0 < g" "b * k = 8 * g" "0 < b"
    and vals_Nil: "vals [] = []"
    and padding_0: "padding 0 x = []"
    and group_chars: "bs \<noteq> [] \<Longrightarrow> length bs \<le> g \<Longrightarrow> encoding g chars padding bs =
      map ((!) table) (vals bs) @ replicate (k - length (vals bs)) 61"
    and vals_bits: "length bs \<le> g \<Longrightarrow> values_bits b (vals bs) =
      bytes_bits bs @ replicate (b * length (vals bs) - 8 * length bs) False"
    and vals_length: "length bs \<le> g \<Longrightarrow> b * length (vals bs) < 8 * length bs + b"
      "length bs \<le> g \<Longrightarrow> 8 * length bs \<le> b * length (vals bs)"
    and vals_range: "length bs \<le> g \<Longrightarrow> v \<in> set (vals bs) \<Longrightarrow> v < 2 ^ b"
begin

lemma vals_le: "length bs \<le> g \<Longrightarrow> length (vals bs) \<le> k"
proof -
  assume l: "length bs \<le> g"
  have "b * length (vals bs) < b * (k + 1)" using vals_length(1) [OF l] l dims(2) by simp
  then have "length (vals bs) < k + 1" by (simp only: mult_less_cancel1)
  then show "length (vals bs) \<le> k" by simp
qed

lemma vals_full: "length bs = g \<Longrightarrow> length (vals bs) = k"
proof -
  assume l: "length bs = g"
  have "b * k \<le> b * length (vals bs)" using vals_length(2) [of bs] l dims(2) by simp
  then show ?thesis using vals_le [of bs] l dims(3) by simp
qed

lemma group_full: "length grp = g \<Longrightarrow> encoded g chars grp = map ((!) table) (vals grp)"
  using group_chars [of grp] vals_full [of grp] dims(1) padding_0 by (cases grp) (auto simp: encoding_def)

lemma all_values_small: "length bs \<le> g \<Longrightarrow> all_values g vals bs = vals bs"
  by (simp add: all_values.simps)

lemma all_values_group: "length grp = g \<Longrightarrow> rest \<noteq> [] \<Longrightarrow> all_values g vals (grp @ rest) = vals grp @ all_values g vals rest"
  using dims(1) by (simp add: all_values.simps [of g vals "grp @ rest"])

lemma howmany_small: "bs \<noteq> [] \<Longrightarrow> length bs \<le> g \<Longrightarrow> howmany (length bs) g = 1"
  by (cases "length bs") (auto simp: howmany_def intro!: div_nat_eqI)

lemma all_values_length: "length (all_values g vals bs) \<le> howmany (length bs) g * k"
  using dims(1)
proof (induction bs rule: group_induct)
  case (small bs)
  then show ?case using vals_le [of bs] vals_Nil howmany_small [of bs]
    by (cases "bs = []") (simp_all add: all_values_small)
next
  case (group grp rest)
  then show ?case using vals_full [of grp] howmany_add [OF dims(1), of "length rest"]
    by (simp add: all_values_group)
qed

lemma pads_group: "length grp = g \<Longrightarrow> rest \<noteq> [] \<Longrightarrow> pads g k vals (grp @ rest) = pads g k vals rest"
  using vals_full [of grp] howmany_add [OF dims(1), of "length rest"] by (simp add: pads_def all_values_group)

lemma encoding_values: "encoding g chars padding bs = map ((!) table) (all_values g vals bs) @ replicate (pads g k vals bs) 61"
  using dims(1)
proof (induction bs rule: group_induct)
  case (small bs)
  show ?case
  proof (cases "bs = []")
    case True
    then show ?thesis by (simp add: encoding_def padding_0 pads_def all_values_small vals_Nil howmany_def dims)
  next
    case False
    then show ?thesis using small group_chars [of bs] howmany_small [of bs] by (simp add: pads_def all_values_small)
  qed
next
  case (group grp rest)
  then show ?case using encoding_group [OF group(1) dims(1) group(2)] group_full [OF group(1)]
    by (simp add: all_values_group pads_group)
qed

lemma all_values_bits:
  "\<exists>z < b. values_bits b (all_values g vals bs) = bytes_bits bs @ replicate z False"
  using dims(1)
proof (induction bs rule: group_induct)
  case (small bs)
  then show ?case using vals_bits [of bs] vals_length [of bs] dims(3)
    by (intro exI [of _ "b * length (vals bs) - 8 * length bs"]) (auto simp: all_values_small)
next
  case (group grp rest)
  then show ?case using vals_bits [of grp] vals_full [of grp] dims(2) by (auto simp: all_values_group)
qed

lemma all_values_range: "v \<in> set (all_values g vals bs) \<Longrightarrow> v < 2 ^ b"
  using dims(1)
proof (induction bs rule: group_induct)
  case (small bs)
  then show ?case using vals_range by (simp add: all_values_small)
next
  case (group grp rest)
  then show ?case using vals_range by (auto simp: all_values_group)
qed

end

sublocale base_code \<subseteq> group_code g k chars padding
proof
  show "length (encoding g chars padding bs) = howmany (length bs) g * k" for bs
    using all_values_length [of bs] by (simp add: encoding_values pads_def)
qed

section \<open>Base 64 and base 32 as codes\<close>

definition base64_values :: "u8 list \<Rightarrow> nat list" where
  "base64_values bs = (case bs of
     [a] \<Rightarrow> [unat (drop_bit 2 a AND 0x3f), unat (push_bit 4 a AND 0x30)]
   | [a, b] \<Rightarrow> [unat (drop_bit 2 a AND 0x3f), unat ((push_bit 4 a OR drop_bit 4 b) AND 0x3f),
                unat (push_bit 2 b AND 0x3c)]
   | [a, b, c] \<Rightarrow> [unat (drop_bit 2 a AND 0x3f), unat ((push_bit 4 a OR drop_bit 4 b) AND 0x3f),
                   unat ((push_bit 2 b OR drop_bit 6 c) AND 0x3f), unat (c AND 0x3f)]
   | _ \<Rightarrow> [])"

definition base32_values :: "u8 list \<Rightarrow> nat list" where
  "base32_values bs = (case bs of
     [a] \<Rightarrow> [unat (drop_bit 3 a AND 0x1f), unat (push_bit 2 a AND 0x1c)]
   | [a, b] \<Rightarrow> [unat (drop_bit 3 a AND 0x1f), unat ((push_bit 2 a OR drop_bit 6 b) AND 0x1f),
                unat (drop_bit 1 b AND 0x1f), unat (push_bit 4 b AND 0x10)]
   | [a, b, c] \<Rightarrow> [unat (drop_bit 3 a AND 0x1f), unat ((push_bit 2 a OR drop_bit 6 b) AND 0x1f),
                unat (drop_bit 1 b AND 0x1f), unat ((push_bit 4 b OR drop_bit 4 c) AND 0x1f),
                unat (push_bit 1 c AND 0x1e)]
   | [a, b, c, d] \<Rightarrow> [unat (drop_bit 3 a AND 0x1f), unat ((push_bit 2 a OR drop_bit 6 b) AND 0x1f),
                unat (drop_bit 1 b AND 0x1f), unat ((push_bit 4 b OR drop_bit 4 c) AND 0x1f),
                unat ((push_bit 1 c OR drop_bit 7 d) AND 0x1f), unat (drop_bit 2 d AND 0x1f),
                unat (push_bit 3 d AND 0x18)]
   | [a, b, c, d, e] \<Rightarrow> [unat (drop_bit 3 a AND 0x1f), unat ((push_bit 2 a OR drop_bit 6 b) AND 0x1f),
                unat (drop_bit 1 b AND 0x1f), unat ((push_bit 4 b OR drop_bit 4 c) AND 0x1f),
                unat ((push_bit 1 c OR drop_bit 7 d) AND 0x1f), unat (drop_bit 2 d AND 0x1f),
                unat ((push_bit 3 d OR drop_bit 5 e) AND 0x1f), unat (e AND 0x1f)]
   | _ \<Rightarrow> [])"

lemma cases_upto_5:
  "length bs \<le> 5 \<Longrightarrow> bs = [] \<or> (\<exists>a. bs = [a]) \<or> (\<exists>a b. bs = [a, b]) \<or> (\<exists>a b c. bs = [a, b, c])
    \<or> (\<exists>a b c d. bs = [a, b, c, d]) \<or> (\<exists>a b c d e. bs = [a, b, c, d, e])"
  by (auto simp: numeral_eq_Suc le_Suc_eq length_Suc_conv)

lemma cases_upto_3:
  "length bs \<le> 3 \<Longrightarrow> bs = [] \<or> (\<exists>a. bs = [a]) \<or> (\<exists>a b. bs = [a, b]) \<or> (\<exists>a b c. bs = [a, b, c])"
  by (auto simp: numeral_eq_Suc le_Suc_eq length_Suc_conv)

lemma unat_and_less: "unat m < n \<Longrightarrow> unat (x AND m) < n" for x m :: u8
  using word_and_le1 [of x m] by (simp add: word_le_nat_alt)

lemma replicate_numeral: "replicate (numeral n) x = x # replicate (pred_numeral n) x"
  by (simp add: numeral_eq_Suc)

lemma ascii_pad: "ascii ''='' = [61]" "ascii ''=='' = [61, 61]" "ascii ''==='' = [61, 61, 61]"
  "ascii ''===='' = [61, 61, 61, 61]" "ascii ''======'' = [61, 61, 61, 61, 61, 61]"
  by (simp_all add: ascii_def)

lemma not_dvd_small: "\<not> 3 dvd Suc (Suc 0)" "\<not> 5 dvd Suc (Suc (Suc (Suc 0)))"
  by (auto dest!: dvd_imp_le)

interpretation base64_code: base_code 3 4 6 base64_encode_table base64_chars base64_padding base64_values
proof
  fix bs :: "u8 list"
  assume "bs \<noteq> []" "length bs \<le> 3"
  then show "encoding 3 base64_chars base64_padding bs =
      map ((!) base64_encode_table) (base64_values bs) @ replicate (4 - length (base64_values bs)) 61"
    using cases_upto_3 [of bs]
    by (auto simp: encoding_def encoded_def base64_chars_def base64_padding_def base64_values_def ascii_pad
        replicate_numeral not_dvd_small)
next
  fix bs :: "u8 list"
  assume "length bs \<le> 3"
  then show "values_bits 6 (base64_values bs) =
      bytes_bits bs @ replicate (6 * length (base64_values bs) - 8 * length bs) False"
    using cases_upto_3 [of bs]
    by (auto simp: base64_values_def eval_bits bit_simps no_bit_u8 replicate_numeral)
next
  fix bs :: "u8 list"
  assume "length bs \<le> 3"
  then show "6 * length (base64_values bs) < 8 * length bs + 6" "8 * length bs \<le> 6 * length (base64_values bs)"
    using cases_upto_3 [of bs] by (auto simp: base64_values_def)
next
  show "v < 2 ^ 6" if "length bs \<le> 3" "v \<in> set (base64_values bs)" for v bs
    using cases_upto_3 [OF that(1)] that(2) by (auto simp: base64_values_def unat_and_less)
qed (simp_all add: base64_values_def base64_padding_def)

interpretation base32_code: base_code 5 8 5 table "base32_chars table" "base32_padding table" base32_values
  for table
proof
  fix bs :: "u8 list"
  assume "bs \<noteq> []" "length bs \<le> 5"
  then show "encoding 5 (base32_chars table) (base32_padding table) bs =
      map ((!) table) (base32_values bs) @ replicate (8 - length (base32_values bs)) 61"
    using cases_upto_5 [of bs]
    by (auto simp: encoding_def encoded_def base32_chars_def base32_padding_def base32_values_def ascii_pad
        replicate_numeral not_dvd_small)
next
  fix bs :: "u8 list"
  assume "length bs \<le> 5"
  then show "values_bits 5 (base32_values bs) =
      bytes_bits bs @ replicate (5 * length (base32_values bs) - 8 * length bs) False"
    using cases_upto_5 [of bs]
    by (auto simp: base32_values_def eval_bits bit_simps no_bit_u8 replicate_numeral numeral_2_eq_2 [symmetric]
        simp del: push_bit_Suc drop_bit_Suc)
next
  fix bs :: "u8 list"
  assume "length bs \<le> 5"
  then show "5 * length (base32_values bs) < 8 * length bs + 5" "8 * length bs \<le> 5 * length (base32_values bs)"
    using cases_upto_5 [of bs] by (auto simp: base32_values_def)
next
  show "v < 2 ^ 5" if "length bs \<le> 5" "v \<in> set (base32_values bs)" for v bs
    using cases_upto_5 [OF that(1)] that(2) by (auto simp: base32_values_def unat_and_less)
qed (simp_all add: base32_values_def base32_padding_def)

section \<open>Decoding\<close>

lemma bits_of_append:
  assumes "b + n \<le> 64" "v < 2 ^ b"
  shows "bits_of (n + b) (push_bit b x + word_of_nat v :: u64) = bits_of n x @ bits_of b v"
proof -
  have v: "\<not> bit v i" if "b \<le> i" for i
    using assms(2) that by (metis bit_take_bit_iff less_le_not_le take_bit_nat_eq_self)
  have "push_bit b x AND word_of_nat v = 0"
    by (rule bit_word_eqI) (auto simp: bit_simps v)
  then have "push_bit b x + word_of_nat v = push_bit b x OR word_of_nat v" by (rule disjunctive_add_eq_or)
  then have bit: "bit (push_bit b x + word_of_nat v) i = (if i < b then bit v i else bit x (i - b))" if "i < 64" for i
    using that v by (auto simp: bit_simps)
  have "bits_of (n + b) (push_bit b x + word_of_nat v) ! i = (bits_of n x @ bits_of b v) ! i" if "i < n + b" for i
    using that assms(1) by (auto simp: bits_of_def nth_append rev_nth bit add.commute [of n b])
  then show ?thesis by (intro nth_equalityI) simp_all
qed

lemma group_bytes_bits:
  assumes "bits_of (8 * length bs) x = bytes_bits bs"
  shows "group_bytes (length bs) x = bs"
  using assms
proof (induction bs)
  case (Cons c bs)
  have s: "bits_of (8 + m) x = bits_of 8 (drop_bit m x) @ bits_of m x" for m
    by (rule nth_equalityI) (auto simp: bits_of_def nth_append rev_nth bit_drop_bit_eq add.commute)
  have "bits_of 8 (drop_bit (8 * length bs) x) @ bits_of (8 * length bs) x = bits_of 8 c @ bytes_bits bs"
    using Cons.prems s [of "8 * length bs"] by simp
  then have p: "bits_of 8 (drop_bit (8 * length bs) x) = bits_of 8 c" "bits_of (8 * length bs) x = bytes_bits bs"
    by (simp_all add: append_eq_append_conv)
  have "bits_of 8 (ucast (drop_bit (8 * length bs) x AND 0xff) :: u8) = bits_of 8 (drop_bit (8 * length bs) x)"
    by (simp add: eval_bits bit_simps)
  then have "ucast (drop_bit (8 * length bs) x AND 0xff) = c" using p(1) bits_of_inject by metis
  then show ?case using Cons.IH [OF p(2)] by simp
qed simp

lemma group_complete:
  assumes "k = 2 ^ j" "j < 64"
  shows "(word_of_nat n :: u64) AND (word_of_nat k - 1) = 0 \<longleftrightarrow> n mod k = 0"
proof -
  have "(word_of_nat k - 1 :: u64) = mask j" by (simp add: assms(1) mask_eq_exp_minus_1)
  then have "(word_of_nat n :: u64) AND (word_of_nat k - 1) = take_bit j (word_of_nat n)"
    by (simp add: take_bit_eq_mask)
  also have "\<dots> = word_of_nat (take_bit j n)" by (simp add: take_bit_of_nat)
  also have "\<dots> = 0 \<longleftrightarrow> take_bit j n = 0"
  proof -
    have "take_bit j n < 2 ^ j" "(2 :: nat) ^ j \<le> 2 ^ 64"
      using take_bit_nat_less_exp [of j n] assms(2) power_increasing [of j 64 "2 :: nat"] by simp_all
    then have "take_bit j n < 2 ^ 64" by (rule order.strict_trans2)
    then show ?thesis by (simp add: word_of_nat_eq_0_iff nat_dvd_not_less) (auto dest: dvd_imp_le)
  qed
  finally show ?thesis by (simp add: take_bit_eq_mod assms(1))
qed

text \<open>The decoder of a code: its table inverts the table of the encoder, knows the padding
  character, and the number of padding characters tells the number of bytes to drop.\<close>

locale base_decoder = base_code +
  fixes j :: nat and dtable :: "int list" and dsize :: int and dropped :: "u64 \<Rightarrow> u64"
  assumes small: "k = 2 ^ j" "j < 64" "8 * g \<le> 64"
    and table: "v < 2 ^ b \<Longrightarrow> table ! v \<notin> {10, 9, 32} \<and> uint (table ! v) < dsize \<and> dtable ! unat (table ! v) = int v"
    and pad: "61 < dsize" "dtable ! 61 = -2"
    and dropped: "bs \<noteq> [] \<Longrightarrow> length bs \<le> g \<Longrightarrow>
      dropped (word_of_nat (k - length (vals bs))) = word_of_nat (g - length bs)"
begin

lemma k_pos: "0 < k"
  by (simp add: small)

text \<open>One character of the code.\<close>

definition code_char :: "u8 \<Rightarrow> nat \<Rightarrow> nat \<Rightarrow> bool" where
  "code_char c v p \<longleftrightarrow> c = table ! v \<and> v < 2 ^ b \<and> p = 0 \<or> c = 61 \<and> v = 0 \<and> p = 1"

lemma decode_char:
  assumes "code_char c v p" "dc_count dc = word_of_nat n"
  shows "decode_loop dtable dsize b k g (c # rest) (dc, out) =
    (let dc' = \<lparr>dc_x = push_bit b (dc_x dc) + word_of_nat v, dc_count = word_of_nat (n + 1),
                dc_pad = dc_pad dc + word_of_nat p\<rparr>
     in decode_loop dtable dsize b k g rest
          (dc', if (n + 1) mod k = 0 then put_bytes (group_bytes g (dc_x dc')) out else out))"
proof -
  obtain x p' where dc: "dc = \<lparr>dc_x = x, dc_count = word_of_nat n, dc_pad = p'\<rparr>"
    using assms(2) by (cases dc) simp
  note gc = group_complete [OF small(1,2), of "n + 1"]
  from assms(1) consider "c = table ! v" "v < 2 ^ b" "p = 0" | "c = 61" "v = 0" "p = 1" by (auto simp: code_char_def)
  then show ?thesis
  proof cases
    case 1
    then show ?thesis using table [OF 1(2)] gc by (simp add: dc Let_def add.commute [of "word_of_nat n" 1])
  next
    case 2
    then show ?thesis using pad gc by (simp add: dc Let_def add.commute [of "word_of_nat n" 1])
  qed
qed

lemma decode_chars:
  assumes "\<forall>(c, v, p) \<in> set items. code_char c v p" "dc_count dc = word_of_nat n"
    "n mod k = q mod k" "q + length items \<le> k" "bits_of (b * q) (dc_x dc) = B" "q < k"
  shows "\<exists>dc'. decode_loop dtable dsize b k g (map fst items @ rest) (dc, out) =
      decode_loop dtable dsize b k g rest (dc', if q + length items = k then put_bytes (group_bytes g (dc_x dc')) out else out)
    \<and> dc_count dc' = word_of_nat (n + length items)
    \<and> dc_pad dc' = dc_pad dc + word_of_nat (sum_list (map (\<lambda>x. snd (snd x)) items))
    \<and> bits_of (b * (q + length items)) (dc_x dc') = B @ values_bits b (map (\<lambda>x. fst (snd x)) items)"
  using assms
proof (induction items arbitrary: dc n q B)
  case Nil
  then show ?case by (intro exI [of _ dc]) simp
next
  case (Cons item items)
  obtain c v p where item: "item = (c, v, p)" by (metis prod_cases3)
  have cc: "code_char c v p" using Cons.prems(1) item by auto
  then have v: "v < 2 ^ b" using code_char_def by auto
  let ?dc = "\<lparr>dc_x = push_bit b (dc_x dc) + word_of_nat v, dc_count = word_of_nat (n + 1),
                dc_pad = dc_pad dc + word_of_nat p\<rparr>"
  have m: "(n + 1) mod k = (q + 1) mod k" using Cons.prems(3) by (metis mod_add_left_eq)
  have bound: "b * (q + 1) \<le> 64"
  proof -
    have "b * (q + 1) \<le> b * k" using Cons.prems(4) by (intro mult_le_mono2) simp
    then show ?thesis using dims(2) small(3) by simp
  qed
  have bits: "bits_of (b * (q + 1)) (dc_x ?dc) = B @ bits_of b v"
    using bits_of_append [of b "b * q" v "dc_x dc"] bound v Cons.prems(5) by (simp add: add.commute)
  show ?case
  proof (cases items)
    case Nil
    then show ?thesis using decode_char [OF cc Cons.prems(2), of rest out] item m bits k_pos Cons.prems(4)
      by (intro exI [of _ ?dc]) (auto simp: Let_def mod_Suc)
  next
    case (Cons i items')
    then have q: "q + 1 < k" using Cons.prems(4) by simp
    then have nm: "(n + 1) mod k \<noteq> 0" using m by simp
    have "\<exists>dc'. decode_loop dtable dsize b k g (map fst items @ rest) (?dc, out) =
        decode_loop dtable dsize b k g rest (dc', if q + 1 + length items = k then put_bytes (group_bytes g (dc_x dc')) out else out)
      \<and> dc_count dc' = word_of_nat (n + 1 + length items)
      \<and> dc_pad dc' = dc_pad ?dc + word_of_nat (sum_list (map (\<lambda>x. snd (snd x)) items))
      \<and> bits_of (b * (q + 1 + length items)) (dc_x dc') = (B @ bits_of b v) @ values_bits b (map (\<lambda>x. fst (snd x)) items)"
      by (rule Cons.IH) (use Cons.prems(1,4) m bits q in auto)
    then obtain dc' where d: "decode_loop dtable dsize b k g (map fst items @ rest) (?dc, out) =
        decode_loop dtable dsize b k g rest (dc', if q + 1 + length items = k then put_bytes (group_bytes g (dc_x dc')) out else out)"
      "dc_count dc' = word_of_nat (n + 1 + length items)"
      "dc_pad dc' = dc_pad ?dc + word_of_nat (sum_list (map (\<lambda>x. snd (snd x)) items))"
      "bits_of (b * (q + 1 + length items)) (dc_x dc') = (B @ bits_of b v) @ values_bits b (map (\<lambda>x. fst (snd x)) items)"
      by blast
    show ?thesis using decode_char [OF cc Cons.prems(2), of "map fst items @ rest" out] nm d item
      by (intro exI [of _ dc']) (simp add: Let_def add.assoc)
  qed
qed

end

lemma put_bytes_append: "put_bytes (xs @ ys) out = put_bytes ys (put_bytes xs out)"
proof (induction xs arbitrary: out)
  case Nil
  then show ?case by (cases out) simp
next
  case (Cons x xs)
  then show ?case by (cases out) simp
qed

lemma bytes_bits_zero: "bytes_bits (replicate n 0) = replicate (8 * n) False"
  by (induction n) (simp_all add: bits_of_zero replicate_add)

lemma values_bits_zero: "values_bits b (replicate n 0) = replicate (b * n) False"
  by (induction n) (simp_all add: bits_of_zero replicate_add)

context base_decoder
begin

text \<open>A group, complete or filled with padding characters, is decoded to its bytes and zeros.\<close>

lemma decode_group:
  assumes bs: "bs \<noteq> []" "length bs \<le> g" and n: "dc_count dc = word_of_nat n" "n mod k = 0"
  shows "\<exists>dc'. decode_loop dtable dsize b k g (map ((!) table) (vals bs) @ replicate (k - length (vals bs)) 61 @ rest) (dc, out)
      = decode_loop dtable dsize b k g rest (dc', put_bytes (bs @ replicate (g - length bs) 0) out)
    \<and> dc_count dc' = word_of_nat (n + k) \<and> dc_pad dc' = dc_pad dc + word_of_nat (k - length (vals bs))"
proof -
  let ?r = "k - length (vals bs)" and ?bytes = "bs @ replicate (g - length bs) 0"
  define items where "items = map (\<lambda>v. (table ! v, v, 0 :: nat)) (vals bs) @ replicate ?r (61, 0, 1)"
  have len: "length items = k" using vals_le [OF bs(2)] by (simp add: items_def)
  have "\<forall>(c, v, p) \<in> set items. code_char c v p"
    using vals_range [OF bs(2)] by (auto simp: items_def code_char_def)
  then have "\<exists>dc'. decode_loop dtable dsize b k g (map fst items @ rest) (dc, out) =
      decode_loop dtable dsize b k g rest (dc', if 0 + length items = k then put_bytes (group_bytes g (dc_x dc')) out else out)
    \<and> dc_count dc' = word_of_nat (n + length items)
    \<and> dc_pad dc' = dc_pad dc + word_of_nat (sum_list (map (\<lambda>x. snd (snd x)) items))
    \<and> bits_of (b * (0 + length items)) (dc_x dc') = [] @ values_bits b (map (\<lambda>x. fst (snd x)) items)"
    using n k_pos len by (intro decode_chars) auto
  then obtain dc' where d: "decode_loop dtable dsize b k g (map fst items @ rest) (dc, out) =
        decode_loop dtable dsize b k g rest (dc', put_bytes (group_bytes g (dc_x dc')) out)"
      "dc_count dc' = word_of_nat (n + k)" "dc_pad dc' = dc_pad dc + word_of_nat (sum_list (map (\<lambda>x. snd (snd x)) items))"
      "bits_of (b * k) (dc_x dc') = values_bits b (map (\<lambda>x. fst (snd x)) items)"
    using len by auto
  have i: "map fst items = map ((!) table) (vals bs) @ replicate ?r 61"
    "sum_list (map (\<lambda>x. snd (snd x)) items) = ?r" "map (\<lambda>x. fst (snd x)) items = vals bs @ replicate ?r 0"
    by (simp_all add: items_def comp_def map_replicate_const sum_list_replicate)
  have "values_bits b (vals bs @ replicate ?r 0) = bytes_bits ?bytes"
  proof -
    have "b * length (vals bs) - 8 * length bs + b * ?r = 8 * (g - length bs)"
    proof -
      have "b * length (vals bs) \<le> b * k" using vals_le [OF bs(2)] by simp
      then show ?thesis using vals_length(2) [OF bs(2)] dims(2) by (simp add: diff_mult_distrib2)
    qed
    then show ?thesis using vals_bits [OF bs(2)]
      by (simp add: values_bits_zero bytes_bits_zero replicate_add [symmetric])
  qed
  then have "group_bytes g (dc_x dc') = ?bytes"
    using group_bytes_bits [of ?bytes "dc_x dc'"] d(4) i(3) bs(2) dims(2) by simp
  then show ?thesis using d i by (intro exI [of _ dc']) simp
qed

lemma decode_all:
  assumes "bs \<noteq> []" "dc_count dc = word_of_nat n" "n mod k = 0"
  shows "\<exists>dc'. decode_loop dtable dsize b k g (encoding g chars padding bs) (dc, out)
      = Some (dc', put_bytes (bs @ replicate (howmany (length bs) g * g - length bs) 0) out)
    \<and> dc_pad dc' = dc_pad dc + word_of_nat (pads g k vals bs)"
  using dims(1) assms
proof (induction bs arbitrary: dc n out rule: group_induct)
  case (small bs)
  then show ?case using decode_group [of bs dc n "[]" out] howmany_small [of bs]
    by (auto simp: encoding_values pads_def all_values_small)
next
  case (group grp rest)
  have g: "grp \<noteq> []" "length grp \<le> g" using group.hyps(1) dims(1) by auto
  obtain dc1 where d1: "decode_loop dtable dsize b k g (map ((!) table) (vals grp) @ encoding g chars padding rest) (dc, out)
        = decode_loop dtable dsize b k g (encoding g chars padding rest) (dc1, put_bytes grp out)"
      "dc_count dc1 = word_of_nat (n + k)" "dc_pad dc1 = dc_pad dc"
    using decode_group [OF g group.prems(2,3), of "encoding g chars padding rest" out] vals_full [OF group.hyps(1)]
      group.hyps(1) by auto
  obtain dc2 where d2: "decode_loop dtable dsize b k g (encoding g chars padding rest) (dc1, put_bytes grp out)
        = Some (dc2, put_bytes (rest @ replicate (howmany (length rest) g * g - length rest) 0) (put_bytes grp out))"
      "dc_pad dc2 = dc_pad dc1 + word_of_nat (pads g k vals rest)"
    using group.IH [OF group.hyps(2) d1(2), of "put_bytes grp out"] group.prems(3) by auto
  have z: "howmany (length (grp @ rest)) g * g - length (grp @ rest) = howmany (length rest) g * g - length rest"
    using group.hyps(1) howmany_add [OF dims(1), of "length rest"] by simp
  show ?case
    using d1 d2 encoding_group [OF group.hyps(1) dims(1) group.hyps(2)] group_full [OF group.hyps(1)]
      pads_group [OF group.hyps(1,2)]
    by (simp only: z) (simp add: put_bytes_append)
qed

lemma dropped_all: "bs \<noteq> [] \<Longrightarrow> dropped (word_of_nat (pads g k vals bs)) = word_of_nat (howmany (length bs) g * g - length bs)"
  using dims(1)
proof (induction bs rule: group_induct)
  case (small bs)
  then show ?case using dropped [of bs] howmany_small [of bs] by (simp add: pads_def all_values_small)
next
  case (group grp rest)
  then show ?case using howmany_add [OF dims(1), of "length rest"] by (simp add: pads_group)
qed

lemma howmany_ge: "n \<le> howmany n g * g"
proof -
  have "n + (g - 1) < (howmany n g + 1) * g"
    unfolding howmany_def using dims(1) div_less_iff_less_mult [of g "n + (g - 1)" "(n + (g - 1)) div g + 1"] by simp
  then show ?thesis using dims(1) by (simp add: algebra_simps)
qed

lemma decode_spec:
  assumes "data_ok data" "alloc_ok alloc" "contiguous data" "data_bytes data = encoding g chars padding bs"
    "bs \<noteq> []" "length bs < 2 ^ 64"
  shows "\<exists>d. dispatch_transform_decode alloc dtable dsize b k g dropped data = Some d \<and> data_ok d \<and> data_bytes d = bs"
proof -
  let ?L = "howmany (length bs) g * g" and ?dc = "\<lparr>dc_x = 0, dc_count = 0, dc_pad = 0\<rparr>"
  have hm: "howmany (howmany (length bs) g * k) k = howmany (length bs) g"
    using k_pos unfolding howmany_def [of _ k] by (intro div_nat_eqI) (simp_all add: mult.commute [of k])
  have len: "length (data_bytes data) = howmany (length bs) g * k" using assms(4) fill by simp
  have "howmany (length bs) g \<noteq> 0"
    using assms(5) dims(1) by (auto simp: howmany_def div_eq_0_iff Suc_le_eq [symmetric])
  then have nz: "dd_size data \<noteq> 0" using len length_data_bytes [OF assms(1)] k_pos by simp
  then have reg: "data_regions data = [(data, 0, data_bytes data)]" using assms(3) by (simp add: data_regions_def)
  obtain dest where dest: "alloc ?L = Some dest" "length dest = ?L" using assms(2) by (auto simp: alloc_ok_def)
  obtain dc' where loop: "decode_loop dtable dsize b k g (data_bytes data) (?dc, dest, 0)
      = Some (dc', put_bytes (bs @ replicate (?L - length bs) 0) (dest, 0))"
      "dc_pad dc' = word_of_nat (pads g k vals bs)"
    using decode_all [OF assms(5), of ?dc 0 "(dest, 0)"] assms(4) by auto
  let ?out = "bs @ replicate (?L - length bs) 0"
  have "written ([] @ ?out) ?L (put_bytes ?out (dest, 0))"
    using howmany_ge [of "length bs"] dest(2) by (intro put_bytes_written) (simp_all add: written_def)
  then have out: "put_bytes ?out (dest, 0) = (?out, ?L)"
    using howmany_ge [of "length bs"] by (auto simp: written_def)
  have "word_of_nat ?L - word_of_nat (?L - length bs) = (word_of_nat (length bs) :: u64)"
    using howmany_ge [of "length bs"] by (simp add: of_nat_diff)
  then have final: "unat (word_of_nat ?L - dropped (dc_pad dc')) = length bs"
    using dropped_all [OF assms(5)] loop(2) assms(6) by (simp add: unsigned_of_nat take_bit_nat_eq_self)
  let ?val = "fst (dispatch_data_create (Some ?out) (length bs) None DESTRUCTOR_FREE)"
  have "dispatch_transform_decode alloc dtable dsize b k g dropped data
      = Some (dispatch_data_create_concat dispatch_data_empty ?val)"
    using dest loop(1) final out
    by (simp add: dispatch_transform_decode_def dispatch_data_apply_regions [OF assms(1)] reg decode_region_def
        Let_def len hm)
  then show ?thesis
    using create_spec [of "length bs" ?out None DESTRUCTOR_FREE] concat_spec [of dispatch_data_empty ?val] by simp
qed

end

lemma base64_table_inverse:
  "list_all (\<lambda>v. let c = base64_encode_table ! v in c \<notin> {10, 9, 32} \<and> uint c < base64_decode_table_size
     \<and> base64_decode_table ! unat c = int v) [0..<64]"
  by code_simp

lemma base32_table_inverse:
  "list_all (\<lambda>v. let c = base32_encode_table ! v in c \<notin> {10, 9, 32} \<and> uint c < base32_decode_table_size
     \<and> base32_decode_table ! unat c = int v) [0..<32]"
  by code_simp

interpretation base64_decoder: base_decoder 3 4 6 base64_encode_table base64_chars base64_padding base64_values
  2 base64_decode_table base64_decode_table_size base64_dropped
proof
  show "base64_encode_table ! v \<notin> {10, 9, 32} \<and> uint (base64_encode_table ! v) < base64_decode_table_size
      \<and> base64_decode_table ! unat (base64_encode_table ! v) = int v" if "v < 2 ^ 6" for v
    using that base64_table_inverse by (simp add: list_all_iff Let_def)
  show "base64_dropped (word_of_nat (4 - length (base64_values bs))) = word_of_nat (3 - length bs)"
    if "bs \<noteq> []" "length bs \<le> 3" for bs
    using cases_upto_3 [OF that(2)] that(1) by (auto simp: base64_values_def base64_dropped_def)
  show "61 < base64_decode_table_size" "base64_decode_table ! 61 = - 2" by code_simp+
qed simp_all

interpretation base32_decoder: base_decoder 5 8 5 base32_encode_table "base32_chars base32_encode_table"
  "base32_padding base32_encode_table" base32_values 3 base32_decode_table base32_decode_table_size base32_dropped
proof
  show "base32_encode_table ! v \<notin> {10, 9, 32} \<and> uint (base32_encode_table ! v) < base32_decode_table_size
      \<and> base32_decode_table ! unat (base32_encode_table ! v) = int v" if "v < 2 ^ 5" for v
    using that base32_table_inverse by (simp add: list_all_iff Let_def)
  show "base32_dropped (word_of_nat (8 - length (base32_values bs))) = word_of_nat (5 - length bs)"
    if "bs \<noteq> []" "length bs \<le> 5" for bs
    using cases_upto_5 [OF that(2)] that(1) by (auto simp: base32_values_def base32_dropped_def)
  show "61 < base32_decode_table_size" "base32_decode_table ! 61 = - 2" by code_simp+
qed simp_all

context base_code
begin

lemma howmany_pos: "n \<noteq> 0 \<Longrightarrow> howmany n g \<noteq> 0"
  using dims(1) by (auto simp: howmany_def div_eq_0_iff)

lemma encode_bits:
  assumes "data_ok data" "alloc_ok alloc" "dd_size data \<noteq> 0" "int (howmany (dd_size data) g) \<le> SIZE_MAX div int k"
  shows "\<exists>d vs p z. dispatch_transform_encode alloc g k chars padding data = Some d \<and> data_ok d
      \<and> data_bytes d = map ((!) table) vs @ replicate p 61 \<and> (\<forall>v \<in> set vs. v < 2 ^ b)
      \<and> values_bits b vs = bytes_bits (data_bytes data) @ replicate z False \<and> z < b
      \<and> dd_size d = k * howmany (dd_size data) g"
proof -
  let ?bs = "data_bytes data"
  obtain d where d: "dispatch_transform_encode alloc g k chars padding data = Some d" "data_ok d"
      "data_bytes d = encoding g chars padding ?bs"
    using encode_spec [OF assms] by blast
  obtain z where z: "z < b" "values_bits b (all_values g vals ?bs) = bytes_bits ?bs @ replicate z False"
    using all_values_bits by blast
  have "dd_size d = k * howmany (dd_size data) g"
    using length_data_bytes [OF d(2)] length_data_bytes [OF assms(1)] d(3) fill [of ?bs] by (simp add: mult.commute)
  then show ?thesis using d z encoding_values [of ?bs] all_values_range [of _ ?bs]
    by (intro exI [of _ d] exI [of _ "all_values g vals ?bs"] exI [of _ "pads g k vals ?bs"] exI [of _ z]) auto
qed

end

context base_decoder
begin

lemma round_trip:
  assumes "data_ok data" "alloc_ok alloc" "dd_size data \<noteq> 0" "int (howmany (dd_size data) g) \<le> SIZE_MAX div int k"
    "dd_size data < 2 ^ 64"
  shows "\<exists>e d. dispatch_transform_encode alloc g k chars padding data = Some e
    \<and> dispatch_transform_decode alloc dtable dsize b k g dropped e = Some d
    \<and> data_ok d \<and> data_bytes d = data_bytes data"
proof -
  let ?bs = "data_bytes data"
  have bs: "?bs \<noteq> []" "length ?bs < 2 ^ 64" using length_data_bytes [OF assms(1)] assms(3,5) by auto
  obtain e where e: "dispatch_transform_encode alloc g k chars padding data = Some e" "data_ok e"
      "dd_size e \<noteq> 0 \<longrightarrow> contiguous e" "data_bytes e = encoding g chars padding ?bs"
    using encode_spec [OF assms(1-4)] by blast
  have "dd_size e = howmany (length ?bs) g * k" using length_data_bytes [OF e(2)] e(4) fill [of ?bs] by simp
  then have "dd_size e \<noteq> 0" using bs(1) howmany_pos [of "length ?bs"] k_pos by simp
  then show ?thesis using decode_spec [OF e(2) assms(2) _ e(4) bs] e(1,3) by blast
qed

end

lemma size_bounds:
  assumes "int (howmany n 3) \<le> SIZE_MAX div 8"
  shows "int (howmany n 3) \<le> SIZE_MAX div 4" "int (howmany n 5) \<le> SIZE_MAX div 8" "n < 18446744073709551616"
proof -
  have "howmany n 5 \<le> howmany n 3" unfolding howmany_def by linarith
  then show "int (howmany n 5) \<le> SIZE_MAX div 8" using assms by linarith
  show "int (howmany n 3) \<le> SIZE_MAX div 4" using assms by (simp add: SIZE_MAX_def)
  have "int n \<le> 3 * int (howmany n 3)" unfolding howmany_def by linarith
  then show "n < 18446744073709551616" using assms by (simp add: SIZE_MAX_def)
qed

section \<open>Properties of the base encodings\<close>

text \<open>C17. Base 64 and base 32 encoding follow RFC 4648 for every division of the data into regions:
  the output is characters of the table followed by padding characters, their values are the bits
  of the input, six or five at a time, filled with fewer zero bits than one character holds, and
  the length is a whole number of groups, so that the output fills its buffer exactly.\<close>

theorem transform_base_encodes:
  assumes "data_ok data" "alloc_ok alloc" "dd_size data \<noteq> 0" "int (howmany (dd_size data) 3) \<le> SIZE_MAX div 8"
  shows "(\<exists>d vs p z. dispatch_transform_to_base64 alloc data = Some d \<and> data_ok d
      \<and> data_bytes d = map ((!) base64_encode_table) vs @ replicate p 61 \<and> (\<forall>v \<in> set vs. v < 2 ^ 6)
      \<and> values_bits 6 vs = bytes_bits (data_bytes data) @ replicate z False \<and> z < 6
      \<and> dd_size d = 4 * howmany (dd_size data) 3)
    \<and> (\<exists>d vs p z. dispatch_transform_to_base32_with_table alloc data table = Some d \<and> data_ok d
      \<and> data_bytes d = map ((!) table) vs @ replicate p 61 \<and> (\<forall>v \<in> set vs. v < 2 ^ 5)
      \<and> values_bits 5 vs = bytes_bits (data_bytes data) @ replicate z False \<and> z < 5
      \<and> dd_size d = 8 * howmany (dd_size data) 5)"
  using base64_code.encode_bits [OF assms(1-3)] base32_code.encode_bits [OF assms(1-3), of table] size_bounds [OF assms(4)]
  by (simp add: dispatch_transform_to_base64_def dispatch_transform_to_base32_with_table_def)

lemma leaf_data_ok: "bs \<noteq> [] \<Longrightarrow> data_ok (Data (Some bs) ds q (length bs) [])"
  by (simp add: data_ok_def leaf_ok_def leaf_iff leaf_bytes_def)

lemma simple_alloc_ok: "alloc_ok (\<lambda>n. Some (replicate n 0))"
  by (simp add: alloc_ok_def)

theorem transform_base_encodes_witness:
  "\<exists>d. dispatch_transform_to_base64 (\<lambda>n. Some (replicate n 0)) (Data (Some [77, 97]) DESTRUCTOR_FREE None 2 []) = Some d
     \<and> dd_size d = 4"
proof -
  let ?d = "Data (Some [77, 97]) DESTRUCTOR_FREE None 2 []"
  have "data_ok ?d" using leaf_data_ok [of "[77, 97]" DESTRUCTOR_FREE None] by (simp add: numeral_2_eq_2)
  from transform_base_encodes [OF this simple_alloc_ok, of base32_encode_table, THEN conjunct1]
  show ?thesis by (auto simp: howmany_def SIZE_MAX_def)
qed

text \<open>C9. Decoding what the encoders produce gives the bytes back, for base 64 and base 32, for
  every length of the last group and every division of the input into regions.\<close>

theorem transform_base_round_trip:
  assumes "data_ok data" "alloc_ok alloc" "dd_size data \<noteq> 0" "int (howmany (dd_size data) 3) \<le> SIZE_MAX div 8"
  shows "(\<exists>e d. dispatch_transform_to_base64 alloc data = Some e \<and> dispatch_transform_from_base64 alloc e = Some d
      \<and> data_ok d \<and> data_bytes d = data_bytes data)
    \<and> (\<exists>e d. dispatch_transform_to_base32 alloc data = Some e \<and> dispatch_transform_from_base32 alloc e = Some d
      \<and> data_ok d \<and> data_bytes d = data_bytes data)"
  using base64_decoder.round_trip [OF assms(1-3)] base32_decoder.round_trip [OF assms(1-3)] size_bounds [OF assms(4)]
  by (simp add: dispatch_transform_to_base64_def dispatch_transform_to_base32_with_table_def
      dispatch_transform_from_base64_def dispatch_transform_to_base32_def dispatch_transform_from_base32_def
      dispatch_transform_from_base32_with_table_def)

theorem transform_base_round_trip_witness:
  "\<exists>e d. dispatch_transform_to_base32 (\<lambda>n. Some (replicate n 0)) (Data (Some [77, 97]) DESTRUCTOR_FREE None 2 []) = Some e
     \<and> dispatch_transform_from_base32 (\<lambda>n. Some (replicate n 0)) e = Some d \<and> data_bytes d = [77, 97]"
proof -
  let ?d = "Data (Some [77, 97]) DESTRUCTOR_FREE None 2 []"
  have "data_ok ?d" using leaf_data_ok [of "[77, 97]" DESTRUCTOR_FREE None] by (simp add: numeral_2_eq_2)
  moreover have "data_bytes ?d = [77, 97]" by (simp add: data_bytes_def leaf_iff leaf_bytes_def)
  ultimately show ?thesis
    using transform_base_round_trip [of ?d "\<lambda>n. Some (replicate n 0)", THEN conjunct2]
    by (auto simp: simple_alloc_ok howmany_def SIZE_MAX_def)
qed

text \<open>Base 32 hex data cannot be decoded: the size of the decoding table is computed from the
  encoding table, so every character from 33 on is refused, and so is what the library's own
  encoder produces.\<close>

theorem transform_base32hex_undecodable:
  assumes "data_ok data" "alloc_ok alloc" "dd_size data \<noteq> 0" "int (howmany (dd_size data) 3) \<le> SIZE_MAX div 8"
  shows "\<exists>e. dispatch_transform_to_base32hex alloc data = Some e \<and> dispatch_transform_from_base32hex alloc e = None"
proof -
  let ?bs = "data_bytes data" and ?t = base32hex_encode_table
  obtain e where e: "dispatch_transform_to_base32hex alloc data = Some e" "data_ok e" "dd_size e \<noteq> 0 \<longrightarrow> contiguous e"
      "data_bytes e = encoding 5 (base32_chars ?t) (base32_padding ?t) ?bs"
    using base32_code.encode_spec [OF assms(1-3), of ?t] size_bounds [OF assms(4)]
    by (auto simp: dispatch_transform_to_base32hex_def dispatch_transform_to_base32_with_table_def)
  have "?bs \<noteq> []" using length_data_bytes [OF assms(1)] assms(3) by auto
  then have "all_values 5 base32_values ?bs \<noteq> []"
    using base32_code.all_values_bits [of ?bs] by (cases ?bs) (auto simp: eval_bits)
  then obtain v vs where v: "all_values 5 base32_values ?bs = v # vs" by (cases "all_values 5 base32_values ?bs") auto
  then have "v < 32" using base32_code.all_values_range [of v ?bs] by simp
  moreover have "list_all (\<lambda>v. let c = ?t ! v in c \<notin> {10, 9, 32} \<and> base32hex_decode_table_size \<le> uint c) [0..<32]"
    by code_simp
  ultimately have c: "?t ! v \<notin> {10, 9, 32}" "base32hex_decode_table_size \<le> uint (?t ! v)"
    by (simp_all add: list_all_iff Let_def)
  obtain rest where rest: "data_bytes e = ?t ! v # rest"
    using e(4) base32_code.encoding_values [of ?t ?bs] v by simp
  then have "dd_size e \<noteq> 0" using length_data_bytes [OF e(2)] by auto
  then have reg: "data_regions e = [(e, 0, ?t ! v # rest)]" using e(3) rest by (simp add: data_regions_def)
  have "decode_loop base32hex_decode_table base32hex_decode_table_size 5 8 5 (?t ! v # rest) (dc, dest, n) = None"
    for dc dest n using c by simp
  then have "dispatch_transform_from_base32hex alloc e = None"
    by (simp add: dispatch_transform_from_base32hex_def dispatch_transform_from_base32_with_table_def
        dispatch_transform_decode_def dispatch_data_apply_regions [OF e(2)] reg decode_region_def Let_def split: option.split)
  then show ?thesis using e(1) by blast
qed

theorem transform_base32hex_undecodable_witness:
  "\<exists>e. dispatch_transform_to_base32hex (\<lambda>n. Some (replicate n 0)) (Data (Some [77, 97]) DESTRUCTOR_FREE None 2 []) = Some e
     \<and> dispatch_transform_from_base32hex (\<lambda>n. Some (replicate n 0)) e = None"
proof -
  let ?d = "Data (Some [77, 97]) DESTRUCTOR_FREE None 2 []"
  have "data_ok ?d" using leaf_data_ok [of "[77, 97]" DESTRUCTOR_FREE None] by (simp add: numeral_2_eq_2)
  from transform_base32hex_undecodable [OF this simple_alloc_ok] show ?thesis by (simp add: howmany_def SIZE_MAX_def)
qed

text \<open>The padding of base 64 is subtracted from the number of decoded bytes without a test: four
  padding characters give an object of 2 to the 64 minus 1 bytes on a buffer of three, which
  breaks the invariant of data objects.\<close>

theorem transform_base64_padding_underflow:
  assumes "alloc_ok alloc"
  shows "\<exists>d. dispatch_transform_from_base64 alloc (Data (Some [61, 61, 61, 61]) DESTRUCTOR_FREE None 4 []) = Some d
    \<and> dd_size d = 18446744073709551615 \<and> length (data_bytes d) = 3 \<and> \<not> data_ok d"
proof -
  let ?d = "Data (Some [61, 61, 61, 61]) DESTRUCTOR_FREE None 4 []"
  have ok: "data_ok ?d" by (simp add: data_ok_def leaf_ok_def leaf_iff leaf_bytes_def)
  have reg: "data_regions ?d = [(?d, 0, [61, 61, 61, 61])]"
    by (simp add: data_regions_def contiguous_def dispatch_data_map_direct_def leaf_iff Let_def data_bytes_def leaf_bytes_def)
  obtain m where m: "alloc 3 = Some m" "length m = 3" using assms by (auto simp: alloc_ok_def)
  then obtain x y z where xyz: "m = [x, y, z]" using cases_upto_3 [of m] by auto
  have t: "61 < base64_decode_table_size" "base64_decode_table ! 61 = - 2" by code_simp+
  have loop: "decode_loop base64_decode_table base64_decode_table_size 6 4 3 [61, 61, 61, 61]
      (\<lparr>dc_x = 0, dc_count = 0, dc_pad = 0\<rparr>, m, 0) =
    Some (\<lparr>dc_x = 0, dc_count = 4, dc_pad = 4\<rparr>, [0, 0, 0], 3)"
    using t by (simp add: xyz Let_def numeral_3_eq_3)
  let ?v = "Data (Some [0, 0, 0]) DESTRUCTOR_FREE None 18446744073709551615 []"
  have "unat (3 - 4 :: u64) = 18446744073709551615" by (simp add: unsigned_minus_1_eq_mask mask_eq_exp_minus_1)
  then have "dispatch_transform_from_base64 alloc ?d = Some ?v"
    using m loop
    by (simp add: dispatch_transform_from_base64_def dispatch_transform_decode_def dispatch_data_apply_regions [OF ok] reg
        decode_region_def howmany_def Let_def base64_dropped_def dispatch_data_create_def dispatch_data_create_concat_def
        dispatch_data_empty_def)
  moreover have "length (data_bytes ?v) = 3" by (simp add: data_bytes_def leaf_iff leaf_bytes_def)
  moreover have "\<not> data_ok ?v" using length_data_bytes [of ?v] \<open>length (data_bytes ?v) = 3\<close> by auto
  ultimately show ?thesis by auto
qed

theorem transform_base64_padding_underflow_witness:
  "\<exists>d. dispatch_transform_from_base64 (\<lambda>n. Some (replicate n 0)) (Data (Some [61, 61, 61, 61]) DESTRUCTOR_FREE None 4 []) = Some d
     \<and> \<not> data_ok d"
  using transform_base64_padding_underflow [OF simple_alloc_ok] by blast

end
