(* ===== verification/TransformUTF.thy ===== *)
theory TransformUTF
  imports Transform
begin

text \<open>
  The transforms between UTF-8 and UTF-16 and the entry point of src/transform.c of libdispatch,
  on a little endian host.

  A \<open>uint16_t *\<close> into a region is its list of bytes, read two at a time; a read behind the end of
  the region, which the code makes for an odd region, is the value of the list there, about which
  nothing is known.
\<close>

section \<open>The output buffer\<close>

text \<open>\<open>tb_ptr\<close> is the distance of \<open>ptr\<close> from \<open>start\<close>.\<close>

record dispatch_transform_buffer =
  tb_data :: dispatch_data
  tb_start :: "u8 list option"
  tb_ptr :: nat
  tb_size :: nat

definition BUFFER_MALLOC_MAX :: int where
  "BUFFER_MALLOC_MAX = 100 * 1024 * 1024"

definition dispatch_transform_buffer_new ::
  "allocator \<Rightarrow> dispatch_transform_buffer \<Rightarrow> nat \<Rightarrow> nat \<Rightarrow> bool \<times> dispatch_transform_buffer" where
  "dispatch_transform_buffer_new alloc buffer required sz =
     (let remaining = tb_size buffer - tb_ptr buffer
      in if required = 0 \<or> remaining < required
         then
           (let data = (case tb_start buffer of
                  None \<Rightarrow> tb_data buffer
                | Some start \<Rightarrow>
                    if 0 < tb_ptr buffer
                    then dispatch_data_create_concat (tb_data buffer)
                           (fst (dispatch_data_create (Some start) (tb_ptr buffer) None DESTRUCTOR_FREE))
                    else tb_data buffer);
                buffer = buffer\<lparr>tb_data := data, tb_size := required + sz, tb_start := None\<rparr>
            in if 0 < tb_size buffer
               then if BUFFER_MALLOC_MAX < int (tb_size buffer) then (False, buffer)
                    else case alloc (tb_size buffer) of
                      None \<Rightarrow> (False, buffer)
                    | Some start \<Rightarrow> (True, buffer\<lparr>tb_start := Some start, tb_ptr := 0\<rparr>)
               else (True, buffer\<lparr>tb_ptr := 0\<rparr>))
         else (True, buffer))"

text \<open>\<open>*ptr++ = v\<close> for the bytes.\<close>

definition tb_put :: "u8 list \<Rightarrow> dispatch_transform_buffer \<Rightarrow> dispatch_transform_buffer" where
  "tb_put vs buffer =
     (case tb_start buffer of
        None \<Rightarrow> buffer
      | Some start \<Rightarrow>
          (let (start, ptr) = put_bytes vs (start, tb_ptr buffer)
           in buffer\<lparr>tb_start := Some start, tb_ptr := ptr\<rparr>))"

definition tb_empty :: dispatch_transform_buffer where
  "tb_empty = \<lparr>tb_data = dispatch_data_empty, tb_start = None, tb_ptr = 0, tb_size = 0\<rparr>"

section \<open>Characters\<close>

datatype byte_order = OSLittleEndian | OSBigEndian

definition swap16 :: "u16 \<Rightarrow> u16" where
  "swap16 x = push_bit 8 x OR drop_bit 8 x"

definition dispatch_transform_swap_to_host :: "u16 \<Rightarrow> byte_order \<Rightarrow> u16" where
  "dispatch_transform_swap_to_host x byteOrder = (if byteOrder = OSLittleEndian then x else swap16 x)"

definition dispatch_transform_swap_from_host :: "u16 \<Rightarrow> byte_order \<Rightarrow> u16" where
  "dispatch_transform_swap_from_host x byteOrder = (if byteOrder = OSLittleEndian then x else swap16 x)"

text \<open>A 16-bit word in memory.\<close>

definition store16 :: "u16 \<Rightarrow> u8 list" where
  "store16 x = [ucast x, ucast (drop_bit 8 x)]"

definition load16 :: "u8 list \<Rightarrow> nat \<Rightarrow> u16" where
  "load16 bytes i = ucast (bytes ! i) OR push_bit 8 (ucast (bytes ! (i + 1)))"

definition dispatch_transform_utf8_length :: "u8 \<Rightarrow> u8" where
  "dispatch_transform_utf8_length byte =
     (if byte AND 0x80 = 0 then 1
      else if byte AND 0xe0 = 0xc0 then 2
      else if byte AND 0xf0 = 0xe0 then 3
      else if byte AND 0xf8 = 0xf0 then 4
      else 0)"

fun utf8_continuation :: "u8 list \<Rightarrow> nat \<Rightarrow> u32 \<Rightarrow> u32" where
  "utf8_continuation bytes 0 wch = wch"
| "utf8_continuation bytes (Suc seq_length) wch =
     (let wch = wch OR (ucast (bytes ! 0) AND 0x3f);
          wch = (if 0 < seq_length then push_bit 6 wch else wch)
      in utf8_continuation (drop 1 bytes) seq_length wch)"

definition dispatch_transform_read_utf8_sequence :: "u8 list \<Rightarrow> u32" where
  "dispatch_transform_read_utf8_sequence bytes =
     (let seq_length = dispatch_transform_utf8_length (bytes ! 0);
          wch = (if seq_length = 4 then push_bit 6 (ucast (bytes ! 0) AND 0x7)
                 else if seq_length = 3 then push_bit 6 (ucast (bytes ! 0) AND 0xf)
                 else if seq_length = 2 then push_bit 6 (ucast (bytes ! 0) AND 0x1f)
                 else if seq_length = 1 then ucast (bytes ! 0) AND 0x7f
                 else 0)
      in utf8_continuation (drop 1 bytes) (unat (seq_length - 1)) wch)"

section \<open>UTF-8 to UTF-16\<close>

text \<open>The bytes of a character, one unit or two. The buffer is made large enough before they are
  written.\<close>

definition utf16_bytes :: "byte_order \<Rightarrow> u32 \<Rightarrow> u8 list" where
  "utf16_bytes byteOrder wch =
     (if 0x10000 \<le> wch
      then
        (let wch = wch - 0x10000
         in store16 (dispatch_transform_swap_from_host (ucast ((drop_bit 10 wch AND 0x3ff) + 0xd800)) byteOrder)
            @ store16 (dispatch_transform_swap_from_host (ucast ((wch AND 0x3ff) + 0xdc00)) byteOrder))
      else store16 (dispatch_transform_swap_from_host (ucast (wch AND 0xffff)) byteOrder))"

definition put_utf16 :: "allocator \<Rightarrow> byte_order \<Rightarrow> u32 \<Rightarrow> nat \<Rightarrow> dispatch_transform_buffer
    \<Rightarrow> bool \<times> dispatch_transform_buffer" where
  "put_utf16 alloc byteOrder wch next_size buffer =
     (case dispatch_transform_buffer_new alloc buffer (length (utf16_bytes byteOrder wch)) next_size of
        (False, buffer) \<Rightarrow> (False, buffer)
      | (True, buffer) \<Rightarrow> (True, tb_put (utf16_bytes byteOrder wch) buffer))"

text \<open>The loop over a region whose bytes are \<open>src\<close>, after the bytes to skip; the state is \<open>skip\<close>
  and the buffer.\<close>

function to_utf16_loop :: "allocator \<Rightarrow> dispatch_data \<Rightarrow> byte_order \<Rightarrow> nat \<Rightarrow> u8 list \<Rightarrow> nat
    \<Rightarrow> nat \<times> dispatch_transform_buffer \<Rightarrow> bool \<times> nat \<times> dispatch_transform_buffer" where
  "to_utf16_loop alloc data byteOrder offset src i (skip, buffer) =
     (if i < length src
      then
        (let byte_size = unat (dispatch_transform_utf8_length (src ! i))
         in if byte_size = 0 then (False, skip, buffer)
            else
              (case (if length src < byte_size + i
                     then (case dispatch_data_subrange_map alloc data (offset + i) byte_size of
                             None \<Rightarrow> None
                           | Some p \<Rightarrow> Some (dispatch_transform_read_utf8_sequence p,
                               skip + (byte_size - (length src - i)), length src))
                     else Some (dispatch_transform_read_utf8_sequence (drop i src), skip, i + byte_size)) of
                 None \<Rightarrow> (False, skip, buffer)
               | Some (wch, skip', i') \<Rightarrow>
                   if SIZE_MAX < int ((length src - i') * 2) then (False, skip', buffer)
                   else if wch = 0xfeff \<and> offset + i' = 3
                   then to_utf16_loop alloc data byteOrder offset src i' (skip', buffer)
                   else if 0xd800 \<le> wch \<and> wch < 0xdfff then (False, skip', buffer)
                   else (case put_utf16 alloc byteOrder wch ((length src - i') * 2) buffer of
                           (False, buffer) \<Rightarrow> (False, skip', buffer)
                         | (True, buffer) \<Rightarrow> to_utf16_loop alloc data byteOrder offset src i' (skip', buffer))))
      else (True, skip, buffer))"
  by pat_completeness auto
termination
  by (relation "measure (\<lambda>(_, _, _, _, src, i, _). length src - i)")
    (auto split: if_splits option.splits simp: Let_def)

declare to_utf16_loop.simps [simp del]

definition to_utf16_region :: "allocator \<Rightarrow> dispatch_data \<Rightarrow> byte_order \<Rightarrow> (nat \<times> dispatch_transform_buffer) applier" where
  "to_utf16_region alloc data byteOrder st region offset bytes =
     (let (skip, buffer) = st;
          (ok, buffer) =
            (if offset = 0
             then if SIZE_MAX < int (length bytes * 2 + 2) then (False, buffer)
                  else (case dispatch_transform_buffer_new alloc buffer (length bytes * 2 + 2) 0 of
                          (False, buffer) \<Rightarrow> (False, buffer)
                        | (True, buffer) \<Rightarrow> (True, tb_put (store16 (dispatch_transform_swap_from_host 0xfeff byteOrder)) buffer))
             else (True, buffer))
      in if \<not> ok then (False, skip, buffer)
         else if length bytes \<le> skip then (True, skip - length bytes, buffer)
         else case to_utf16_loop alloc data byteOrder offset (drop skip bytes) 0 (0, buffer) of
           (False, st) \<Rightarrow> (False, st)
         | (True, skip, buffer) \<Rightarrow> (True, skip, snd (dispatch_transform_buffer_new alloc buffer 0 0)))"

definition dispatch_transform_to_utf16 :: "allocator \<Rightarrow> dispatch_data \<Rightarrow> byte_order \<Rightarrow> dispatch_data option" where
  "dispatch_transform_to_utf16 alloc data byteOrder =
     (case dispatch_data_apply data (to_utf16_region alloc data byteOrder) (0, tb_empty) of
        (False, _) \<Rightarrow> None
      | (True, _, buffer) \<Rightarrow> Some (tb_data buffer))"

section \<open>UTF-16 to UTF-8\<close>

text \<open>The bytes of a character. Values from 0x200000 on, which do not occur, write nothing.\<close>

definition utf8_bytes :: "u32 \<Rightarrow> u8 list" where
  "utf8_bytes wch =
     (if wch < 0x80 then [ucast (wch AND 0xff)]
      else if wch < 0x800 then [ucast (0xc0 OR drop_bit 6 wch), ucast (0x80 OR (wch AND 0x3f))]
      else if wch < 0x10000
      then [ucast (0xe0 OR drop_bit 12 wch), ucast (0x80 OR (drop_bit 6 wch AND 0x3f)), ucast (0x80 OR (wch AND 0x3f))]
      else if wch < 0x200000
      then [ucast (0xf0 OR drop_bit 18 wch), ucast (0x80 OR (drop_bit 12 wch AND 0x3f)),
            ucast (0x80 OR (drop_bit 6 wch AND 0x3f)), ucast (0x80 OR (wch AND 0x3f))]
      else [])"

definition put_utf8 :: "allocator \<Rightarrow> u32 \<Rightarrow> nat \<Rightarrow> dispatch_transform_buffer \<Rightarrow> bool \<times> dispatch_transform_buffer" where
  "put_utf8 alloc wch next_size buffer =
     (if wch < 0x200000
      then (case dispatch_transform_buffer_new alloc buffer (length (utf8_bytes wch)) next_size of
              (False, buffer) \<Rightarrow> (False, buffer)
            | (True, buffer) \<Rightarrow> (True, tb_put (utf8_bytes wch) buffer))
      else (True, buffer))"

text \<open>The loop over a region of \<open>sz\<close> bytes; \<open>max_index\<close> counts a last odd byte as a unit.\<close>

function from_utf16_loop :: "allocator \<Rightarrow> dispatch_data \<Rightarrow> byte_order \<Rightarrow> nat \<Rightarrow> u8 list \<Rightarrow> nat \<Rightarrow> nat
    \<Rightarrow> nat \<times> dispatch_transform_buffer \<Rightarrow> bool \<times> nat \<times> dispatch_transform_buffer" where
  "from_utf16_loop alloc data byteOrder offset src max_index i (skip, buffer) =
     (if i < max_index
      then
        (case (if i = max_index - 1 \<and> length src div 2 < max_index
               then (case dispatch_data_subrange_map alloc data (offset + i * 2) 2 of
                       None \<Rightarrow> None
                     | Some p \<Rightarrow> Some (dispatch_transform_swap_to_host (load16 p 0) byteOrder, skip + 1))
               else Some (dispatch_transform_swap_to_host (load16 src (2 * i)) byteOrder, skip)) of
           None \<Rightarrow> (False, skip, buffer)
         | Some (ch, skip) \<Rightarrow>
             if ch = 0xfffe \<and> offset = 0 \<and> i = 0 then (False, skip, buffer)
             else if ch = 0xfeff \<and> offset = 0 \<and> i = 0
             then from_utf16_loop alloc data byteOrder offset src max_index (i + 1) (skip, buffer)
             else
               (case (if 0xd800 \<le> ch \<and> ch \<le> 0xdbff
                      then
                        (let wch = push_bit 10 (ucast ch - 0xd800 :: u32)
                         in case (if max_index \<le> i + 1
                                  then (case dispatch_data_subrange_map alloc data (offset + (i + 1) * 2) 2 of
                                          None \<Rightarrow> None
                                        | Some p \<Rightarrow> Some (dispatch_transform_swap_to_host (load16 p 0) byteOrder, skip + 2))
                                  else Some (dispatch_transform_swap_to_host (load16 src (2 * (i + 1))) byteOrder, skip)) of
                              None \<Rightarrow> None
                            | Some (ch, skip) \<Rightarrow>
                                if \<not> (0xdc00 \<le> ch \<and> ch \<le> 0xdfff) then None
                                else Some ((wch OR (ucast ch AND 0x3ff)) + 0x10000, i + 1, skip))
                      else if 0xdc00 \<le> ch \<and> ch \<le> 0xdfff then None
                      else Some (ucast ch, i, skip)) of
                  None \<Rightarrow> (False, skip, buffer)
                | Some (wch, i', skip) \<Rightarrow>
                    if SIZE_MAX < int ((max_index - i') * 2) then (False, skip, buffer)
                    else (case put_utf8 alloc wch ((max_index - i') * 2) buffer of
                            (False, buffer) \<Rightarrow> (False, skip, buffer)
                          | (True, buffer) \<Rightarrow>
                              from_utf16_loop alloc data byteOrder offset src max_index (i' + 1) (skip, buffer))))
      else (True, skip, buffer))"
  by pat_completeness auto
termination
  by (relation "measure (\<lambda>(_, _, _, _, _, max_index, i, _). max_index - i)")
    (auto split: if_splits option.splits simp: Let_def)

declare from_utf16_loop.simps [simp del]

definition from_utf16_region :: "allocator \<Rightarrow> dispatch_data \<Rightarrow> byte_order \<Rightarrow> (nat \<times> dispatch_transform_buffer) applier" where
  "from_utf16_region alloc data byteOrder st region offset bytes =
     (let (skip, buffer) = st;
          (ok, buffer) =
            (if offset = 0 then dispatch_transform_buffer_new alloc buffer (howmany (length bytes) 3 * 2) 0
             else (True, buffer))
      in if \<not> ok then (False, skip, buffer)
         else if length bytes \<le> skip then (True, skip - length bytes, buffer)
         else
           (let src = drop skip bytes;
                max_index = (if length src mod 2 \<noteq> 0 then length src div 2 + 1 else length src div 2)
            in case from_utf16_loop alloc data byteOrder offset src max_index 0 (0, buffer) of
                 (False, st) \<Rightarrow> (False, st)
               | (True, skip, buffer) \<Rightarrow> (True, skip, snd (dispatch_transform_buffer_new alloc buffer 0 0))))"

definition dispatch_transform_from_utf16 :: "allocator \<Rightarrow> dispatch_data \<Rightarrow> byte_order \<Rightarrow> dispatch_data option" where
  "dispatch_transform_from_utf16 alloc data byteOrder =
     (case dispatch_data_apply data (from_utf16_region alloc data byteOrder) (0, tb_empty) of
        (False, _) \<Rightarrow> None
      | (True, _, buffer) \<Rightarrow> Some (tb_data buffer))"

definition dispatch_transform_to_utf8_without_bom :: "allocator \<Rightarrow> dispatch_data \<Rightarrow> dispatch_data option" where
  "dispatch_transform_to_utf8_without_bom alloc data =
     (let has_bom = (case dispatch_data_subrange_map alloc data 0 3 of
            None \<Rightarrow> False
          | Some p \<Rightarrow> take 3 p = [0xef, 0xbb, 0xbf])
      in if has_bom then dispatch_data_create_subrange data 3 (dd_size data - 3) else Some data)"

section \<open>Formats and the entry point\<close>

text \<open>The members \<open>decode\<close> and \<open>encode\<close> may be null. They get the memory of \<open>malloc\<close> as well.\<close>

record dispatch_data_format_type =
  df_type :: u64
  df_input_mask :: u64
  df_output_mask :: u64
  df_decode :: "(allocator \<Rightarrow> dispatch_data \<Rightarrow> dispatch_data option) option"
  df_encode :: "(allocator \<Rightarrow> dispatch_data \<Rightarrow> dispatch_data option) option"

definition FORMAT_NONE :: u64 where "FORMAT_NONE = 0x1"
definition FORMAT_UTF8 :: u64 where "FORMAT_UTF8 = 0x2"
definition FORMAT_UTF16LE :: u64 where "FORMAT_UTF16LE = 0x4"
definition FORMAT_UTF16BE :: u64 where "FORMAT_UTF16BE = 0x8"
definition FORMAT_UTF_ANY :: u64 where "FORMAT_UTF_ANY = 0x10"
definition FORMAT_BASE32 :: u64 where "FORMAT_BASE32 = 0x20"
definition FORMAT_BASE32HEX :: u64 where "FORMAT_BASE32HEX = 0x40"
definition FORMAT_BASE64 :: u64 where "FORMAT_BASE64 = 0x80"

definition base_mask :: u64 where
  "base_mask = FORMAT_NONE OR FORMAT_BASE32 OR FORMAT_BASE32HEX OR FORMAT_BASE64"

definition utf_mask :: u64 where
  "utf_mask = FORMAT_UTF8 OR FORMAT_UTF16BE OR FORMAT_UTF16LE"

definition format_type_none :: dispatch_data_format_type where
  "format_type_none = \<lparr>df_type = FORMAT_NONE, df_input_mask = 0xffffffff, df_output_mask = 0xffffffff,
     df_decode = None, df_encode = None\<rparr>"

definition format_type_base32 :: dispatch_data_format_type where
  "format_type_base32 = \<lparr>df_type = FORMAT_BASE32, df_input_mask = base_mask, df_output_mask = base_mask,
     df_decode = Some dispatch_transform_from_base32, df_encode = Some dispatch_transform_to_base32\<rparr>"

definition format_type_base32hex :: dispatch_data_format_type where
  "format_type_base32hex = \<lparr>df_type = FORMAT_BASE32HEX, df_input_mask = base_mask, df_output_mask = base_mask,
     df_decode = Some dispatch_transform_from_base32hex, df_encode = Some dispatch_transform_to_base32hex\<rparr>"

definition format_type_base64 :: dispatch_data_format_type where
  "format_type_base64 = \<lparr>df_type = FORMAT_BASE64, df_input_mask = base_mask, df_output_mask = base_mask,
     df_decode = Some dispatch_transform_from_base64, df_encode = Some dispatch_transform_to_base64\<rparr>"

definition format_type_utf16le :: dispatch_data_format_type where
  "format_type_utf16le = \<lparr>df_type = FORMAT_UTF16LE, df_input_mask = utf_mask, df_output_mask = utf_mask,
     df_decode = Some (\<lambda>alloc data. dispatch_transform_from_utf16 alloc data OSLittleEndian),
     df_encode = Some (\<lambda>alloc data. dispatch_transform_to_utf16 alloc data OSLittleEndian)\<rparr>"

definition format_type_utf16be :: dispatch_data_format_type where
  "format_type_utf16be = \<lparr>df_type = FORMAT_UTF16BE, df_input_mask = utf_mask, df_output_mask = utf_mask,
     df_decode = Some (\<lambda>alloc data. dispatch_transform_from_utf16 alloc data OSBigEndian),
     df_encode = Some (\<lambda>alloc data. dispatch_transform_to_utf16 alloc data OSBigEndian)\<rparr>"

definition format_type_utf8 :: dispatch_data_format_type where
  "format_type_utf8 = \<lparr>df_type = FORMAT_UTF8, df_input_mask = utf_mask, df_output_mask = utf_mask,
     df_decode = None, df_encode = Some dispatch_transform_to_utf8_without_bom\<rparr>"

definition format_type_utf_any :: dispatch_data_format_type where
  "format_type_utf_any = \<lparr>df_type = FORMAT_UTF_ANY, df_input_mask = 0, df_output_mask = 0,
     df_decode = None, df_encode = None\<rparr>"

definition dispatch_transform_detect_utf :: "allocator \<Rightarrow> dispatch_data \<Rightarrow> dispatch_data_format_type option" where
  "dispatch_transform_detect_utf alloc data =
     (case dispatch_data_subrange_map alloc data 0 2 of
        None \<Rightarrow> None
      | Some p \<Rightarrow>
          (let ch = load16 p 0
           in Some (if ch = 0xfeff then format_type_utf16le
                    else if ch = 0xfffe then format_type_utf16be
                    else format_type_utf8)))"

text \<open>\<open>None\<close> is \<open>DISPATCH_BAD_INPUT\<close>, or the null object that an encoder returned.\<close>

definition dispatch_data_create_with_transform :: "allocator \<Rightarrow> dispatch_data \<Rightarrow> dispatch_data_format_type
    \<Rightarrow> dispatch_data_format_type \<Rightarrow> dispatch_data option" where
  "dispatch_data_create_with_transform alloc data input output =
     (case (if df_type input = FORMAT_UTF_ANY then dispatch_transform_detect_utf alloc data else Some input) of
        None \<Rightarrow> None
      | Some input \<Rightarrow>
          if df_type input AND NOT (df_input_mask output) \<noteq> 0 then None
          else if df_type output AND NOT (df_output_mask input) \<noteq> 0 then None
          else if dd_size data = 0 then Some data
          else
            (case (case df_decode input of Some decode \<Rightarrow> decode alloc data | None \<Rightarrow> Some data) of
               None \<Rightarrow> None
             | Some temp1 \<Rightarrow>
                 (case df_encode output of Some encode \<Rightarrow> encode alloc temp1 | None \<Rightarrow> Some temp1)))"

section \<open>UTF-8 sequences\<close>

lemma eval_bits32: "bits_of 32 x = [bit x 31, bit x 30, bit x 29, bit x 28, bit x 27, bit x 26, bit x 25, bit x 24,
    bit x 23, bit x 22, bit x 21, bit x 20, bit x 19, bit x 18, bit x 17, bit x 16, bit x 15, bit x 14, bit x 13,
    bit x 12, bit x 11, bit x 10, bit x 9, bit x 8, bit x 7, bit x 6, bit x 5, bit x 4, bit x 3, bit x 2, bit x 1, bit x 0]"
  by (simp add: bits_of_def numeral_eq_Suc)

lemma eq_bits32: "x = y \<longleftrightarrow> bits_of 32 x = bits_of 32 y" for x y :: u32
proof
  assume "bits_of 32 x = bits_of 32 y"
  then have "\<forall>n < 32. bit x n = bit y n" by (simp add: bits_of_def map_eq_conv)
  then show "x = y" by (intro bit_word_eqI) simp
qed simp

lemma eq_bits8: "x = y \<longleftrightarrow> bits_of 8 x = bits_of 8 y" for x y :: u8
  by (simp add: bits_of_inject)

lemma high_bits: "uint w < 2 ^ n \<Longrightarrow> n \<le> m \<Longrightarrow> \<not> bit w m" for w :: u32
proof -
  assume w: "uint w < 2 ^ n" "n \<le> m"
  have "take_bit n (uint w) = uint w" using w(1) by (simp add: take_bit_int_eq_self)
  then have "\<not> bit (uint w) m" using w(2) by (metis bit_take_bit_iff not_less)
  moreover have "bit w m \<Longrightarrow> m < 32" using bit_imp_le_length [of w m] by simp
  ultimately show "\<not> bit w m" by (auto simp: bit_uint_iff)
qed

lemma utf8_lengths:
  "\<not> bit c 7 \<Longrightarrow> dispatch_transform_utf8_length c = 1"
  "bit c 7 \<Longrightarrow> bit c 6 \<Longrightarrow> \<not> bit c 5 \<Longrightarrow> dispatch_transform_utf8_length c = 2"
  "bit c 7 \<Longrightarrow> bit c 6 \<Longrightarrow> bit c 5 \<Longrightarrow> \<not> bit c 4 \<Longrightarrow> dispatch_transform_utf8_length c = 3"
  "bit c 7 \<Longrightarrow> bit c 6 \<Longrightarrow> bit c 5 \<Longrightarrow> bit c 4 \<Longrightarrow> \<not> bit c 3 \<Longrightarrow> dispatch_transform_utf8_length c = 4"
  by (simp_all add: dispatch_transform_utf8_length_def eq_bits8 eval_bits bit_simps)

lemma utf8_continuation_numeral:
  "utf8_continuation bytes 2 wch = utf8_continuation bytes (Suc (Suc 0)) wch"
  "utf8_continuation bytes 3 wch = utf8_continuation bytes (Suc (Suc (Suc 0))) wch"
  by (simp_all only: numeral_2_eq_2 numeral_3_eq_3)

lemma read_utf8:
  "dispatch_transform_utf8_length b0 = 1 \<Longrightarrow> dispatch_transform_read_utf8_sequence (b0 # xs) = ucast b0 AND 0x7f"
  "dispatch_transform_utf8_length b0 = 2 \<Longrightarrow> dispatch_transform_read_utf8_sequence (b0 # b1 # xs) =
     push_bit 6 (ucast b0 AND 0x1f) OR (ucast b1 AND 0x3f)"
  "dispatch_transform_utf8_length b0 = 3 \<Longrightarrow> dispatch_transform_read_utf8_sequence (b0 # b1 # b2 # xs) =
     push_bit 6 (push_bit 6 (ucast b0 AND 0xf) OR (ucast b1 AND 0x3f)) OR (ucast b2 AND 0x3f)"
  "dispatch_transform_utf8_length b0 = 4 \<Longrightarrow> dispatch_transform_read_utf8_sequence (b0 # b1 # b2 # b3 # xs) =
     push_bit 6 (push_bit 6 (push_bit 6 (ucast b0 AND 0x7) OR (ucast b1 AND 0x3f)) OR (ucast b2 AND 0x3f))
       OR (ucast b3 AND 0x3f)"
  by (simp_all add: dispatch_transform_read_utf8_sequence_def Let_def utf8_continuation_numeral)

lemma utf8_bytes_read:
  assumes "c < 0x200000"
  shows "dispatch_transform_read_utf8_sequence (utf8_bytes c @ xs) = c
    \<and> unat (dispatch_transform_utf8_length ((utf8_bytes c @ xs) ! 0)) = length (utf8_bytes c)"
proof -
  consider "c < 0x80" | "\<not> c < 0x80" "c < 0x800" | "\<not> c < 0x80" "\<not> c < 0x800" "c < 0x10000"
    | "\<not> c < 0x80" "\<not> c < 0x800" "\<not> c < 0x10000" "c < 0x200000"
    using assms by blast
  then show ?thesis
  proof cases
    case 1
    then have h: "\<not> bit c n" if "7 \<le> n" for n using that high_bits [of c 7] by (simp add: word_less_def)
    have l: "dispatch_transform_utf8_length (ucast (c AND 0xff)) = 1"
      by (rule utf8_lengths(1)) (simp add: bit_simps h)
    have "dispatch_transform_read_utf8_sequence (utf8_bytes c @ xs) = c"
      using 1 by (simp add: utf8_bytes_def read_utf8(1) [OF l]) (simp add: eq_bits32 eval_bits32 bit_simps h)
    then show ?thesis using 1 l by (simp add: utf8_bytes_def)
  next
    case 2
    then have h: "\<not> bit c n" if "11 \<le> n" for n using that high_bits [of c 11] by (simp add: word_less_def)
    have l: "dispatch_transform_utf8_length (ucast (0xc0 OR drop_bit 6 c)) = 2"
      by (rule utf8_lengths(2)) (simp_all add: bit_simps h)
    have "dispatch_transform_read_utf8_sequence (utf8_bytes c @ xs) = c"
      using 2 by (simp add: utf8_bytes_def read_utf8(2) [OF l]) (simp add: eq_bits32 eval_bits32 bit_simps h)
    then show ?thesis using 2 l by (simp add: utf8_bytes_def)
  next
    case 3
    then have h: "\<not> bit c n" if "16 \<le> n" for n using that high_bits [of c 16] by (simp add: word_less_def)
    have l: "dispatch_transform_utf8_length (ucast (0xe0 OR drop_bit 12 c)) = 3"
      by (rule utf8_lengths(3)) (simp_all add: bit_simps h)
    have "dispatch_transform_read_utf8_sequence (utf8_bytes c @ xs) = c"
      using 3 by (simp add: utf8_bytes_def read_utf8(3) [OF l]) (simp add: eq_bits32 eval_bits32 bit_simps h)
    then show ?thesis using 3 l by (simp add: utf8_bytes_def)
  next
    case 4
    then have h: "\<not> bit c n" if "21 \<le> n" for n using that high_bits [of c 21] by (simp add: word_less_def)
    have l: "dispatch_transform_utf8_length (ucast (0xf0 OR drop_bit 18 c)) = 4"
      by (rule utf8_lengths(4)) (simp_all add: bit_simps h)
    have "dispatch_transform_read_utf8_sequence (utf8_bytes c @ xs) = c"
      using 4 by (simp add: utf8_bytes_def read_utf8(4) [OF l]) (simp add: eq_bits32 eval_bits32 bit_simps h)
    then show ?thesis using 4 l by (simp add: utf8_bytes_def)
  qed
qed

section \<open>The buffer as a sequence of bytes\<close>

definition tb_content :: "dispatch_transform_buffer \<Rightarrow> u8 list" where
  "tb_content b = data_bytes (tb_data b) @ (case tb_start b of None \<Rightarrow> [] | Some start \<Rightarrow> take (tb_ptr b) start)"

definition tb_ok :: "dispatch_transform_buffer \<Rightarrow> bool" where
  "tb_ok b \<longleftrightarrow> data_ok (tb_data b)
     \<and> (case tb_start b of None \<Rightarrow> tb_ptr b = 0 \<and> tb_size b = 0
        | Some start \<Rightarrow> length start = tb_size b \<and> tb_ptr b \<le> tb_size b)"

lemma tb_empty_ok [simp]: "tb_ok tb_empty" "tb_content tb_empty = []"
  by (simp_all add: tb_empty_def tb_ok_def tb_content_def)

lemma buffer_new_spec:
  assumes "tb_ok b" "alloc_ok alloc" "int (required + sz) \<le> BUFFER_MALLOC_MAX"
  shows "\<exists>b'. dispatch_transform_buffer_new alloc b required sz = (True, b') \<and> tb_ok b'
    \<and> tb_content b' = tb_content b \<and> required \<le> tb_size b' - tb_ptr b'
    \<and> (required = 0 \<and> sz = 0 \<longrightarrow> tb_start b' = None)"
proof (cases "required = 0 \<or> tb_size b - tb_ptr b < required")
  case True
  define data where "data = (case tb_start b of None \<Rightarrow> tb_data b
      | Some start \<Rightarrow> if 0 < tb_ptr b then dispatch_data_create_concat (tb_data b)
          (fst (dispatch_data_create (Some start) (tb_ptr b) None DESTRUCTOR_FREE)) else tb_data b)"
  have data: "data_ok data" "data_bytes data = tb_content b"
    using assms(1) create_spec [of "tb_ptr b" "the (tb_start b)" None DESTRUCTOR_FREE] concat_spec [of "tb_data b"]
    by (auto simp: data_def tb_ok_def tb_content_def split: option.splits)
  obtain m where m: "alloc (required + sz) = Some m" "length m = required + sz"
    using assms(2) by (auto simp: alloc_ok_def)
  let ?b = "if 0 < required + sz then b\<lparr>tb_data := data, tb_size := required + sz, tb_start := Some m, tb_ptr := 0\<rparr>
    else b\<lparr>tb_data := data, tb_size := required + sz, tb_start := None, tb_ptr := 0\<rparr>"
  have "dispatch_transform_buffer_new alloc b required sz = (True, ?b)"
    using True m assms(3) by (simp add: dispatch_transform_buffer_new_def data_def [symmetric] Let_def)
  then show ?thesis using data m by (intro exI [of _ ?b]) (simp add: tb_ok_def tb_content_def)
next
  case False
  then show ?thesis using assms(1) by (simp add: dispatch_transform_buffer_new_def)
qed

lemma tb_put_spec:
  assumes "tb_ok b" "length vs \<le> tb_size b - tb_ptr b" "vs \<noteq> []"
  shows "tb_ok (tb_put vs b) \<and> tb_content (tb_put vs b) = tb_content b @ vs"
proof -
  have "tb_size b \<noteq> 0" using assms(2,3) by (cases vs) auto
  then obtain start where s: "tb_start b = Some start" "length start = tb_size b" "tb_ptr b \<le> tb_size b"
    using assms(1) by (auto simp: tb_ok_def split: option.splits)
  have "written (take (tb_ptr b) start) (tb_size b) (start, tb_ptr b)"
    using s unfolding written_def by (intro exI [of _ "drop (tb_ptr b) start"]) simp
  moreover have "length (take (tb_ptr b) start) + length vs \<le> tb_size b" using assms(2) s by simp
  ultimately obtain rest where
    "put_bytes vs (start, tb_ptr b) = (take (tb_ptr b) start @ vs @ rest, length (take (tb_ptr b) start @ vs))"
    "length (take (tb_ptr b) start @ vs @ rest) = tb_size b"
    using put_bytes_written [of "take (tb_ptr b) start" "tb_size b" "(start, tb_ptr b)" vs] by (auto simp: written_def)
  then show ?thesis using assms(1) s by (auto simp: tb_put_def tb_ok_def tb_content_def min_def)
qed

text \<open>Making room and writing, as both directions do for every character.\<close>

lemma buffer_emit:
  assumes "tb_ok b" "alloc_ok alloc" "int (length vs + sz) \<le> BUFFER_MALLOC_MAX" "vs \<noteq> []"
  shows "\<exists>b'. (case dispatch_transform_buffer_new alloc b (length vs) sz of
        (False, b) \<Rightarrow> (False, b) | (True, b) \<Rightarrow> (True, tb_put vs b)) = (True, b')
    \<and> tb_ok b' \<and> tb_content b' = tb_content b @ vs"
proof -
  obtain b' where b': "dispatch_transform_buffer_new alloc b (length vs) sz = (True, b')" "tb_ok b'"
      "tb_content b' = tb_content b" "length vs \<le> tb_size b' - tb_ptr b'"
    using buffer_new_spec [OF assms(1-3)] by blast
  then show ?thesis using tb_put_spec [OF b'(2,4) assms(4)] by simp
qed

lemma buffer_flush:
  assumes "tb_ok b"
  shows "data_ok (tb_data (snd (dispatch_transform_buffer_new alloc b 0 0)))
    \<and> data_bytes (tb_data (snd (dispatch_transform_buffer_new alloc b 0 0))) = tb_content b"
  using assms create_spec [of "tb_ptr b" "the (tb_start b)" None DESTRUCTOR_FREE] concat_spec [of "tb_data b"]
  by (auto simp: dispatch_transform_buffer_new_def tb_ok_def tb_content_def Let_def split: option.splits)

section \<open>From UTF-8 to UTF-16\<close>

text \<open>The Unicode scalar values, and the encodings of a text.\<close>

definition scalar :: "u32 \<Rightarrow> bool" where
  "scalar c \<longleftrightarrow> c < 0x110000 \<and> \<not> (0xd800 \<le> c \<and> c \<le> 0xdfff)"

definition utf8_text :: "u32 list \<Rightarrow> u8 list" where
  "utf8_text cs = concat (map utf8_bytes cs)"

definition utf16_text :: "byte_order \<Rightarrow> u32 list \<Rightarrow> u8 list" where
  "utf16_text byteOrder cs = concat (map (utf16_bytes byteOrder) cs)"

lemma text_simps [simp]: "utf8_text [] = []" "utf8_text (c # cs) = utf8_bytes c @ utf8_text cs"
    "utf16_text byteOrder [] = []" "utf16_text byteOrder (c # cs) = utf16_bytes byteOrder c @ utf16_text byteOrder cs"
  by (simp_all add: utf8_text_def utf16_text_def)

lemma scalar_small: "scalar c \<Longrightarrow> c < 0x200000"
  by (auto simp: scalar_def word_less_def)

lemma utf8_bytes_length: "c < 0x200000 \<Longrightarrow> 0 < length (utf8_bytes c) \<and> length (utf8_bytes c) \<le> 4"
  by (simp add: utf8_bytes_def)

lemma utf16_bytes_length: "0 < length (utf16_bytes byteOrder c) \<and> length (utf16_bytes byteOrder c) \<le> 4"
  by (simp add: utf16_bytes_def store16_def Let_def)

lemma feff_length: "length (utf8_bytes 0xfeff) = 3"
  by (simp add: utf8_bytes_def)

lemma to_utf16_loop_spec:
  assumes "alloc_ok alloc" "list_all scalar cs" "src = pre @ utf8_text cs" "tb_ok b"
    "int (2 * length src + 4) \<le> BUFFER_MALLOC_MAX" "pre \<noteq> [] \<or> cs = [] \<or> hd cs \<noteq> 0xfeff"
  shows "\<exists>b'. to_utf16_loop alloc data byteOrder 0 src (length pre) (skip, b) = (True, skip, b')
    \<and> tb_ok b' \<and> tb_content b' = tb_content b @ utf16_text byteOrder cs"
  using assms(2-)
proof (induction cs arbitrary: pre b)
  case Nil
  then show ?case by (simp add: to_utf16_loop.simps)
next
  case (Cons c cs)
  let ?n = "length (utf8_bytes c)"
  have c: "scalar c" "c < 0x200000" using Cons.prems(1) scalar_small by simp_all
  have n: "0 < ?n" "?n \<le> 4" using utf8_bytes_length [OF c(2)] by simp_all
  have d: "drop (length pre) src = utf8_bytes c @ utf8_text cs" using Cons.prems(2) by simp
  have src: "src ! length pre = (utf8_bytes c @ utf8_text cs) ! 0"
    using Cons.prems(2) n by (simp add: nth_append)
  have len: "length pre < length src" "\<not> length src < ?n + length pre" using Cons.prems(2) n by simp_all
  note rd = utf8_bytes_read [OF c(2), of "utf8_text cs"]
  have bom: "\<not> (c = 0xfeff \<and> length pre + ?n = 3)"
    using Cons.prems(5) n feff_length by auto
  have sur: "\<not> (0xd800 \<le> c \<and> c < 0xdfff)" using c(1) by (auto simp: scalar_def)
  have size: "\<not> SIZE_MAX < int ((length src - (length pre + ?n)) * 2)"
    using Cons.prems(4) by (simp add: SIZE_MAX_def BUFFER_MALLOC_MAX_def)
  have "int (length (utf16_bytes byteOrder c) + (length src - (length pre + ?n)) * 2) \<le> BUFFER_MALLOC_MAX"
    using Cons.prems(4) utf16_bytes_length [of byteOrder c] by linarith
  from buffer_emit [OF Cons.prems(3) assms(1) this] obtain b' where
    b': "put_utf16 alloc byteOrder c ((length src - (length pre + ?n)) * 2) b = (True, b')" "tb_ok b'"
      "tb_content b' = tb_content b @ utf16_bytes byteOrder c"
    using utf16_bytes_length [of byteOrder c] by (auto simp: put_utf16_def)
  have "\<exists>b''. to_utf16_loop alloc data byteOrder 0 src (length (pre @ utf8_bytes c)) (skip, b') = (True, skip, b'')
    \<and> tb_ok b'' \<and> tb_content b'' = tb_content b' @ utf16_text byteOrder cs"
    by (rule Cons.IH) (use Cons.prems b'(2) n in auto)
  moreover have "to_utf16_loop alloc data byteOrder 0 src (length pre) (skip, b) =
      to_utf16_loop alloc data byteOrder 0 src (length (pre @ utf8_bytes c)) (skip, b')"
    by (subst to_utf16_loop.simps) (use n(1) rd d size b'(1) in \<open>simp add: src Let_def len bom sur\<close>)
  ultimately show ?case using b'(3) by simp
qed

lemma to_utf16_spec:
  assumes "data_ok data" "alloc_ok alloc" "contiguous data" "data_bytes data = utf8_text cs" "list_all scalar cs"
    "cs \<noteq> []" "hd cs \<noteq> 0xfeff" "int (2 * dd_size data + 4) \<le> BUFFER_MALLOC_MAX"
  shows "\<exists>d. dispatch_transform_to_utf16 alloc data byteOrder = Some d \<and> data_ok d
    \<and> data_bytes d = utf16_text byteOrder (0xfeff # cs)"
proof -
  let ?bs = "utf8_text cs" and ?bom = "store16 (dispatch_transform_swap_from_host 0xfeff byteOrder)"
  have len: "length ?bs = dd_size data" using length_data_bytes [OF assms(1)] assms(4) by simp
  have "?bs \<noteq> []"
    using assms(5,6) utf8_bytes_length [OF scalar_small, of "hd cs"] by (cases cs) auto
  then have "dd_size data \<noteq> 0" using len by (metis length_0_conv)
  then have reg: "data_regions data = [(data, 0, ?bs)]"
    using assms(3,4) by (simp add: data_regions_def)
  have "int (length ?bs * 2 + 2 + 0) \<le> BUFFER_MALLOC_MAX" using assms(8) len by linarith
  from buffer_new_spec [OF tb_empty_ok(1) assms(2) this] obtain b where
    b: "dispatch_transform_buffer_new alloc tb_empty (length ?bs * 2 + 2) 0 = (True, b)" "tb_ok b" "tb_content b = []"
      "length ?bs * 2 + 2 \<le> tb_size b - tb_ptr b" by auto
  have bom: "tb_ok (tb_put ?bom b)" "tb_content (tb_put ?bom b) = ?bom"
    using tb_put_spec [OF b(2), of ?bom] b(3,4) by (simp_all add: store16_def)
  have "\<exists>b'. to_utf16_loop alloc data byteOrder 0 ?bs (length ([] :: u8 list)) (0, tb_put ?bom b) = (True, 0, b') \<and> tb_ok b'
    \<and> tb_content b' = tb_content (tb_put ?bom b) @ utf16_text byteOrder cs"
    by (rule to_utf16_loop_spec [OF assms(2,5)]) (use assms(7,8) bom(1) len in simp_all)
  then obtain b' where loop: "to_utf16_loop alloc data byteOrder 0 ?bs 0 (0, tb_put ?bom b) = (True, 0, b')" "tb_ok b'"
      "tb_content b' = ?bom @ utf16_text byteOrder cs" using bom(2) by auto
  have "\<not> SIZE_MAX < int (length ?bs * 2 + 2)" using assms(8) len by (simp add: SIZE_MAX_def BUFFER_MALLOC_MAX_def)
  then have "dispatch_transform_to_utf16 alloc data byteOrder = Some (tb_data (snd (dispatch_transform_buffer_new alloc b' 0 0)))"
    using b(1) loop(1) \<open>?bs \<noteq> []\<close>
    by (simp add: dispatch_transform_to_utf16_def dispatch_data_apply_regions [OF assms(1)] reg to_utf16_region_def)
  moreover have "utf16_bytes byteOrder 0xfeff = ?bom" by (simp add: utf16_bytes_def)
  ultimately show ?thesis using buffer_flush [OF loop(2), of alloc] loop(3) by simp
qed

section \<open>From UTF-16 to UTF-8\<close>

definition utf16_units :: "u32 \<Rightarrow> u16 list" where
  "utf16_units c =
     (if 0x10000 \<le> c
      then [ucast ((drop_bit 10 (c - 0x10000) AND 0x3ff) + 0xd800), ucast ((c - 0x10000 AND 0x3ff) + 0xdc00)]
      else [ucast (c AND 0xffff)])"

definition units_bytes :: "byte_order \<Rightarrow> u16 list \<Rightarrow> u8 list" where
  "units_bytes byteOrder us = concat (map (\<lambda>u. store16 (dispatch_transform_swap_from_host u byteOrder)) us)"

lemma units_bytes_simps [simp]:
  "units_bytes byteOrder [] = []"
  "units_bytes byteOrder (u # us) = store16 (dispatch_transform_swap_from_host u byteOrder) @ units_bytes byteOrder us"
  "units_bytes byteOrder (us @ vs) = units_bytes byteOrder us @ units_bytes byteOrder vs"
  by (simp_all add: units_bytes_def)

lemma utf16_bytes_units: "utf16_bytes byteOrder c = units_bytes byteOrder (utf16_units c)"
  by (simp add: utf16_bytes_def utf16_units_def Let_def)

lemma utf16_text_units: "utf16_text byteOrder cs = units_bytes byteOrder (concat (map utf16_units cs))"
  by (induction cs) (simp_all add: utf16_bytes_units)

lemma length_units_bytes [simp]: "length (units_bytes byteOrder us) = 2 * length us"
  by (induction us) (simp_all add: store16_def)

lemma eval_bits16: "bits_of 16 x = [bit x 15, bit x 14, bit x 13, bit x 12, bit x 11, bit x 10, bit x 9, bit x 8,
    bit x 7, bit x 6, bit x 5, bit x 4, bit x 3, bit x 2, bit x 1, bit x 0]"
  by (simp add: bits_of_def numeral_eq_Suc)

lemma eq_bits16: "x = y \<longleftrightarrow> bits_of 16 x = bits_of 16 y" for x y :: u16
proof
  assume "bits_of 16 x = bits_of 16 y"
  then have "\<forall>n < 16. bit x n = bit y n" by (simp add: bits_of_def map_eq_conv)
  then show "x = y" by (intro bit_word_eqI) simp
qed simp

lemma no_bit_u16: "16 \<le> n \<Longrightarrow> \<not> bit (x :: u16) n"
  by (auto dest: bit_imp_le_length)

lemma load_store: "dispatch_transform_swap_to_host (load16 (store16 (dispatch_transform_swap_from_host u byteOrder) @ xs) 0) byteOrder = u"
proof -
  have "load16 (store16 x @ xs) 0 = x" for x
    by (simp add: load16_def store16_def eq_bits16 eval_bits16 bit_simps)
  moreover have "swap16 (swap16 u) = u"
    by (simp add: swap16_def eq_bits16 eval_bits16 bit_simps no_bit_u16)
  ultimately show ?thesis by (simp add: dispatch_transform_swap_to_host_def dispatch_transform_swap_from_host_def)
qed

lemma load_units:
  "i < length us \<Longrightarrow> dispatch_transform_swap_to_host (load16 (units_bytes byteOrder us) (2 * i)) byteOrder = us ! i"
proof (induction us arbitrary: i)
  case (Cons u us)
  show ?case
  proof (cases i)
    case 0
    then show ?thesis by (simp add: load_store)
  next
    case (Suc i')
    have "load16 (units_bytes byteOrder (u # us)) (2 * Suc i') = load16 (units_bytes byteOrder us) (2 * i')"
      by (simp add: load16_def store16_def)
    then show ?thesis using Cons Suc by simp
  qed
qed simp

lemma and_3ff: "uint (x AND 0x3ff :: u32) < 1024"
proof -
  have "x AND 0x3ff \<le> 0x3ff" by (rule word_and_le1)
  then show ?thesis by (simp add: word_le_def)
qed

lemma surrogate_unit:
  fixes a :: u32
  assumes "uint a < 1024" "uint base = 0xd800 \<or> uint base = 0xdc00"
  shows "uint (ucast (a + base) :: u16) = uint a + uint base"
    "ucast (ucast (a + base) :: u16) = a + base" "uint (a + base) = uint a + uint base"
proof -
  show s: "uint (a + base) = uint a + uint base" using assms by (auto simp: uint_plus_if')
  have "uint a + uint base < 65536" using assms by auto
  then show u: "uint (ucast (a + base) :: u16) = uint a + uint base"
    using s by (simp add: unsigned_ucast_eq take_bit_eq_mod)
  have "uint (ucast x :: u32) = uint x" for x :: u16
    by (rule uint_up_ucast) (simp add: is_up)
  then show "ucast (ucast (a + base) :: u16) = a + base"
    using u s by (simp add: word_uint_eq_iff del: unsigned_ucast_eq)
qed

lemma mask_3ff: "x AND 0x3ff = take_bit 10 x" for x :: u32
  by (simp add: take_bit_eq_mask mask_numeral)

lemma low_surrogate_bits: "(x AND 0x3ff) + 0xdc00 AND 0x3ff = x AND 0x3ff" for x :: u32
proof -
  have s: "uint ((x AND 0x3ff) + 0xdc00) = uint (x AND 0x3ff) + 0xdc00"
    using surrogate_unit(3) [of "x AND 0x3ff" "0xdc00"] and_3ff [of x] by simp
  have t: "uint (take_bit 10 w) = uint w mod 1024" for w :: u32
    by (subst unsigned_take_bit_eq) (simp add: take_bit_eq_mod)
  have m: "(n + 0xdc00) mod 1024 = n mod 1024" for n :: int
    using mod_mult_self1 [of n 55 1024] by simp
  have "uint (take_bit 10 ((x AND 0x3ff) + 0xdc00)) = uint (x AND 0x3ff) mod 1024" by (simp only: s t m)
  also have "\<dots> = uint (x AND 0x3ff)" using and_3ff [of x] by simp
  finally show ?thesis by (simp only: mask_3ff [of "(x AND 0x3ff) + 0xdc00"] word_uint_eq_iff)
qed

lemma surrogates_join:
  fixes d :: u32
  assumes "uint d < 2 ^ 20"
  shows "push_bit 10 (drop_bit 10 d AND 0x3ff) OR (d AND 0x3ff) = d"
proof -
  have h: "\<not> bit d n" if "20 \<le> n" for n using high_bits [OF assms that] .
  show ?thesis by (simp add: eq_bits32 eval_bits32 bit_simps h)
qed

text \<open>What the units of a character are to the decoder.\<close>

lemma units_cases:
  assumes "scalar c"
  obtains (one) u where "utf16_units c = [u]" "\<not> (0xd800 \<le> u \<and> u \<le> 0xdbff)" "\<not> (0xdc00 \<le> u \<and> u \<le> 0xdfff)"
      "ucast u = c"
  | (two) h l where "utf16_units c = [h, l]" "0xd800 \<le> h \<and> h \<le> 0xdbff" "0xdc00 \<le> l \<and> l \<le> 0xdfff"
      "(push_bit 10 (ucast h - 0xd800 :: u32) OR (ucast l AND 0x3ff)) + 0x10000 = c"
proof (cases "0x10000 \<le> c")
  case False
  have "c AND 0xffff = take_bit 16 c" by (simp add: take_bit_eq_mask mask_numeral)
  moreover have "take_bit 16 c = c" using False by (simp add: word_uint_eq_iff unsigned_take_bit_eq take_bit_int_eq_self_iff word_le_def)
  ultimately have low: "c AND 0xffff = c" by simp
  have u: "uint (ucast c :: u16) = uint c"
    using False by (simp add: unsigned_ucast_eq take_bit_int_eq_self_iff word_le_def)
  have "ucast (ucast c :: u16) = c"
    using u uint_up_ucast [of "ucast c :: u16", where 'b = 32] by (simp add: word_uint_eq_iff is_up)
  then show thesis
    using False assms low u by (intro one [of "ucast c"]) (auto simp: utf16_units_def scalar_def word_le_def)
next
  case True
  let ?d = "c - 0x10000"
  have d: "uint ?d = uint c - 0x10000" using True by (simp add: uint_sub_if' word_le_def)
  then have small: "uint ?d < 2 ^ 20" using assms by (simp add: scalar_def word_less_def)
  let ?h = "(drop_bit 10 ?d AND 0x3ff) + 0xd800" and ?l = "(?d AND 0x3ff) + 0xdc00"
  have "uint (0xd800 :: u32) = 0xd800 \<or> uint (0xd800 :: u32) = 0xdc00"
    "uint (0xdc00 :: u32) = 0xd800 \<or> uint (0xdc00 :: u32) = 0xdc00" by simp_all
  note h = surrogate_unit [OF and_3ff this(1), of "drop_bit 10 ?d"]
    and l = surrogate_unit [OF and_3ff this(2), of ?d]
  have "(push_bit 10 (ucast (ucast ?h :: u16) - 0xd800 :: u32) OR (ucast (ucast ?l :: u16) AND 0x3ff)) + 0x10000 = c"
    by (simp only: h(2) l(2) low_surrogate_bits add_diff_cancel surrogates_join [OF small] diff_add_cancel)
  moreover have "utf16_units c = [ucast ?h, ucast ?l]" using True by (simp add: utf16_units_def)
  moreover have "0xd800 \<le> (ucast ?h :: u16) \<and> (ucast ?h :: u16) \<le> 0xdbff"
    using h(1) and_3ff [of "drop_bit 10 ?d"] by (simp add: word_le_def)
  moreover have "0xdc00 \<le> (ucast ?l :: u16) \<and> (ucast ?l :: u16) \<le> 0xdfff"
    using l(1) and_3ff [of ?d] by (simp add: word_le_def)
  ultimately show thesis by (intro two)
qed

lemma from_utf16_loop_spec:
  assumes "alloc_ok alloc" "list_all scalar cs" "us = pre @ concat (map utf16_units cs)" "tb_ok b" "pre \<noteq> []"
    "int (2 * length us + 4) \<le> BUFFER_MALLOC_MAX"
  shows "\<exists>b'. from_utf16_loop alloc data byteOrder 0 (units_bytes byteOrder us) (length us) (length pre) (skip, b)
      = (True, skip, b')
    \<and> tb_ok b' \<and> tb_content b' = tb_content b @ utf8_text cs"
  using assms(2-)
proof (induction cs arbitrary: pre b)
  case Nil
  then show ?case by (simp add: from_utf16_loop.simps)
next
  case (Cons c cs)
  have c: "scalar c" using Cons.prems(1) by simp
  let ?i = "length pre" and ?n = "length (utf16_units c)"
  have us: "us = pre @ utf16_units c @ concat (map utf16_units cs)" using Cons.prems(2) by simp
  have n: "0 < ?n" "?n \<le> 2" by (simp_all add: utf16_units_def)
  have len: "?i < length us" "?i + ?n \<le> length us" "?i \<noteq> 0" using us n Cons.prems(4) by simp_all
  have size: "\<not> SIZE_MAX < int ((length us - (?i + ?n - 1)) * 2)"
    using Cons.prems(5) by (simp add: SIZE_MAX_def BUFFER_MALLOC_MAX_def)
  have "int (length (utf8_bytes c) + (length us - (?i + ?n - 1)) * 2) \<le> BUFFER_MALLOC_MAX"
    using Cons.prems(5) utf8_bytes_length [OF scalar_small [OF c]] by linarith
  from buffer_emit [OF Cons.prems(3) assms(1) this] obtain b' where
    b': "put_utf8 alloc c ((length us - (?i + ?n - 1)) * 2) b = (True, b')" "tb_ok b'"
      "tb_content b' = tb_content b @ utf8_bytes c"
    using utf8_bytes_length [OF scalar_small [OF c]] scalar_small [OF c] by (auto simp: put_utf8_def)
  have ih: "\<exists>b''. from_utf16_loop alloc data byteOrder 0 (units_bytes byteOrder us) (length us)
        (length (pre @ utf16_units c)) (skip, b') = (True, skip, b'')
      \<and> tb_ok b'' \<and> tb_content b'' = tb_content b' @ utf8_text cs"
    by (rule Cons.IH) (use Cons.prems b'(2) in auto)
  have ld: "dispatch_transform_swap_to_host (load16 (units_bytes byteOrder us) (2 * (?i + k))) byteOrder = utf16_units c ! k"
    if "k < ?n" for k
    using load_units [of "?i + k" us byteOrder] that us len by (simp add: nth_append)
  have "from_utf16_loop alloc data byteOrder 0 (units_bytes byteOrder us) (length us) ?i (skip, b) =
      from_utf16_loop alloc data byteOrder 0 (units_bytes byteOrder us) (length us) (length (pre @ utf16_units c)) (skip, b')"
    using c
  proof (cases rule: units_cases)
    case (one u)
    have "dispatch_transform_swap_to_host (load16 (units_bytes byteOrder us) (2 * ?i)) byteOrder = u"
      using ld [of 0] one(1) by simp
    then show ?thesis using b'(1) len size one(1)
      by (subst from_utf16_loop.simps) (simp add: one(2-4))
  next
    case (two h l)
    have "dispatch_transform_swap_to_host (load16 (units_bytes byteOrder us) (2 * ?i)) byteOrder = h"
      "dispatch_transform_swap_to_host (load16 (units_bytes byteOrder us) (2 * (?i + 1))) byteOrder = l"
      using ld [of 0] ld [of 1] two(1) by simp_all
    then show ?thesis using b'(1) len size two(1)
      by (subst from_utf16_loop.simps) (simp add: Let_def two(2-4))
  qed
  then show ?case using ih b'(3) by simp
qed

lemma length_store16 [simp]: "length (store16 x) = 2"
  by (simp add: store16_def)

lemma from_utf16_spec:
  assumes "data_ok data" "alloc_ok alloc" "contiguous data" "data_bytes data = utf16_text byteOrder (0xfeff # cs)"
    "list_all scalar cs" "int (dd_size data + 4) \<le> BUFFER_MALLOC_MAX"
  shows "\<exists>d. dispatch_transform_from_utf16 alloc data byteOrder = Some d \<and> data_ok d \<and> data_bytes d = utf8_text cs"
proof -
  let ?us = "0xfeff # concat (map utf16_units cs)"
  have feff: "utf16_units 0xfeff = [0xfeff]" by (simp add: utf16_units_def)
  have bs: "data_bytes data = units_bytes byteOrder ?us"
    using assms(4) by (simp only: utf16_text_units list.map concat.simps feff append_Cons append_Nil)
  have len: "2 * length ?us = dd_size data" using length_data_bytes [OF assms(1)] bs by (simp only: length_units_bytes)
  then have "dd_size data \<noteq> 0" by auto
  then have reg: "data_regions data = [(data, 0, units_bytes byteOrder ?us)]"
    using assms(3) bs by (simp add: data_regions_def)
  have "int (howmany (2 * length ?us) 3 * 2 + 0) \<le> BUFFER_MALLOC_MAX"
    using assms(6) len by (auto simp: howmany_def)
  from buffer_new_spec [OF tb_empty_ok(1) assms(2) this] obtain b where
    b: "dispatch_transform_buffer_new alloc tb_empty (howmany (2 * length ?us) 3 * 2) 0 = (True, b)" "tb_ok b"
      "tb_content b = []" by auto
  have ld: "dispatch_transform_swap_to_host (load16 (units_bytes byteOrder ?us) 0) byteOrder = 0xfeff"
    using load_units [of 0 ?us byteOrder] by simp
  have "\<exists>b'. from_utf16_loop alloc data byteOrder 0 (units_bytes byteOrder ?us) (length ?us) (length [0xfeff :: u16]) (0, b)
      = (True, 0, b') \<and> tb_ok b' \<and> tb_content b' = tb_content b @ utf8_text cs"
    by (rule from_utf16_loop_spec [OF assms(2,5)]) (use assms(6) len b(2) in simp_all)
  then obtain b' where b': "from_utf16_loop alloc data byteOrder 0 (units_bytes byteOrder ?us) (length ?us) 1 (0, b)
      = (True, 0, b')" "tb_ok b'" "tb_content b' = utf8_text cs" using b(3) by auto
  have "from_utf16_loop alloc data byteOrder 0 (units_bytes byteOrder ?us) (length ?us) 0 (0, b) = (True, 0, b')"
    using ld b'(1) by (subst from_utf16_loop.simps) simp
  then have "dispatch_transform_from_utf16 alloc data byteOrder = Some (tb_data (snd (dispatch_transform_buffer_new alloc b' 0 0)))"
    using b(1) by (simp add: dispatch_transform_from_utf16_def dispatch_data_apply_regions [OF assms(1)] reg
      from_utf16_region_def del: units_bytes_simps)
  then show ?thesis using buffer_flush [OF b'(2), of alloc] b'(3) by simp
qed

text \<open>A text that does not begin with a byte order mark keeps its bytes when it is encoded as UTF-8.\<close>

lemma without_bom_spec:
  assumes "data_ok data" "alloc_ok alloc" "data_bytes data = utf8_text cs" "list_all scalar cs" "cs \<noteq> []" "hd cs \<noteq> 0xfeff"
  shows "dispatch_transform_to_utf8_without_bom alloc data = Some data"
proof (cases "3 \<le> dd_size data")
  case False
  obtain d where d: "dispatch_data_create_subrange data 0 3 = Some d" "data_ok d" "data_bytes d = take 3 (data_bytes data)"
    using subrange_spec [OF assms(1), of 0 3] by auto
  then have "dd_size d \<noteq> 3" using False length_data_bytes [OF d(2)] length_data_bytes [OF assms(1)] by simp
  then show ?thesis using d(1) by (simp add: dispatch_transform_to_utf8_without_bom_def dispatch_data_subrange_map_def)
next
  case True
  then obtain p where p: "dispatch_data_subrange_map alloc data 0 3 = Some p" "take 3 p = take 3 (utf8_text cs)"
    using subrange_map_spec [OF assms(1,2), of 0 3] assms(3) by auto
  obtain c cs' where cs: "cs = c # cs'" using assms(5) by (cases cs) auto
  have "take 3 p \<noteq> [0xef, 0xbb, 0xbf]"
  proof
    assume "take 3 p = [0xef, 0xbb, 0xbf]"
    then have "utf8_text cs = 0xef # 0xbb # 0xbf # drop 3 (utf8_text cs)"
      using p(2) append_take_drop_id [of 3 "utf8_text cs"] by simp
    moreover have "dispatch_transform_read_utf8_sequence (0xef # 0xbb # 0xbf # xs) = 0xfeff" for xs
      by (simp add: read_utf8(3) dispatch_transform_utf8_length_def)
    ultimately have "dispatch_transform_read_utf8_sequence (utf8_text cs) = 0xfeff" by metis
    then show False
      using utf8_bytes_read [of c "utf8_text cs'"] scalar_small [of c] assms(4,6) cs by simp
  qed
  then show ?thesis using p(1) by (simp add: dispatch_transform_to_utf8_without_bom_def)
qed

definition utf16_format :: "byte_order \<Rightarrow> dispatch_data_format_type" where
  "utf16_format byteOrder = (if byteOrder = OSLittleEndian then format_type_utf16le else format_type_utf16be)"

lemma utf_masks: "FORMAT_UTF8 AND NOT utf_mask = 0" "FORMAT_UTF16LE AND NOT utf_mask = 0" "FORMAT_UTF16BE AND NOT utf_mask = 0"
  by (auto simp: utf_mask_def bit_eq_iff bit_simps)

lemma utf_not_any: "FORMAT_UTF8 \<noteq> FORMAT_UTF_ANY" "FORMAT_UTF16LE \<noteq> FORMAT_UTF_ANY" "FORMAT_UTF16BE \<noteq> FORMAT_UTF_ANY"
  by (simp_all add: FORMAT_UTF8_def FORMAT_UTF16LE_def FORMAT_UTF16BE_def FORMAT_UTF_ANY_def)

lemma utf_formats:
  "df_type format_type_utf8 = FORMAT_UTF8" "df_input_mask format_type_utf8 = utf_mask"
  "df_output_mask format_type_utf8 = utf_mask" "df_decode format_type_utf8 = None"
  "df_encode format_type_utf8 = Some dispatch_transform_to_utf8_without_bom"
  "df_type (utf16_format byteOrder) \<noteq> FORMAT_UTF_ANY" "df_type (utf16_format byteOrder) AND NOT utf_mask = 0"
  "df_input_mask (utf16_format byteOrder) = utf_mask" "df_output_mask (utf16_format byteOrder) = utf_mask"
  "df_decode (utf16_format byteOrder) = Some (\<lambda>alloc data. dispatch_transform_from_utf16 alloc data byteOrder)"
  "df_encode (utf16_format byteOrder) = Some (\<lambda>alloc data. dispatch_transform_to_utf16 alloc data byteOrder)"
  by (cases byteOrder; simp add: utf16_format_def format_type_utf8_def format_type_utf16le_def format_type_utf16be_def
      utf_masks utf_not_any)+

lemma format_types:
  "dispatch_data_create_with_transform alloc data format_type_utf8 (utf16_format byteOrder) =
     (if dd_size data = 0 then Some data else dispatch_transform_to_utf16 alloc data byteOrder)"
  "dispatch_data_create_with_transform alloc data (utf16_format byteOrder) format_type_utf8 =
     (if dd_size data = 0 then Some data
      else case dispatch_transform_from_utf16 alloc data byteOrder of
        None \<Rightarrow> None | Some d \<Rightarrow> dispatch_transform_to_utf8_without_bom alloc d)"
  by (simp_all add: dispatch_data_create_with_transform_def utf_formats utf_masks utf_not_any split: option.split)

text \<open>C10. Data in one region are transformed both ways through the entry point, in either byte order:
  a UTF-8 text of scalar values becomes its UTF-16 text behind a byte order mark, surrogate pairs included,
  and a UTF-16 text behind a byte order mark becomes the UTF-8 text.\<close>

theorem transform_utf_contiguous:
  assumes "alloc_ok alloc" "list_all scalar cs" "cs \<noteq> []" "hd cs \<noteq> 0xfeff"
    and "data_ok octets" "contiguous octets" "data_bytes octets = utf8_text cs"
    and "data_ok wide" "contiguous wide" "data_bytes wide = utf16_text byteOrder (0xfeff # cs)"
    and "int (2 * dd_size octets + 4) \<le> BUFFER_MALLOC_MAX" "int (dd_size wide + 4) \<le> BUFFER_MALLOC_MAX"
  shows "(\<exists>d. dispatch_data_create_with_transform alloc octets format_type_utf8 (utf16_format byteOrder) = Some d
        \<and> data_ok d \<and> data_bytes d = data_bytes wide)
    \<and> (\<exists>d. dispatch_data_create_with_transform alloc wide (utf16_format byteOrder) format_type_utf8 = Some d
        \<and> data_ok d \<and> data_bytes d = data_bytes octets)"
proof -
  have "utf8_text cs \<noteq> []"
    using assms(2,3) utf8_bytes_length [OF scalar_small, of "hd cs"] by (cases cs) auto
  moreover have "utf16_text byteOrder (0xfeff # cs) \<noteq> []" using utf16_bytes_length [of byteOrder "0xfeff"] by auto
  ultimately have nz: "dd_size octets \<noteq> 0" "dd_size wide \<noteq> 0"
    using length_data_bytes [OF assms(5)] length_data_bytes [OF assms(8)] assms(7,10) by (metis length_0_conv)+
  obtain d where d: "dispatch_transform_from_utf16 alloc wide byteOrder = Some d" "data_ok d" "data_bytes d = utf8_text cs"
    using from_utf16_spec [OF assms(8,1,9,10,2,12)] by blast
  have "dispatch_transform_to_utf8_without_bom alloc d = Some d"
    by (rule without_bom_spec [OF d(2) assms(1) d(3) assms(2,3,4)])
  then show ?thesis
    using d to_utf16_spec [OF assms(5,1,6,7,2,3,4,11)] nz assms(7,10) by (simp add: format_types)
qed

lemma leaf_contiguous: "data_ok (Data (Some b) ds q (length b) []) \<Longrightarrow> contiguous (Data (Some b) ds q (length b) [])"
  by (simp add: contiguous_def dispatch_data_map_direct_def dispatch_data_leaf_def dispatch_data_num_records_def)

theorem transform_utf_contiguous_witness:
  "\<exists>d. dispatch_data_create_with_transform (\<lambda>n. Some (replicate n 0))
      (Data (Some [0x61, 0xf0, 0x9f, 0x98, 0x80]) DESTRUCTOR_FREE None 5 []) format_type_utf8 (utf16_format OSLittleEndian) = Some d
    \<and> data_bytes d = [0xff, 0xfe, 0x61, 0x00, 0x3d, 0xd8, 0x00, 0xde]"
proof -
  let ?b = "[0x61, 0xf0, 0x9f, 0x98, 0x80] :: u8 list" and ?c = "[0xff, 0xfe, 0x61, 0x00, 0x3d, 0xd8, 0x00, 0xde] :: u8 list"
  let ?d8 = "Data (Some ?b) DESTRUCTOR_FREE None (length ?b) []" and ?d16 = "Data (Some ?c) DESTRUCTOR_FREE None (length ?c) []"
  have ok: "data_ok ?d8" "data_ok ?d16" by (rule leaf_data_ok; simp)+
  have bytes: "data_bytes ?d8 = ?b" "data_bytes ?d16 = ?c" by (simp_all add: data_bytes_def leaf_iff leaf_bytes_def)
  have "utf8_text [0x61, 0x1f600] = ?b" by (simp add: utf8_bytes_def)
  moreover have "utf16_text OSLittleEndian (0xfeff # [0x61, 0x1f600]) = ?c"
    by (simp add: utf16_bytes_def store16_def dispatch_transform_swap_from_host_def Let_def)
  ultimately have "\<exists>d. dispatch_data_create_with_transform (\<lambda>n. Some (replicate n 0)) ?d8 format_type_utf8
      (utf16_format OSLittleEndian) = Some d \<and> data_ok d \<and> data_bytes d = data_bytes ?d16"
    by (intro transform_utf_contiguous [where cs = "[0x61, 0x1f600]" and wide = ?d16 and octets = ?d8
          and byteOrder = OSLittleEndian and alloc = "\<lambda>n. Some (replicate n 0)", THEN conjunct1])
      (use simple_alloc_ok ok bytes leaf_contiguous [OF ok(1)] leaf_contiguous [OF ok(2)] in
        \<open>simp_all add: scalar_def BUFFER_MALLOC_MAX_def\<close>)
  then show ?thesis using bytes(2) by (simp add: eval_nat_numeral) blast
qed

text \<open>A sequence that spans two regions makes the code skip the bytes of the second one that it has
  read, but the offset of what follows is then counted without them: when the second region ends
  inside another sequence, the wrong bytes are read. The text is e acute, A, e acute; the result ends
  in two A.\<close>

definition split_text :: dispatch_data where
  "split_text = Data None DESTRUCTOR_NONE None 5
     [Range (Data (Some [0xc3]) DESTRUCTOR_FREE None 1 []) 0 1,
      Range (Data (Some [0xa9, 0x41, 0xc3]) DESTRUCTOR_FREE None 3 []) 0 3,
      Range (Data (Some [0xa9]) DESTRUCTOR_FREE None 1 []) 0 1]"

lemma transform_utf16_split_wrong:
  "map_option data_bytes (dispatch_transform_to_utf16 (\<lambda>n. Some (replicate n 0)) split_text OSBigEndian)
     = Some [0xfe, 0xff, 0x00, 0xe9, 0x00, 0x41, 0x00, 0x41]"
  "data_ok split_text" "data_bytes split_text = utf8_text [0xe9, 0x41, 0xe9]"
  by code_simp+

text \<open>The last code point of the surrogates, 0xdfff, passes the test that refuses the others.\<close>

lemma transform_utf16_lone_surrogate:
  "map_option data_bytes (dispatch_transform_to_utf16 (\<lambda>n. Some (replicate n 0))
      (Data (Some [0xed, 0xbf, 0xbf]) DESTRUCTOR_FREE None 3 []) OSBigEndian) = Some [0xfe, 0xff, 0xdf, 0xff]"
  by code_simp

end
