(* ===== verification/StepSystem.thy ===== *)
theory StepSystem
  imports Prelude
begin

text \<open>
  Step systems, for the components that several threads use at the same time: the reachable
  states, the interface under which an invariant is carried to all of them, and the interface
  under which the steps that are already due come to an end. The threads of a system are a list of
  their positions in the code; the lemmas on counting them after one has moved are here too.
\<close>

section \<open>Reachable states\<close>

inductive reachable :: "('s \<Rightarrow> bool) \<Rightarrow> ('s \<Rightarrow> 's \<Rightarrow> bool) \<Rightarrow> 's \<Rightarrow> bool" for init step where
  reachable_init: "init s \<Longrightarrow> reachable init step s"
| reachable_step: "reachable init step s \<Longrightarrow> step s s' \<Longrightarrow> reachable init step s'"

locale step_invariant =
  fixes init :: "'s \<Rightarrow> bool" and step :: "'s \<Rightarrow> 's \<Rightarrow> bool" and inv :: "'s \<Rightarrow> bool"
  assumes init_inv: "init s \<Longrightarrow> inv s"
    and step_inv: "inv s \<Longrightarrow> step s s' \<Longrightarrow> inv s'"
begin

lemma reachable_inv: "reachable init step s \<Longrightarrow> inv s"
  by (induction rule: reachable.induct) (auto intro: init_inv step_inv)

end

section \<open>Steps that come to an end\<close>

text \<open>A step that makes a pair of numbers smaller in the lexicographic order.\<close>

locale step_measure =
  fixes step :: "'s \<Rightarrow> 's \<Rightarrow> bool" and major minor :: "'s \<Rightarrow> nat"
  assumes step_less: "step s s' \<Longrightarrow> major s' < major s \<or> major s' = major s \<and> minor s' < minor s"
begin

lemma wf_step: "wf {(s', s). step s s'}"
proof (rule wf_subset)
  show "wf (inv_image (less_than <*lex*> less_than) (\<lambda>s. (major s, minor s)))"
      by (intro wf_inv_image wf_lex_prod wf_less_than)
  show "{(s', s). step s s'} \<subseteq> inv_image (less_than <*lex*> less_than) (\<lambda>s. (major s, minor s))"
    using step_less by auto
qed

lemma settles: "\<exists>s'. step\<^sup>*\<^sup>* s s' \<and> (\<forall>s''. \<not> step s' s'')"
proof (induction s rule: wf_induct_rule [OF wf_step])
  case (1 s)
  show ?case
  proof (cases "\<exists>s'. step s s'")
    case True
    then obtain s' where s': "step s s'" by blast
    then obtain s'' where "step\<^sup>*\<^sup>* s' s''" "\<forall>t. \<not> step s'' t" using 1 [of s'] by auto
    then show ?thesis using s' by (meson converse_rtranclp_into_rtranclp)
  next
    case False
    then show ?thesis by blast
  qed
qed

end

section \<open>Counting threads\<close>

definition threads_at :: "('p \<Rightarrow> bool) \<Rightarrow> 'p list \<Rightarrow> nat" where
  "threads_at P ts = length (filter P ts)"

lemma threads_at_update:
  "i < length ts \<Longrightarrow> threads_at P (ts[i := p]) + of_bool (P (ts ! i)) = threads_at P ts + of_bool (P p)"
proof (induction ts arbitrary: i)
  case (Cons t ts)
  then show ?case by (cases i) (auto simp: threads_at_def)
qed simp

lemma threads_at_update_int:
  "i < length ts \<Longrightarrow> int (threads_at P (ts[i := p])) = int (threads_at P ts) - of_bool (P (ts ! i)) + of_bool (P p)"
  using threads_at_update [of i ts P p] by (auto split: if_splits)

lemma threads_at_pos: "i < length ts \<Longrightarrow> P (ts ! i) \<Longrightarrow> 0 < threads_at P ts"
  by (auto simp: threads_at_def filter_empty_conv)

lemma threads_at_0: "threads_at P ts = 0 \<longleftrightarrow> (\<forall>t \<in> set ts. \<not> P t)"
  by (auto simp: threads_at_def filter_empty_conv)

lemma threads_at_exists: "0 < threads_at P ts \<Longrightarrow> \<exists>i < length ts. P (ts ! i)"
  by (auto simp: threads_at_def filter_empty_conv in_set_conv_nth)

lemma threads_at_less: "i < length ts \<Longrightarrow> \<not> P (ts ! i) \<Longrightarrow> threads_at P ts < length ts"
  unfolding threads_at_def by (rule length_filter_less) (rule nth_mem, assumption+)

lemma threads_at_le: "threads_at P ts \<le> length ts"
  by (simp add: threads_at_def)

lemma threads_at_replicate: "threads_at P (replicate n p) = (if P p then n else 0)"
  by (simp add: threads_at_def)

lemma sum_list_update_nat:
  "i < length ts \<Longrightarrow> sum_list (map f (ts[i := p])) + f (ts ! i) = sum_list (map f ts) + (f p :: nat)"
proof (induction ts arbitrary: i)
  case (Cons t ts)
  then show ?case by (cases i) auto
qed simp

lemma sum_list_update_int:
  "i < length ts \<Longrightarrow> sum_list (map f (ts[i := p])) = sum_list (map f ts) - f (ts ! i) + (f p :: int)"
proof (induction ts arbitrary: i)
  case (Cons t ts)
  then show ?case by (cases i) auto
qed simp

lemma all_update: "\<forall>p \<in> set ts. Q p \<Longrightarrow> Q p' \<Longrightarrow> \<forall>p \<in> set (ts[i := p']). Q p"
  using set_update_subset_insert [of ts i p'] by blast

lemma ex_update:
  assumes "\<exists>p \<in> set ts. Q p" "Q (ts ! i) \<Longrightarrow> Q p'" "i < length ts"
  shows "\<exists>p \<in> set (ts[i := p']). Q p"
proof -
  obtain j where j: "j < length ts" "Q (ts ! j)" using assms(1) by (auto simp: in_set_conv_nth)
  then have "Q (ts[i := p'] ! j)" using assms(2) by (cases "j = i") auto
  then show ?thesis using j(1) by (metis length_list_update nth_mem)
qed

lemma ex_update_new: "Q p' \<Longrightarrow> i < length ts \<Longrightarrow> \<exists>p \<in> set (ts[i := p']). Q p"
  by (auto intro: set_update_memI)

end
