(* ===== verification/Semaphore.thy ===== *)
theory Semaphore
  imports StepSystem DispatchTime
begin

text \<open>
  The counting semaphores of src/semaphore.c of libdispatch.

  Every atomic operation of the code is a function on the semaphore object; the calls of the
  threads are a step relation over the position of each thread, in which the steps of different threads
  interleave in any order. The kernel semaphore below is the POSIX one of src/shims/lock.c: a
  count that \<open>sem_post\<close> increments and that \<open>sem_wait\<close> waits to be positive and decrements; a
  timed wait may time out at any moment.
\<close>

section \<open>The object and its atomic operations\<close>

record dispatch_semaphore =
  dsema_value :: u64
  dsema_orig :: u64
  dsema_sema :: nat

text \<open>Where a thread is: not in a call, with the result of its last one; before the kernel call in
  \<open>_dispatch_semaphore_signal_slow\<close>; at the switch of \<open>_dispatch_semaphore_wait_slow\<close>, in its timed
  wait, in its loop with the value of \<open>orig\<close>, in its last wait.\<close>

datatype sema_pc = Outside (sema_result: int) | Signal_slow | Wait_slow u64 | Timed_wait | Undo u64 | Sema_wait

definition LONG_MIN :: int where "LONG_MIN = - (2 ^ 63)"

definition DSEMA4_TIMEOUT :: int where "DSEMA4_TIMEOUT = 110"

definition dispatch_semaphore_create :: "u64 \<Rightarrow> dispatch_semaphore option" where
  "dispatch_semaphore_create initial =
     (if sint initial < 0 then None
      else Some \<lparr>dsema_value = initial, dsema_orig = initial, dsema_sema = 0\<rparr>)"

text \<open>Whether the object may be disposed of; the code crashes otherwise.\<close>

definition dispatch_semaphore_dispose :: "dispatch_semaphore \<Rightarrow> bool" where
  "dispatch_semaphore_dispose dsema \<longleftrightarrow> \<not> sint (dsema_value dsema) < sint (dsema_orig dsema)"

definition dispatch_sema4_signal :: "nat \<Rightarrow> nat" where
  "dispatch_sema4_signal sema = sema + 1"

definition dispatch_sema4_wait :: "nat \<Rightarrow> nat option" where
  "dispatch_sema4_wait sema = (if 0 < sema then Some (sema - 1) else None)"

text \<open>\<open>None\<close> is the crash on too many signals.\<close>

definition dispatch_semaphore_signal :: "dispatch_semaphore \<Rightarrow> (dispatch_semaphore \<times> sema_pc) option" where
  "dispatch_semaphore_signal dsema =
     (let v = dsema_value dsema + 1;
          dsema = dsema\<lparr>dsema_value := v\<rparr>
      in if 0 < sint v then Some (dsema, Outside 0)
         else if sint v = LONG_MIN then None
         else Some (dsema, Signal_slow))"

definition dispatch_semaphore_signal_slow :: "dispatch_semaphore \<Rightarrow> dispatch_semaphore \<times> sema_pc" where
  "dispatch_semaphore_signal_slow dsema = (dsema\<lparr>dsema_sema := dispatch_sema4_signal (dsema_sema dsema)\<rparr>, Outside 1)"

definition dispatch_semaphore_wait :: "dispatch_semaphore \<Rightarrow> u64 \<Rightarrow> dispatch_semaphore \<times> sema_pc" where
  "dispatch_semaphore_wait dsema timeout =
     (let v = dsema_value dsema - 1;
          dsema = dsema\<lparr>dsema_value := v\<rparr>
      in (dsema, if 0 \<le> sint v then Outside 0 else Wait_slow timeout))"

definition dispatch_semaphore_wait_slow :: "dispatch_semaphore \<Rightarrow> u64 \<Rightarrow> sema_pc" where
  "dispatch_semaphore_wait_slow dsema timeout =
     (if timeout = DISPATCH_TIME_NOW then Undo (dsema_value dsema)
      else if timeout = DISPATCH_TIME_FOREVER then Sema_wait
      else Timed_wait)"

text \<open>One round of the loop: the value is incremented if it still is \<open>orig\<close>, and read again if not.\<close>

definition dispatch_semaphore_undo :: "dispatch_semaphore \<Rightarrow> u64 \<Rightarrow> dispatch_semaphore \<times> sema_pc" where
  "dispatch_semaphore_undo dsema orig =
     (if sint orig < 0
      then if dsema_value dsema = orig
           then (dsema\<lparr>dsema_value := orig + 1\<rparr>, Outside DSEMA4_TIMEOUT)
           else (dsema, Undo (dsema_value dsema))
      else (dsema, Sema_wait))"

section \<open>Threads\<close>

text \<open>The system counts the signals and the waits that were satisfied.\<close>

record sema_system =
  ss_sema :: dispatch_semaphore
  ss_threads :: "sema_pc list"
  ss_signals :: nat
  ss_acquired :: nat

definition sema_start :: "u64 \<Rightarrow> nat \<Rightarrow> sema_system \<Rightarrow> bool" where
  "sema_start initial n s \<longleftrightarrow> (case dispatch_semaphore_create initial of
       None \<Rightarrow> False
     | Some dsema \<Rightarrow> s = \<lparr>ss_sema = dsema, ss_threads = replicate n (Outside 0), ss_signals = 0, ss_acquired = 0\<rparr>)"

text \<open>A thread that is not in a call makes one.\<close>

inductive sema_call :: "sema_system \<Rightarrow> sema_system \<Rightarrow> bool" where
  call_signal: "i < length (ss_threads s) \<Longrightarrow> ss_threads s ! i = Outside r
    \<Longrightarrow> dispatch_semaphore_signal (ss_sema s) = Some (dsema, pc)
    \<Longrightarrow> sema_call s (s\<lparr>ss_sema := dsema, ss_threads := (ss_threads s)[i := pc], ss_signals := ss_signals s + 1\<rparr>)"
| call_wait: "i < length (ss_threads s) \<Longrightarrow> ss_threads s ! i = Outside r
    \<Longrightarrow> dispatch_semaphore_wait (ss_sema s) timeout = (dsema, pc)
    \<Longrightarrow> sema_call s (s\<lparr>ss_sema := dsema, ss_threads := (ss_threads s)[i := pc],
          ss_acquired := ss_acquired s + of_bool (pc = Outside 0)\<rparr>)"

text \<open>A thread in a call goes on.\<close>

inductive sema_continue :: "sema_system \<Rightarrow> sema_system \<Rightarrow> bool" where
  continue_signal: "i < length (ss_threads s) \<Longrightarrow> ss_threads s ! i = Signal_slow
    \<Longrightarrow> dispatch_semaphore_signal_slow (ss_sema s) = (dsema, pc)
    \<Longrightarrow> sema_continue s (s\<lparr>ss_sema := dsema, ss_threads := (ss_threads s)[i := pc]\<rparr>)"
| continue_slow: "i < length (ss_threads s) \<Longrightarrow> ss_threads s ! i = Wait_slow timeout
    \<Longrightarrow> sema_continue s (s\<lparr>ss_threads := (ss_threads s)[i := dispatch_semaphore_wait_slow (ss_sema s) timeout]\<rparr>)"
| continue_timed_out: "i < length (ss_threads s) \<Longrightarrow> ss_threads s ! i = Timed_wait
    \<Longrightarrow> sema_continue s (s\<lparr>ss_threads := (ss_threads s)[i := Undo (dsema_value (ss_sema s))]\<rparr>)"
| continue_undo: "i < length (ss_threads s) \<Longrightarrow> ss_threads s ! i = Undo orig
    \<Longrightarrow> dispatch_semaphore_undo (ss_sema s) orig = (dsema, pc)
    \<Longrightarrow> sema_continue s (s\<lparr>ss_sema := dsema, ss_threads := (ss_threads s)[i := pc]\<rparr>)"
| continue_acquire: "i < length (ss_threads s) \<Longrightarrow> ss_threads s ! i \<in> {Timed_wait, Sema_wait}
    \<Longrightarrow> dispatch_sema4_wait (dsema_sema (ss_sema s)) = Some sema
    \<Longrightarrow> sema_continue s (s\<lparr>ss_sema := (ss_sema s)\<lparr>dsema_sema := sema\<rparr>,
          ss_threads := (ss_threads s)[i := Outside 0], ss_acquired := ss_acquired s + 1\<rparr>)"

definition sema_step :: "sema_system \<Rightarrow> sema_system \<Rightarrow> bool" where
  "sema_step s s' \<longleftrightarrow> sema_call s s' \<or> sema_continue s s'"

section \<open>Conservation\<close>

definition waiting :: "sema_pc \<Rightarrow> bool" where
  "waiting pc \<longleftrightarrow> (case pc of Outside _ \<Rightarrow> False | Signal_slow \<Rightarrow> False | _ \<Rightarrow> True)"

lemma waiting_simps [simp]:
  "\<not> waiting (Outside r)" "\<not> waiting Signal_slow" "waiting (Wait_slow t)" "waiting Timed_wait" "waiting (Undo v)"
  "waiting Sema_wait"
  by (simp_all add: waiting_def)

text \<open>The threads that wait are those that the negative value counts, and those for which there
  is a wake-up in the kernel or on its way; permits are neither made nor lost.\<close>

definition sema_inv :: "u64 \<Rightarrow> nat \<Rightarrow> sema_system \<Rightarrow> bool" where
  "sema_inv initial n s \<longleftrightarrow>
     dsema_orig (ss_sema s) = initial \<and> 0 \<le> sint initial \<and> length (ss_threads s) = n
     \<and> int (threads_at waiting (ss_threads s)) = max 0 (- sint (dsema_value (ss_sema s)))
         + int (dsema_sema (ss_sema s)) + int (threads_at (\<lambda>pc. pc = Signal_slow) (ss_threads s))
     \<and> int (ss_acquired s) = sint initial + int (ss_signals s) - sint (dsema_value (ss_sema s))
         - int (threads_at waiting (ss_threads s))"

lemma sint_u64_step:
  fixes v :: u64
  shows "- (2 ^ 63) < sint v \<Longrightarrow> sint (v - 1) = sint v - 1"
    "sint v < 2 ^ 63 - 1 \<Longrightarrow> sint (v + 1) = sint v + 1"
    "\<not> sint v < 2 ^ 63 - 1 \<Longrightarrow> sint (v + 1) = LONG_MIN"
proof -
  have r: "- (2 ^ 63) \<le> sint v" "sint v < 2 ^ 63" using sint_range_u64 [of v] by simp_all
  show "sint (v - 1) = sint v - 1" if "- (2 ^ 63) < sint v"
    using that r by (simp add: sint_word_ariths signed_take_bit_int_eq_self)
  show "sint (v + 1) = sint v + 1" if "sint v < 2 ^ 63 - 1"
    using that r by (simp add: sint_word_ariths signed_take_bit_int_eq_self)
  show "sint (v + 1) = LONG_MIN" if "\<not> sint v < 2 ^ 63 - 1"
  proof -
    have "sint v = 2 ^ 63 - 1" using that r by linarith
    then have "sint (v + 1) = signed_take_bit 63 (2 ^ 63)" by (simp add: sint_word_ariths)
    also have "\<dots> = LONG_MIN" by (simp add: LONG_MIN_def signed_take_bit_eq_take_bit_shift take_bit_eq_mod)
    finally show ?thesis .
  qed
qed

lemmas sema_ops = dispatch_semaphore_signal_def dispatch_semaphore_signal_slow_def dispatch_semaphore_wait_def
  dispatch_semaphore_wait_slow_def dispatch_semaphore_undo_def dispatch_sema4_signal_def dispatch_sema4_wait_def

lemma sema_start_inv: "sema_start initial n s \<Longrightarrow> sema_inv initial n s"
  by (auto simp: sema_start_def dispatch_semaphore_create_def sema_inv_def threads_at_replicate split: if_splits)

lemma sema_inv_room:
  assumes "sema_inv initial n s" "int n < 2 ^ 63" "i < length (ss_threads s)" "\<not> waiting (ss_threads s ! i)"
  shows "- (2 ^ 63) < sint (dsema_value (ss_sema s)) - 1 + 1" "int (threads_at waiting (ss_threads s)) < 2 ^ 63"
  using assms threads_at_less [of i "ss_threads s" waiting] by (auto simp: sema_inv_def max_def split: if_splits)

lemma sema_call_inv:
  assumes "sema_call s s'" "sema_inv initial n s" "int n < 2 ^ 63"
  shows "sema_inv initial n s'"
  using assms
proof (cases rule: sema_call.cases)
  case (call_signal i r dsema pc)
  note count = threads_at_update_int [OF call_signal(2)]
  let ?v = "dsema_value (ss_sema s)"
  have small: "sint ?v < 2 ^ 63 - 1"
    using call_signal(4) sint_u64_step(3) [of ?v] by (auto simp: sema_ops Let_def LONG_MIN_def split: if_splits)
  note v = sint_u64_step(2) [OF small]
  show ?thesis
    using assms(2) call_signal(4) v call_signal(3)
    by (auto simp: call_signal(1) sema_inv_def sema_ops Let_def count split: if_splits)
next
  case (call_wait i r timeout dsema pc)
  note count = threads_at_update_int [OF call_wait(2)]
  have "- (2 ^ 63) < sint (dsema_value (ss_sema s))"
    using sema_inv_room(1) [OF assms(2,3) call_wait(2)] call_wait(3) by simp
  note v = sint_u64_step(1) [OF this]
  show ?thesis
    using assms(2) call_wait(4) v call_wait(3)
    by (auto simp: call_wait(1) sema_inv_def sema_ops Let_def count split: if_splits)
qed

lemma sema_continue_inv:
  assumes "sema_continue s s'" "sema_inv initial n s"
  shows "sema_inv initial n s'"
  using assms
proof (cases rule: sema_continue.cases)
  case (continue_undo i orig dsema pc)
  note count = threads_at_update_int [OF continue_undo(2)]
  show ?thesis
  proof (cases "sint orig < 0 \<and> dsema_value (ss_sema s) = orig")
    case True
    then have "sint (orig + 1) = sint orig + 1" by (intro sint_u64_step(2)) simp
    then show ?thesis using assms(2) continue_undo(3,4) True
      by (auto simp: continue_undo(1) sema_inv_def sema_ops count)
  next
    case False
    then show ?thesis using assms(2) continue_undo(3,4)
      by (auto simp: continue_undo(1) sema_inv_def sema_ops count split: if_splits)
  qed
qed (auto simp: sema_inv_def sema_ops threads_at_update_int split: if_splits)

text \<open>The steps of calls that have begun come to an end: each lets one more thread leave its
  call, or moves a thread forward.\<close>

fun sema_rank :: "u64 \<Rightarrow> sema_pc \<Rightarrow> nat" where
  "sema_rank v (Outside _) = 0"
| "sema_rank v Signal_slow = 0"
| "sema_rank v (Wait_slow _) = 5"
| "sema_rank v Timed_wait = 4"
| "sema_rank v (Undo orig) = (if orig = v then 2 else 3)"
| "sema_rank v Sema_wait = 1"

definition inside :: "sema_pc \<Rightarrow> bool" where
  "inside pc \<longleftrightarrow> (case pc of Outside _ \<Rightarrow> False | _ \<Rightarrow> True)"

lemma inside_simps [simp]:
  "\<not> inside (Outside r)" "inside Signal_slow" "inside (Wait_slow t)" "inside Timed_wait" "inside (Undo v)" "inside Sema_wait"
  by (simp_all add: inside_def)

definition sema_left :: "sema_system \<Rightarrow> nat" where
  "sema_left s = threads_at inside (ss_threads s)"

definition sema_ranks :: "sema_system \<Rightarrow> nat" where
  "sema_ranks s = sum_list (map (sema_rank (dsema_value (ss_sema s))) (ss_threads s))"

interpretation sema_progress: step_measure sema_continue sema_left sema_ranks
proof
  fix s s'
  assume "sema_continue s s'"
  then show "sema_left s' < sema_left s \<or> sema_left s' = sema_left s \<and> sema_ranks s' < sema_ranks s"
  proof (cases rule: sema_continue.cases)
    case (continue_signal i dsema pc)
    then show ?thesis using threads_at_update [of i "ss_threads s" inside pc]
      by (auto simp: sema_left_def sema_ops)
  next
    case (continue_slow i timeout)
    then show ?thesis
      using threads_at_update [of i "ss_threads s" inside "dispatch_semaphore_wait_slow (ss_sema s) timeout"]
        sum_list_update_nat [of i "ss_threads s" "sema_rank (dsema_value (ss_sema s))"
          "dispatch_semaphore_wait_slow (ss_sema s) timeout"]
      by (auto simp: sema_left_def sema_ranks_def sema_ops split: if_splits)
  next
    case (continue_timed_out i)
    then show ?thesis
      using threads_at_update [of i "ss_threads s" inside "Undo (dsema_value (ss_sema s))"]
        sum_list_update_nat [of i "ss_threads s" "sema_rank (dsema_value (ss_sema s))" "Undo (dsema_value (ss_sema s))"]
      by (auto simp: sema_left_def sema_ranks_def)
  next
    case (continue_undo i orig dsema pc)
    then show ?thesis
      using threads_at_update [of i "ss_threads s" inside pc]
        sum_list_update_nat [of i "ss_threads s" "sema_rank (dsema_value (ss_sema s))" pc]
      by (auto simp: sema_left_def sema_ranks_def sema_ops split: if_splits)
  next
    case (continue_acquire i sema)
    then show ?thesis using threads_at_update [of i "ss_threads s" inside "Outside 0"]
      by (auto simp: sema_left_def)
  qed
qed

text \<open>A system in which no call goes on.\<close>

lemma sema_stuck:
  assumes "\<And>s'. \<not> sema_continue s s'" "i < length (ss_threads s)"
  shows "\<not> inside (ss_threads s ! i) \<or> ss_threads s ! i = Sema_wait \<and> dsema_sema (ss_sema s) = 0"
proof (rule ccontr)
  assume c: "\<not> ?thesis"
  have "\<exists>s'. sema_continue s s'"
  proof (cases "ss_threads s ! i")
    case (Outside r)
    then show ?thesis using c by simp
  next
    case Signal_slow
    then show ?thesis
      using sema_continue.continue_signal [OF assms(2)] by (metis prod.exhaust)
  next
    case (Wait_slow t)
    then show ?thesis using sema_continue.continue_slow [OF assms(2)] by blast
  next
    case Timed_wait
    then show ?thesis using sema_continue.continue_timed_out [OF assms(2)] by blast
  next
    case (Undo orig)
    then show ?thesis
      using sema_continue.continue_undo [OF assms(2)] by (metis prod.exhaust)
  next
    case Sema_wait
    then have "0 < dsema_sema (ss_sema s)" using c by auto
    then show ?thesis using sema_continue.continue_acquire [OF assms(2), of "dsema_sema (ss_sema s) - 1"] Sema_wait
      by (auto simp: dispatch_sema4_wait_def)
  qed
  then show False using assms(1) by blast
qed

interpretation sema_run: step_invariant "sema_start initial n" sema_step "\<lambda>s. int n < 2 ^ 63 \<longrightarrow> sema_inv initial n s"
  for initial n
  by unfold_locales (auto simp: sema_step_def intro: sema_start_inv sema_call_inv sema_continue_inv)

lemma continue_reachable:
  assumes "sema_continue\<^sup>*\<^sup>* s s'" "reachable init sema_step s"
  shows "reachable init sema_step s'"
  using assms by (induction rule: rtranclp_induct) (auto intro: reachable_step simp: sema_step_def)

text \<open>C27. A semaphore never grants more than it has: in every interleaving the waits that succeeded are
  at most the initial value and the signals; the waiting threads are those that a negative value
  counts and those for which a wake-up is in the kernel or on its way; and once no thread waits, the object may
  be disposed of exactly when the successful waits were balanced by signals.\<close>

theorem semaphore_permits:
  assumes "reachable (sema_start initial n) sema_step s" "int n < 2 ^ 63"
  shows "int (ss_acquired s) \<le> sint initial + int (ss_signals s)
    \<and> int (threads_at waiting (ss_threads s)) = max 0 (- sint (dsema_value (ss_sema s)))
         + int (dsema_sema (ss_sema s)) + int (threads_at (\<lambda>pc. pc = Signal_slow) (ss_threads s))
    \<and> (threads_at waiting (ss_threads s) = 0 \<longrightarrow>
        (dispatch_semaphore_dispose (ss_sema s) \<longleftrightarrow> ss_acquired s \<le> ss_signals s))"
  using sema_run.reachable_inv [OF assms(1)] assms(2)
  by (auto simp: sema_inv_def dispatch_semaphore_dispose_def max_def split: if_splits)

lemma sema_example:
  "reachable (sema_start 0 2) sema_step
     \<lparr>ss_sema = \<lparr>dsema_value = 0, dsema_orig = 0, dsema_sema = 0\<rparr>, ss_threads = [Wait_slow DISPATCH_TIME_FOREVER, Signal_slow],
      ss_signals = 1, ss_acquired = 0\<rparr>"
proof -
  let ?s0 = "\<lparr>ss_sema = \<lparr>dsema_value = 0, dsema_orig = 0, dsema_sema = 0\<rparr>, ss_threads = [Outside 0, Outside 0],
      ss_signals = 0, ss_acquired = 0\<rparr>"
  let ?s1 = "\<lparr>ss_sema = \<lparr>dsema_value = - 1, dsema_orig = 0, dsema_sema = 0\<rparr>,
      ss_threads = [Wait_slow DISPATCH_TIME_FOREVER, Outside 0], ss_signals = 0, ss_acquired = 0\<rparr>"
  have s0: "reachable (sema_start 0 2) sema_step ?s0"
    by (rule reachable_init) (simp add: sema_start_def dispatch_semaphore_create_def numeral_2_eq_2)
  have "sema_step ?s0 ?s1"
    using sema_call.call_wait [of 0 ?s0 0 DISPATCH_TIME_FOREVER "\<lparr>dsema_value = - 1, dsema_orig = 0, dsema_sema = 0\<rparr>"
        "Wait_slow DISPATCH_TIME_FOREVER"]
    by (simp add: sema_step_def sema_ops)
  with s0 have s1: "reachable (sema_start 0 2) sema_step ?s1" by (rule reachable_step)
  show ?thesis
    using sema_call.call_signal [of 1 ?s1 0 "\<lparr>dsema_value = 0, dsema_orig = 0, dsema_sema = 0\<rparr>" Signal_slow]
    by (intro reachable_step [OF s1]) (simp add: sema_step_def sema_ops LONG_MIN_def)
qed

theorem semaphore_permits_witness:
  "\<exists>s. reachable (sema_start 0 2) sema_step s \<and> ss_signals s = 1 \<and> int (ss_acquired s) \<le> 1"
proof -
  from semaphore_permits [OF sema_example, THEN conjunct1] show ?thesis using sema_example by fastforce
qed

text \<open>C3. No wake-up is lost. From every reachable state the calls that have begun settle, whatever
  the order of their steps: every sequence of them ends, and it ends with every thread outside or in an untimed wait of
  the kernel, no wake-up left over, and all permits used up if a thread still waits.\<close>

theorem semaphore_no_lost_wakeup:
  assumes "reachable (sema_start initial n) sema_step s" "int n < 2 ^ 63"
  shows "wf {(t', t). sema_continue t t'}
    \<and> (\<exists>s'. sema_continue\<^sup>*\<^sup>* s s' \<and> (\<forall>t. \<not> sema_continue s' t))
    \<and> (\<forall>s'. sema_continue\<^sup>*\<^sup>* s s' \<and> (\<forall>t. \<not> sema_continue s' t) \<longrightarrow>
        (\<forall>pc \<in> set (ss_threads s'). \<not> inside pc \<or> pc = Sema_wait)
        \<and> (Sema_wait \<in> set (ss_threads s') \<longrightarrow>
             dsema_sema (ss_sema s') = 0 \<and> int (ss_acquired s') = sint initial + int (ss_signals s')))"
proof (intro conjI allI impI; (elim conjE)?)
  show "wf {(t', t). sema_continue t t'}" by (rule sema_progress.wf_step)
  show "\<exists>s'. sema_continue\<^sup>*\<^sup>* s s' \<and> (\<forall>t. \<not> sema_continue s' t)" by (rule sema_progress.settles)
next
  fix s'
  assume s': "sema_continue\<^sup>*\<^sup>* s s'" "\<forall>t. \<not> sema_continue s' t"
  have inv: "sema_inv initial n s'"
    using sema_run.reachable_inv [OF continue_reachable [OF s'(1) assms(1)]] assms(2) by simp
  have stuck: "\<not> inside pc \<or> pc = Sema_wait \<and> dsema_sema (ss_sema s') = 0" if "pc \<in> set (ss_threads s')" for pc
    using that sema_stuck [of s'] s'(2) by (metis in_set_conv_nth)
  then show "\<forall>pc \<in> set (ss_threads s'). \<not> inside pc \<or> pc = Sema_wait" by blast
  assume w: "Sema_wait \<in> set (ss_threads s')"
  show k: "dsema_sema (ss_sema s') = 0" using stuck [OF w] by simp
  have "threads_at (\<lambda>pc. pc = Signal_slow) (ss_threads s') = 0" using stuck [of Signal_slow] by (auto simp: threads_at_0)
  moreover have "threads_at waiting (ss_threads s') \<noteq> 0" using w waiting_simps(6) by (auto simp only: threads_at_0)
  ultimately show "int (ss_acquired s') = sint initial + int (ss_signals s')"
    using inv k by (auto simp: sema_inv_def max_def split: if_splits)
qed

theorem semaphore_no_lost_wakeup_witness:
  "\<exists>s s'. reachable (sema_start 0 2) sema_step s \<and> Signal_slow \<in> set (ss_threads s)
     \<and> sema_continue\<^sup>*\<^sup>* s s' \<and> (\<forall>t. \<not> sema_continue s' t)"
proof -
  from semaphore_no_lost_wakeup [OF sema_example, THEN conjunct2, THEN conjunct1]
  show ?thesis using sema_example by fastforce
qed

end
