(* ===== verification/Group.thy ===== *)
theory Group
  imports StepSystem DispatchTime
begin

text \<open>
  The dispatch groups of src/semaphore.c of libdispatch.

  The state of a group is one 64-bit word: a generation, a counter that runs downwards from 0, and a
  flag each for waiters and notifications. Every atomic operation of the code is a function on the
  group (a loop that reads, modifies and writes the word counts as one), and the calls of the threads
  are a step relation over the position of each thread. The list of notifications is taken as a queue: a push
  takes effect when it exchanges the tail, a snapshot takes all that were pushed. A continuation and the queue it is
  submitted to are one number. The addresses that threads sleep on are those of the futex calls of src/shims/lock.c: a thread falls asleep only
  if the word still has the expected value, a wake-up wakes all sleepers, and a sleeper may wake up on its own.
\<close>

section \<open>The state word\<close>

definition DISPATCH_GROUP_GEN_MASK :: u64 where "DISPATCH_GROUP_GEN_MASK = 0xffffffff00000000"
definition DISPATCH_GROUP_VALUE_MASK :: u64 where "DISPATCH_GROUP_VALUE_MASK = 0x00000000fffffffc"
definition DISPATCH_GROUP_VALUE_INTERVAL :: u64 where "DISPATCH_GROUP_VALUE_INTERVAL = 4"
definition DISPATCH_GROUP_VALUE_1 :: u64 where "DISPATCH_GROUP_VALUE_1 = DISPATCH_GROUP_VALUE_MASK"
definition DISPATCH_GROUP_VALUE_MAX :: u64 where "DISPATCH_GROUP_VALUE_MAX = DISPATCH_GROUP_VALUE_INTERVAL"
definition DISPATCH_GROUP_HAS_NOTIFS :: u64 where "DISPATCH_GROUP_HAS_NOTIFS = 2"
definition DISPATCH_GROUP_HAS_WAITERS :: u64 where "DISPATCH_GROUP_HAS_WAITERS = 1"

definition dg_state_value :: "u64 \<Rightarrow> u32" where
  "dg_state_value st = drop_bit 2 (- (ucast st AND ucast DISPATCH_GROUP_VALUE_MASK))"

definition dg_state_gen :: "u64 \<Rightarrow> u32" where
  "dg_state_gen st = ucast (drop_bit 32 st)"

text \<open>\<open>dg_bits\<close> is the low half of the word.\<close>

definition dg_bits :: "u64 \<Rightarrow> u32" where
  "dg_bits st = ucast st"

definition set_dg_bits :: "u32 \<Rightarrow> u64 \<Rightarrow> u64" where
  "set_dg_bits bits st = (st AND DISPATCH_GROUP_GEN_MASK) OR ucast bits"

section \<open>The object and its atomic operations\<close>

record dispatch_group =
  dg_state :: u64
  dg_notify :: "nat list"
  dg_refs :: int

text \<open>Where a thread is: not in a call, with the result of its last one; before the retain of
  \<open>dispatch_group_enter\<close>; in the loop of \<open>dispatch_group_leave\<close>, with \<open>old_state\<close>; in
  \<open>_dispatch_group_wake\<close>, before the notifications, before the waiters, before the release; in
  \<open>_dispatch_group_wait_slow\<close>, before it waits on the address, asleep, before it looks at the generation, with
  the result of the wait; in \<open>_dispatch_group_notify\<close>, before the retain, before the loop.\<close>

datatype group_pc =
    Out int
  | Enter_retain
  | Leave_loop u64
  | Wake u64 bool
  | Wake_waiters u64 nat
  | Wake_release nat
  | Wait_address u32 u64
  | Asleep u32 u64
  | Wait_look u32 u64 int
  | Notify_retain
  | Notify_set

definition ETIMEDOUT :: int where "ETIMEDOUT = 110"

definition dispatch_group_create_with_count :: "u32 \<Rightarrow> dispatch_group" where
  "dispatch_group_create_with_count n =
     (let dg = \<lparr>dg_state = 0, dg_notify = [], dg_refs = 1\<rparr>
      in if n \<noteq> 0
         then dg\<lparr>dg_state := set_dg_bits (- n * ucast DISPATCH_GROUP_VALUE_INTERVAL) 0, dg_refs := dg_refs dg + 1\<rparr>
         else dg)"

definition dispatch_group_create :: dispatch_group where
  "dispatch_group_create = dispatch_group_create_with_count 0"

definition dispatch_group_create_and_enter :: dispatch_group where
  "dispatch_group_create_and_enter = dispatch_group_create_with_count 1"

text \<open>Whether the object may be disposed of; the code crashes otherwise.\<close>

definition dispatch_group_dispose :: "dispatch_group \<Rightarrow> bool" where
  "dispatch_group_dispose dg \<longleftrightarrow> dg_bits (dg_state dg) = 0"

definition dispatch_group_wait :: "dispatch_group \<Rightarrow> u64 \<Rightarrow> dispatch_group \<times> group_pc" where
  "dispatch_group_wait dg timeout =
     (let old_state = dg_state dg
      in if old_state AND DISPATCH_GROUP_VALUE_MASK = 0 then (dg, Out 0)
         else if timeout = 0 then (dg, Out ETIMEDOUT)
         else
           (let new_state = old_state OR DISPATCH_GROUP_HAS_WAITERS
            in (dg\<lparr>dg_state := new_state\<rparr>, Wait_address (dg_state_gen new_state) timeout)))"

definition dispatch_group_wait_slow :: "dispatch_group \<Rightarrow> u32 \<Rightarrow> u64 \<Rightarrow> int \<Rightarrow> group_pc" where
  "dispatch_group_wait_slow dg gen timeout rc =
     (if gen \<noteq> dg_state_gen (dg_state dg) then Out 0
      else if rc = ETIMEDOUT then Out ETIMEDOUT
      else Wait_address gen timeout)"

text \<open>The three parts of \<open>_dispatch_group_wake\<close>; the first also gives the notifications that
  are submitted.\<close>

definition dispatch_group_wake :: "dispatch_group \<Rightarrow> u64 \<Rightarrow> bool \<Rightarrow> dispatch_group \<times> nat list \<times> group_pc" where
  "dispatch_group_wake dg st needs_release =
     (let refs = (if needs_release then 1 else 0)
      in if st AND DISPATCH_GROUP_HAS_NOTIFS \<noteq> 0
         then (dg\<lparr>dg_notify := []\<rparr>, dg_notify dg, Wake_waiters st (refs + 1))
         else (dg, [], Wake_waiters st refs))"

definition dispatch_group_wake_release :: "dispatch_group \<Rightarrow> nat \<Rightarrow> dispatch_group" where
  "dispatch_group_wake_release dg refs = (if refs \<noteq> 0 then dg\<lparr>dg_refs := dg_refs dg - int refs\<rparr> else dg)"

text \<open>\<open>None\<close> is the crash on an unbalanced call.\<close>

definition dispatch_group_leave :: "dispatch_group \<Rightarrow> (dispatch_group \<times> group_pc) option" where
  "dispatch_group_leave dg =
     (let old_state = dg_state dg;
          dg = dg\<lparr>dg_state := old_state + DISPATCH_GROUP_VALUE_INTERVAL\<rparr>;
          old_value = old_state AND DISPATCH_GROUP_VALUE_MASK
      in if old_value = DISPATCH_GROUP_VALUE_1 then Some (dg, Leave_loop (old_state + DISPATCH_GROUP_VALUE_INTERVAL))
         else if old_value = 0 then None
         else Some (dg, Out 0))"

text \<open>One round of its loop.\<close>

definition dispatch_group_leave_loop :: "dispatch_group \<Rightarrow> u64 \<Rightarrow> dispatch_group \<times> group_pc" where
  "dispatch_group_leave_loop dg old_state =
     (let new_state =
            (if old_state AND DISPATCH_GROUP_VALUE_MASK = 0
             then (old_state AND NOT DISPATCH_GROUP_HAS_WAITERS) AND NOT DISPATCH_GROUP_HAS_NOTIFS
             else old_state AND NOT DISPATCH_GROUP_HAS_NOTIFS)
      in if old_state = new_state then (dg, Wake old_state True)
         else if dg_state dg = old_state then (dg\<lparr>dg_state := new_state\<rparr>, Wake old_state True)
         else (dg, Leave_loop (dg_state dg)))"

text \<open>\<open>None\<close> is the crash on too many calls.\<close>

definition dispatch_group_enter :: "dispatch_group \<Rightarrow> (dispatch_group \<times> group_pc) option" where
  "dispatch_group_enter dg =
     (let old_bits = dg_bits (dg_state dg);
          dg = dg\<lparr>dg_state := set_dg_bits (old_bits - ucast DISPATCH_GROUP_VALUE_INTERVAL) (dg_state dg)\<rparr>;
          old_value = old_bits AND ucast DISPATCH_GROUP_VALUE_MASK
      in if old_value = 0 then Some (dg, Enter_retain)
         else if old_value = ucast DISPATCH_GROUP_VALUE_MAX then None
         else Some (dg, Out 0))"

definition dispatch_retain_group :: "dispatch_group \<Rightarrow> dispatch_group" where
  "dispatch_retain_group dg = dg\<lparr>dg_refs := dg_refs dg + 1\<rparr>"

text \<open>\<open>_dispatch_group_notify\<close>: the push, and the loop.\<close>

definition dispatch_group_notify :: "dispatch_group \<Rightarrow> nat \<Rightarrow> dispatch_group \<times> group_pc" where
  "dispatch_group_notify dg dsn =
     (dg\<lparr>dg_notify := dg_notify dg @ [dsn]\<rparr>, if dg_notify dg = [] then Notify_retain else Out 0)"

definition dispatch_group_notify_set :: "dispatch_group \<Rightarrow> dispatch_group \<times> group_pc" where
  "dispatch_group_notify_set dg =
     (let old_state = dg_state dg;
          new_state = old_state OR DISPATCH_GROUP_HAS_NOTIFS
      in if dg_bits old_state = 0 then (dg, Wake new_state False)
         else (dg\<lparr>dg_state := new_state\<rparr>, Out 0))"

section \<open>The fields of the word\<close>

text \<open>The word is a generation, a counter and two flags; \<open>k\<close> is the counter as it is stored, 0 when the group is empty.\<close>

definition word_fields :: "u64 \<Rightarrow> int \<Rightarrow> int \<Rightarrow> int \<Rightarrow> bool" where
  "word_fields st g k f \<longleftrightarrow> uint st = g * 4294967296 + k * 4 + f \<and> 0 \<le> g \<and> g < 4294967296
     \<and> 0 \<le> k \<and> k < 1073741824 \<and> 0 \<le> f \<and> f < 4"

lemma fields_exist:
  obtains g k f where "word_fields st g k f"
proof -
  define x where "x = uint st"
  have x: "0 \<le> x" "x < 18446744073709551616" using uint_u64_bound [of st] by (simp_all add: x_def)
  define r where "r = x mod 4294967296"
  have r: "0 \<le> r" "r < 4294967296" "x = x div 4294967296 * 4294967296 + r" by (simp_all add: r_def)
  have g: "0 \<le> x div 4294967296" "x div 4294967296 < 4294967296" using x r by linarith+
  have q: "0 \<le> r div 4" "r div 4 < 1073741824" "r = r div 4 * 4 + r mod 4" "0 \<le> r mod 4" "r mod 4 < 4"
    using r by (linarith, linarith, simp_all)
  have "word_fields st (x div 4294967296) (r div 4) (r mod 4)"
    unfolding word_fields_def x_def [symmetric] using g q r by (intro conjI) linarith+
  then show thesis by (rule that)
qed

lemma fields_low:
  assumes "word_fields st g k f"
  shows "uint st div 4294967296 = g" "uint st mod 4294967296 = k * 4 + f" "uint st mod 4 = f" "(k * 4 + f) div 4 = k"
proof -
  have b: "0 \<le> k * 4 + f" "k * 4 + f < 4294967296" using assms by (auto simp: word_fields_def)
  show "uint st div 4294967296 = g" "uint st mod 4294967296 = k * 4 + f"
    using assms b by (auto simp: word_fields_def intro!: int_div_pos_eq [of _ _ g "k * 4 + f"] int_mod_pos_eq [of _ _ g])
  show "uint st mod 4 = f"
    using assms by (auto simp: word_fields_def intro!: int_mod_pos_eq [of _ _ "g * 1073741824 + k"])
  show "(k * 4 + f) div 4 = k"
    using assms by (auto simp: word_fields_def intro!: int_div_pos_eq [of _ _ k f])
qed

lemma fields_unique: "word_fields st g k f \<Longrightarrow> word_fields st g' k' f' \<Longrightarrow> g = g' \<and> k = k' \<and> f = f'"
  using fields_low [of st g k f] fields_low [of st g' k' f'] by auto

lemma uint_bits: "uint (dg_bits st) = uint st mod 4294967296"
  by (simp add: dg_bits_def unsigned_ucast_eq take_bit_eq_mod)

lemma value_mask: "st AND DISPATCH_GROUP_VALUE_MASK = push_bit 2 (drop_bit 2 (take_bit 32 st))"
proof -
  have m: "DISPATCH_GROUP_VALUE_MASK = push_bit 2 (mask 30)" by (simp add: DISPATCH_GROUP_VALUE_MASK_def mask_eq_exp_minus_1)
  have "bit DISPATCH_GROUP_VALUE_MASK n \<longleftrightarrow> 2 \<le> n \<and> n < 32" for n unfolding m by (auto simp: bit_simps)
  moreover have "2 \<le> n \<Longrightarrow> Suc (Suc (n - 2)) = n" for n by simp
  ultimately show ?thesis by (intro bit_word_eqI) (auto simp: bit_simps)
qed

lemma uint_take32: "uint (take_bit 32 (st :: u64)) = uint st mod 4294967296"
  by (subst unsigned_take_bit_eq) (simp add: take_bit_eq_mod)

lemma uint_drop32: "uint (drop_bit 32 (st :: u64)) = uint st div 4294967296"
  by (simp add: drop_bit_eq_div uint_div_distrib)

lemma fields_value:
  assumes "word_fields st g k f"
  shows "uint (st AND DISPATCH_GROUP_VALUE_MASK) = k * 4"
proof -
  have "uint (drop_bit 2 (take_bit 32 st)) = (k * 4 + f) div 4"
    by (simp add: drop_bit_eq_div uint_div_distrib uint_take32 fields_low(2) [OF assms])
  then have k: "uint (drop_bit 2 (take_bit 32 st)) = k" by (simp add: fields_low(4) [OF assms])
  have "k * 4 < 18446744073709551616" "0 \<le> k * 4" using assms by (auto simp: word_fields_def)
  then show ?thesis
    using k by (simp add: value_mask push_bit_eq_mult uint_word_ariths)
qed

lemma uint_VALUE_MASK: "uint DISPATCH_GROUP_VALUE_MASK = 1073741823 * 4" "uint DISPATCH_GROUP_VALUE_1 = 1073741823 * 4"
  by (simp_all add: DISPATCH_GROUP_VALUE_MASK_def DISPATCH_GROUP_VALUE_1_def)

lemma fields_value_iff:
  assumes "word_fields st g k f"
  shows "st AND DISPATCH_GROUP_VALUE_MASK = 0 \<longleftrightarrow> k = 0"
    "st AND DISPATCH_GROUP_VALUE_MASK = DISPATCH_GROUP_VALUE_1 \<longleftrightarrow> k = 1073741823"
  using fields_value [OF assms] by (auto simp: word_uint_eq_iff uint_VALUE_MASK)

lemma fields_bits:
  assumes "word_fields st g k f"
  shows "uint (dg_bits st AND ucast DISPATCH_GROUP_VALUE_MASK) = k * 4" "dg_bits st = 0 \<longleftrightarrow> k = 0 \<and> f = 0"
    "uint (dg_state_gen st) = g" "uint (dg_bits st) = k * 4 + f"
proof -
  have k: "0 \<le> k * 4" "k * 4 < 4294967296" using assms by (auto simp: word_fields_def)
  have "dg_bits st AND ucast DISPATCH_GROUP_VALUE_MASK = (ucast (st AND DISPATCH_GROUP_VALUE_MASK) :: u32)"
    by (simp add: dg_bits_def unsigned_and_eq)
  then show "uint (dg_bits st AND ucast DISPATCH_GROUP_VALUE_MASK) = k * 4"
    using k by (simp add: unsigned_ucast_eq fields_value [OF assms] take_bit_int_eq_self)
  show u: "uint (dg_bits st) = k * 4 + f" by (simp add: uint_bits fields_low(2) [OF assms])
  have "0 \<le> k" "0 \<le> f" using assms by (auto simp: word_fields_def)
  then have "k * 4 + f = 0 \<longleftrightarrow> k = 0 \<and> f = 0" by linarith
  then show "dg_bits st = 0 \<longleftrightarrow> k = 0 \<and> f = 0"
    using u by (simp add: word_uint_eq_iff)
  have "uint (drop_bit 32 st) = g"
    by (simp add: drop_bit_eq_div uint_div_distrib fields_low(1) [OF assms])
  then show "uint (dg_state_gen st) = g"
    using assms by (simp add: dg_state_gen_def unsigned_ucast_eq word_fields_def take_bit_int_eq_self)
qed

lemma fields_count:
  assumes "word_fields st g k f"
  shows "uint (dg_state_value st) = (if k = 0 then 0 else 1073741824 - k)"
proof -
  have k: "0 \<le> k" "k < 1073741824" using assms by (auto simp: word_fields_def)
  have u: "uint ((ucast st :: u32) AND ucast DISPATCH_GROUP_VALUE_MASK) = k * 4"
    using fields_bits(1) [OF assms] by (simp add: dg_bits_def)
  have "uint (- (ucast st AND ucast DISPATCH_GROUP_VALUE_MASK) :: u32) = (- (k * 4)) mod 4294967296"
    by (simp add: uint_word_ariths u)
  also have "\<dots> = (if k = 0 then 0 else 4294967296 - k * 4)"
    using k by (auto intro!: int_mod_pos_eq [of _ _ "- 1"])
  finally show ?thesis
    using k by (auto simp: dg_state_value_def drop_bit_eq_div uint_div_distrib)
qed

lemma fields_same_rest:
  assumes "word_fields st g k f" "drop_bit 2 st' = drop_bit 2 st"
  shows "word_fields st' g k (uint st' mod 4)"
proof -
  have "uint st' div 4 = uint st div 4"
    using arg_cong [OF assms(2), of uint] by (simp add: drop_bit_eq_div uint_div_distrib)
  also have "\<dots> = g * 1073741824 + k"
    using assms(1) by (auto simp: word_fields_def intro!: int_div_pos_eq [of _ _ _ f])
  finally have "uint st' = (g * 1073741824 + k) * 4 + uint st' mod 4" using div_mult_mod_eq [of "uint st'" 4] by simp
  then show ?thesis using assms(1) by (simp add: word_fields_def)
qed

lemma flag_bits:
  fixes st st' :: u64
  assumes "uint st mod 4 = uint st' mod 4"
  shows "bit st 0 = bit st' 0" "bit st 1 = bit st' 1"
proof -
  have "take_bit 2 (uint st) = take_bit 2 (uint st')" using assms by (simp add: take_bit_eq_mod)
  then have "bit (uint st) n = bit (uint st') n" if "n < 2" for n using that by (metis bit_take_bit_iff)
  then have "bit st n = bit st' n" if "n < 2" for n using that by (simp add: bit_uint_iff)
  then show "bit st 0 = bit st' 0" "bit st 1 = bit st' 1" by simp_all
qed

lemma leave_fields:
  assumes "word_fields st g k f"
  shows "word_fields (st + DISPATCH_GROUP_VALUE_INTERVAL) (if k = 1073741823 then (g + 1) mod 4294967296 else g)
    (if k = 1073741823 then 0 else k + 1) f"
proof -
  define x where "x = uint st"
  have u: "uint (st + DISPATCH_GROUP_VALUE_INTERVAL) = (x + 4) mod 18446744073709551616"
    by (simp add: DISPATCH_GROUP_VALUE_INTERVAL_def uint_word_ariths x_def)
  have x: "x = g * 4294967296 + k * 4 + f" "0 \<le> g" "g < 4294967296" "0 \<le> k" "k < 1073741824" "0 \<le> f" "f < 4"
    using assms by (simp_all add: word_fields_def x_def)
  consider "k \<noteq> 1073741823" | "k = 1073741823" "g \<noteq> 4294967295" | "k = 1073741823" "g = 4294967295" by blast
  then show ?thesis
  proof cases
    case 1
    then have "(x + 4) mod 18446744073709551616 = x + 4" using x by (intro mod_pos_pos_trivial) linarith+
    then show ?thesis using 1 x u by (simp add: word_fields_def)
  next
    case 2
    then have "(x + 4) mod 18446744073709551616 = x + 4" using x by (intro mod_pos_pos_trivial) linarith+
    then show ?thesis using 2 x u by (simp add: word_fields_def)
  next
    case 3
    then have "(x + 4) mod 18446744073709551616 = f" using x by (intro int_mod_pos_eq [of _ _ 1]) linarith+
    then show ?thesis using 3 x u by (simp add: word_fields_def)
  qed
qed

lemma uint_set_bits:
  assumes "word_fields st g k f"
  shows "uint (set_dg_bits b st) = g * 4294967296 + uint b"
proof -
  have m: "DISPATCH_GROUP_GEN_MASK = push_bit 32 (mask 32)"
    by (simp add: DISPATCH_GROUP_GEN_MASK_def mask_eq_exp_minus_1)
  have n: "bit DISPATCH_GROUP_GEN_MASK n \<longleftrightarrow> 32 \<le> n \<and> n < 64" for n unfolding m by (auto simp: bit_simps)
  have "bit (set_dg_bits b st) n \<longleftrightarrow> n < 64 \<and> (if n < 32 then bit b n else bit st n)" for n
    by (auto simp: set_dg_bits_def bit_and_iff bit_or_iff bit_unsigned_iff n dest: bit_imp_le_length)
  note bits = this
  have d: "drop_bit 32 (set_dg_bits b st) = drop_bit 32 st"
    by (rule bit_word_eqI) (auto simp: bit_drop_bit_eq bits dest: bit_imp_le_length)
  have t: "take_bit 32 (set_dg_bits b st) = ucast b"
    by (rule bit_word_eqI) (auto simp: bit_take_bit_iff bit_unsigned_iff bits dest: bit_imp_le_length)
  have "uint (set_dg_bits b st) div 4294967296 = g"
    by (metis d uint_drop32 fields_low(1) [OF assms])
  moreover have "uint (set_dg_bits b st) mod 4294967296 = uint b"
    using uint_up_ucast [of b, where 'b = 64] uint_take32 [of "set_dg_bits b st"] t by (simp add: is_up)
  ultimately show ?thesis using div_mult_mod_eq [of "uint (set_dg_bits b st)" 4294967296] by simp
qed

lemma enter_fields:
  assumes "word_fields st g k f"
  shows "word_fields (set_dg_bits (dg_bits st - ucast DISPATCH_GROUP_VALUE_INTERVAL) st) g (if k = 0 then 1073741823 else k - 1) f"
proof -
  have b: "uint (dg_bits st - ucast DISPATCH_GROUP_VALUE_INTERVAL) = (k * 4 + f - 4) mod 4294967296"
    by (simp add: DISPATCH_GROUP_VALUE_INTERVAL_def uint_word_ariths fields_bits(4) [OF assms])
  have x: "0 \<le> g" "g < 4294967296" "0 \<le> k" "k < 1073741824" "0 \<le> f" "f < 4" using assms by (simp_all add: word_fields_def)
  show ?thesis
  proof (cases "k = 0")
    case True
    then have "(k * 4 + f - 4) mod 4294967296 = 1073741823 * 4 + f"
      using x by (intro int_mod_pos_eq [of _ _ "- 1"]) simp_all
    then show ?thesis using True x by (simp add: word_fields_def uint_set_bits [OF assms] b)
  next
    case False
    then have "(k * 4 + f - 4) mod 4294967296 = (k - 1) * 4 + f" using x by (intro mod_pos_pos_trivial [THEN trans]) simp_all
    then show ?thesis using False x by (simp add: word_fields_def uint_set_bits [OF assms] b)
  qed
qed

section \<open>The word and the operations\<close>

definition is_empty :: "u64 \<Rightarrow> bool" where
  "is_empty st \<longleftrightarrow> st AND DISPATCH_GROUP_VALUE_MASK = 0"

definition has_waiters :: "u64 \<Rightarrow> bool" where
  "has_waiters st \<longleftrightarrow> st AND DISPATCH_GROUP_HAS_WAITERS \<noteq> 0"

definition has_notifs :: "u64 \<Rightarrow> bool" where
  "has_notifs st \<longleftrightarrow> st AND DISPATCH_GROUP_HAS_NOTIFS \<noteq> 0"

lemma flag_masks: "bit DISPATCH_GROUP_HAS_WAITERS n \<longleftrightarrow> n = 0" "bit DISPATCH_GROUP_HAS_NOTIFS n \<longleftrightarrow> n = 1"
  using bit_exp_iff [of 1 n, where 'a = "64 word"]
  by (auto simp: DISPATCH_GROUP_HAS_WAITERS_def DISPATCH_GROUP_HAS_NOTIFS_def bit_1_iff)

lemma flag_set:
  fixes st m :: u64
  assumes "\<And>n. bit m n \<longleftrightarrow> n = i"
  shows "st AND m \<noteq> 0 \<longleftrightarrow> bit st i"
proof
  assume "st AND m \<noteq> 0"
  then show "bit st i" by (rule contrapos_np) (auto intro: bit_word_eqI simp: bit_and_iff assms)
next
  assume "bit st i"
  then have "bit (st AND m) i" by (simp add: bit_and_iff assms)
  then show "st AND m \<noteq> 0" by auto
qed

lemma has_bits: "has_waiters st \<longleftrightarrow> bit st 0" "has_notifs st \<longleftrightarrow> bit st 1"
  by (simp_all add: has_waiters_def has_notifs_def flag_set [OF flag_masks(1)] flag_set [OF flag_masks(2)])

lemma fields_flags: "word_fields st g k f \<Longrightarrow> word_fields st' g' k' f \<Longrightarrow> has_waiters st' = has_waiters st \<and> has_notifs st' = has_notifs st"
  using flag_bits [of st' st] fields_low(3) [of st] fields_low(3) [of st'] by (simp add: has_bits)

lemma fields_empty: "word_fields st g k f \<Longrightarrow> is_empty st \<longleftrightarrow> k = 0"
  by (simp add: is_empty_def fields_value_iff)

lemma fields_gen: "word_fields st g k f \<Longrightarrow> dg_state_gen st = word_of_int g"
proof -
  assume "word_fields st g k f"
  then have "g = uint (dg_state_gen st)" by (simp add: fields_bits(3))
  then show ?thesis by simp
qed

lemma leave_word:
  "has_waiters (st + DISPATCH_GROUP_VALUE_INTERVAL) = has_waiters st"
  "has_notifs (st + DISPATCH_GROUP_VALUE_INTERVAL) = has_notifs st"
  "st AND DISPATCH_GROUP_VALUE_MASK = DISPATCH_GROUP_VALUE_1 \<Longrightarrow> is_empty (st + DISPATCH_GROUP_VALUE_INTERVAL) \<and> \<not> is_empty st
     \<and> dg_state_gen (st + DISPATCH_GROUP_VALUE_INTERVAL) = dg_state_gen st + 1"
  "st AND DISPATCH_GROUP_VALUE_MASK \<noteq> DISPATCH_GROUP_VALUE_1 \<Longrightarrow> \<not> is_empty (st + DISPATCH_GROUP_VALUE_INTERVAL)
     \<and> dg_state_gen (st + DISPATCH_GROUP_VALUE_INTERVAL) = dg_state_gen st"
proof -
  obtain g k f where f: "word_fields st g k f" by (rule fields_exist)
  note l = leave_fields [OF f] and r = f [unfolded word_fields_def]
  show "has_waiters (st + DISPATCH_GROUP_VALUE_INTERVAL) = has_waiters st"
    "has_notifs (st + DISPATCH_GROUP_VALUE_INTERVAL) = has_notifs st"
    using fields_flags [OF f l] by simp_all
  have "(word_of_int ((g + 1) mod 4294967296) :: u32) = word_of_int g + 1"
    by (simp add: word_uint_eq_iff uint_word_of_int uint_word_ariths mod_simps)
  then show "is_empty (st + DISPATCH_GROUP_VALUE_INTERVAL) \<and> \<not> is_empty st
      \<and> dg_state_gen (st + DISPATCH_GROUP_VALUE_INTERVAL) = dg_state_gen st + 1"
    if "st AND DISPATCH_GROUP_VALUE_MASK = DISPATCH_GROUP_VALUE_1"
    using that fields_empty [OF l] fields_gen [OF l] fields_gen [OF f] by (simp add: fields_value_iff [OF f] fields_empty [OF f])
  show "\<not> is_empty (st + DISPATCH_GROUP_VALUE_INTERVAL) \<and> dg_state_gen (st + DISPATCH_GROUP_VALUE_INTERVAL) = dg_state_gen st"
    if "st AND DISPATCH_GROUP_VALUE_MASK \<noteq> DISPATCH_GROUP_VALUE_1"
    using that fields_empty [OF l] fields_gen [OF l] fields_gen [OF f] r by (simp add: fields_value_iff [OF f])
qed

lemma enter_word:
  defines "enter st \<equiv> set_dg_bits (dg_bits st - ucast DISPATCH_GROUP_VALUE_INTERVAL) st"
  shows "has_waiters (enter st) = has_waiters st" "has_notifs (enter st) = has_notifs st"
    "dg_state_gen (enter st) = dg_state_gen st"
    "dg_bits st AND ucast DISPATCH_GROUP_VALUE_MASK = 0 \<longleftrightarrow> is_empty st"
    "dg_bits st AND ucast DISPATCH_GROUP_VALUE_MASK \<noteq> ucast DISPATCH_GROUP_VALUE_MAX \<Longrightarrow> \<not> is_empty (enter st)"
proof -
  obtain g k f where f: "word_fields st g k f" by (rule fields_exist)
  note e = enter_fields [OF f, folded enter_def]
  show "has_waiters (enter st) = has_waiters st" "has_notifs (enter st) = has_notifs st"
    using fields_flags [OF f e] by simp_all
  show "dg_state_gen (enter st) = dg_state_gen st" using fields_gen [OF e] fields_gen [OF f] by simp
  show "dg_bits st AND ucast DISPATCH_GROUP_VALUE_MASK = 0 \<longleftrightarrow> is_empty st"
    using fields_bits(1) [OF f] by (simp add: word_uint_eq_iff fields_empty [OF f])
  have m: "uint (ucast DISPATCH_GROUP_VALUE_MAX :: u32) = 4"
    by (simp add: DISPATCH_GROUP_VALUE_MAX_def DISPATCH_GROUP_VALUE_INTERVAL_def)
  show "\<not> is_empty (enter st)" if "dg_bits st AND ucast DISPATCH_GROUP_VALUE_MASK \<noteq> ucast DISPATCH_GROUP_VALUE_MAX"
    using that fields_bits(1) [OF f] m by (auto simp: word_uint_eq_iff fields_empty [OF e])
qed

lemma flag_word:
  "is_empty (st OR DISPATCH_GROUP_HAS_WAITERS) = is_empty st" "is_empty (st OR DISPATCH_GROUP_HAS_NOTIFS) = is_empty st"
  "is_empty (st AND NOT DISPATCH_GROUP_HAS_WAITERS) = is_empty st" "is_empty (st AND NOT DISPATCH_GROUP_HAS_NOTIFS) = is_empty st"
  "dg_state_gen (st OR DISPATCH_GROUP_HAS_WAITERS) = dg_state_gen st" "dg_state_gen (st OR DISPATCH_GROUP_HAS_NOTIFS) = dg_state_gen st"
  "dg_state_gen (st AND NOT DISPATCH_GROUP_HAS_WAITERS) = dg_state_gen st"
  "dg_state_gen (st AND NOT DISPATCH_GROUP_HAS_NOTIFS) = dg_state_gen st"
proof -
  have same: "is_empty st' = is_empty st \<and> dg_state_gen st' = dg_state_gen st" if "drop_bit 2 st' = drop_bit 2 st" for st'
  proof -
    obtain g k f where f: "word_fields st g k f" by (rule fields_exist)
    note f' = fields_same_rest [OF f that]
    show ?thesis using fields_empty [OF f] fields_empty [OF f'] fields_gen [OF f] fields_gen [OF f'] by simp
  qed
  have "drop_bit 2 (st OR DISPATCH_GROUP_HAS_WAITERS) = drop_bit 2 st" "drop_bit 2 (st OR DISPATCH_GROUP_HAS_NOTIFS) = drop_bit 2 st"
    "drop_bit 2 (st AND NOT DISPATCH_GROUP_HAS_WAITERS) = drop_bit 2 st"
    "drop_bit 2 (st AND NOT DISPATCH_GROUP_HAS_NOTIFS) = drop_bit 2 st"
    by (rule bit_word_eqI, auto simp: bit_drop_bit_eq bit_or_iff bit_and_iff bit_not_iff flag_masks dest: bit_imp_le_length)+
  note d = this [THEN same]
  show "is_empty (st OR DISPATCH_GROUP_HAS_WAITERS) = is_empty st" "is_empty (st OR DISPATCH_GROUP_HAS_NOTIFS) = is_empty st"
    "is_empty (st AND NOT DISPATCH_GROUP_HAS_WAITERS) = is_empty st" "is_empty (st AND NOT DISPATCH_GROUP_HAS_NOTIFS) = is_empty st"
    "dg_state_gen (st OR DISPATCH_GROUP_HAS_WAITERS) = dg_state_gen st" "dg_state_gen (st OR DISPATCH_GROUP_HAS_NOTIFS) = dg_state_gen st"
    "dg_state_gen (st AND NOT DISPATCH_GROUP_HAS_WAITERS) = dg_state_gen st"
    "dg_state_gen (st AND NOT DISPATCH_GROUP_HAS_NOTIFS) = dg_state_gen st"
    using d by simp_all
qed

lemma flag_effect [simp]:
  "has_waiters (st OR DISPATCH_GROUP_HAS_WAITERS)" "has_notifs (st OR DISPATCH_GROUP_HAS_WAITERS) = has_notifs st"
  "has_waiters (st OR DISPATCH_GROUP_HAS_NOTIFS) = has_waiters st" "has_notifs (st OR DISPATCH_GROUP_HAS_NOTIFS)"
  "\<not> has_waiters (st AND NOT DISPATCH_GROUP_HAS_WAITERS)" "has_notifs (st AND NOT DISPATCH_GROUP_HAS_WAITERS) = has_notifs st"
  "has_waiters (st AND NOT DISPATCH_GROUP_HAS_NOTIFS) = has_waiters st" "\<not> has_notifs (st AND NOT DISPATCH_GROUP_HAS_NOTIFS)"
  by (simp_all add: has_bits bit_or_iff bit_and_iff bit_not_iff flag_masks)

lemma empty_word: "has_waiters 0 = False" "has_notifs 0 = False" "is_empty 0"
  by (simp_all add: has_waiters_def has_notifs_def is_empty_def)

lemma dg_bits_0: "dg_bits st = 0 \<longleftrightarrow> is_empty st \<and> \<not> has_waiters st \<and> \<not> has_notifs st"
proof -
  obtain g k f where f: "word_fields st g k f" by (rule fields_exist)
  have m: "uint st mod 4 = f" using fields_low(3) [OF f] .
  have "f = 0 \<longleftrightarrow> \<not> bit (uint st) 0 \<and> \<not> bit (uint st) 1"
  proof
    assume "f = 0"
    then have "take_bit 2 (uint st) = 0" using m by (simp add: take_bit_eq_mod)
    then have "\<not> bit (take_bit 2 (uint st)) n" for n by simp
    from this [of 0] this [of 1] show "\<not> bit (uint st) 0 \<and> \<not> bit (uint st) 1"
      by (simp only: bit_take_bit_iff) simp
  next
    assume "\<not> bit (uint st) 0 \<and> \<not> bit (uint st) 1"
    then have "take_bit 2 (uint st) = 0" by (intro bit_eqI) (auto simp: bit_take_bit_iff dest: less_2_cases)
    then show "f = 0" using m by (simp add: take_bit_eq_mod)
  qed
  then have "f = 0 \<longleftrightarrow> \<not> has_waiters st \<and> \<not> has_notifs st" by (simp add: has_bits bit_uint_iff)
  then show ?thesis using fields_bits(2) [OF f] fields_empty [OF f] by blast
qed

section \<open>Threads\<close>

text \<open>The system keeps the notifications in the order in which they were registered, those that were
  submitted, and how often the group has become empty.\<close>

record group_system =
  gs_group :: dispatch_group
  gs_threads :: "group_pc list"
  gs_registered :: "nat list"
  gs_submitted :: "nat list"
  gs_emptied :: nat

definition group_start :: "u32 \<Rightarrow> nat \<Rightarrow> group_system \<Rightarrow> bool" where
  "group_start c n s \<longleftrightarrow> c \<in> {0, 1} \<and>
     s = \<lparr>gs_group = dispatch_group_create_with_count c, gs_threads = replicate n (Out 0),
          gs_registered = [], gs_submitted = [], gs_emptied = 0\<rparr>"

definition group_move :: "nat \<Rightarrow> dispatch_group \<Rightarrow> group_pc \<Rightarrow> group_system \<Rightarrow> group_system" where
  "group_move i dg pc s = s\<lparr>gs_group := dg, gs_threads := (gs_threads s)[i := pc]\<rparr>"

text \<open>A thread that is not in a call makes one, or a sleeper wakes up on its own.\<close>

inductive group_call :: "group_system \<Rightarrow> group_system \<Rightarrow> bool" where
  call_group_enter: "i < length (gs_threads s) \<Longrightarrow> gs_threads s ! i = Out r
    \<Longrightarrow> dispatch_group_enter (gs_group s) = Some (dg, pc)
    \<Longrightarrow> group_call s (group_move i dg pc s)"
| call_group_leave: "i < length (gs_threads s) \<Longrightarrow> gs_threads s ! i = Out r
    \<Longrightarrow> dispatch_group_leave (gs_group s) = Some (dg, pc)
    \<Longrightarrow> group_call s ((group_move i dg pc s)\<lparr>gs_emptied := gs_emptied s + of_bool (pc \<noteq> Out 0)\<rparr>)"
| call_group_wait: "i < length (gs_threads s) \<Longrightarrow> gs_threads s ! i = Out r
    \<Longrightarrow> dispatch_group_wait (gs_group s) timeout = (dg, pc)
    \<Longrightarrow> group_call s (group_move i dg pc s)"
| call_group_notify: "i < length (gs_threads s) \<Longrightarrow> gs_threads s ! i = Out r
    \<Longrightarrow> dispatch_group_notify (gs_group s) dsn = (dg, pc)
    \<Longrightarrow> group_call s ((group_move i dg pc s)\<lparr>gs_registered := gs_registered s @ [dsn]\<rparr>)"
| call_wake_up: "i < length (gs_threads s) \<Longrightarrow> gs_threads s ! i = Asleep gen timeout
    \<Longrightarrow> group_call s (group_move i (gs_group s) (Wait_look gen timeout 0) s)"

text \<open>A wake-up of all sleepers.\<close>

definition wake_up :: "group_pc \<Rightarrow> group_pc" where
  "wake_up pc = (case pc of Asleep gen timeout \<Rightarrow> Wait_look gen timeout 0 | _ \<Rightarrow> pc)"

definition EWOULDBLOCK :: int where "EWOULDBLOCK = 11"

text \<open>A thread in a call goes on.\<close>

inductive group_continue :: "group_system \<Rightarrow> group_system \<Rightarrow> bool" where
  continue_enter: "i < length (gs_threads s) \<Longrightarrow> gs_threads s ! i = Enter_retain
    \<Longrightarrow> group_continue s (group_move i (dispatch_retain_group (gs_group s)) (Out 0) s)"
| continue_leave: "i < length (gs_threads s) \<Longrightarrow> gs_threads s ! i = Leave_loop old_state
    \<Longrightarrow> dispatch_group_leave_loop (gs_group s) old_state = (dg, pc)
    \<Longrightarrow> group_continue s (group_move i dg pc s)"
| continue_wake: "i < length (gs_threads s) \<Longrightarrow> gs_threads s ! i = Wake st needs_release
    \<Longrightarrow> dispatch_group_wake (gs_group s) st needs_release = (dg, dcs, pc)
    \<Longrightarrow> group_continue s ((group_move i dg pc s)\<lparr>gs_submitted := gs_submitted s @ dcs\<rparr>)"
| continue_wake_waiters: "i < length (gs_threads s) \<Longrightarrow> gs_threads s ! i = Wake_waiters st refs
    \<Longrightarrow> group_continue s
          (s\<lparr>gs_threads := (if st AND DISPATCH_GROUP_HAS_WAITERS \<noteq> 0 then map wake_up (gs_threads s) else gs_threads s)
               [i := Wake_release refs]\<rparr>)"
| continue_wake_release: "i < length (gs_threads s) \<Longrightarrow> gs_threads s ! i = Wake_release refs
    \<Longrightarrow> group_continue s (group_move i (dispatch_group_wake_release (gs_group s) refs) (Out 0) s)"
| continue_wait: "i < length (gs_threads s) \<Longrightarrow> gs_threads s ! i = Wait_address gen timeout
    \<Longrightarrow> group_continue s (group_move i (gs_group s)
          (if dg_state_gen (dg_state (gs_group s)) = gen then Asleep gen timeout else Wait_look gen timeout EWOULDBLOCK) s)"
| continue_timed_out: "i < length (gs_threads s) \<Longrightarrow> gs_threads s ! i \<in> {Wait_address gen timeout, Asleep gen timeout}
    \<Longrightarrow> timeout \<noteq> DISPATCH_TIME_FOREVER
    \<Longrightarrow> group_continue s (group_move i (gs_group s) (Wait_look gen timeout ETIMEDOUT) s)"
| continue_look: "i < length (gs_threads s) \<Longrightarrow> gs_threads s ! i = Wait_look gen timeout rc
    \<Longrightarrow> group_continue s (group_move i (gs_group s) (dispatch_group_wait_slow (gs_group s) gen timeout rc) s)"
| continue_notify_retain: "i < length (gs_threads s) \<Longrightarrow> gs_threads s ! i = Notify_retain
    \<Longrightarrow> group_continue s (group_move i (dispatch_retain_group (gs_group s)) Notify_set s)"
| continue_notify: "i < length (gs_threads s) \<Longrightarrow> gs_threads s ! i = Notify_set
    \<Longrightarrow> dispatch_group_notify_set (gs_group s) = (dg, pc)
    \<Longrightarrow> group_continue s (group_move i dg pc s)"

definition group_step :: "group_system \<Rightarrow> group_system \<Rightarrow> bool" where
  "group_step s s' \<longleftrightarrow> group_call s s' \<or> group_continue s s'"

section \<open>Notifications and references\<close>

lemmas group_ops = dispatch_group_enter_def dispatch_group_leave_def dispatch_group_wait_def dispatch_group_notify_def
  dispatch_group_leave_loop_def dispatch_group_wake_def dispatch_group_wake_release_def dispatch_group_wait_slow_def
  dispatch_retain_group_def dispatch_group_notify_set_def

text \<open>A thread that has to take care of the notifications.\<close>

fun responsible :: "group_pc \<Rightarrow> bool" where
  "responsible Notify_retain = True"
| "responsible Notify_set = True"
| "responsible (Wake st needs_release) = has_notifs st"
| "responsible _ = False"

text \<open>The references that a thread will give back, less those it has still to take.\<close>

fun owed :: "group_pc \<Rightarrow> int" where
  "owed Enter_retain = - 1"
| "owed Notify_retain = - 1"
| "owed (Leave_loop old_state) = 1"
| "owed (Wake st needs_release) = of_bool needs_release"
| "owed (Wake_waiters st refs) = int refs"
| "owed (Wake_release refs) = int refs"
| "owed _ = 0"

text \<open>Notifications leave in the order in which they came; whenever there are some, either the flag is set
  or one thread takes care of them, never both and never two; the references are those of the caller, of the
  entered group and of the notifications.\<close>

definition notify_inv :: "group_system \<Rightarrow> bool" where
  "notify_inv s \<longleftrightarrow>
     (let dg = gs_group s; st = dg_state dg
      in gs_registered s = gs_submitted s @ dg_notify dg
       \<and> of_bool (has_notifs st) + threads_at responsible (gs_threads s) = (of_bool (dg_notify dg \<noteq> []) :: nat)
       \<and> dg_refs dg = 1 + of_bool (\<not> is_empty st) + of_bool (dg_notify dg \<noteq> []) + sum_list (map owed (gs_threads s)))"

lemma group_move_simps [simp]:
  "gs_group (group_move i dg pc s) = dg" "gs_threads (group_move i dg pc s) = (gs_threads s)[i := pc]"
  "gs_registered (group_move i dg pc s) = gs_registered s" "gs_submitted (group_move i dg pc s) = gs_submitted s"
  "gs_emptied (group_move i dg pc s) = gs_emptied s"
  by (simp_all add: group_move_def)

lemma created_word:
  "c \<in> {0, 1} \<Longrightarrow> \<not> has_waiters (dg_state (dispatch_group_create_with_count c)) \<and> \<not> has_notifs (dg_state (dispatch_group_create_with_count c))
     \<and> (is_empty (dg_state (dispatch_group_create_with_count c)) \<longleftrightarrow> c = 0) \<and> dg_state_gen (dg_state (dispatch_group_create_with_count c)) = 0"
  by (auto simp: dispatch_group_create_with_count_def set_dg_bits_def DISPATCH_GROUP_VALUE_INTERVAL_def has_waiters_def
      has_notifs_def is_empty_def DISPATCH_GROUP_VALUE_MASK_def DISPATCH_GROUP_HAS_WAITERS_def DISPATCH_GROUP_HAS_NOTIFS_def
      dg_state_gen_def)

lemma group_start_notify: "group_start c n s \<Longrightarrow> notify_inv s"
  using created_word [of c]
  by (auto simp: group_start_def notify_inv_def threads_at_replicate dispatch_group_create_with_count_def Let_def
      sum_list_replicate)

lemma wake_up_keeps: "responsible (wake_up pc) = responsible pc" "owed (wake_up pc) = owed pc"
  by (cases pc; simp add: wake_up_def)+

lemma threads_at_wake_up: "threads_at responsible (map wake_up ts) = threads_at responsible ts" "map owed (map wake_up ts) = map owed ts"
  by (simp_all add: threads_at_def filter_map o_def wake_up_keeps)

lemma enter_op:
  assumes "dispatch_group_enter dg = Some (dg', pc)"
  obtains st where "dg' = dg\<lparr>dg_state := st\<rparr>" "has_waiters st = has_waiters (dg_state dg)"
    "has_notifs st = has_notifs (dg_state dg)" "dg_state_gen st = dg_state_gen (dg_state dg)" "\<not> is_empty st"
    "pc = (if is_empty (dg_state dg) then Enter_retain else Out 0)"
proof -
  let ?st = "set_dg_bits (dg_bits (dg_state dg) - ucast DISPATCH_GROUP_VALUE_INTERVAL) (dg_state dg)"
  have m: "(ucast DISPATCH_GROUP_VALUE_MAX :: u32) \<noteq> 0"
    by (simp add: DISPATCH_GROUP_VALUE_MAX_def DISPATCH_GROUP_VALUE_INTERVAL_def)
  have e: "\<not> is_empty ?st"
    using assms m by (intro enter_word(5)) (auto simp: dispatch_group_enter_def Let_def split: if_splits)
  show thesis
    using assms e by (intro that [of ?st])
      (auto simp: dispatch_group_enter_def Let_def enter_word split: if_splits)
qed

lemma leave_op:
  assumes "dispatch_group_leave dg = Some (dg', pc)"
  obtains st where "dg' = dg\<lparr>dg_state := st\<rparr>" "has_waiters st = has_waiters (dg_state dg)"
    "has_notifs st = has_notifs (dg_state dg)" "\<not> is_empty (dg_state dg)"
    "pc = (if is_empty st then Leave_loop st else Out 0)"
    "dg_state_gen st = dg_state_gen (dg_state dg) + of_bool (is_empty st)"
proof -
  show thesis
    using assms leave_word [of "dg_state dg"]
    by (intro that [of "dg_state dg + DISPATCH_GROUP_VALUE_INTERVAL"])
      (auto simp: dispatch_group_leave_def Let_def is_empty_def [of "dg_state dg"] split: if_splits)
qed

lemma leave_loop_op:
  assumes "dispatch_group_leave_loop dg old_state = (dg', pc)"
  obtains (unchanged) "dg' = dg" "pc = Wake old_state True" "\<not> has_notifs old_state" "is_empty old_state \<Longrightarrow> \<not> has_waiters old_state"
  | (cleared) st where "dg_state dg = old_state" "dg' = dg\<lparr>dg_state := st\<rparr>" "pc = Wake old_state True"
      "is_empty st = is_empty old_state" "dg_state_gen st = dg_state_gen old_state" "\<not> has_notifs st"
      "has_waiters st \<longleftrightarrow> has_waiters old_state \<and> \<not> is_empty old_state"
  | (again) "dg' = dg" "pc = Leave_loop (dg_state dg)" "dg_state dg \<noteq> old_state"
proof -
  let ?new = "if old_state AND DISPATCH_GROUP_VALUE_MASK = 0
      then (old_state AND NOT DISPATCH_GROUP_HAS_WAITERS) AND NOT DISPATCH_GROUP_HAS_NOTIFS
      else old_state AND NOT DISPATCH_GROUP_HAS_NOTIFS"
  have n: "is_empty ?new = is_empty old_state \<and> dg_state_gen ?new = dg_state_gen old_state \<and> \<not> has_notifs ?new
    \<and> (has_waiters ?new \<longleftrightarrow> has_waiters old_state \<and> \<not> is_empty old_state)"
  proof (cases "is_empty old_state")
    case True
    then have "?new = (old_state AND NOT DISPATCH_GROUP_HAS_WAITERS) AND NOT DISPATCH_GROUP_HAS_NOTIFS"
      by (simp add: is_empty_def)
    then show ?thesis
      using flag_word(4,8) [of "old_state AND NOT DISPATCH_GROUP_HAS_WAITERS"] flag_word(3,7) [of old_state]
        flag_effect(7,8) [of "old_state AND NOT DISPATCH_GROUP_HAS_WAITERS"] flag_effect(5) [of old_state] True
      by presburger
  next
    case False
    then have "?new = old_state AND NOT DISPATCH_GROUP_HAS_NOTIFS" by (simp add: is_empty_def)
    then show ?thesis
      using flag_word(4,8) [of old_state] flag_effect(7,8) [of old_state] False by presburger
  qed
  show thesis
  proof (cases "old_state = ?new")
    case True
    then show thesis using assms n unchanged by (auto simp: dispatch_group_leave_loop_def Let_def split: if_splits)
  next
    case False
    show thesis
    proof (cases "dg_state dg = old_state")
      case same: True
      show thesis using assms False same n
        by (intro cleared [of ?new]) (simp_all add: dispatch_group_leave_loop_def Let_def)
    next
      case other: False
      show thesis using assms False other
        by (intro again) (auto simp: dispatch_group_leave_loop_def Let_def)
    qed
  qed
qed

lemma wait_op:
  assumes "dispatch_group_wait dg timeout = (dg', pc)"
  obtains (out) r where "dg' = dg" "pc = Out r" "is_empty (dg_state dg) \<longleftrightarrow> r = 0"
  | (wait) st where "dg' = dg\<lparr>dg_state := st\<rparr>" "pc = Wait_address (dg_state_gen (dg_state dg)) timeout" "has_waiters st"
      "has_notifs st = has_notifs (dg_state dg)" "dg_state_gen st = dg_state_gen (dg_state dg)" "\<not> is_empty st"
      "\<not> is_empty (dg_state dg)"
proof (cases "is_empty (dg_state dg) \<or> timeout = 0")
  case True
  then show thesis using assms
    by (intro out [of "if is_empty (dg_state dg) then 0 else ETIMEDOUT"])
      (auto simp: dispatch_group_wait_def Let_def is_empty_def ETIMEDOUT_def split: if_splits)
next
  case False
  then show thesis using assms
    by (intro wait [of "dg_state dg OR DISPATCH_GROUP_HAS_WAITERS"])
      (auto simp: dispatch_group_wait_def Let_def flag_word is_empty_def [of "dg_state dg", symmetric])
qed

lemma notify_set_op:
  assumes "dispatch_group_notify_set dg = (dg', pc)"
  obtains (empty) st where "dg' = dg" "pc = Wake st False" "has_notifs st" "\<not> has_waiters st" "is_empty (dg_state dg)"
      "\<not> has_waiters (dg_state dg)" "\<not> has_notifs (dg_state dg)"
  | (set) st where "dg' = dg\<lparr>dg_state := st\<rparr>" "pc = Out 0" "has_notifs st" "has_waiters st = has_waiters (dg_state dg)"
      "dg_state_gen st = dg_state_gen (dg_state dg)" "is_empty st = is_empty (dg_state dg)"
      "is_empty (dg_state dg) \<Longrightarrow> has_waiters (dg_state dg) \<or> has_notifs (dg_state dg)"
proof (cases "dg_bits (dg_state dg) = 0")
  case True
  then show thesis using assms
    by (intro empty [of "dg_state dg OR DISPATCH_GROUP_HAS_NOTIFS"])
      (auto simp: dispatch_group_notify_set_def Let_def dg_bits_0)
next
  case False
  then show thesis using assms
    by (intro set [of "dg_state dg OR DISPATCH_GROUP_HAS_NOTIFS"])
      (auto simp: dispatch_group_notify_set_def Let_def dg_bits_0 flag_word)
qed

text \<open>The invariant holds after the steps.\<close>

lemma notify_call:
  assumes "group_call s s'" "notify_inv s"
  shows "notify_inv s'"
  using assms(1)
proof (cases rule: group_call.cases)
  case (call_group_enter i r dg pc)
  from call_group_enter(4) show ?thesis
    by (cases rule: enter_op) (use assms(2) call_group_enter threads_at_update [of i "gs_threads s" responsible pc] in
      \<open>auto simp: notify_inv_def Let_def sum_list_update_int\<close>)
next
  case (call_group_leave i r dg pc)
  from call_group_leave(4) show ?thesis
    by (cases rule: leave_op) (use assms(2) call_group_leave threads_at_update [of i "gs_threads s" responsible pc] in
      \<open>auto simp: notify_inv_def Let_def sum_list_update_int\<close>)
next
  case (call_group_wait i r timeout dg pc)
  from call_group_wait(4) show ?thesis
    by (cases rule: wait_op) (use assms(2) call_group_wait threads_at_update [of i "gs_threads s" responsible pc] in
      \<open>auto simp: notify_inv_def Let_def sum_list_update_int\<close>)
next
  case (call_group_notify i r dsn dg pc)
  then show ?thesis
    using assms(2) threads_at_update [of i "gs_threads s" responsible pc]
    by (auto simp: notify_inv_def Let_def sum_list_update_int dispatch_group_notify_def split: if_splits)
next
  case (call_wake_up i gen timeout)
  then show ?thesis
    using assms(2) threads_at_update [of i "gs_threads s" responsible "Wait_look gen timeout 0"]
    by (auto simp: notify_inv_def Let_def sum_list_update_int)
qed

lemma notify_continue:
  assumes "group_continue s s'" "notify_inv s"
  shows "notify_inv s'"
  using assms(1)
proof (cases rule: group_continue.cases)
  case (continue_leave i old_state dg pc)
  from continue_leave(4) show ?thesis
    by (cases rule: leave_loop_op) (use assms(2) continue_leave threads_at_update [of i "gs_threads s" responsible pc] in
      \<open>auto simp: notify_inv_def Let_def sum_list_update_int\<close>)
next
  case (continue_wake i st needs_release dg dcs pc)
  have "dg_notify (gs_group s) \<noteq> [] \<and> \<not> has_notifs (dg_state (gs_group s))" if "has_notifs st"
    using that assms(2) continue_wake(2,3) threads_at_pos [of i "gs_threads s" responsible]
    by (cases "dg_notify (gs_group s) = []"; cases "has_notifs (dg_state (gs_group s))") (simp_all add: notify_inv_def Let_def)
  then show ?thesis
    using assms(2) continue_wake threads_at_update [of i "gs_threads s" responsible pc]
    by (auto simp: notify_inv_def Let_def sum_list_update_int dispatch_group_wake_def has_notifs_def [of st, symmetric]
      split: if_splits)
next
  case (continue_wake_waiters i st refs)
  let ?ts = "if st AND DISPATCH_GROUP_HAS_WAITERS \<noteq> 0 then map wake_up (gs_threads s) else gs_threads s"
  have "threads_at responsible ?ts = threads_at responsible (gs_threads s)" "map owed ?ts = map owed (gs_threads s)"
    "?ts ! i = Wake_waiters st refs" "i < length ?ts"
    using continue_wake_waiters(2,3) threads_at_wake_up by (auto simp: wake_up_def)
  then show ?thesis
    using assms(2) threads_at_update [of i ?ts responsible "Wake_release refs"] sum_list_update_int [of i ?ts owed]
    unfolding continue_wake_waiters(1) by (simp add: notify_inv_def Let_def del: map_map if_split)
next
  case (continue_notify i dg pc)
  from continue_notify(4) show ?thesis
    by (cases rule: notify_set_op) (use assms(2) continue_notify threads_at_update [of i "gs_threads s" responsible pc] in
      \<open>auto simp: notify_inv_def Let_def sum_list_update_int\<close>)
next
  case (continue_enter i)
  then show ?thesis using assms(2) threads_at_update [of i "gs_threads s" responsible "Out 0"]
    by (auto simp: notify_inv_def Let_def sum_list_update_int dispatch_retain_group_def)
next
  case (continue_wake_release i refs)
  then show ?thesis using assms(2) threads_at_update [of i "gs_threads s" responsible "Out 0"]
    by (auto simp: notify_inv_def Let_def sum_list_update_int dispatch_group_wake_release_def)
next
  case (continue_wait i gen timeout)
  then show ?thesis using assms(2) threads_at_update [of i "gs_threads s" responsible "Asleep gen timeout"]
      threads_at_update [of i "gs_threads s" responsible "Wait_look gen timeout EWOULDBLOCK"]
    by (auto simp: notify_inv_def Let_def sum_list_update_int)
next
  case (continue_timed_out i gen timeout)
  then show ?thesis using assms(2) threads_at_update [of i "gs_threads s" responsible "Wait_look gen timeout ETIMEDOUT"]
    by (auto simp: notify_inv_def Let_def sum_list_update_int)
next
  case (continue_look i gen timeout rc)
  let ?pc = "dispatch_group_wait_slow (gs_group s) gen timeout rc"
  have "\<not> responsible ?pc" "owed ?pc = 0" by (simp_all add: dispatch_group_wait_slow_def)
  then show ?thesis using assms(2) continue_look threads_at_update [of i "gs_threads s" responsible ?pc]
    by (auto simp: notify_inv_def Let_def sum_list_update_int)
next
  case (continue_notify_retain i)
  then show ?thesis using assms(2) threads_at_update [of i "gs_threads s" responsible Notify_set]
    by (auto simp: notify_inv_def Let_def sum_list_update_int dispatch_retain_group_def)
qed

section \<open>Flags and waiters\<close>

text \<open>A thread in the loop of \<open>dispatch_group_leave\<close> that will clear the flags.\<close>

fun clearing :: "group_pc \<Rightarrow> bool" where
  "clearing (Leave_loop old_state) \<longleftrightarrow> is_empty old_state \<and> (has_waiters old_state \<or> has_notifs old_state)"
| "clearing _ \<longleftrightarrow> False"

definition flags_inv :: "group_system \<Rightarrow> bool" where
  "flags_inv s \<longleftrightarrow>
     (let st = dg_state (gs_group s)
      in is_empty st \<and> (has_waiters st \<or> has_notifs st) \<longrightarrow> (\<exists>pc \<in> set (gs_threads s). clearing pc))"

text \<open>A thread that will wake the sleepers, before and after it has left the loop.\<close>

fun woken_by :: "group_pc \<Rightarrow> bool" where
  "woken_by (Wake st needs_release) = has_waiters st"
| "woken_by (Wake_waiters st refs) = has_waiters st"
| "woken_by _ = False"

fun wakes :: "group_pc \<Rightarrow> bool" where
  "wakes (Leave_loop old_state) = has_waiters old_state"
| "wakes pc = woken_by pc"

text \<open>The generation that a thread waits for to pass, and whether it sleeps.\<close>

fun waits_on :: "group_pc \<Rightarrow> u32 option" where
  "waits_on (Wait_address gen timeout) = Some gen"
| "waits_on (Asleep gen timeout) = Some gen"
| "waits_on (Wait_look gen timeout rc) = Some gen"
| "waits_on _ = None"

fun asleep :: "group_pc \<Rightarrow> bool" where
  "asleep (Asleep gen timeout) = True"
| "asleep _ = False"

text \<open>As long as the generation has not wrapped round: it counts how often the group has become empty; who waits for
  the current one has set the flag of a group that is not empty; who sleeps will be woken up when the flag is
  cleared, and who sleeps on an older generation is about to be woken up.\<close>

definition wait_inv :: "group_system \<Rightarrow> bool" where
  "wait_inv s \<longleftrightarrow>
     (let st = dg_state (gs_group s)
      in unat (dg_state_gen st) = gs_emptied s
       \<and> (\<forall>pc \<in> set (gs_threads s). \<forall>gen. waits_on pc = Some gen \<longrightarrow>
            unat gen \<le> gs_emptied s \<and> (gen = dg_state_gen st \<longrightarrow> has_waiters st \<and> \<not> is_empty st))
       \<and> (\<forall>pc \<in> set (gs_threads s). asleep pc \<longrightarrow>
            (has_waiters st \<or> (\<exists>pc' \<in> set (gs_threads s). woken_by pc'))
            \<and> (waits_on pc \<noteq> Some (dg_state_gen st) \<longrightarrow> (\<exists>pc' \<in> set (gs_threads s). wakes pc'))))"

definition waiters_inv :: "group_system \<Rightarrow> bool" where
  "waiters_inv s \<longleftrightarrow> (gs_emptied s < 2 ^ 32 \<longrightarrow> wait_inv s)"

lemma woken_wakes: "woken_by pc \<Longrightarrow> wakes pc"
  by (cases pc) simp_all

lemma group_start_flags: "group_start c n s \<Longrightarrow> flags_inv s \<and> waiters_inv s"
  using created_word [of c] by (auto simp: group_start_def flags_inv_def waiters_inv_def wait_inv_def Let_def)

lemma references_state [simp]:
  "dg_state (dispatch_group_wake_release dg refs) = dg_state dg" "dg_state (dispatch_retain_group dg) = dg_state dg"
  by (simp_all add: dispatch_group_wake_release_def dispatch_retain_group_def)

definition flagged :: "u64 \<Rightarrow> bool" where
  "flagged st \<longleftrightarrow> is_empty st \<and> (has_waiters st \<or> has_notifs st)"

lemma flags_move:
  assumes "flags_inv s" "i < length (gs_threads s)" "gs_threads s' = (gs_threads s)[i := pc]"
    "clearing (gs_threads s ! i) \<Longrightarrow> clearing pc \<or> \<not> flagged (dg_state (gs_group s'))"
    "flagged (dg_state (gs_group s')) \<Longrightarrow> clearing pc \<or> flagged (dg_state (gs_group s))"
  shows "flags_inv s'"
proof -
  have "\<exists>pc \<in> set ((gs_threads s)[i := pc]). clearing pc" if "flagged (dg_state (gs_group s'))"
  proof (cases "clearing pc")
    case True
    then show ?thesis using assms(2) by (rule ex_update_new)
  next
    case False
    then have "\<exists>pc \<in> set (gs_threads s). clearing pc"
      using assms(1,5) that by (simp add: flags_inv_def Let_def flagged_def)
    then show ?thesis using assms(2,4) that False by (intro ex_update) auto
  qed
  then show ?thesis using assms(3) by (simp add: flags_inv_def Let_def flagged_def)
qed

lemma flags_call:
  assumes "group_call s s'" "flags_inv s"
  shows "flags_inv s'"
  using assms(1)
proof (cases rule: group_call.cases)
  case (call_group_enter i r dg pc)
  from call_group_enter(4) show ?thesis
    by (cases rule: enter_op; intro flags_move [OF assms(2) call_group_enter(2), of s' pc])
      (use call_group_enter(3) in \<open>auto simp: call_group_enter(1) flagged_def\<close>)
next
  case (call_group_leave i r dg pc)
  from call_group_leave(4) show ?thesis
    by (cases rule: leave_op; intro flags_move [OF assms(2) call_group_leave(2), of s' pc])
      (use call_group_leave(3) in \<open>auto simp: call_group_leave(1) flagged_def\<close>)
next
  case (call_group_wait i r timeout dg pc)
  from call_group_wait(4) show ?thesis
    by (cases rule: wait_op; intro flags_move [OF assms(2) call_group_wait(2), of s' pc])
      (use call_group_wait(3) in \<open>auto simp: call_group_wait(1) flagged_def\<close>)
next
  case (call_group_notify i r dsn dg pc)
  then show ?thesis
    by (intro flags_move [OF assms(2) call_group_notify(2), of s' pc])
      (auto simp: flagged_def dispatch_group_notify_def)
next
  case (call_wake_up i gen timeout)
  then show ?thesis
    by (intro flags_move [OF assms(2) call_wake_up(2), of s' "Wait_look gen timeout 0"]) (auto simp: flagged_def)
qed

lemma clearing_wake_up: "clearing (wake_up pc) = clearing pc"
  by (cases pc) (simp_all add: wake_up_def)

lemma flags_continue:
  assumes "group_continue s s'" "flags_inv s"
  shows "flags_inv s'"
  using assms(1)
proof (cases rule: group_continue.cases)
  case (continue_leave i old_state dg pc)
  from continue_leave(4) show ?thesis
    by (cases rule: leave_loop_op; intro flags_move [OF assms(2) continue_leave(2), of s' pc])
      (use continue_leave(3) in \<open>auto simp: continue_leave(1) flagged_def\<close>)
next
  case (continue_wake i st needs_release dg dcs pc)
  then show ?thesis
    by (intro flags_move [OF assms(2) continue_wake(2), of s' pc])
      (auto simp: flagged_def dispatch_group_wake_def Let_def split: if_splits)
next
  case (continue_wake_waiters i st refs)
  let ?ts = "if st AND DISPATCH_GROUP_HAS_WAITERS \<noteq> 0 then map wake_up (gs_threads s) else gs_threads s"
  have "flags_inv (s\<lparr>gs_threads := ?ts\<rparr>)" using assms(2) by (auto simp: flags_inv_def clearing_wake_up)
  then show ?thesis
    by (rule flags_move [of _ i s' "Wake_release refs"])
      (use continue_wake_waiters(2,3) in \<open>auto simp: continue_wake_waiters(1) wake_up_def split: if_splits\<close>)
next
  case (continue_notify i dg pc)
  from continue_notify(4) show ?thesis
    by (cases rule: notify_set_op; intro flags_move [OF assms(2) continue_notify(2), of s' pc])
      (use continue_notify(3) in \<open>auto simp: continue_notify(1) flagged_def\<close>)
next
  case (continue_enter i)
  then show ?thesis
    by (intro flags_move [OF assms(2) continue_enter(2), of s' "Out 0"]) (auto simp: flagged_def)
next
  case (continue_wake_release i refs)
  then show ?thesis
    by (intro flags_move [OF assms(2) continue_wake_release(2), of s' "Out 0"]) (auto simp: flagged_def)
next
  case (continue_wait i gen timeout)
  then show ?thesis
    by (intro flags_move [OF assms(2) continue_wait(2), of s' "if dg_state_gen (dg_state (gs_group s)) = gen then Asleep gen timeout else Wait_look gen timeout EWOULDBLOCK"]) (auto simp: flagged_def)
next
  case (continue_timed_out i gen timeout)
  then show ?thesis
    by (intro flags_move [OF assms(2) continue_timed_out(2), of s' "Wait_look gen timeout ETIMEDOUT"]) (auto simp: flagged_def)
next
  case (continue_look i gen timeout rc)
  then show ?thesis
    by (intro flags_move [OF assms(2) continue_look(2), of s' "dispatch_group_wait_slow (gs_group s) gen timeout rc"]) (auto simp: flagged_def)
next
  case (continue_notify_retain i)
  then show ?thesis
    by (intro flags_move [OF assms(2) continue_notify_retain(2), of s' "Notify_set"]) (auto simp: flagged_def)
qed

lemma waiters_move:
  assumes "waiters_inv s" "i < length (gs_threads s)" "gs_threads s' = (gs_threads s)[i := pc]"
    "gs_emptied s' = gs_emptied s" "dg_state_gen (dg_state (gs_group s')) = dg_state_gen (dg_state (gs_group s))"
    and keeps: "has_waiters (dg_state (gs_group s)) \<Longrightarrow> \<not> is_empty (dg_state (gs_group s)) \<Longrightarrow>
        has_waiters (dg_state (gs_group s')) \<and> \<not> is_empty (dg_state (gs_group s'))"
    and waits: "\<And>gen. waits_on pc = Some gen \<Longrightarrow> waits_on (gs_threads s ! i) = Some gen
        \<or> gen = dg_state_gen (dg_state (gs_group s)) \<and> has_waiters (dg_state (gs_group s')) \<and> \<not> is_empty (dg_state (gs_group s'))"
    and sleeps: "asleep pc \<Longrightarrow> waits_on pc = Some (dg_state_gen (dg_state (gs_group s)))"
    and woken: "woken_by (gs_threads s ! i) \<Longrightarrow> woken_by pc"
    and cleared: "has_waiters (dg_state (gs_group s)) \<Longrightarrow> has_waiters (dg_state (gs_group s')) \<or> woken_by pc"
    and wakes: "wakes (gs_threads s ! i) \<Longrightarrow> wakes pc \<or> \<not> has_waiters (dg_state (gs_group s'))"
  shows "waiters_inv s'"
  unfolding waiters_inv_def
proof
  let ?st = "dg_state (gs_group s)" and ?st' = "dg_state (gs_group s')" and ?ts = "(gs_threads s)[i := pc]"
  assume "gs_emptied s' < 2 ^ 32"
  then have inv: "wait_inv s" using assms(1,4) by (simp add: waiters_inv_def)
  then have old: "\<forall>pc \<in> set (gs_threads s). \<forall>gen. waits_on pc = Some gen \<longrightarrow>
            unat gen \<le> gs_emptied s \<and> (gen = dg_state_gen ?st \<longrightarrow> has_waiters ?st \<and> \<not> is_empty ?st)"
    and old_sleep: "\<And>pc. pc \<in> set (gs_threads s) \<Longrightarrow> asleep pc \<Longrightarrow>
            (has_waiters ?st \<or> (\<exists>pc' \<in> set (gs_threads s). woken_by pc'))
            \<and> (waits_on pc \<noteq> Some (dg_state_gen ?st) \<longrightarrow> (\<exists>pc' \<in> set (gs_threads s). wakes pc'))"
    and gen: "unat (dg_state_gen ?st) = gs_emptied s"
    by (simp_all add: wait_inv_def Let_def)
  have new: "\<forall>pc \<in> set ?ts. \<forall>gen. waits_on pc = Some gen \<longrightarrow>
            unat gen \<le> gs_emptied s' \<and> (gen = dg_state_gen ?st' \<longrightarrow> has_waiters ?st' \<and> \<not> is_empty ?st')"
  proof (rule all_update)
    show "\<forall>pc \<in> set (gs_threads s). \<forall>gen. waits_on pc = Some gen \<longrightarrow>
            unat gen \<le> gs_emptied s' \<and> (gen = dg_state_gen ?st' \<longrightarrow> has_waiters ?st' \<and> \<not> is_empty ?st')"
      using old keeps assms(4,5) by auto
    then show "\<forall>gen. waits_on pc = Some gen \<longrightarrow>
            unat gen \<le> gs_emptied s' \<and> (gen = dg_state_gen ?st' \<longrightarrow> has_waiters ?st' \<and> \<not> is_empty ?st')"
      using waits nth_mem [OF assms(2)] gen assms(4,5) by fastforce
  qed
  have sleepers: "(has_waiters ?st' \<or> (\<exists>pc' \<in> set ?ts. woken_by pc'))
      \<and> (waits_on q \<noteq> Some (dg_state_gen ?st') \<longrightarrow> (\<exists>pc' \<in> set ?ts. wakes pc'))"
    if q: "q \<in> set ?ts" "asleep q" for q
  proof (cases "q \<in> set (gs_threads s)")
    case True
    have w: "has_waiters ?st' \<or> (\<exists>pc' \<in> set ?ts. woken_by pc')"
      using old_sleep [OF True q(2)] cleared ex_update_new [of woken_by pc, OF _ assms(2)]
        ex_update [of "gs_threads s" woken_by i pc, OF _ woken assms(2)] by blast
    moreover have "\<exists>pc' \<in> set ?ts. wakes pc'" if "waits_on q \<noteq> Some (dg_state_gen ?st')"
    proof (cases "wakes (gs_threads s ! i) \<and> \<not> wakes pc")
      case True
      then show ?thesis using wakes w woken_wakes by blast
    next
      case False
      have "\<exists>pc' \<in> set (gs_threads s). wakes pc'" using old_sleep [OF True q(2)] that assms(5) by simp
      then show ?thesis by (rule ex_update) (use False assms(2) in auto)
    qed
    ultimately show ?thesis by blast
  next
    case False
    then have "q = pc" using q(1) set_update_subset_insert [of "gs_threads s" i pc] by blast
    then show ?thesis using sleeps q new assms(5) by fastforce
  qed
  show "wait_inv s'"
    using gen new sleepers assms(3-5) by (auto simp: wait_inv_def Let_def)
qed

lemma waiters_emptied:
  assumes "waiters_inv s" "i < length (gs_threads s)" "gs_threads s ! i = Out r"
    "gs_threads s' = (gs_threads s)[i := Leave_loop st]" "dg_state (gs_group s') = st" "gs_emptied s' = gs_emptied s + 1"
    "has_waiters st = has_waiters (dg_state (gs_group s))"
    "dg_state_gen st = dg_state_gen (dg_state (gs_group s)) + 1"
  shows "waiters_inv s'"
  unfolding waiters_inv_def
proof
  let ?st = "dg_state (gs_group s)" and ?ts = "(gs_threads s)[i := Leave_loop st]"
  assume small: "gs_emptied s' < 2 ^ 32"
  then have inv: "wait_inv s" using assms(1,6) by (simp add: waiters_inv_def)
  then have old: "\<forall>pc \<in> set (gs_threads s). \<forall>gen. waits_on pc = Some gen \<longrightarrow>
            unat gen \<le> gs_emptied s \<and> (gen = dg_state_gen ?st \<longrightarrow> has_waiters ?st \<and> \<not> is_empty ?st)"
    and old_sleep: "\<And>pc. pc \<in> set (gs_threads s) \<Longrightarrow> asleep pc \<Longrightarrow>
            (has_waiters ?st \<or> (\<exists>pc' \<in> set (gs_threads s). woken_by pc'))
            \<and> (waits_on pc \<noteq> Some (dg_state_gen ?st) \<longrightarrow> (\<exists>pc' \<in> set (gs_threads s). wakes pc'))"
    and gen: "unat (dg_state_gen ?st) = gs_emptied s"
    by (simp_all add: wait_inv_def Let_def)
  have "unat (dg_state_gen st) = gs_emptied s + 1"
    using small gen assms(6,8) by (simp add: unat_word_ariths)
  moreover have new: "\<forall>pc \<in> set ?ts. \<forall>gen. waits_on pc = Some gen \<longrightarrow> unat gen \<le> gs_emptied s"
    using old by (intro all_update) auto
  moreover have "(has_waiters st \<or> (\<exists>pc' \<in> set ?ts. woken_by pc')) \<and> (\<exists>pc' \<in> set ?ts. wakes pc')"
    if q: "q \<in> set ?ts" "asleep q" for q
  proof -
    have m: "q \<in> set (gs_threads s)" using q set_update_subset_insert [of "gs_threads s" i "Leave_loop st"] by auto
    obtain gen timeout where a: "q = Asleep gen timeout" using q(2) by (cases q) auto
    have w: "has_waiters st \<or> (\<exists>pc' \<in> set ?ts. woken_by pc')"
      using old_sleep [OF m q(2)] assms(7) ex_update [of "gs_threads s" woken_by i "Leave_loop st"] assms(2,3) by auto
    have "\<exists>pc' \<in> set ?ts. wakes pc'"
    proof (cases "gen = dg_state_gen ?st")
      case True
      then have "has_waiters st" using old m a assms(7) by auto
      then show ?thesis using assms(2) by (intro ex_update_new) auto
    next
      case False
      then show ?thesis
        using old_sleep [OF m q(2)] a ex_update [of "gs_threads s" wakes i "Leave_loop st"] assms(2,3) by auto
    qed
    with w show ?thesis by blast
  qed
  ultimately show "wait_inv s'"
    using assms(4-6) by (fastforce simp: wait_inv_def Let_def)
qed

lemma waiters_woken:
  assumes "waiters_inv s" "i < length (gs_threads s)" "gs_threads s ! i = Wake_waiters st refs"
  shows "waiters_inv (s\<lparr>gs_threads := (if st AND DISPATCH_GROUP_HAS_WAITERS \<noteq> 0 then map wake_up (gs_threads s) else gs_threads s)
               [i := Wake_release refs]\<rparr>)"
proof (cases "has_waiters st")
  case False
  then show ?thesis
    using assms(2,3) by (intro waiters_move [OF assms(1,2), of _ "Wake_release refs"]) (auto simp: has_waiters_def)
next
  case True
  have s: "\<not> asleep pc" "waits_on pc = Some gen \<Longrightarrow> \<exists>pc' \<in> set (gs_threads s). waits_on pc' = Some gen"
    if "pc \<in> set ((map wake_up (gs_threads s))[i := Wake_release refs])" for pc gen
  proof -
    have "pc = Wake_release refs \<or> (\<exists>pc' \<in> set (gs_threads s). pc = wake_up pc')"
      using that set_update_subset_insert [of "map wake_up (gs_threads s)" i "Wake_release refs"] by auto
    moreover have "\<not> asleep (wake_up pc')" "waits_on (wake_up pc') = waits_on pc'" for pc'
      by (cases pc'; simp add: wake_up_def)+
    ultimately show "\<not> asleep pc" "waits_on pc = Some gen \<Longrightarrow> \<exists>pc' \<in> set (gs_threads s). waits_on pc' = Some gen"
      by auto
  qed
  have "wait_inv (s\<lparr>gs_threads := (map wake_up (gs_threads s))[i := Wake_release refs]\<rparr>)" if "wait_inv s"
    using that s unfolding wait_inv_def Let_def by simp blast
  then show ?thesis using assms(1) True by (simp add: waiters_inv_def has_waiters_def)
qed

lemma waiters_call:
  assumes "group_call s s'" "waiters_inv s"
  shows "waiters_inv s'"
  using assms(1)
proof (cases rule: group_call.cases)
  case (call_group_enter i r dg pc)
  from call_group_enter(4) show ?thesis
    by (cases rule: enter_op; intro waiters_move [OF assms(2) call_group_enter(2), of s' pc])
      (use call_group_enter(3) in \<open>auto simp: call_group_enter(1) split: if_splits\<close>)
next
  case (call_group_leave i r dg pc)
  from call_group_leave(4) show ?thesis
  proof (cases rule: leave_op)
    case (1 st)
    show ?thesis
    proof (cases "is_empty st")
      case True
      then show ?thesis
        using 1 call_group_leave(3) by (intro waiters_emptied [OF assms(2) call_group_leave(2,3), of s' st])
          (auto simp: call_group_leave(1))
    next
      case False
      then show ?thesis
        using 1 call_group_leave(3) by (intro waiters_move [OF assms(2) call_group_leave(2), of s' pc])
          (auto simp: call_group_leave(1))
    qed
  qed
next
  case (call_group_wait i r timeout dg pc)
  from call_group_wait(4) show ?thesis
    by (cases rule: wait_op; intro waiters_move [OF assms(2) call_group_wait(2), of s' pc])
      (use call_group_wait(3) in \<open>auto simp: call_group_wait(1)\<close>)
next
  case (call_group_notify i r dsn dg pc)
  then show ?thesis
    by (intro waiters_move [OF assms(2) call_group_notify(2), of s' pc])
      (auto simp: dispatch_group_notify_def split: if_splits)
next
  case (call_wake_up i gen timeout)
  then show ?thesis
    by (intro waiters_move [OF assms(2) call_wake_up(2), of s' "Wait_look gen timeout 0"]) auto
qed

lemma waiters_continue:
  assumes "group_continue s s'" "waiters_inv s"
  shows "waiters_inv s'"
  using assms(1)
proof (cases rule: group_continue.cases)
  case (continue_leave i old_state dg pc)
  from continue_leave(4) show ?thesis
    by (cases rule: leave_loop_op; intro waiters_move [OF assms(2) continue_leave(2), of s' pc])
      (use continue_leave(3) in \<open>auto simp: continue_leave(1)\<close>)
next
  case (continue_wake i st needs_release dg dcs pc)
  then show ?thesis
    by (intro waiters_move [OF assms(2) continue_wake(2), of s' pc])
      (auto simp: dispatch_group_wake_def Let_def split: if_splits)
next
  case (continue_wake_waiters i st refs)
  then show ?thesis using waiters_woken [OF assms(2)] by simp
next
  case (continue_notify i dg pc)
  from continue_notify(4) show ?thesis
    by (cases rule: notify_set_op; intro waiters_move [OF assms(2) continue_notify(2), of s' pc])
      (use continue_notify(3) in \<open>auto simp: continue_notify(1)\<close>)
next
  case (continue_enter i)
  then show ?thesis by (intro waiters_move [OF assms(2) continue_enter(2), of s' "Out 0"]) auto
next
  case (continue_wake_release i refs)
  then show ?thesis by (intro waiters_move [OF assms(2) continue_wake_release(2), of s' "Out 0"]) auto
next
  case (continue_wait i gen timeout)
  then show ?thesis
    by (intro waiters_move [OF assms(2) continue_wait(2), of s' "if dg_state_gen (dg_state (gs_group s)) = gen
          then Asleep gen timeout else Wait_look gen timeout EWOULDBLOCK"]) (auto split: if_splits)
next
  case (continue_timed_out i gen timeout)
  then show ?thesis
    by (intro waiters_move [OF assms(2) continue_timed_out(2), of s' "Wait_look gen timeout ETIMEDOUT"]) auto
next
  case (continue_look i gen timeout rc)
  then show ?thesis
    by (intro waiters_move [OF assms(2) continue_look(2), of s' "dispatch_group_wait_slow (gs_group s) gen timeout rc"])
      (auto simp: dispatch_group_wait_slow_def split: if_splits)
next
  case (continue_notify_retain i)
  then show ?thesis by (intro waiters_move [OF assms(2) continue_notify_retain(2), of s' Notify_set]) auto
qed

section \<open>Calls come to an end\<close>

fun group_effects :: "group_pc \<Rightarrow> nat" where
  "group_effects (Out r) = 0"
| "group_effects Enter_retain = 1"
| "group_effects (Leave_loop old_state) = 4"
| "group_effects (Wake st needs_release) = 3"
| "group_effects (Wake_waiters st refs) = 2"
| "group_effects (Wake_release refs) = 1"
| "group_effects Notify_retain = 6"
| "group_effects Notify_set = 5"
| "group_effects _ = 1"

fun group_rank :: "u64 \<Rightarrow> group_pc \<Rightarrow> nat" where
  "group_rank st (Leave_loop old_state) = of_bool (old_state \<noteq> st)"
| "group_rank st (Wait_look gen timeout rc) = (if gen \<noteq> dg_state_gen st \<or> rc = ETIMEDOUT then 1 else 4)"
| "group_rank st (Wait_address gen timeout) = 3"
| "group_rank st (Asleep gen timeout) = 2"
| "group_rank st _ = 0"

definition group_left :: "group_system \<Rightarrow> nat" where
  "group_left s = sum_list (map group_effects (gs_threads s))"

definition group_ranks :: "group_system \<Rightarrow> nat" where
  "group_ranks s = sum_list (map (group_rank (dg_state (gs_group s))) (gs_threads s))"

lemma group_effects_wake_up: "group_effects (wake_up pc) = group_effects pc"
  by (cases pc) (simp_all add: wake_up_def)

lemma left_move:
  assumes "i < length (gs_threads s)" "gs_threads s' = (gs_threads s)[i := pc]" "group_effects pc < group_effects (gs_threads s ! i)"
  shows "group_left s' < group_left s"
  using assms sum_list_update_nat [of i "gs_threads s" group_effects pc] by (simp add: group_left_def)

lemma rank_move:
  assumes "i < length (gs_threads s)" "gs_threads s' = (gs_threads s)[i := pc]" "group_effects pc = group_effects (gs_threads s ! i)"
    "dg_state (gs_group s') = dg_state (gs_group s)"
    "group_rank (dg_state (gs_group s)) pc < group_rank (dg_state (gs_group s)) (gs_threads s ! i)"
  shows "group_left s' = group_left s \<and> group_ranks s' < group_ranks s"
  using assms sum_list_update_nat [of i "gs_threads s" group_effects pc]
    sum_list_update_nat [of i "gs_threads s" "group_rank (dg_state (gs_group s))" pc]
  by (simp add: group_left_def group_ranks_def)

interpretation group_progress: step_measure group_continue group_left group_ranks
proof
  fix s s'
  assume "group_continue s s'"
  then show "group_left s' < group_left s \<or> group_left s' = group_left s \<and> group_ranks s' < group_ranks s"
  proof (cases rule: group_continue.cases)
    case (continue_leave i old_state dg pc)
    from continue_leave(4) show ?thesis
    proof (cases rule: leave_loop_op)
      case again
      have "group_left s' = group_left s \<and> group_ranks s' < group_ranks s"
        by (rule rank_move [OF continue_leave(2), of s' pc]) (use again continue_leave(3) in \<open>auto simp: continue_leave(1)\<close>)
      then show ?thesis ..
    qed (use continue_leave in \<open>auto intro!: left_move [OF continue_leave(2)]\<close>)
  next
    case (continue_wake i st needs_release dg dcs pc)
    have "group_left s' < group_left s"
      by (rule left_move [OF continue_wake(2), of s' pc])
        (use continue_wake(3,4) in \<open>auto simp: continue_wake(1) dispatch_group_wake_def Let_def split: if_splits\<close>)
    then show ?thesis ..
  next
    case (continue_wake_waiters i st refs)
    let ?ts = "if st AND DISPATCH_GROUP_HAS_WAITERS \<noteq> 0 then map wake_up (gs_threads s) else gs_threads s"
    have "map group_effects ?ts = map group_effects (gs_threads s)" "?ts ! i = Wake_waiters st refs" "i < length ?ts"
      using continue_wake_waiters(2,3) wake_up_def [of "Wake_waiters st refs"] by (auto simp: group_effects_wake_up)
    then show ?thesis
      using sum_list_update_nat [of i ?ts group_effects "Wake_release refs"]
      unfolding continue_wake_waiters(1) by (simp add: group_left_def del: map_map if_split)
  next
    case (continue_notify i dg pc)
    have "group_effects pc < 5" using continue_notify(4) by (auto simp: dispatch_group_notify_set_def Let_def split: if_splits)
    then have "group_left s' < group_left s"
      by (intro left_move [OF continue_notify(2), of s' pc]) (use continue_notify(3) in \<open>auto simp: continue_notify(1)\<close>)
    then show ?thesis ..
  next
    case (continue_wait i gen timeout)
    let ?pc = "if dg_state_gen (dg_state (gs_group s)) = gen then Asleep gen timeout else Wait_look gen timeout EWOULDBLOCK"
    have "group_left s' = group_left s \<and> group_ranks s' < group_ranks s"
      by (rule rank_move [OF continue_wait(2), of s' ?pc]) (use continue_wait(3) in \<open>auto simp: continue_wait(1)\<close>)
    then show ?thesis ..
  next
    case (continue_timed_out i gen timeout)
    have "group_left s' = group_left s \<and> group_ranks s' < group_ranks s"
      by (rule rank_move [OF continue_timed_out(2), of s' "Wait_look gen timeout ETIMEDOUT"])
        (use continue_timed_out(3) in \<open>auto simp: continue_timed_out(1)\<close>)
    then show ?thesis ..
  next
    case (continue_look i gen timeout rc)
    let ?pc = "dispatch_group_wait_slow (gs_group s) gen timeout rc"
    show ?thesis
    proof (cases "?pc = Wait_address gen timeout")
      case True
      then have "group_left s' = group_left s \<and> group_ranks s' < group_ranks s"
        by (intro rank_move [OF continue_look(2), of s' ?pc])
          (use continue_look(3) in \<open>auto simp: continue_look(1) dispatch_group_wait_slow_def split: if_splits\<close>)
      then show ?thesis ..
    next
      case False
      then have "group_left s' < group_left s"
        by (intro left_move [OF continue_look(2), of s' ?pc])
          (use continue_look(3) in \<open>auto simp: continue_look(1) dispatch_group_wait_slow_def split: if_splits\<close>)
      then show ?thesis ..
    qed
  next
    case (continue_enter i)
    then show ?thesis by (auto intro!: left_move [OF continue_enter(2)])
  next
    case (continue_wake_release i refs)
    then show ?thesis by (auto intro!: left_move [OF continue_wake_release(2)])
  next
    case (continue_notify_retain i)
    then show ?thesis by (auto intro!: left_move [OF continue_notify_retain(2)])
  qed
qed

lemma group_stuck:
  assumes "\<And>s'. \<not> group_continue s s'" "i < length (gs_threads s)"
  shows "(\<exists>r. gs_threads s ! i = Out r) \<or> (\<exists>gen. gs_threads s ! i = Asleep gen DISPATCH_TIME_FOREVER)"
proof (rule ccontr)
  assume c: "\<not> ?thesis"
  have "\<exists>s'. group_continue s s'"
  proof (cases "gs_threads s ! i")
    case (Asleep gen timeout)
    then show ?thesis using c group_continue.continue_timed_out [OF assms(2), of gen timeout] by auto
  next
    case (Wake st needs_release)
    then show ?thesis using group_continue.continue_wake [OF assms(2)] by (metis prod_cases3)
  next
    case (Leave_loop old_state)
    then show ?thesis using group_continue.continue_leave [OF assms(2)] by (metis prod.exhaust)
  next
    case Notify_set
    then show ?thesis using group_continue.continue_notify [OF assms(2)] by (metis prod.exhaust)
  next
    case (Wake_waiters st refs)
    then show ?thesis using group_continue.continue_wake_waiters [OF assms(2)] by blast
  qed (use c assms(2) in \<open>auto intro: group_continue.intros\<close>)
  then show False using assms(1) by blast
qed

definition group_inv :: "group_system \<Rightarrow> bool" where
  "group_inv s \<longleftrightarrow> notify_inv s \<and> flags_inv s \<and> waiters_inv s"

interpretation group_run: step_invariant "group_start c n" group_step group_inv for c n
  by unfold_locales
    (auto simp: group_inv_def group_step_def intro: group_start_notify group_start_flags [THEN conjunct1]
      group_start_flags [THEN conjunct2] notify_call notify_continue flags_call flags_continue waiters_call waiters_continue)

lemma group_continue_reachable:
  assumes "group_continue\<^sup>*\<^sup>* s s'" "reachable init group_step s"
  shows "reachable init group_step s'"
  using assms by (induction rule: rtranclp_induct) (auto intro: reachable_step simp: group_step_def)

lemma continue_emptied:
  assumes "group_continue\<^sup>*\<^sup>* s s'"
  shows "gs_emptied s' = gs_emptied s"
  using assms by (induction rule: rtranclp_induct) (auto elim!: group_continue.cases)

text \<open>The packed word is a counter: \<open>dispatch_group_enter\<close> adds one to the number of entered calls, and crashes
  exactly when that number is at its maximum; \<open>dispatch_group_leave\<close> subtracts one, moves on to the next
  generation exactly when the group becomes empty, and crashes exactly when it is empty. Neither touches the flags, and
  entering leaves the generation alone in spite of the borrow.\<close>

theorem group_word_counts:
  "(case dispatch_group_enter dg of
      None \<Rightarrow> uint (dg_state_value (dg_state dg)) = 2 ^ 30 - 1
    | Some (dg', pc) \<Rightarrow> uint (dg_state_value (dg_state dg')) = uint (dg_state_value (dg_state dg)) + 1
        \<and> dg_state_gen (dg_state dg') = dg_state_gen (dg_state dg)
        \<and> has_waiters (dg_state dg') = has_waiters (dg_state dg) \<and> has_notifs (dg_state dg') = has_notifs (dg_state dg))
   \<and> (case dispatch_group_leave dg of
      None \<Rightarrow> dg_state_value (dg_state dg) = 0
    | Some (dg', pc) \<Rightarrow> uint (dg_state_value (dg_state dg')) = uint (dg_state_value (dg_state dg)) - 1
        \<and> dg_state_gen (dg_state dg') = dg_state_gen (dg_state dg) + of_bool (dg_state_value (dg_state dg') = 0)
        \<and> has_waiters (dg_state dg') = has_waiters (dg_state dg) \<and> has_notifs (dg_state dg') = has_notifs (dg_state dg))"
proof -
  let ?st = "dg_state dg"
  obtain g k f where f: "word_fields ?st g k f" by (rule fields_exist)
  have r: "0 \<le> k" "k < 1073741824" using f by (simp_all add: word_fields_def)
  have m: "uint (ucast DISPATCH_GROUP_VALUE_MAX :: u32) = 4"
    by (simp add: DISPATCH_GROUP_VALUE_MAX_def DISPATCH_GROUP_VALUE_INTERVAL_def)
  note e = enter_fields [OF f] and l = leave_fields [OF f]
  have "dispatch_group_enter dg = None \<longleftrightarrow> k = 1"
    using fields_bits(1) [OF f] m by (auto simp: dispatch_group_enter_def Let_def word_uint_eq_iff)
  moreover have "dg' = dg\<lparr>dg_state := set_dg_bits (dg_bits ?st - ucast DISPATCH_GROUP_VALUE_INTERVAL) ?st\<rparr>"
    if "dispatch_group_enter dg = Some (dg', pc)" for dg' pc
    using that by (auto simp: dispatch_group_enter_def Let_def split: if_splits)
  ultimately have enter: "case dispatch_group_enter dg of
      None \<Rightarrow> uint (dg_state_value ?st) = 2 ^ 30 - 1
    | Some (dg', pc) \<Rightarrow> uint (dg_state_value (dg_state dg')) = uint (dg_state_value ?st) + 1
        \<and> dg_state_gen (dg_state dg') = dg_state_gen ?st
        \<and> has_waiters (dg_state dg') = has_waiters ?st \<and> has_notifs (dg_state dg') = has_notifs ?st"
    using fields_count [OF f] fields_count [OF e] enter_word(1-3) [of ?st] r
    by (auto split: option.split)
  have "dispatch_group_leave dg = None \<longleftrightarrow> k = 0"
    using fields_value_iff [OF f] by (auto simp: dispatch_group_leave_def Let_def)
  moreover have "dg' = dg\<lparr>dg_state := ?st + DISPATCH_GROUP_VALUE_INTERVAL\<rparr>"
    if "dispatch_group_leave dg = Some (dg', pc)" for dg' pc
    using that by (auto simp: dispatch_group_leave_def Let_def split: if_splits)
  moreover have "dg_state_gen (?st + DISPATCH_GROUP_VALUE_INTERVAL) = dg_state_gen ?st + of_bool (k = 1073741823)"
    using leave_word(3,4) [of ?st] fields_value_iff [OF f] by auto
  ultimately have "case dispatch_group_leave dg of
      None \<Rightarrow> dg_state_value ?st = 0
    | Some (dg', pc) \<Rightarrow> uint (dg_state_value (dg_state dg')) = uint (dg_state_value ?st) - 1
        \<and> dg_state_gen (dg_state dg') = dg_state_gen ?st + of_bool (dg_state_value (dg_state dg') = 0)
        \<and> has_waiters (dg_state dg') = has_waiters ?st \<and> has_notifs (dg_state dg') = has_notifs ?st"
    using fields_count [OF f] fields_count [OF l] leave_word(1,2) [of ?st] r
    by (auto split: option.split if_splits simp: word_uint_eq_iff)
  with enter show ?thesis ..
qed

text \<open>C26. In every interleaving, the notifications that were submitted are the first of those that were registered, in
  their order; while some are left, exactly one of the flag and the threads stands for them; and the references on
  the group are the caller's, one for a group that is not empty, one for notifications that are left, and what the threads owe.\<close>

theorem group_notifications:
  assumes "reachable (group_start c n) group_step s"
  shows "gs_registered s = gs_submitted s @ dg_notify (gs_group s)
    \<and> of_bool (has_notifs (dg_state (gs_group s))) + threads_at responsible (gs_threads s)
        = (of_bool (dg_notify (gs_group s) \<noteq> []) :: nat)
    \<and> dg_refs (gs_group s) = 1 + of_bool (\<not> is_empty (dg_state (gs_group s)))
        + of_bool (dg_notify (gs_group s) \<noteq> []) + sum_list (map owed (gs_threads s))"
  using group_run.reachable_inv [OF assms] by (simp add: group_inv_def notify_inv_def Let_def)

text \<open>C2. Nothing is left behind. From every reachable state the calls that have begun settle, whatever the
  order of their steps: every sequence of them ends, with every thread outside or asleep without a timeout. Then
  notifications are left only if the group is not empty; if the generation has not wrapped round, a thread sleeps
  only on the current generation of a group that is not empty; and an empty group has only the caller's reference and may be disposed of.\<close>

theorem group_settles:
  assumes "reachable (group_start c n) group_step s"
  shows "wf {(t', t). group_continue t t'}
    \<and> (\<exists>s'. group_continue\<^sup>*\<^sup>* s s' \<and> (\<forall>t. \<not> group_continue s' t))
    \<and> (\<forall>s'. group_continue\<^sup>*\<^sup>* s s' \<and> (\<forall>t. \<not> group_continue s' t) \<longrightarrow>
        (\<forall>pc \<in> set (gs_threads s'). (\<exists>r. pc = Out r) \<or> (\<exists>gen. pc = Asleep gen DISPATCH_TIME_FOREVER))
        \<and> (is_empty (dg_state (gs_group s')) \<longrightarrow> dg_notify (gs_group s') = [] \<and> dg_refs (gs_group s') = 1
             \<and> dispatch_group_dispose (gs_group s'))
        \<and> (gs_emptied s < 2 ^ 32 \<longrightarrow> (\<forall>gen timeout. Asleep gen timeout \<in> set (gs_threads s') \<longrightarrow>
             gen = dg_state_gen (dg_state (gs_group s')) \<and> \<not> is_empty (dg_state (gs_group s')))))"
proof (intro conjI allI impI; (elim conjE)?)
  show "wf {(t', t). group_continue t t'}" by (rule group_progress.wf_step)
  show "\<exists>s'. group_continue\<^sup>*\<^sup>* s s' \<and> (\<forall>t. \<not> group_continue s' t)" by (rule group_progress.settles)
next
  fix s'
  assume s': "group_continue\<^sup>*\<^sup>* s s'" "\<forall>t. \<not> group_continue s' t"
  let ?st = "dg_state (gs_group s')"
  have inv: "group_inv s'" using group_run.reachable_inv [OF group_continue_reachable [OF s'(1) assms]] .
  have stuck: "(\<exists>r. pc = Out r) \<or> (\<exists>gen. pc = Asleep gen DISPATCH_TIME_FOREVER)" if "pc \<in> set (gs_threads s')" for pc
    using that group_stuck [of s'] s'(2) by (metis in_set_conv_nth)
  then show "\<forall>pc \<in> set (gs_threads s'). (\<exists>r. pc = Out r) \<or> (\<exists>gen. pc = Asleep gen DISPATCH_TIME_FOREVER)" by blast
  have quiet: "\<not> responsible pc" "\<not> clearing pc" "\<not> wakes pc" "owed pc = 0" if "pc \<in> set (gs_threads s')" for pc
    using stuck [OF that] by auto
  then have none: "threads_at responsible (gs_threads s') = 0" "sum_list (map owed (gs_threads s')) = 0"
    by (simp_all add: threads_at_0 sum_list_0 cong: map_cong)
  show "dg_notify (gs_group s') = []" "dg_refs (gs_group s') = 1" "dispatch_group_dispose (gs_group s')" if "is_empty ?st"
  proof -
    have "\<not> has_waiters ?st" "\<not> has_notifs ?st"
      using inv that quiet(2) by (auto simp: group_inv_def flags_inv_def Let_def)
    then show "dg_notify (gs_group s') = []" "dg_refs (gs_group s') = 1" "dispatch_group_dispose (gs_group s')"
      using inv that none by (auto simp: group_inv_def notify_inv_def Let_def dispatch_group_dispose_def dg_bits_0)
  qed
  show "gen = dg_state_gen ?st" "\<not> is_empty ?st"
    if small: "gs_emptied s < 2 ^ 32" and q: "Asleep gen timeout \<in> set (gs_threads s')" for gen timeout
  proof -
    have w: "wait_inv s'" using inv small continue_emptied [OF s'(1)] by (simp add: group_inv_def waiters_inv_def)
    then show g: "gen = dg_state_gen ?st" using q quiet(3) by (fastforce simp: wait_inv_def Let_def)
    show "\<not> is_empty ?st" using w q g unfolding wait_inv_def Let_def by fastforce
  qed
qed

lemma group_first_call:
  "reachable (group_start 1 1) group_step
     (group_move 0 ((dispatch_group_create_with_count 1)\<lparr>dg_notify := [7]\<rparr>) Notify_retain
        \<lparr>gs_group = dispatch_group_create_with_count 1, gs_threads = [Out 0], gs_registered = [], gs_submitted = [],
         gs_emptied = 0\<rparr>\<lparr>gs_registered := [7]\<rparr>)"
proof (rule reachable_step)
  show "reachable (group_start 1 1) group_step \<lparr>gs_group = dispatch_group_create_with_count 1, gs_threads = [Out 0],
      gs_registered = [], gs_submitted = [], gs_emptied = 0\<rparr>"
    by (rule reachable_init) (simp add: group_start_def)
  show "group_step \<lparr>gs_group = dispatch_group_create_with_count 1, gs_threads = [Out 0],
      gs_registered = [], gs_submitted = [], gs_emptied = 0\<rparr>
     (group_move 0 ((dispatch_group_create_with_count 1)\<lparr>dg_notify := [7]\<rparr>) Notify_retain
        \<lparr>gs_group = dispatch_group_create_with_count 1, gs_threads = [Out 0], gs_registered = [], gs_submitted = [],
         gs_emptied = 0\<rparr>\<lparr>gs_registered := [7]\<rparr>)"
    using call_group_notify [of 0 "\<lparr>gs_group = dispatch_group_create_with_count 1, gs_threads = [Out 0],
      gs_registered = [], gs_submitted = [], gs_emptied = 0\<rparr>" 0 7]
    by (simp add: group_step_def dispatch_group_notify_def dispatch_group_create_with_count_def Let_def)
qed

theorem group_notifications_witness:
  "\<exists>s. reachable (group_start 1 1) group_step s \<and> gs_registered s = [7]
     \<and> gs_registered s = gs_submitted s @ dg_notify (gs_group s)"
  using group_first_call group_notifications [OF group_first_call, THEN conjunct1] by (intro exI conjI) auto

theorem group_settles_witness:
  "\<exists>s s'. reachable (group_start 1 1) group_step s \<and> Notify_retain \<in> set (gs_threads s)
     \<and> group_continue\<^sup>*\<^sup>* s s' \<and> (\<forall>t. \<not> group_continue s' t)"
proof -
  from group_settles [OF group_first_call, THEN conjunct2, THEN conjunct1]
  show ?thesis using group_first_call by fastforce
qed

section \<open>A notification that comes too early\<close>

definition group_state :: "u64 \<Rightarrow> nat list \<Rightarrow> int \<Rightarrow> group_pc \<Rightarrow> group_pc \<Rightarrow> nat list \<Rightarrow> nat list \<Rightarrow> nat \<Rightarrow> group_system" where
  "group_state st q refs t0 t1 registered submitted n =
     \<lparr>gs_group = \<lparr>dg_state = st, dg_notify = q, dg_refs = refs\<rparr>, gs_threads = [t0, t1],
      gs_registered = registered, gs_submitted = submitted, gs_emptied = n\<rparr>"

lemmas group_eval = group_state_def group_move_def group_ops Let_def DISPATCH_GROUP_VALUE_MASK_def DISPATCH_GROUP_GEN_MASK_def
  DISPATCH_GROUP_VALUE_INTERVAL_def DISPATCH_GROUP_VALUE_1_def DISPATCH_GROUP_VALUE_MAX_def DISPATCH_GROUP_HAS_NOTIFS_def
  DISPATCH_GROUP_HAS_WAITERS_def dg_bits_def set_dg_bits_def

lemma early_1:
  "group_step (group_state 0xfffffffc [] 2 (Out 0) (Out 0) [] [] 0)
     (group_state 0xfffffffc [7] 2 Notify_retain (Out 0) [7] [] 0)"
  unfolding group_step_def
  using call_group_notify [of 0 "group_state 0xfffffffc [] 2 (Out 0) (Out 0) [] [] 0" 0 7]
  by (simp add: group_eval)

lemma early_2:
  "group_step (group_state 0xfffffffc [7] 2 Notify_retain (Out 0) [7] [] 0)
     (group_state 0xfffffffc [7] 3 Notify_set (Out 0) [7] [] 0)"
  unfolding group_step_def
  using continue_notify_retain [of 0 "group_state 0xfffffffc [7] 2 Notify_retain (Out 0) [7] [] 0"]
  by (simp add: group_eval)

lemma early_3:
  "group_step (group_state 0xfffffffc [7] 3 Notify_set (Out 0) [7] [] 0)
     (group_state 0xfffffffe [7] 3 (Out 0) (Out 0) [7] [] 0)"
  unfolding group_step_def
  using continue_notify [of 0 "group_state 0xfffffffc [7] 3 Notify_set (Out 0) [7] [] 0"]
  by (simp add: group_eval)

lemma early_4:
  "group_step (group_state 0xfffffffe [7] 3 (Out 0) (Out 0) [7] [] 0)
     (group_state 0x100000002 [7] 3 (Out 0) (Leave_loop 0x100000002) [7] [] 1)"
  unfolding group_step_def
  using call_group_leave [of 1 "group_state 0xfffffffe [7] 3 (Out 0) (Out 0) [7] [] 0" 0]
  by (simp add: group_eval)

lemma early_5:
  "group_step (group_state 0x100000002 [7] 3 (Out 0) (Leave_loop 0x100000002) [7] [] 1)
     (group_state 0x1fffffffe [7] 3 Enter_retain (Leave_loop 0x100000002) [7] [] 1)"
  unfolding group_step_def
  using call_group_enter [of 0 "group_state 0x100000002 [7] 3 (Out 0) (Leave_loop 0x100000002) [7] [] 1" 0]
  by (simp add: group_eval)

lemma early_6:
  "group_step (group_state 0x1fffffffe [7] 3 Enter_retain (Leave_loop 0x100000002) [7] [] 1)
     (group_state 0x1fffffffe [7] 4 (Out 0) (Leave_loop 0x100000002) [7] [] 1)"
  unfolding group_step_def
  using continue_enter [of 0 "group_state 0x1fffffffe [7] 3 Enter_retain (Leave_loop 0x100000002) [7] [] 1"]
  by (simp add: group_eval)

lemma early_7:
  "group_step (group_state 0x1fffffffe [7] 4 (Out 0) (Leave_loop 0x100000002) [7] [] 1)
     (group_state 0x1fffffffe [7, 9] 4 (Out 0) (Leave_loop 0x100000002) [7, 9] [] 1)"
  unfolding group_step_def
  using call_group_notify [of 0 "group_state 0x1fffffffe [7] 4 (Out 0) (Leave_loop 0x100000002) [7] [] 1" 0 9]
  by (simp add: group_eval)

lemma early_8:
  "group_step (group_state 0x1fffffffe [7, 9] 4 (Out 0) (Leave_loop 0x100000002) [7, 9] [] 1)
     (group_state 0x1fffffffe [7, 9] 4 (Out 0) (Leave_loop 0x1fffffffe) [7, 9] [] 1)"
  unfolding group_step_def
  using continue_leave [of 1 "group_state 0x1fffffffe [7, 9] 4 (Out 0) (Leave_loop 0x100000002) [7, 9] [] 1" "0x100000002"]
  by (simp add: group_eval)

lemma early_9:
  "group_step (group_state 0x1fffffffe [7, 9] 4 (Out 0) (Leave_loop 0x1fffffffe) [7, 9] [] 1)
     (group_state 0x1fffffffc [7, 9] 4 (Out 0) (Wake 0x1fffffffe True) [7, 9] [] 1)"
  unfolding group_step_def
  using continue_leave [of 1 "group_state 0x1fffffffe [7, 9] 4 (Out 0) (Leave_loop 0x1fffffffe) [7, 9] [] 1" "0x1fffffffe"]
  by (simp add: group_eval)

lemma early_10:
  "group_step (group_state 0x1fffffffc [7, 9] 4 (Out 0) (Wake 0x1fffffffe True) [7, 9] [] 1)
     (group_state 0x1fffffffc [] 4 (Out 0) (Wake_waiters 0x1fffffffe (Suc (Suc 0))) [7, 9] [7, 9] 1)"
  unfolding group_step_def
  using continue_wake [of 1 "group_state 0x1fffffffc [7, 9] 4 (Out 0) (Wake 0x1fffffffe True) [7, 9] [] 1" "0x1fffffffe" True]
  by (simp add: group_eval)

text \<open>A step after which somebody is still in the group.\<close>

definition while_entered :: "group_system \<Rightarrow> group_system \<Rightarrow> bool" where
  "while_entered s s' \<longleftrightarrow> group_step s s' \<and> \<not> is_empty (dg_state (gs_group s'))"

text \<open>C38. A notification can be submitted although the group has not been empty since before it was
  registered. In a reachable state \<open>s0\<close> somebody is in the group and the notification 9 is unknown; one step
  registers it; the group is not empty in any later state up to the one in which 9 has been submitted.
  What happens: one thread makes the group empty in \<open>dispatch_group_leave\<close>, but before it has cleared
  the flag and taken the list, another one enters the group again and registers 9, which joins the list
  that is about to be submitted.\<close>

theorem group_notify_early:
  "\<exists>s0 s s'. reachable (group_start 1 2) group_step s0 \<and> \<not> is_empty (dg_state (gs_group s0))
     \<and> 9 \<notin> set (gs_registered s0) \<and> while_entered s0 s \<and> gs_registered s = gs_registered s0 @ [9]
     \<and> 9 \<notin> set (gs_submitted s) \<and> while_entered\<^sup>*\<^sup>* s s' \<and> 9 \<in> set (gs_submitted s')
     \<and> gs_emptied s' = gs_emptied s0"
proof -
  let ?before = "group_state 0x1fffffffe [7] 4 (Out 0) (Leave_loop 0x100000002) [7] [] 1"
  let ?s = "group_state 0x1fffffffe [7, 9] 4 (Out 0) (Leave_loop 0x100000002) [7, 9] [] 1"
  let ?s' = "group_state 0x1fffffffc [] 4 (Out 0) (Wake_waiters 0x1fffffffe (Suc (Suc 0))) [7, 9] [7, 9] 1"
  have two: "replicate 2 (Out 0) = [Out 0, Out 0]" by (simp add: numeral_2_eq_2)
  have start: "reachable (group_start 1 2) group_step (group_state 0xfffffffc [] 2 (Out 0) (Out 0) [] [] 0)"
    by (rule reachable_init)
      (simp add: group_start_def group_state_def two dispatch_group_create_with_count_def set_dg_bits_def
        DISPATCH_GROUP_GEN_MASK_def DISPATCH_GROUP_VALUE_INTERVAL_def)
  note go = reachable_step [of "group_start 1 2" group_step]
  note run = go [OF go [OF go [OF go [OF go [OF go [OF start early_1] early_2] early_3] early_4] early_5] early_6]
  have regs: "9 \<notin> set (gs_registered ?before)" "gs_registered ?s = gs_registered ?before @ [9]" "9 \<notin> set (gs_submitted ?s)"
    "9 \<in> set (gs_submitted ?s')" "gs_emptied ?s' = gs_emptied ?before"
    by (simp_all add: group_state_def)
  have e: "\<not> is_empty (dg_state (gs_group (group_state st q refs t0 t1 registered submitted n)))"
    if "st AND 0xfffffffc \<noteq> 0" for st q refs t0 t1 registered submitted n
    using that by (simp add: group_state_def is_empty_def DISPATCH_GROUP_VALUE_MASK_def)
  have entered: "\<not> is_empty (dg_state (gs_group ?before))" by (rule e) simp
  have registers: "while_entered ?before ?s" unfolding while_entered_def by (intro conjI early_7 e; simp)
  have "while_entered ?s (group_state 0x1fffffffe [7, 9] 4 (Out 0) (Leave_loop 0x1fffffffe) [7, 9] [] 1)"
    "while_entered (group_state 0x1fffffffe [7, 9] 4 (Out 0) (Leave_loop 0x1fffffffe) [7, 9] [] 1)
       (group_state 0x1fffffffc [7, 9] 4 (Out 0) (Wake 0x1fffffffe True) [7, 9] [] 1)"
    "while_entered (group_state 0x1fffffffc [7, 9] 4 (Out 0) (Wake 0x1fffffffe True) [7, 9] [] 1) ?s'"
    unfolding while_entered_def by (intro conjI early_8 early_9 early_10 e; simp)+
  note while = this
  note more = converse_rtranclp_into_rtranclp [of while_entered] and none = rtranclp.rtrancl_refl [of while_entered]
  note steps = more [OF while(1) more [OF while(2) more [OF while(3) none]]]
  show ?thesis by (intro exI conjI) (rule run entered regs registers steps)+
qed

end
