(* ===== verification/CFTree.thy ===== *)
theory CFTree
  imports SortFunctions
begin

text \<open>
  CFTree.c: trees whose nodes are linked to their parent, their next sibling, their first and their
  last child.

  The nodes live in a store from addresses to \<open>CFTree\<close> records, 0 is \<open>NULL\<close>. \<open>ts_log\<close> records
  the calls of the callbacks of the context and the nodes that are freed. The assertions of the code
  are not part of a release build and not of the model; nodes are reference counted, not garbage collected.
\<close>

section \<open>The data model\<close>

type_synonym tree = nat

text \<open>The callbacks; the release and the description have no result in the model.\<close>

record CFTreeCallBacks =
  tcb_retain :: "(ptr \<Rightarrow> ptr) fnptr option"
  tcb_release :: "unit fnptr option"
  tcb_copyDescription :: "unit fnptr option"

record CFTreeContext =
  tc_info :: ptr
  tc_callbacks :: CFTreeCallBacks

record CFTree =
  tn_parent :: tree
  tn_sibling :: tree
  tn_child :: tree
  tn_rightmostChild :: tree
  tn_info :: ptr
  tn_callbacks :: CFTreeCallBacks
  tn_type :: nat
  tn_refs :: nat

datatype tree_event = Retain_info nat ptr | Release_info nat ptr | Freed tree

record tree_store =
  ts_nodes :: "tree \<Rightarrow> CFTree"
  ts_log :: "tree_event list"

definition kCFNullTreeCallBacks :: CFTreeCallBacks where
  "kCFNullTreeCallBacks = \<lparr>tcb_retain = None, tcb_release = None, tcb_copyDescription = None\<rparr>"

text \<open>\<open>CFRetain\<close>, \<open>CFRelease\<close> and \<open>CFCopyDescription\<close> at their addresses; \<open>CFRetain\<close> returns its argument.\<close>

definition kCFTypeTreeCallBacks :: CFTreeCallBacks where
  "kCFTypeTreeCallBacks = \<lparr>tcb_retain = Some (Fn 1 (\<lambda>cf. cf)), tcb_release = Some (Fn 2 ()),
     tcb_copyDescription = Some (Fn 3 ())\<rparr>"

definition kCFTreeHasNullCallBacks :: nat where "kCFTreeHasNullCallBacks = 0"
definition kCFTreeHasCFTypeCallBacks :: nat where "kCFTreeHasCFTypeCallBacks = 1"
definition kCFTreeHasCustomCallBacks :: nat where "kCFTreeHasCustomCallBacks = 3"

definition CFTreeGetCallBacks :: "CFTree \<Rightarrow> CFTreeCallBacks" where
  "CFTreeGetCallBacks node =
     (if tn_type node = kCFTreeHasNullCallBacks then kCFNullTreeCallBacks
      else if tn_type node = kCFTreeHasCFTypeCallBacks then kCFTypeTreeCallBacks
      else tn_callbacks node)"

definition CFTreeCallBacksMatchNull :: "CFTreeContext \<Rightarrow> bool" where
  "CFTreeCallBacksMatchNull c \<longleftrightarrow> tcb_retain (tc_callbacks c) = None \<and> tcb_release (tc_callbacks c) = None
     \<and> tcb_copyDescription (tc_callbacks c) = None"

definition same_function :: "'f fnptr option \<Rightarrow> 'f fnptr option \<Rightarrow> bool" where
  "same_function f g \<longleftrightarrow> map_option fn_addr f = map_option fn_addr g"

definition CFTreeCallBacksMatchCFType :: "CFTreeContext \<Rightarrow> bool" where
  "CFTreeCallBacksMatchCFType c \<longleftrightarrow>
     same_function (tcb_retain (tc_callbacks c)) (tcb_retain kCFTypeTreeCallBacks)
     \<and> same_function (tcb_release (tc_callbacks c)) (tcb_release kCFTypeTreeCallBacks)
     \<and> same_function (tcb_copyDescription (tc_callbacks c)) (tcb_copyDescription kCFTypeTreeCallBacks)"

section \<open>Creation and context\<close>

definition tree_upd :: "tree \<Rightarrow> (CFTree \<Rightarrow> CFTree) \<Rightarrow> tree_store \<Rightarrow> tree_store" where
  "tree_upd tree f s = s\<lparr>ts_nodes := (ts_nodes s)(tree := f (ts_nodes s tree))\<rparr>"

definition tree_event :: "tree_event \<Rightarrow> tree_store \<Rightarrow> tree_store" where
  "tree_event e s = s\<lparr>ts_log := ts_log s @ [e]\<rparr>"

definition CFTreeGetContext :: "tree_store \<Rightarrow> tree \<Rightarrow> CFTreeContext" where
  "CFTreeGetContext s tree = \<lparr>tc_info = tn_info (ts_nodes s tree), tc_callbacks = CFTreeGetCallBacks (ts_nodes s tree)\<rparr>"

definition CFTreeSetContext :: "tree \<Rightarrow> CFTreeContext \<Rightarrow> tree_store \<Rightarrow> tree_store" where
  "CFTreeSetContext tree ctxt s =
     (let oldcb = CFTreeGetCallBacks (ts_nodes s tree);
          oldinfo = tn_info (ts_nodes s tree);
          s = (if CFTreeCallBacksMatchNull ctxt then tree_upd tree (\<lambda>n. n\<lparr>tn_type := kCFTreeHasNullCallBacks\<rparr>) s
               else if CFTreeCallBacksMatchCFType ctxt then tree_upd tree (\<lambda>n. n\<lparr>tn_type := kCFTreeHasCFTypeCallBacks\<rparr>) s
               else tree_upd tree (\<lambda>n. n\<lparr>tn_callbacks := tc_callbacks ctxt, tn_type := kCFTreeHasCustomCallBacks\<rparr>) s);
          newcb = CFTreeGetCallBacks (ts_nodes s tree);
          s = (case tcb_retain newcb of
                 Some retain \<Rightarrow> tree_event (Retain_info (fn_addr retain) (tc_info ctxt))
                   (tree_upd tree (\<lambda>n. n\<lparr>tn_info := fn_code retain (tc_info ctxt)\<rparr>) s)
               | None \<Rightarrow> tree_upd tree (\<lambda>n. n\<lparr>tn_info := tc_info ctxt\<rparr>) s)
      in case tcb_release oldcb of
           Some release \<Rightarrow> tree_event (Release_info (fn_addr release) oldinfo) s
         | None \<Rightarrow> s)"

text \<open>The address of the new instance is a parameter; an instance starts with one reference and no info.\<close>

definition CFTreeCreate :: "tree \<Rightarrow> CFTreeContext \<Rightarrow> tree_store \<Rightarrow> tree_store" where
  "CFTreeCreate memory ctxt s =
     CFTreeSetContext memory ctxt
       (tree_upd memory (\<lambda>_. \<lparr>tn_parent = 0, tn_sibling = 0, tn_child = 0, tn_rightmostChild = 0, tn_info = 0,
          tn_callbacks = kCFNullTreeCallBacks, tn_type = kCFTreeHasNullCallBacks, tn_refs = 1\<rparr>) s)"

section \<open>Traversal\<close>

text \<open>The siblings from a node on, which every traversal follows. A cycle of siblings would not end: the
  walks are partial.\<close>

partial_function (option) get_siblings :: "(tree \<Rightarrow> CFTree) \<Rightarrow> tree \<Rightarrow> tree list \<Rightarrow> tree list option" where
  "get_siblings nodes tree out =
     (if tree \<noteq> 0 then get_siblings nodes (tn_sibling (nodes tree)) (out @ [tree]) else Some out)"

partial_function (option) count_siblings :: "(tree \<Rightarrow> CFTree) \<Rightarrow> tree \<Rightarrow> u32 \<Rightarrow> u32 option" where
  "count_siblings nodes tree cnt =
     (if tree \<noteq> 0 then count_siblings nodes (tn_sibling (nodes tree)) (cnt + 1) else Some cnt)"

text \<open>The count is a \<open>SInt32\<close>, which the result widens.\<close>

definition CFTreeGetChildCount :: "tree_store \<Rightarrow> tree \<Rightarrow> int option" where
  "CFTreeGetChildCount s tree = map_option sint (count_siblings (ts_nodes s) (tn_child (ts_nodes s tree)) 0)"

definition CFTreeGetParent :: "tree_store \<Rightarrow> tree \<Rightarrow> tree" where
  "CFTreeGetParent s tree = tn_parent (ts_nodes s tree)"

definition CFTreeGetNextSibling :: "tree_store \<Rightarrow> tree \<Rightarrow> tree" where
  "CFTreeGetNextSibling s tree = tn_sibling (ts_nodes s tree)"

definition CFTreeGetFirstChild :: "tree_store \<Rightarrow> tree \<Rightarrow> tree" where
  "CFTreeGetFirstChild s tree = tn_child (ts_nodes s tree)"

partial_function (option) find_root :: "(tree \<Rightarrow> CFTree) \<Rightarrow> tree \<Rightarrow> tree option" where
  "find_root nodes tree = (if tn_parent (nodes tree) \<noteq> 0 then find_root nodes (tn_parent (nodes tree)) else Some tree)"

definition CFTreeFindRoot :: "tree_store \<Rightarrow> tree \<Rightarrow> tree option" where
  "CFTreeFindRoot s tree = find_root (ts_nodes s) tree"

partial_function (option) child_at :: "(tree \<Rightarrow> CFTree) \<Rightarrow> tree \<Rightarrow> int \<Rightarrow> tree option" where
  "child_at nodes tree idx =
     (if tree \<noteq> 0 then if idx = 0 then Some tree else child_at nodes (tn_sibling (nodes tree)) (idx - 1) else Some 0)"

definition CFTreeGetChildAtIndex :: "tree_store \<Rightarrow> tree \<Rightarrow> int \<Rightarrow> tree option" where
  "CFTreeGetChildAtIndex s tree idx = child_at (ts_nodes s) (tn_child (ts_nodes s tree)) idx"

definition CFTreeGetChildren :: "tree_store \<Rightarrow> tree \<Rightarrow> tree list option" where
  "CFTreeGetChildren s tree = get_siblings (ts_nodes s) (tn_child (ts_nodes s tree)) []"

text \<open>The applier may change its context, not the tree.\<close>

partial_function (option) apply_siblings :: "(tree \<Rightarrow> CFTree) \<Rightarrow> (tree \<Rightarrow> 'c \<Rightarrow> 'c) \<Rightarrow> tree \<Rightarrow> 'c \<Rightarrow> 'c option" where
  "apply_siblings nodes applier tree ctxt =
     (if tree \<noteq> 0 then apply_siblings nodes applier (tn_sibling (nodes tree)) (applier tree ctxt) else Some ctxt)"

definition CFTreeApplyFunctionToChildren :: "tree_store \<Rightarrow> tree \<Rightarrow> (tree \<Rightarrow> 'c \<Rightarrow> 'c) \<Rightarrow> 'c \<Rightarrow> 'c option" where
  "CFTreeApplyFunctionToChildren s tree applier ctxt = apply_siblings (ts_nodes s) applier (tn_child (ts_nodes s tree)) ctxt"

section \<open>Links\<close>

definition CFRetain_tree :: "tree \<Rightarrow> tree_store \<Rightarrow> tree_store" where
  "CFRetain_tree tree = tree_upd tree (\<lambda>n. n\<lparr>tn_refs := tn_refs n + 1\<rparr>)"

definition CFTreePrependChild :: "tree \<Rightarrow> tree \<Rightarrow> tree_store \<Rightarrow> tree_store" where
  "CFTreePrependChild tree newChild s =
     (let s = CFRetain_tree newChild s;
          s = tree_upd newChild (\<lambda>n. n\<lparr>tn_parent := tree\<rparr>) s;
          s = tree_upd newChild (\<lambda>n. n\<lparr>tn_sibling := tn_child (ts_nodes s tree)\<rparr>) s;
          s = (if tn_child (ts_nodes s tree) = 0 then tree_upd tree (\<lambda>n. n\<lparr>tn_rightmostChild := newChild\<rparr>) s else s)
      in tree_upd tree (\<lambda>n. n\<lparr>tn_child := newChild\<rparr>) s)"

text \<open>\<open>None\<close> is the halt on a child that has a parent.\<close>

definition CFTreeAppendChild :: "tree \<Rightarrow> tree \<Rightarrow> tree_store \<Rightarrow> tree_store option" where
  "CFTreeAppendChild tree newChild s =
     (if tn_parent (ts_nodes s newChild) \<noteq> 0 then None
      else
        (let s = CFRetain_tree newChild s;
             s = tree_upd newChild (\<lambda>n. n\<lparr>tn_parent := tree\<rparr>) s;
             s = tree_upd newChild (\<lambda>n. n\<lparr>tn_sibling := 0\<rparr>) s;
             s = (if tn_child (ts_nodes s tree) = 0 then tree_upd tree (\<lambda>n. n\<lparr>tn_child := newChild\<rparr>) s
                  else tree_upd (tn_rightmostChild (ts_nodes s tree)) (\<lambda>n. n\<lparr>tn_sibling := newChild\<rparr>) s)
         in Some (tree_upd tree (\<lambda>n. n\<lparr>tn_rightmostChild := newChild\<rparr>) s)))"

definition CFTreeInsertSibling :: "tree \<Rightarrow> tree \<Rightarrow> tree_store \<Rightarrow> tree_store" where
  "CFTreeInsertSibling tree newSibling s =
     (let s = CFRetain_tree newSibling s;
          s = tree_upd newSibling (\<lambda>n. n\<lparr>tn_parent := tn_parent (ts_nodes s tree)\<rparr>) s;
          s = tree_upd newSibling (\<lambda>n. n\<lparr>tn_sibling := tn_sibling (ts_nodes s tree)\<rparr>) s;
          s = tree_upd tree (\<lambda>n. n\<lparr>tn_sibling := newSibling\<rparr>) s;
          parent = tn_parent (ts_nodes s tree)
      in if parent \<noteq> 0 \<and> tn_rightmostChild (ts_nodes s parent) = tree
         then tree_upd parent (\<lambda>n. n\<lparr>tn_rightmostChild := newSibling\<rparr>) s
         else s)"

text \<open>The walk to the sibling before a node; \<open>Some 0\<close> when there is none.\<close>

partial_function (option) previous_sibling :: "(tree \<Rightarrow> CFTree) \<Rightarrow> tree \<Rightarrow> tree \<Rightarrow> tree option" where
  "previous_sibling nodes tree prevSibling =
     (if prevSibling \<noteq> 0
      then if tn_sibling (nodes prevSibling) = tree then Some prevSibling
           else previous_sibling nodes tree (tn_sibling (nodes prevSibling))
      else Some 0)"

text \<open>\<open>CFRelease\<close> of a node, which frees it with its last reference, and the loop of
  \<open>CFTreeRemoveAllChildren\<close>, which its deallocation runs. The recursion goes down the tree; the fuel
  bounds it, \<open>None\<close> means that it was not enough.\<close>

fun CFRelease_tree :: "nat \<Rightarrow> tree \<Rightarrow> tree_store \<Rightarrow> tree_store option"
  and remove_children :: "nat \<Rightarrow> tree \<Rightarrow> tree_store \<Rightarrow> tree_store option" where
  "CFRelease_tree fuel tree s =
     (let s = tree_upd tree (\<lambda>n. n\<lparr>tn_refs := tn_refs n - 1\<rparr>) s
      in if tn_refs (ts_nodes s tree) \<noteq> 0 then Some s
         else case fuel of
           0 \<Rightarrow> None
         | Suc fuel \<Rightarrow>
             (let nextChild = tn_child (ts_nodes s tree);
                  s = tree_upd tree (\<lambda>n. n\<lparr>tn_child := 0, tn_rightmostChild := 0\<rparr>) s
              in case remove_children fuel nextChild s of
                   None \<Rightarrow> None
                 | Some s \<Rightarrow>
                     (let node = ts_nodes s tree;
                          s = (case tcb_release (CFTreeGetCallBacks node) of
                                 Some release \<Rightarrow> tree_event (Release_info (fn_addr release) (tn_info node)) s
                               | None \<Rightarrow> s)
                      in Some (tree_event (Freed tree) s))))"
| "remove_children fuel nextChild s =
     (if nextChild = 0 then Some s
      else case fuel of
        0 \<Rightarrow> None
      | Suc fuel \<Rightarrow>
          (let nextSibling = tn_sibling (ts_nodes s nextChild);
               s = tree_upd nextChild (\<lambda>n. n\<lparr>tn_parent := 0, tn_sibling := 0\<rparr>) s
           in case CFRelease_tree fuel nextChild s of
                None \<Rightarrow> None
              | Some s \<Rightarrow> remove_children fuel nextSibling s))"

declare CFRelease_tree.simps [simp del]
declare remove_children.simps [simp del]

definition CFTreeRemoveAllChildren :: "nat \<Rightarrow> tree \<Rightarrow> tree_store \<Rightarrow> tree_store option" where
  "CFTreeRemoveAllChildren fuel tree s =
     (let nextChild = tn_child (ts_nodes s tree);
          s = tree_upd tree (\<lambda>n. n\<lparr>tn_child := 0, tn_rightmostChild := 0\<rparr>) s
      in remove_children fuel nextChild s)"

definition unlink_tree :: "tree \<Rightarrow> tree_store \<Rightarrow> tree_store option" where
  "unlink_tree tree s =
     (let node = ts_nodes s tree;
          parent = tn_parent node
      in if tree = tn_child (ts_nodes s parent)
         then
           (let s = tree_upd parent (\<lambda>n. n\<lparr>tn_child := tn_sibling node\<rparr>) s
            in Some (if tn_sibling (ts_nodes s tree) = 0 then tree_upd parent (\<lambda>n. n\<lparr>tn_rightmostChild := 0\<rparr>) s else s))
         else case previous_sibling (ts_nodes s) tree (tn_child (ts_nodes s parent)) of
           None \<Rightarrow> None
         | Some prevSibling \<Rightarrow>
             if prevSibling = 0 then Some s
             else
               (let s = tree_upd prevSibling (\<lambda>n. n\<lparr>tn_sibling := tn_sibling (ts_nodes s tree)\<rparr>) s
                in Some (if tn_rightmostChild (ts_nodes s parent) = tree
                         then tree_upd parent (\<lambda>n. n\<lparr>tn_rightmostChild := prevSibling\<rparr>) s else s)))"

definition CFTreeRemove :: "nat \<Rightarrow> tree \<Rightarrow> tree_store \<Rightarrow> tree_store option" where
  "CFTreeRemove fuel tree s =
     (if tn_parent (ts_nodes s tree) \<noteq> 0
      then case unlink_tree tree s of
        None \<Rightarrow> None
      | Some s \<Rightarrow> CFRelease_tree fuel tree (tree_upd tree (\<lambda>n. n\<lparr>tn_parent := 0, tn_sibling := 0\<rparr>) s)
      else Some s)"

section \<open>Sorting\<close>

text \<open>The links after a sort: each node of the array points to the next one.\<close>

fun link_siblings :: "tree list \<Rightarrow> tree_store \<Rightarrow> tree_store" where
  "link_siblings [] s = s"
| "link_siblings [t] s = tree_upd t (\<lambda>n. n\<lparr>tn_sibling := 0\<rparr>) s"
| "link_siblings (t # u # rest) s = link_siblings (u # rest) (tree_upd t (\<lambda>n. n\<lparr>tn_sibling := u\<rparr>) s)"

text \<open>The arguments \<open>garbage\<close> and \<open>tmp\<close> are the contents of the index buffers of the sort; a pointer has 8 bytes.\<close>

definition CFTreeSortChildren :: "nat list \<Rightarrow> nat list \<Rightarrow> tree \<Rightarrow> (tree \<Rightarrow> tree \<Rightarrow> 'c \<Rightarrow> CFComparisonResult) \<Rightarrow> 'c
    \<Rightarrow> tree_store \<Rightarrow> tree_store option" where
  "CFTreeSortChildren garbage tmp tree compare ctxt s =
     (case CFTreeGetChildCount s tree of
        None \<Rightarrow> None
      | Some children \<Rightarrow>
          if 1 < children
          then case CFTreeGetChildren s tree of
            None \<Rightarrow> None
          | Some xs \<Rightarrow>
              (let xs = CFQSortArray garbage tmp (take (nat children) xs) 8 compare ctxt;
                   s = tree_upd tree (\<lambda>n. n\<lparr>tn_child := xs ! 0\<rparr>) s;
                   s = link_siblings xs s
               in Some (tree_upd tree (\<lambda>n. n\<lparr>tn_rightmostChild := xs ! nat (children - 1)\<rparr>) s))
          else Some s)"

section \<open>Paths of siblings\<close>

fun sib_path :: "(tree \<Rightarrow> CFTree) \<Rightarrow> tree \<Rightarrow> tree list \<Rightarrow> tree \<Rightarrow> bool" where
  "sib_path nodes x [] y \<longleftrightarrow> x = y"
| "sib_path nodes x (c # cs) y \<longleftrightarrow> x = c \<and> c \<noteq> 0 \<and> sib_path nodes (tn_sibling (nodes c)) cs y"

lemma sib_path_append [simp]:
  "sib_path nodes x (xs @ ys) z \<longleftrightarrow> (\<exists>y. sib_path nodes x xs y \<and> sib_path nodes y ys z)"
  by (induction xs arbitrary: x) auto

lemma sib_path_cong:
  "(\<And>c. c \<in> set cs \<Longrightarrow> tn_sibling (nodes' c) = tn_sibling (nodes c))
    \<Longrightarrow> sib_path nodes' x cs y \<longleftrightarrow> sib_path nodes x cs y"
  by (induction cs arbitrary: x) auto

lemma sib_path_unique: "sib_path nodes x xs 0 \<Longrightarrow> sib_path nodes x ys 0 \<Longrightarrow> xs = ys"
proof (induction xs arbitrary: x ys)
  case Nil
  then show ?case by (cases ys) auto
next
  case (Cons a xs)
  then show ?case by (cases ys) auto
qed

lemma sib_path_distinct: "sib_path nodes x xs 0 \<Longrightarrow> distinct xs"
proof (induction xs arbitrary: x)
  case (Cons c xs)
  have "c \<notin> set xs"
  proof
    assume "c \<in> set xs"
    then obtain us vs where xs: "xs = us @ c # vs" by (auto dest: split_list)
    then have "sib_path nodes c (c # vs) 0" "sib_path nodes c (c # xs) 0" using Cons.prems by auto
    then have "vs = xs" using sib_path_unique by blast
    then show False using xs by simp
  qed
  then show ?case using Cons by auto
qed simp

lemma sib_path_nonzero: "sib_path nodes x xs y \<Longrightarrow> 0 \<notin> set xs"
  by (induction xs arbitrary: x) auto

lemma sib_path_hd: "sib_path nodes x xs y \<Longrightarrow> x = hd (xs @ [y])"
  by (cases xs) auto

lemma get_siblings_path: "sib_path nodes x xs 0 \<Longrightarrow> get_siblings nodes x out = Some (out @ xs)"
  by (induction xs arbitrary: x out) (simp_all add: get_siblings.simps)

lemma count_siblings_path: "sib_path nodes x xs 0 \<Longrightarrow> count_siblings nodes x n = Some (n + of_nat (length xs))"
  by (induction xs arbitrary: x n) (simp_all add: count_siblings.simps ac_simps)

lemma child_at_path:
  "sib_path nodes x xs 0 \<Longrightarrow> child_at nodes x idx = Some (if 0 \<le> idx \<and> idx < int (length xs) then xs ! nat idx else 0)"
proof (induction xs arbitrary: x idx)
  case (Cons c xs)
  have "xs ! nat (idx - 1) = (c # xs) ! nat idx" if "0 < idx" using that by (simp add: nth_Cons' nat_diff_distrib)
  then show ?case using Cons by (subst child_at.simps) auto
qed (simp add: child_at.simps)

lemma apply_siblings_path: "sib_path nodes x xs 0 \<Longrightarrow> apply_siblings nodes f x ctxt = Some (fold f xs ctxt)"
  by (induction xs arbitrary: x ctxt) (simp_all add: apply_siblings.simps)

lemma previous_sibling_path:
  "sib_path nodes x (xs @ [p, t]) y \<Longrightarrow> distinct (xs @ [p, t]) \<Longrightarrow> previous_sibling nodes t x = Some p"
proof (induction xs arbitrary: x)
  case Nil
  then show ?case by (subst previous_sibling.simps) auto
next
  case (Cons c xs)
  then have "tn_sibling (nodes c) \<noteq> t" by (cases xs) auto
  then show ?case using Cons by (subst previous_sibling.simps) auto
qed

section \<open>Forests\<close>

text \<open>What the links of a set of nodes mean: the ordered children of each node. Every node of a
  forest is reached from its parent, the roots have no sibling, and no node is its own ancestor.\<close>

definition tree_parents :: "tree set \<Rightarrow> (tree \<Rightarrow> CFTree) \<Rightarrow> (tree \<times> tree) set" where
  "tree_parents A nodes = {(p, c). c \<in> A \<and> p = tn_parent (nodes c) \<and> p \<noteq> 0}"

definition node_ok :: "tree set \<Rightarrow> (tree \<Rightarrow> tree list) \<Rightarrow> (tree \<Rightarrow> CFTree) \<Rightarrow> tree \<Rightarrow> bool" where
  "node_ok A kids nodes t \<longleftrightarrow>
     sib_path nodes (tn_child (nodes t)) (kids t) 0
     \<and> tn_rightmostChild (nodes t) = last (0 # kids t)
     \<and> (\<forall>c \<in> set (kids t). c \<in> A \<and> tn_parent (nodes c) = t)
     \<and> (if tn_parent (nodes t) = 0 then tn_sibling (nodes t) = 0
        else tn_parent (nodes t) \<in> A \<and> t \<in> set (kids (tn_parent (nodes t))))"

definition forest :: "tree set \<Rightarrow> (tree \<Rightarrow> tree list) \<Rightarrow> (tree \<Rightarrow> CFTree) \<Rightarrow> bool" where
  "forest A kids nodes \<longleftrightarrow> finite A \<and> 0 \<notin> A \<and> acyclic (tree_parents A nodes) \<and> (\<forall>t \<in> A. node_ok A kids nodes t)"

lemma forest_path:
  assumes "forest A kids nodes" "t \<in> A"
  shows "sib_path nodes (tn_child (nodes t)) (kids t) 0" "distinct (kids t)" "0 \<notin> set (kids t)"
    "tn_child (nodes t) = hd (kids t @ [0])" "tn_rightmostChild (nodes t) = last (0 # kids t)"
  using assms sib_path_hd sib_path_distinct sib_path_nonzero by (auto simp: forest_def node_ok_def)

lemma forest_child:
  "forest A kids nodes \<Longrightarrow> t \<in> A \<Longrightarrow> c \<in> set (kids t) \<Longrightarrow> c \<in> A \<and> tn_parent (nodes c) = t"
  by (auto simp: forest_def node_ok_def)

lemma forest_parent:
  "forest A kids nodes \<Longrightarrow> t \<in> A \<Longrightarrow> tn_parent (nodes t) \<noteq> 0
    \<Longrightarrow> tn_parent (nodes t) \<in> A \<and> t \<in> set (kids (tn_parent (nodes t)))"
  by (auto simp: forest_def node_ok_def)

lemma forestD: "forest A kids nodes \<Longrightarrow> t \<in> A \<Longrightarrow> node_ok A kids nodes t"
  by (simp add: forest_def)

lemma forest_nonzero: "forest A kids nodes \<Longrightarrow> t \<in> A \<Longrightarrow> t \<noteq> 0"
  by (metis forest_def)

text \<open>The children of one node change: some leave and become roots, roots join them, and the others stay.\<close>

lemma forest_relink:
  assumes forest: "forest A kids nodes" and p: "p \<in> A"
    and acyclic: "acyclic (tree_parents A nodes')"
    and path: "sib_path nodes' (tn_child (nodes' p)) ks 0"
    and right: "tn_rightmostChild (nodes' p) = last (0 # ks)"
    and joined: "\<And>c. c \<in> set ks \<Longrightarrow> c \<in> A \<and> (c \<in> set (kids p) \<or> tn_parent (nodes c) = 0)"
    and parent: "\<And>t. tn_parent (nodes' t) = (if t \<in> set ks then p else if t \<in> set (kids p) then 0 else tn_parent (nodes t))"
    and left: "\<And>t. t \<in> set (kids p) \<Longrightarrow> t \<notin> set ks \<Longrightarrow> tn_sibling (nodes' t) = 0"
    and other: "\<And>t. t \<notin> set (kids p) \<Longrightarrow> t \<notin> set ks \<Longrightarrow> tn_sibling (nodes' t) = tn_sibling (nodes t)"
      "\<And>t. t \<noteq> p \<Longrightarrow> tn_child (nodes' t) = tn_child (nodes t)"
      "\<And>t. t \<noteq> p \<Longrightarrow> tn_rightmostChild (nodes' t) = tn_rightmostChild (nodes t)"
  shows "forest A (kids(p := ks)) nodes'"
proof -
  note p0 = forest_nonzero [OF forest p]
  have "node_ok A (kids(p := ks)) nodes' t" if t: "t \<in> A" for t
  proof -
    have apart: "d \<notin> set (kids p) \<and> d \<notin> set ks" if "d \<in> set (kids t)" "t \<noteq> p" for d
      using forest_child [OF forest t that(1)] forest_child [OF forest p] joined [of d]
        forest_nonzero [OF forest t] that(2) by auto
    have sibs: "sib_path nodes' (tn_child (nodes' t)) ((kids(p := ks)) t) 0"
    proof (cases "t = p")
      case False
      have "sib_path nodes' (tn_child (nodes t)) (kids t) 0 = sib_path nodes (tn_child (nodes t)) (kids t) 0"
        using apart False by (intro sib_path_cong) (auto simp: other)
      then show ?thesis using forest_path(1) [OF forest t] False by (simp add: other)
    qed (use path in simp)
    have rm: "tn_rightmostChild (nodes' t) = last (0 # (kids(p := ks)) t)"
      using forest_path(5) [OF forest t] right by (auto simp: other)
    have ch: "\<forall>d \<in> set ((kids(p := ks)) t). d \<in> A \<and> tn_parent (nodes' d) = t"
      using forest_child [OF forest t] apart joined by (auto simp: parent)
    have par: "if tn_parent (nodes' t) = 0 then tn_sibling (nodes' t) = 0
      else tn_parent (nodes' t) \<in> A \<and> t \<in> set ((kids(p := ks)) (tn_parent (nodes' t)))"
    proof (cases "t \<in> set ks \<or> t \<in> set (kids p)")
      case True
      then show ?thesis using p p0 left [of t] by (auto simp: parent)
    next
      case False
      then show ?thesis using forestD [OF forest t] by (auto simp: parent other node_ok_def split: if_splits)
    qed
    show ?thesis using sibs rm ch par unfolding node_ok_def by blast
  qed
  then show ?thesis using forest acyclic by (simp add: forest_def)
qed

text \<open>A path whose last node gets another sibling.\<close>

lemma sib_path_redirect:
  assumes "sib_path nodes x us y" "distinct us" "us \<noteq> []"
    and "tn_sibling (nodes' (last us)) = z" "\<And>d. d \<in> set us \<Longrightarrow> d \<noteq> last us \<Longrightarrow> tn_sibling (nodes' d) = tn_sibling (nodes d)"
  shows "sib_path nodes' x us z"
proof -
  obtain ws w where us: "us = ws @ [w]" using assms(3) by (cases us rule: rev_cases) auto
  then have "sib_path nodes' x ws w = sib_path nodes x ws w"
    using assms(2,5) by (intro sib_path_cong) auto
  then show ?thesis using assms us by auto
qed

text \<open>A node without a parent becomes a child, at one place of the list of its parent.\<close>

lemma forest_link:
  assumes forest: "forest A kids nodes" and p: "p \<in> A" and c: "c \<in> A" "tn_parent (nodes c) = 0"
    and above: "(c, p) \<notin> (tree_parents A nodes)\<^sup>*" and kids: "kids p = us @ vs"
    and parent: "\<And>t. tn_parent (nodes' t) = (if t = c then p else tn_parent (nodes t))"
    and sibling: "\<And>t. tn_sibling (nodes' t) = (if t = c then hd (vs @ [0])
      else if us \<noteq> [] \<and> t = last us then c else tn_sibling (nodes t))"
    and child: "\<And>t. tn_child (nodes' t) = (if t = p \<and> us = [] then c else tn_child (nodes t))"
    and right: "\<And>t. tn_rightmostChild (nodes' t) = (if t = p \<and> vs = [] then c else tn_rightmostChild (nodes t))"
  shows "forest A (kids(p := us @ c # vs)) nodes'"
proof (rule forest_relink [OF forest p])
  note p0 = forest_nonzero [OF forest p] and c0 = forest_nonzero [OF forest c(1)]
  have new: "c \<notin> set (kids p)" using forest_child [OF forest p, of c] c(2) p0 by auto
  note dist = forest_path(2) [OF forest p, unfolded kids]
  have "tree_parents A nodes' = insert (p, c) (tree_parents A nodes)"
    using c p0 by (auto simp: tree_parents_def parent)
  then show "acyclic (tree_parents A nodes')"
    using forest above by (simp add: forest_def acyclic_insert)
  obtain y where y: "sib_path nodes (tn_child (nodes p)) us y" "sib_path nodes y vs 0"
    using forest_path(1) [OF forest p] kids by auto
  have "sib_path nodes' y vs 0 = sib_path nodes y vs 0"
    using dist new kids by (intro sib_path_cong) (auto simp: sibling dest: last_in_set)
  then have vs: "sib_path nodes' (hd (vs @ [0])) vs 0" using y(2) sib_path_hd by metis
  have "sib_path nodes' (tn_child (nodes' p)) us c"
  proof (cases "us = []")
    case False
    then have "last us \<noteq> c" using new kids last_in_set by fastforce
    then show ?thesis using False dist new kids y(1)
      by (auto simp: child sibling intro!: sib_path_redirect [of nodes _ us y])
  qed (simp add: child)
  then show "sib_path nodes' (tn_child (nodes' p)) (us @ c # vs) 0"
    using vs c0 by (auto simp: sibling)
  show "tn_rightmostChild (nodes' p) = last (0 # us @ c # vs)"
    using forest_path(5) [OF forest p] kids by (auto simp: right)
qed (use forest_child [OF forest p] c kids in \<open>auto simp: parent sibling child right dest: last_in_set\<close>)

text \<open>And a child leaves its parent.\<close>

lemma forest_unlink:
  assumes forest: "forest A kids nodes" and p: "p \<in> A" and kids: "kids p = us @ c # vs"
    and parent: "\<And>t. tn_parent (nodes' t) = (if t = c then 0 else tn_parent (nodes t))"
    and sibling: "\<And>t. tn_sibling (nodes' t) = (if t = c then 0
      else if us \<noteq> [] \<and> t = last us then hd (vs @ [0]) else tn_sibling (nodes t))"
    and child: "\<And>t. tn_child (nodes' t) = (if t = p \<and> us = [] then hd (vs @ [0]) else tn_child (nodes t))"
    and right: "\<And>t. tn_rightmostChild (nodes' t) = (if t = p \<and> vs = [] then last (0 # us) else tn_rightmostChild (nodes t))"
  shows "forest A (kids(p := us @ vs)) nodes'"
proof (rule forest_relink [OF forest p])
  note dist = forest_path(2) [OF forest p, unfolded kids]
  have "tree_parents A nodes' \<subseteq> tree_parents A nodes" by (auto simp: tree_parents_def parent)
  then show "acyclic (tree_parents A nodes')" using forest by (auto simp: forest_def intro: acyclic_subset)
  obtain y where y: "sib_path nodes (tn_child (nodes p)) us c" "sib_path nodes y vs 0"
    using forest_path(1) [OF forest p] kids by auto
  have "sib_path nodes' y vs 0 = sib_path nodes y vs 0"
    using dist kids by (intro sib_path_cong) (auto simp: sibling dest: last_in_set)
  then have vs: "sib_path nodes' (hd (vs @ [0])) vs 0" using y(2) sib_path_hd by metis
  have "sib_path nodes' (tn_child (nodes' p)) us (hd (vs @ [0]))"
  proof (cases "us = []")
    case False
    then have "last us \<noteq> c" using dist last_in_set by fastforce
    then show ?thesis using False dist y(1)
      by (auto simp: child sibling intro!: sib_path_redirect [of nodes _ us c])
  qed (simp add: child)
  then show "sib_path nodes' (tn_child (nodes' p)) (us @ vs) 0" using vs by auto
  show "tn_rightmostChild (nodes' p) = last (0 # us @ vs)"
    using forest_path(5) [OF forest p] kids by (auto simp: right)
  show "tn_parent (nodes' t) = (if t \<in> set (us @ vs) then p else if t \<in> set (kids p) then 0 else tn_parent (nodes t))" for t
    using forest_child [OF forest p, of t] kids dist by (auto simp: parent)
qed (use forest_child [OF forest p] kids in \<open>auto simp: sibling child right dest: last_in_set\<close>)

text \<open>The children of a node in another order.\<close>

lemma forest_permute:
  assumes forest: "forest A kids nodes" and p: "p \<in> A" and ks: "mset ks = mset (kids p)"
    and parent: "\<And>t. tn_parent (nodes' t) = tn_parent (nodes t)"
    and path: "sib_path nodes' (tn_child (nodes' p)) ks 0" and right: "tn_rightmostChild (nodes' p) = last (0 # ks)"
    and other: "\<And>t. t \<notin> set ks \<Longrightarrow> tn_sibling (nodes' t) = tn_sibling (nodes t)"
      "\<And>t. t \<noteq> p \<Longrightarrow> tn_child (nodes' t) = tn_child (nodes t)"
      "\<And>t. t \<noteq> p \<Longrightarrow> tn_rightmostChild (nodes' t) = tn_rightmostChild (nodes t)"
  shows "forest A (kids(p := ks)) nodes'"
proof (rule forest_relink [OF forest p _ path right])
  show "acyclic (tree_parents A nodes')" using forest by (simp add: forest_def tree_parents_def parent)
qed (use mset_eq_setD [OF ks] forest_child [OF forest p] in \<open>auto simp: parent other\<close>)

section \<open>The edits of the forest\<close>

lemma ts_nodes_tree_upd [simp]: "ts_nodes (tree_upd t f s) u = (if u = t then f (ts_nodes s t) else ts_nodes s u)"
  by (simp add: tree_upd_def)

lemma ts_nodes_tree_event [simp]: "ts_nodes (tree_event e s) = ts_nodes s"
  by (simp add: tree_event_def)

lemma ts_log_tree [simp]: "ts_log (tree_upd t f s) = ts_log s" "ts_log (tree_event e s) = ts_log s @ [e]"
  by (simp_all add: tree_upd_def tree_event_def)

text \<open>A new link is given by the parent, the child and the children around it.\<close>

definition may_link :: "tree set \<Rightarrow> (tree \<Rightarrow> CFTree) \<Rightarrow> tree \<Rightarrow> tree \<Rightarrow> bool" where
  "may_link A nodes p c \<longleftrightarrow> p \<in> A \<and> c \<in> A \<and> tn_parent (nodes c) = 0 \<and> (c, p) \<notin> (tree_parents A nodes)\<^sup>*"

lemma may_linkD:
  "may_link A nodes p c \<Longrightarrow> p \<in> A \<and> c \<in> A \<and> tn_parent (nodes c) = 0 \<and> c \<noteq> p"
  by (auto simp: may_link_def)

lemma CFTreePrependChild_forest:
  assumes "forest A kids (ts_nodes s)" "may_link A (ts_nodes s) p c"
  shows "forest A (kids(p := c # kids p)) (ts_nodes (CFTreePrependChild p c s))"
proof -
  note f = forest_path [OF assms(1)] and l = may_linkD [OF assms(2)]
  have "kids p = [] \<longleftrightarrow> tn_child (ts_nodes s p) = 0"
    using f(3,4) [of p] l by (cases "kids p") auto
  then show ?thesis
    using forest_link [OF assms(1), of p c "[]" "kids p" "ts_nodes (CFTreePrependChild p c s)"] l f(4) [of p] assms(2)
    by (auto simp: CFTreePrependChild_def CFRetain_tree_def Let_def may_link_def)
qed

lemma CFTreeAppendChild_forest:
  assumes "forest A kids (ts_nodes s)" "may_link A (ts_nodes s) p c"
  shows "\<exists>s'. CFTreeAppendChild p c s = Some s' \<and> forest A (kids(p := kids p @ [c])) (ts_nodes s')"
proof -
  note f = forest_path [OF assms(1)] and l = may_linkD [OF assms(2)]
  have e: "kids p = [] \<longleftrightarrow> tn_child (ts_nodes s p) = 0"
    using f(3,4) [of p] l by (cases "kids p") auto
  have last: "tn_rightmostChild (ts_nodes s p) \<noteq> c" if "kids p \<noteq> []"
    using forest_child [OF assms(1), of p "last (kids p)"] f(5) [of p] that l forest_nonzero [OF assms(1), of p] by auto
  show ?thesis
    using forest_link [OF assms(1), of p c "kids p" "[]" "ts_nodes (the (CFTreeAppendChild p c s))"] l f(5) [of p]
      assms(2) e last
    by (auto simp: CFTreeAppendChild_def CFRetain_tree_def Let_def may_link_def)
qed

text \<open>The new sibling comes after the node in the children of its parent.\<close>

fun insert_after :: "tree \<Rightarrow> tree \<Rightarrow> tree list \<Rightarrow> tree list" where
  "insert_after t c [] = []"
| "insert_after t c (d # ds) = (if d = t then d # c # ds else d # insert_after t c ds)"

lemma insert_after_split: "t \<notin> set us \<Longrightarrow> insert_after t c (us @ t # vs) = us @ t # c # vs"
  by (induction us) auto

lemma forest_split:
  assumes "forest A kids nodes" "t \<in> A" "tn_parent (nodes t) \<noteq> 0"
  obtains us vs where "kids (tn_parent (nodes t)) = us @ t # vs" "t \<notin> set us" "t \<notin> set vs"
proof -
  have "t \<in> set (kids (tn_parent (nodes t)))" "tn_parent (nodes t) \<in> A" using forest_parent [OF assms] by auto
  then show ?thesis using forest_path(2) [OF assms(1)] that by (metis distinct.simps(2) distinct_append split_list_first)
qed

lemma forest_sibling:
  assumes "forest A kids nodes" "p \<in> A" "kids p = us @ t # vs"
  shows "tn_sibling (nodes t) = hd (vs @ [0])" "tn_rightmostChild (nodes p) = t \<longleftrightarrow> vs = []"
    "tn_child (nodes p) = t \<longleftrightarrow> us = []"
proof -
  note path = forest_path [OF assms(1,2), unfolded assms(3)]
  have "sib_path nodes (tn_sibling (nodes t)) vs 0" using path(1) by auto
  then show "tn_sibling (nodes t) = hd (vs @ [0])" by (rule sib_path_hd)
  show "tn_rightmostChild (nodes p) = t \<longleftrightarrow> vs = []" using path(2,5) by (auto dest: last_in_set)
  show "tn_child (nodes p) = t \<longleftrightarrow> us = []" using path(2,4) by (cases us) auto
qed

lemma forest_parent_neq:
  assumes "forest A kids nodes" "t \<in> A"
  shows "tn_parent (nodes t) \<noteq> t"
proof
  assume "tn_parent (nodes t) = t"
  then have "(t, t) \<in> (tree_parents A nodes)\<^sup>+"
    using assms(2) forest_nonzero [OF assms] by (auto simp: tree_parents_def)
  then show False using assms(1) by (auto simp: forest_def acyclic_def)
qed

lemma CFTreeInsertSibling_forest:
  assumes "forest A kids (ts_nodes s)" "may_link A (ts_nodes s) (tn_parent (ts_nodes s t)) c" "t \<in> A"
  shows "forest A (kids(tn_parent (ts_nodes s t) := insert_after t c (kids (tn_parent (ts_nodes s t)))))
    (ts_nodes (CFTreeInsertSibling t c s))"
proof -
  let ?p = "tn_parent (ts_nodes s t)"
  have l: "?p \<in> A" "c \<in> A" "tn_parent (ts_nodes s c) = 0" "c \<noteq> ?p" using may_linkD [OF assms(2)] by auto
  have p0: "?p \<noteq> 0" using forest_nonzero [OF assms(1) l(1)] .
  obtain us vs where kids: "kids ?p = us @ t # vs" "t \<notin> set us" "t \<notin> set vs"
    using forest_split [OF assms(1,3) p0] .
  note sib = forest_sibling [OF assms(1) l(1) kids(1)]
  have "t \<noteq> ?p" using forest_parent_neq [OF assms(1,3)] by simp
  moreover have "c \<noteq> t" using l p0 by auto
  ultimately show ?thesis
    using forest_link [OF assms(1), of ?p c "us @ [t]" vs "ts_nodes (CFTreeInsertSibling t c s)"] l p0 kids sib assms(2)
    by (auto simp: CFTreeInsertSibling_def CFRetain_tree_def Let_def may_link_def insert_after_split)
qed

lemma unlink_tree_forest:
  assumes "forest A kids (ts_nodes s)" "t \<in> A" "tn_parent (ts_nodes s t) = p" "p \<noteq> 0"
  shows "\<exists>s'. unlink_tree t s = Some s' \<and> ts_log s' = ts_log s
    \<and> (\<forall>u. tn_refs (ts_nodes s' u) = tn_refs (ts_nodes s u) \<and> tn_info (ts_nodes s' u) = tn_info (ts_nodes s u)
        \<and> CFTreeGetCallBacks (ts_nodes s' u) = CFTreeGetCallBacks (ts_nodes s u))
    \<and> forest A (kids(p := remove1 t (kids p))) (ts_nodes (tree_upd t (\<lambda>n. n\<lparr>tn_parent := 0, tn_sibling := 0\<rparr>) s'))"
proof -
  have p: "p \<in> A" using forest_parent [OF assms(1,2)] assms(3,4) by auto
  obtain us vs where kids: "kids p = us @ t # vs" "t \<notin> set us" "t \<notin> set vs"
    using forest_split [OF assms(1,2)] assms(3,4) by metis
  note sib = forest_sibling [OF assms(1) p kids(1)]
  have r: "remove1 t (kids p) = us @ vs" using kids by (simp add: remove1_append)
  have tp: "t \<noteq> p" using forest_parent_neq [OF assms(1,2)] assms(3) by simp
  note unlink = forest_unlink [OF assms(1) p kids(1)]
  note path = forest_path [OF assms(1) p, unfolded kids(1)]
  show ?thesis
  proof (cases us rule: rev_cases)
    case Nil
    have "hd (vs @ [0]) = 0 \<longleftrightarrow> vs = []" using path(3) by (cases vs) auto
    then show ?thesis
      using sib tp assms(3,4) Nil r path unlink [of "ts_nodes (tree_upd t (\<lambda>n. n\<lparr>tn_parent := 0, tn_sibling := 0\<rparr>) (the (unlink_tree t s)))"]
      by (auto simp: unlink_tree_def Let_def CFTreeGetCallBacks_def)
  next
    case (snoc ws w)
    have "sib_path (ts_nodes s) (tn_child (ts_nodes s p)) (ws @ [w, t]) (hd (vs @ [0]))" "distinct (ws @ [w, t])"
      using path(1,2) sib(1) snoc by auto
    then have prev: "previous_sibling (ts_nodes s) t (tn_child (ts_nodes s p)) = Some w"
      by (rule previous_sibling_path)
    have w: "w \<noteq> 0" "w \<noteq> t" "us \<noteq> []" "last us = w" using path(2,3) snoc by auto
    have wp: "w \<noteq> p"
      using forest_child [OF assms(1) p, of w] forest_parent_neq [OF assms(1), of w] kids(1) snoc by auto
    have first: "tn_child (ts_nodes s p) \<noteq> t" using sib(3) w(3) by simp
    let ?s = "tree_upd w (\<lambda>n. n\<lparr>tn_sibling := tn_sibling (ts_nodes s t)\<rparr>) s"
    let ?s' = "if vs = [] then tree_upd p (\<lambda>n. n\<lparr>tn_rightmostChild := w\<rparr>) ?s else ?s"
    have s': "unlink_tree t s = Some ?s'"
      using first w(1,2) wp prev assms(3) sib(2) by (simp add: unlink_tree_def Let_def)
    have "forest A (kids(p := us @ vs)) (ts_nodes (tree_upd t (\<lambda>n. n\<lparr>tn_parent := 0, tn_sibling := 0\<rparr>) ?s'))"
      by (rule unlink) (use w wp sib(1) tp in \<open>simp_all\<close>)
    then show ?thesis
      unfolding s' r by (intro exI [of _ ?s']) (simp add: CFTreeGetCallBacks_def)
  qed
qed

section \<open>Releases\<close>

text \<open>The nodes that lose a reference when the nodes of \<open>X\<close> do: a node that had only that one is
  freed and releases its children.\<close>

inductive_set released :: "(tree \<Rightarrow> tree list) \<Rightarrow> (tree \<Rightarrow> nat) \<Rightarrow> tree set \<Rightarrow> tree set" for kids refs X where
  released_root: "t \<in> X \<Longrightarrow> t \<in> released kids refs X"
| released_child: "t \<in> released kids refs X \<Longrightarrow> refs t = 1 \<Longrightarrow> c \<in> set (kids t) \<Longrightarrow> c \<in> released kids refs X"

definition freed_nodes :: "(tree \<Rightarrow> tree list) \<Rightarrow> (tree \<Rightarrow> nat) \<Rightarrow> tree set \<Rightarrow> tree set" where
  "freed_nodes kids refs X = {t \<in> released kids refs X. refs t = 1}"

fun freed_log :: "tree_event list \<Rightarrow> tree list" where
  "freed_log [] = []"
| "freed_log (Freed t # es) = t # freed_log es"
| "freed_log (_ # es) = freed_log es"

lemma freed_log_append [simp]: "freed_log (es @ fs) = freed_log es @ freed_log fs"
  by (induction es rule: freed_log.induct) auto

lemma released_empty: "released kids refs {} = {}"
proof -
  have "t \<in> released kids refs {} \<Longrightarrow> False" for t by (induction rule: released.induct) auto
  then show ?thesis by blast
qed

lemma released_Un: "released kids refs (X \<union> Y) = released kids refs X \<union> released kids refs Y"
proof (intro equalityI subsetI)
  fix t assume "t \<in> released kids refs (X \<union> Y)"
  then show "t \<in> released kids refs X \<union> released kids refs Y"
    by (induction rule: released.induct) (auto intro: released.intros)
next
  have "t \<in> released kids refs X \<Longrightarrow> X \<subseteq> Z \<Longrightarrow> t \<in> released kids refs Z" for t X Z
    by (induction rule: released.induct) (auto intro: released.intros)
  then show "t \<in> released kids refs X \<union> released kids refs Y \<Longrightarrow> t \<in> released kids refs (X \<union> Y)" for t
    by blast
qed

lemma released_one:
  "released kids refs {t} = insert t (if refs t = 1 then released kids refs (set (kids t)) else {})"
proof (intro equalityI subsetI)
  fix u assume "u \<in> released kids refs {t}"
  then show "u \<in> insert t (if refs t = 1 then released kids refs (set (kids t)) else {})"
    by (induction rule: released.induct) (auto intro: released.intros split: if_splits)
next
  fix u assume "u \<in> insert t (if refs t = 1 then released kids refs (set (kids t)) else {})"
  moreover have "v \<in> released kids refs (set (kids t)) \<Longrightarrow> refs t = 1 \<Longrightarrow> v \<in> released kids refs {t}" for v
    by (induction rule: released.induct) (auto intro: released.intros)
  ultimately show "u \<in> released kids refs {t}" by (auto intro: released.intros split: if_splits)
qed

text \<open>The nodes below those of \<open>X\<close>. Below two siblings there are different nodes.\<close>

definition below :: "tree set \<Rightarrow> (tree \<Rightarrow> CFTree) \<Rightarrow> tree set \<Rightarrow> tree set" where
  "below A nodes X = (tree_parents A nodes)\<^sup>* `` X"

lemma forest_edge: "forest A kids nodes \<Longrightarrow> t \<in> A \<Longrightarrow> (t, c) \<in> tree_parents A nodes \<longleftrightarrow> c \<in> set (kids t)"
  using forest_child [of A kids nodes t c] forest_parent [of A kids nodes c] forest_nonzero [of A kids nodes]
  by (auto simp: tree_parents_def)

lemma below_subset: "X \<subseteq> A \<Longrightarrow> below A nodes X \<subseteq> A"
proof -
  have "(t, u) \<in> (tree_parents A nodes)\<^sup>* \<Longrightarrow> t \<in> A \<Longrightarrow> u \<in> A" for t u
    by (induction rule: rtrancl_induct) (auto simp: tree_parents_def)
  then show "X \<subseteq> A \<Longrightarrow> below A nodes X \<subseteq> A" by (auto simp: below_def)
qed

lemma below_one:
  assumes "forest A kids nodes" "t \<in> A"
  shows "below A nodes {t} = insert t (below A nodes (set (kids t)))" "t \<notin> below A nodes (set (kids t))"
proof -
  let ?r = "tree_parents A nodes"
  have "(t, u) \<in> ?r\<^sup>* \<longleftrightarrow> u = t \<or> (\<exists>c \<in> set (kids t). (c, u) \<in> ?r\<^sup>*)" for u
    using forest_edge [OF assms] by (metis converse_rtrancl_into_rtrancl converse_rtranclE rtrancl.rtrancl_refl)
  then show "below A nodes {t} = insert t (below A nodes (set (kids t)))" by (auto simp: below_def)
  show "t \<notin> below A nodes (set (kids t))"
  proof
    assume "t \<in> below A nodes (set (kids t))"
    then obtain c where "(t, c) \<in> ?r" "(c, t) \<in> ?r\<^sup>*" using forest_edge [OF assms] by (auto simp: below_def)
    then have "(t, t) \<in> ?r\<^sup>+" by (rule rtrancl_into_trancl2)
    then show False using assms(1) by (simp add: forest_def acyclic_def)
  qed
qed

lemma below_siblings:
  assumes forest: "forest A kids nodes" "p \<in> A" and kids: "kids p = us @ c # vs"
  shows "below A nodes {c} \<inter> below A nodes (set vs) = {}"
proof -
  let ?r = "tree_parents A nodes"
  have sv: "single_valued (?r\<inverse>)" by (auto simp: single_valued_def tree_parents_def)
  have path: "\<not> (a, b) \<in> ?r\<^sup>*" if ab: "a \<in> set (kids p)" "b \<in> set (kids p)" "a \<noteq> b" for a b
  proof
    assume "(a, b) \<in> ?r\<^sup>*"
    then obtain y where y: "(a, y) \<in> ?r\<^sup>*" "(y, b) \<in> ?r" using ab(3) by (auto elim: rtranclE)
    have "y = p" using y(2) forest_child [OF forest, of b] ab(2) by (auto simp: tree_parents_def)
    then have "(p, p) \<in> ?r\<^sup>+" using y(1) forest_edge [OF forest, of a] ab(1) by (auto intro: rtrancl_into_trancl2)
    then show False using forest(1) by (simp add: forest_def acyclic_def)
  qed
  have False if "d \<in> set vs" "(c, u) \<in> ?r\<^sup>*" "(d, u) \<in> ?r\<^sup>*" for d u
  proof -
    have "(u, c) \<in> (?r\<inverse>)\<^sup>*" "(u, d) \<in> (?r\<inverse>)\<^sup>*" using that by (auto simp: rtrancl_converse)
    then have "(c, d) \<in> ?r\<^sup>* \<or> (d, c) \<in> ?r\<^sup>*"
      using single_valued_confluent [OF sv, of u c d] by (auto simp: rtrancl_converse)
    moreover have "c \<noteq> d" using forest_path(2) [OF forest] kids that(1) by auto
    ultimately show False using path kids that(1) by auto
  qed
  then show ?thesis by (auto simp: below_def)
qed

lemma released_below:
  assumes forest: "forest A kids nodes" "X \<subseteq> A" and "u \<in> released kids refs X"
  shows "u \<in> below A nodes X"
  using assms(3)
proof (induction rule: released.induct)
  case (released_child t c)
  then have "t \<in> A" using below_subset [OF assms(2)] by auto
  then have "(t, c) \<in> tree_parents A nodes" using forest_edge [OF forest(1)] released_child(3) by simp
  then show ?case using released_child.IH by (auto simp: below_def intro: rtrancl_into_rtrancl)
qed (auto simp: below_def)

text \<open>What the releases of the nodes of \<open>X\<close> leave, from the nodes they started with: a node that
  survives its release is a root, and each node that dies is freed once.\<close>

definition cut_node :: "CFTree \<Rightarrow> CFTree" where
  "cut_node n = n\<lparr>tn_parent := 0, tn_sibling := 0, tn_refs := tn_refs n - 1\<rparr>"

definition after_release :: "(tree \<Rightarrow> tree list) \<Rightarrow> (tree \<Rightarrow> CFTree) \<Rightarrow> tree set \<Rightarrow> tree_store \<Rightarrow> tree_store \<Rightarrow> bool" where
  "after_release kids nodes X s s' \<longleftrightarrow>
     (let R = released kids (\<lambda>u. tn_refs (nodes u)) X; F = freed_nodes kids (\<lambda>u. tn_refs (nodes u)) X
      in (\<forall>u. u \<notin> F \<longrightarrow> ts_nodes s' u = (if u \<in> R then cut_node (nodes u) else ts_nodes s u))
        \<and> (\<exists>es. ts_log s' = ts_log s @ es \<and> distinct (freed_log es) \<and> set (freed_log es) = F))"

lemma after_release_none: "after_release kids nodes {} s s"
  by (simp add: after_release_def released_empty freed_nodes_def)

lemma after_release_keeps:
  "after_release kids nodes X s s' \<Longrightarrow> u \<notin> released kids (\<lambda>u. tn_refs (nodes u)) X \<Longrightarrow> ts_nodes s' u = ts_nodes s u"
  by (auto simp: after_release_def Let_def freed_nodes_def)

lemma after_release_Un:
  assumes "after_release kids nodes X s1 s2" "after_release kids nodes Y s2 s3"
    and "released kids (\<lambda>u. tn_refs (nodes u)) X \<inter> released kids (\<lambda>u. tn_refs (nodes u)) Y = {}"
    and "\<And>u. u \<notin> X \<Longrightarrow> ts_nodes s1 u = ts_nodes s u" "ts_log s1 = ts_log s"
  shows "after_release kids nodes (X \<union> Y) s s3"
proof -
  let ?R = "released kids (\<lambda>u. tn_refs (nodes u))" and ?F = "freed_nodes kids (\<lambda>u. tn_refs (nodes u))"
  have F: "?F (X \<union> Y) = ?F X \<union> ?F Y" "?F X \<inter> ?F Y = {}"
    using assms(3) by (auto simp: freed_nodes_def released_Un)
  have "ts_nodes s3 u = (if u \<in> ?R (X \<union> Y) then cut_node (nodes u) else ts_nodes s u)" if "u \<notin> ?F (X \<union> Y)" for u
  proof (cases "u \<in> ?R Y")
    case True
    then show ?thesis using assms(2) that F by (simp add: after_release_def Let_def released_Un)
  next
    case False
    then have s3: "ts_nodes s3 u = ts_nodes s2 u" using after_release_keeps [OF assms(2)] by simp
    show ?thesis
    proof (cases "u \<in> ?R X")
      case True
      then show ?thesis using assms(1) that F s3 by (simp add: after_release_def Let_def released_Un)
    next
      case out: False
      then have "u \<notin> X" using released_root by blast
      then show ?thesis using after_release_keeps [OF assms(1) out] assms(4) s3 False out by (simp add: released_Un)
    qed
  qed
  moreover obtain es fs where "ts_log s2 = ts_log s1 @ es" "ts_log s3 = ts_log s2 @ fs"
    "distinct (freed_log es)" "set (freed_log es) = ?F X" "distinct (freed_log fs)" "set (freed_log fs) = ?F Y"
    using assms(1,2) by (auto simp: after_release_def Let_def)
  then have "\<exists>es. ts_log s3 = ts_log s @ es \<and> distinct (freed_log es) \<and> set (freed_log es) = ?F (X \<union> Y)"
    using F assms(5) by (intro exI [of _ "es @ fs"]) auto
  ultimately show ?thesis by (simp add: after_release_def Let_def)
qed

text \<open>The release of a root and the loop over siblings, with the nodes below as they were: fuel for
  two calls per node is enough.\<close>

definition releases_root :: "tree set \<Rightarrow> (tree \<Rightarrow> tree list) \<Rightarrow> (tree \<Rightarrow> CFTree) \<Rightarrow> nat \<Rightarrow> bool" where
  "releases_root A kids nodes fuel \<longleftrightarrow>
     (\<forall>t s. t \<in> A \<and> ts_nodes s t = (nodes t)\<lparr>tn_parent := 0, tn_sibling := 0\<rparr>
        \<and> (\<forall>u \<in> below A nodes (set (kids t)). ts_nodes s u = nodes u) \<and> 2 * card (below A nodes {t}) \<le> fuel + 1
      \<longrightarrow> (\<exists>s'. CFRelease_tree fuel t s = Some s' \<and> after_release kids nodes {t} s s'))"

definition releases_siblings :: "tree set \<Rightarrow> (tree \<Rightarrow> tree list) \<Rightarrow> (tree \<Rightarrow> CFTree) \<Rightarrow> nat \<Rightarrow> bool" where
  "releases_siblings A kids nodes fuel \<longleftrightarrow>
     (\<forall>p us cs s. p \<in> A \<and> kids p = us @ cs \<and> (\<forall>u \<in> below A nodes (set cs). ts_nodes s u = nodes u)
        \<and> 2 * card (below A nodes (set cs)) \<le> fuel
      \<longrightarrow> (\<exists>s'. remove_children fuel (hd (cs @ [0])) s = Some s' \<and> after_release kids nodes (set cs) s s'))"

lemma finite_below: "forest A kids nodes \<Longrightarrow> X \<subseteq> A \<Longrightarrow> finite (below A nodes X)"
  using below_subset by (metis finite_subset forest_def)

lemma card_below_one:
  assumes "forest A kids nodes" "t \<in> A"
  shows "card (below A nodes {t}) = Suc (card (below A nodes (set (kids t))))"
proof -
  have "set (kids t) \<subseteq> A" using forest_child [OF assms] by auto
  then show ?thesis using below_one [OF assms] finite_below [OF assms(1)] by simp
qed

lemma card_below_siblings:
  assumes "forest A kids nodes" "p \<in> A" "kids p = us @ c # vs"
  shows "card (below A nodes (set (c # vs))) = card (below A nodes {c}) + card (below A nodes (set vs))"
proof -
  have "set (c # vs) \<subseteq> A" using forest_child [OF assms(1,2)] assms(3) by auto
  then have "finite (below A nodes {c})" "finite (below A nodes (set vs))" using finite_below [OF assms(1)] by simp_all
  moreover have "below A nodes (set (c # vs)) = below A nodes {c} \<union> below A nodes (set vs)" by (auto simp: below_def)
  ultimately show ?thesis using below_siblings [OF assms] by (simp add: card_Un_disjoint)
qed

lemma releases_root_step:
  assumes forest: "forest A kids nodes" and alive: "\<forall>u \<in> A. 1 \<le> tn_refs (nodes u)"
    and siblings: "\<And>f. fuel = Suc f \<Longrightarrow> releases_siblings A kids nodes f"
  shows "releases_root A kids nodes fuel"
  unfolding releases_root_def
proof (intro allI impI, elim conjE)
  fix t and s :: tree_store
  assume t: "t \<in> A" "ts_nodes s t = (nodes t)\<lparr>tn_parent := 0, tn_sibling := 0\<rparr>"
    and same: "\<forall>u \<in> below A nodes (set (kids t)). ts_nodes s u = nodes u"
    and enough: "2 * card (below A nodes {t}) \<le> fuel + 1"
  let ?R = "released kids (\<lambda>u. tn_refs (nodes u))" and ?F = "freed_nodes kids (\<lambda>u. tn_refs (nodes u))"
  note card = card_below_one [OF forest t(1)]
  show "\<exists>s'. CFRelease_tree fuel t s = Some s' \<and> after_release kids nodes {t} s s'"
  proof (cases "tn_refs (nodes t) = 1")
    case False
    then have "2 \<le> tn_refs (nodes t)" using alive t(1) by force
    then show ?thesis using t(2) False
      by (auto simp: CFRelease_tree.simps Let_def after_release_def released_one freed_nodes_def cut_node_def)
  next
    case True
    obtain f where f: "fuel = Suc f" "2 * card (below A nodes (set (kids t))) \<le> f"
      using enough card by (cases fuel) auto
    let ?s1 = "tree_upd t (\<lambda>n. n\<lparr>tn_child := 0, tn_rightmostChild := 0\<rparr>) (tree_upd t (\<lambda>n. n\<lparr>tn_refs := tn_refs n - 1\<rparr>) s)"
    have "\<forall>u \<in> below A nodes (set (kids t)). ts_nodes ?s1 u = nodes u"
      using same below_one(2) [OF forest t(1)] by auto
    then obtain s2 where s2: "remove_children f (hd (kids t @ [0])) ?s1 = Some s2"
      "after_release kids nodes (set (kids t)) ?s1 s2"
      using siblings [OF f(1), unfolded releases_siblings_def, rule_format, of t "[]" "kids t" ?s1] f(2) t(1) by auto
    have first: "tn_child (ts_nodes s t) = hd (kids t @ [0])" using t(2) forest_path(4) [OF forest t(1)] by simp
    have notin: "t \<notin> ?R (set (kids t))"
      using released_below [OF forest, of "set (kids t)" t] forest_child [OF forest t(1)] below_one(2) [OF forest t(1)] by blast
    then have nt: "ts_nodes s2 t = ts_nodes ?s1 t" using after_release_keeps [OF s2(2)] by simp
    let ?r = "tcb_release (CFTreeGetCallBacks (ts_nodes s2 t))"
    let ?s3 = "case ?r of Some release \<Rightarrow> tree_event (Release_info (fn_addr release) (tn_info (ts_nodes s2 t))) s2 | None \<Rightarrow> s2"
    have run: "CFRelease_tree fuel t s = Some (tree_event (Freed t) ?s3)"
      using f(1) t(2) True first s2(1) by (simp add: CFRelease_tree.simps [of "Suc f"] Let_def)
    obtain es where es: "ts_log s2 = ts_log s @ es" "distinct (freed_log es)"
      "set (freed_log es) = ?F (set (kids t))"
      using s2(2) by (auto simp: after_release_def Let_def)
    have R: "?R {t} = insert t (?R (set (kids t)))" using True by (simp add: released_one [of _ _ t])
    then have F: "?F {t} = insert t (?F (set (kids t)))" "t \<notin> ?F (set (kids t))"
      using True notin by (auto simp: freed_nodes_def)
    let ?es = "case ?r of Some release \<Rightarrow> [Release_info (fn_addr release) (tn_info (ts_nodes s2 t))] | None \<Rightarrow> []"
    have "ts_log (tree_event (Freed t) ?s3) = ts_log s @ (es @ ?es @ [Freed t])" "freed_log ?es = []"
      using es(1) by (simp_all split: option.splits)
    then have log: "\<exists>gs. ts_log (tree_event (Freed t) ?s3) = ts_log s @ gs \<and> distinct (freed_log gs) \<and> set (freed_log gs) = ?F {t}"
      using es F by (intro exI [of _ "es @ ?es @ [Freed t]"]) simp
    have "ts_nodes (tree_event (Freed t) ?s3) = ts_nodes s2" by (simp split: option.splits)
    then have "after_release kids nodes {t} s (tree_event (Freed t) ?s3)"
      using s2(2) log R F unfolding after_release_def Let_def by auto
    then show ?thesis using run by blast
  qed
qed

lemma releases_siblings_step:
  assumes forest: "forest A kids nodes"
    and less: "\<And>f. fuel = Suc f \<Longrightarrow> releases_root A kids nodes f \<and> releases_siblings A kids nodes f"
  shows "releases_siblings A kids nodes fuel"
  unfolding releases_siblings_def
proof (intro allI impI, elim conjE)
  fix p us cs and s :: tree_store
  assume p: "p \<in> A" "kids p = us @ cs" and same: "\<forall>u \<in> below A nodes (set cs). ts_nodes s u = nodes u"
    and enough: "2 * card (below A nodes (set cs)) \<le> fuel"
  let ?R = "released kids (\<lambda>u. tn_refs (nodes u))"
  show "\<exists>s'. remove_children fuel (hd (cs @ [0])) s = Some s' \<and> after_release kids nodes (set cs) s s'"
  proof (cases cs)
    case Nil
    then show ?thesis using after_release_none by (simp add: remove_children.simps)
  next
    case (Cons c vs)
    have kids: "kids p = us @ c # vs" "kids p = (us @ [c]) @ vs" using p Cons by simp_all
    have c: "c \<in> A" "c \<noteq> 0" "set vs \<subseteq> A" using forest_child [OF forest p(1)] forest_nonzero [OF forest] kids by auto
    have set: "below A nodes (set cs) = below A nodes {c} \<union> below A nodes (set vs)" unfolding Cons by (auto simp: below_def)
    note card = card_below_siblings [OF forest p(1) kids(1)] card_below_one [OF forest c(1)]
      and disj = below_siblings [OF forest p(1) kids(1)]
    obtain f where f: "fuel = Suc f" "2 * card (below A nodes {c}) \<le> f + 1" "2 * card (below A nodes (set vs)) \<le> f"
      using enough card unfolding Cons by (cases fuel) auto
    let ?s1 = "tree_upd c (\<lambda>n. n\<lparr>tn_parent := 0, tn_sibling := 0\<rparr>) s"
    have c_below: "c \<in> below A nodes {c}" by (auto simp: below_def)
    have s1: "ts_nodes ?s1 c = (nodes c)\<lparr>tn_parent := 0, tn_sibling := 0\<rparr>" using same set c_below by simp
    have same1: "\<forall>u \<in> below A nodes (set (kids c)). ts_nodes ?s1 u = nodes u"
      using same set below_one [OF forest c(1)] by auto
    obtain s2 where s2: "CFRelease_tree f c ?s1 = Some s2" "after_release kids nodes {c} ?s1 s2"
      using less [OF f(1)] c(1) s1 same1 f(2) unfolding releases_root_def by blast
    have R: "?R {c} \<subseteq> below A nodes {c}" "?R (set vs) \<subseteq> below A nodes (set vs)"
      using released_below [OF forest] c by auto
    have "ts_nodes s2 u = nodes u" if u: "u \<in> below A nodes (set vs)" for u
    proof -
      have "u \<notin> ?R {c}" "u \<noteq> c" using R(1) disj u c_below by auto
      then show ?thesis using after_release_keeps [OF s2(2)] same set u by simp
    qed
    then obtain s3 where s3: "remove_children f (hd (vs @ [0])) s2 = Some s3" "after_release kids nodes (set vs) s2 s3"
      using less [OF f(1)] p(1) kids(2) f(3) unfolding releases_siblings_def by blast
    have "tn_sibling (ts_nodes s c) = hd (vs @ [0])"
      using forest_sibling(1) [OF forest p(1) kids(1)] same set c_below by simp
    then have run: "remove_children fuel (hd (cs @ [0])) s = Some s3"
      using f(1) c(2) s2(1) s3(1) Cons by (simp add: remove_children.simps [of "Suc f"] Let_def)
    have "after_release kids nodes ({c} \<union> set vs) s s3"
      using s2(2) s3(2) by (rule after_release_Un) (use R disj in auto)
    then show ?thesis using run Cons by auto
  qed
qed

lemma releases:
  assumes "forest A kids nodes" "\<forall>u \<in> A. 1 \<le> tn_refs (nodes u)"
  shows "releases_root A kids nodes fuel \<and> releases_siblings A kids nodes fuel"
proof (induction fuel)
  case 0
  show ?case using releases_root_step [OF assms, of 0] releases_siblings_step [OF assms(1), of 0] by simp
next
  case (Suc fuel)
  then show ?case using releases_root_step [OF assms, of "Suc fuel"] releases_siblings_step [OF assms(1), of "Suc fuel"] by auto
qed

text \<open>The nodes that are left are a forest again.\<close>

lemma forest_survivors:
  assumes forest: "forest A kids nodes" and alive: "\<forall>u \<in> A. 1 \<le> tn_refs (nodes u)"
    and X: "X \<subseteq> A" "\<And>t. t \<in> X \<Longrightarrow> tn_parent (nodes t) = 0"
    and R: "R = released kids (\<lambda>u. tn_refs (nodes u)) X" and F: "F = freed_nodes kids (\<lambda>u. tn_refs (nodes u)) X"
    and left: "\<And>u. u \<in> A - F \<Longrightarrow> nodes' u = (if u \<in> R then cut_node (nodes u) else nodes u)"
  shows "forest (A - F) kids nodes' \<and> (\<forall>u \<in> A - F. 1 \<le> tn_refs (nodes' u))"
proof -
  have freed: "c \<in> R \<longleftrightarrow> tn_parent (nodes c) \<in> F" if "c \<in> A" "tn_parent (nodes c) \<noteq> 0" for c
  proof
    assume "c \<in> R"
    then show "tn_parent (nodes c) \<in> F"
      unfolding R
    proof (cases rule: released.cases)
      case (released_child t)
      then have "t \<in> A" using released_below [OF forest X(1)] below_subset [OF X(1)] by blast
      then show ?thesis using released_child forest_child [OF forest, of t c] by (simp add: F freed_nodes_def)
    qed (use X that in auto)
  next
    assume "tn_parent (nodes c) \<in> F"
    then show "c \<in> R"
      using forest_parent [OF forest that] by (auto simp: F R freed_nodes_def intro: released_child)
  qed
  have kid: "c \<in> A \<and> c \<notin> R \<and> c \<notin> F \<and> tn_parent (nodes c) = t" if "t \<in> A - F" "c \<in> set (kids t)" for t c
    using forest_child [OF forest _ that(2)] freed [of c] forest_nonzero [OF forest, of t] that(1)
    by (auto simp: F R freed_nodes_def)
  have "tree_parents (A - F) nodes' \<subseteq> tree_parents A nodes"
    using left by (auto simp: tree_parents_def cut_node_def split: if_splits)
  then have acyclic: "acyclic (tree_parents (A - F) nodes')"
    using forest by (auto simp: forest_def intro: acyclic_subset)
  have ok: "node_ok (A - F) kids nodes' t" if t: "t \<in> A - F" for t
  proof -
    have "sib_path nodes' (tn_child (nodes t)) (kids t) 0 = sib_path nodes (tn_child (nodes t)) (kids t) 0"
      using kid [OF t] left by (intro sib_path_cong) auto
    moreover have "tn_child (nodes' t) = tn_child (nodes t)" "tn_rightmostChild (nodes' t) = tn_rightmostChild (nodes t)"
      using left [OF t] by (simp_all add: cut_node_def)
    moreover have "\<forall>c \<in> set (kids t). c \<in> A - F \<and> tn_parent (nodes' c) = t" using kid [OF t] left by auto
    moreover have "if tn_parent (nodes' t) = 0 then tn_sibling (nodes' t) = 0
      else tn_parent (nodes' t) \<in> A - F \<and> t \<in> set (kids (tn_parent (nodes' t)))"
    proof (cases "t \<in> R")
      case False
      then show ?thesis using forestD [OF forest, of t] left [OF t] t freed [of t]
        by (auto simp: node_ok_def split: if_splits)
    qed (use left [OF t] in \<open>simp add: cut_node_def\<close>)
    ultimately show ?thesis using forest_path(1,5) [OF forest, of t] t unfolding node_ok_def by auto
  qed
  have "1 \<le> tn_refs (nodes' u)" if u: "u \<in> A - F" for u
  proof -
    have "u \<in> R \<Longrightarrow> tn_refs (nodes u) \<noteq> 1" using u by (auto simp: F R freed_nodes_def)
    then show ?thesis using left [OF u] alive u by (force simp: cut_node_def)
  qed
  then show ?thesis using forest acyclic ok by (simp add: forest_def)
qed

lemma card_below_le: "forest A kids nodes \<Longrightarrow> X \<subseteq> A \<Longrightarrow> card (below A nodes X) \<le> card A"
  using below_subset by (metis card_mono forest_def)

text \<open>Without a parent, a node is a root: its release is that of a root.\<close>

lemma CFRelease_tree_root:
  assumes forest: "forest A kids (ts_nodes s)" and alive: "\<forall>u \<in> A. 1 \<le> tn_refs (ts_nodes s u)"
    and t: "t \<in> A" "tn_parent (ts_nodes s t) = 0" and fuel: "2 * card A \<le> fuel"
  shows "\<exists>s'. CFRelease_tree fuel t s = Some s' \<and> after_release kids (ts_nodes s) {t} s s'
    \<and> forest (A - freed_nodes kids (\<lambda>u. tn_refs (ts_nodes s u)) {t}) kids (ts_nodes s')
    \<and> (\<forall>u \<in> A - freed_nodes kids (\<lambda>u. tn_refs (ts_nodes s u)) {t}. 1 \<le> tn_refs (ts_nodes s' u))"
proof -
  have "tn_sibling (ts_nodes s t) = 0" using forestD [OF forest t(1)] t(2) by (simp add: node_ok_def)
  then have "ts_nodes s t = (ts_nodes s t)\<lparr>tn_parent := 0, tn_sibling := 0\<rparr>" using t(2) by simp
  moreover have "2 * card (below A (ts_nodes s) {t}) \<le> fuel + 1" using card_below_le [OF forest, of "{t}"] t fuel by simp
  ultimately obtain s' where s': "CFRelease_tree fuel t s = Some s'" "after_release kids (ts_nodes s) {t} s s'"
    using conjunct1 [OF releases [OF forest alive, of fuel], unfolded releases_root_def, rule_format, of t s] t(1) by auto
  then show ?thesis
    using forest_survivors [OF forest alive, of "{t}", OF _ _ refl refl, of "ts_nodes s'"] t
    by (auto simp: after_release_def Let_def)
qed

text \<open>The forest after some of its nodes are released: the dead nodes are gone, each was freed once,
  and the others lost at most one reference.\<close>

definition tree_refs :: "tree_store \<Rightarrow> tree \<Rightarrow> nat" where
  "tree_refs s t = tn_refs (ts_nodes s t)"

definition referenced :: "tree set \<Rightarrow> tree_store \<Rightarrow> bool" where
  "referenced A s \<longleftrightarrow> (\<forall>t \<in> A. 1 \<le> tree_refs s t)"

definition released_forest :: "tree set \<Rightarrow> (tree \<Rightarrow> tree list) \<Rightarrow> tree set \<Rightarrow> tree_store \<Rightarrow> tree_store \<Rightarrow> bool" where
  "released_forest A kids X s s' \<longleftrightarrow>
     (let R = released kids (tree_refs s) X; F = freed_nodes kids (tree_refs s) X
      in forest (A - F) kids (ts_nodes s') \<and> referenced (A - F) s'
        \<and> (\<forall>t \<in> A - F. tree_refs s' t = tree_refs s t - (if t \<in> R then 1 else 0))
        \<and> (\<exists>es. ts_log s' = ts_log s @ es \<and> distinct (freed_log es) \<and> set (freed_log es) = F))"

lemma released_forestI:
  assumes "after_release kids nodes X s1 s'" "\<And>t. tn_refs (nodes t) = tree_refs s t"
    and "\<And>t. t \<in> A \<Longrightarrow> tree_refs s1 t = tree_refs s t" "ts_log s1 = ts_log s"
    and "forest (A - freed_nodes kids (tree_refs s) X) kids (ts_nodes s')"
    and "referenced (A - freed_nodes kids (tree_refs s) X) s'"
  shows "released_forest A kids X s s'"
proof -
  have refs: "(\<lambda>u. tn_refs (nodes u)) = tree_refs s" using assms(2) by auto
  have "tree_refs s' t = tree_refs s t - (if t \<in> released kids (tree_refs s) X then 1 else 0)"
    if "t \<in> A - freed_nodes kids (tree_refs s) X" for t
    using assms(1,3) that assms(2) [of t] unfolding after_release_def Let_def refs
    by (auto simp: tree_refs_def [of s'] tree_refs_def [of s1] cut_node_def)
  then show ?thesis
    using assms(1,4-6) unfolding released_forest_def after_release_def Let_def refs by auto
qed

lemma CFTreeRemove_forest:
  assumes forest: "forest A kids (ts_nodes s)" and alive: "referenced A s"
    and t: "t \<in> A" "tn_parent (ts_nodes s t) = p" "p \<noteq> 0" and fuel: "2 * card A \<le> fuel"
  shows "\<exists>s'. CFTreeRemove fuel t s = Some s' \<and> released_forest A (kids(p := remove1 t (kids p))) {t} s s'"
proof -
  let ?kids = "kids(p := remove1 t (kids p))" and ?clear = "\<lambda>n. n\<lparr>tn_parent := 0, tn_sibling := 0\<rparr>"
  obtain s1 where s1: "unlink_tree t s = Some s1" "ts_log s1 = ts_log s"
    "\<And>u. tn_refs (ts_nodes s1 u) = tn_refs (ts_nodes s u)" "forest A ?kids (ts_nodes (tree_upd t ?clear s1))"
    using unlink_tree_forest [OF forest t] by auto
  have refs: "(\<lambda>u. tn_refs (ts_nodes (tree_upd t ?clear s1) u)) = tree_refs s"
    using s1(3) by (auto simp: tree_refs_def)
  have "\<forall>u \<in> A. 1 \<le> tn_refs (ts_nodes (tree_upd t ?clear s1) u)"
    using alive s1(3) by (auto simp: referenced_def tree_refs_def)
  then obtain s' where s': "CFRelease_tree fuel t (tree_upd t ?clear s1) = Some s'"
    "after_release ?kids (ts_nodes (tree_upd t ?clear s1)) {t} (tree_upd t ?clear s1) s'"
    "forest (A - freed_nodes ?kids (tree_refs s) {t}) ?kids (ts_nodes s')"
    "referenced (A - freed_nodes ?kids (tree_refs s) {t}) s'"
    using CFRelease_tree_root [OF s1(4) _ t(1) _ fuel] refs by (auto simp: referenced_def tree_refs_def)
  have "CFTreeRemove fuel t s = Some s'" using t(2,3) s1(1) s'(1) by (simp add: CFTreeRemove_def)
  moreover have "released_forest A ?kids {t} s s'"
    by (rule released_forestI [OF s'(2) _ _ _ s'(3,4)]) (use s1(2,3) in \<open>auto simp: tree_refs_def\<close>)
  ultimately show ?thesis by blast
qed

lemma released_other_kids:
  assumes "p \<notin> released kids refs X"
  shows "released (kids(p := ks)) refs X = released kids refs X"
proof (intro equalityI subsetI)
  fix t assume "t \<in> released (kids(p := ks)) refs X"
  then show "t \<in> released kids refs X"
    using assms by (induction rule: released.induct) (auto intro: released.intros split: if_splits)
next
  fix t assume "t \<in> released kids refs X"
  then show "t \<in> released (kids(p := ks)) refs X"
  proof (induction rule: released.induct)
    case (released_child t c)
    then have "t \<noteq> p" using assms by auto
    then show ?case using released_child by (auto intro: released.intros)
  qed (rule released_root)
qed

lemma CFTreeRemoveAllChildren_forest:
  assumes forest: "forest A kids (ts_nodes s)" and alive: "referenced A s"
    and p: "p \<in> A" and fuel: "2 * card A \<le> fuel"
  shows "\<exists>s'. CFTreeRemoveAllChildren fuel p s = Some s' \<and> released_forest A (kids(p := [])) (set (kids p)) s s'"
proof -
  let ?X = "set (kids p)" and ?kids = "kids(p := [])" and ?refs = "tree_refs s"
  let ?s1 = "tree_upd p (\<lambda>n. n\<lparr>tn_child := 0, tn_rightmostChild := 0\<rparr>) s"
  define nodes where "nodes u = (if u \<in> ?X then (ts_nodes ?s1 u)\<lparr>tn_parent := 0, tn_sibling := 0\<rparr> else ts_nodes ?s1 u)" for u
  have refs: "(\<lambda>u. tn_refs (nodes u)) = ?refs" by (auto simp: nodes_def tree_refs_def)
  have X: "?X \<subseteq> A" using forest_child [OF forest p] by auto
  have pX: "p \<notin> below A (ts_nodes s) ?X" by (rule below_one(2) [OF forest p])
  then have pR: "p \<notin> released kids ?refs ?X" using released_below [OF forest X] by blast
  note R = released_other_kids [OF pR, of "[]"]
  have alive': "\<forall>u \<in> A. 1 \<le> tn_refs (ts_nodes s u)" using alive by (simp add: referenced_def tree_refs_def)
  have "2 * card (below A (ts_nodes s) ?X) \<le> fuel" using card_below_le [OF forest X] fuel by simp
  moreover have "\<forall>u \<in> below A (ts_nodes s) ?X. ts_nodes ?s1 u = ts_nodes s u" using pX by auto
  ultimately obtain s' where s': "remove_children fuel (hd (kids p @ [0])) ?s1 = Some s'" "after_release kids (ts_nodes s) ?X ?s1 s'"
    using conjunct2 [OF releases [OF forest alive', of fuel], unfolded releases_siblings_def, THEN spec, of p,
        THEN spec, of "[]", THEN spec, of "kids p", THEN spec, of ?s1] p by auto
  have "tree_parents A nodes \<subseteq> tree_parents A (ts_nodes s)"
    by (auto simp: tree_parents_def nodes_def split: if_splits)
  then have acyclic: "acyclic (tree_parents A nodes)" using forest by (auto simp: forest_def intro: acyclic_subset)
  have pp: "p \<notin> ?X" using forest_child [OF forest p, of p] forest_parent_neq [OF forest p] by auto
  have forest1: "forest A ?kids nodes"
    by (rule forest_relink [OF forest p acyclic]) (use pp in \<open>auto simp: nodes_def\<close>)
  have eq: "freed_nodes ?kids ?refs ?X = freed_nodes kids ?refs ?X" by (simp add: freed_nodes_def R)
  have left: "ts_nodes s' u = (if u \<in> released ?kids ?refs ?X then cut_node (nodes u) else nodes u)"
    if "u \<in> A - freed_nodes ?kids ?refs ?X" for u
  proof -
    have "cut_node (nodes u) = cut_node (ts_nodes s u)" if "u \<noteq> p" using that by (simp add: nodes_def cut_node_def)
    moreover have "u \<in> released kids ?refs ?X" if "u \<in> ?X" using that by (rule released_root)
    ultimately show ?thesis using s'(2) that pR unfolding after_release_def eq R Let_def tree_refs_def [symmetric]
      by (auto simp: nodes_def)
  qed
  have "\<forall>u \<in> A. 1 \<le> tn_refs (nodes u)" using alive' by (auto simp: nodes_def)
  then have "forest (A - freed_nodes ?kids ?refs ?X) ?kids (ts_nodes s') \<and> referenced (A - freed_nodes ?kids ?refs ?X) s'"
    using forest_survivors [OF forest1 _ X, of _ _ "ts_nodes s'"] left
    unfolding referenced_def tree_refs_def [of s'] refs by (auto simp: nodes_def)
  moreover have "after_release ?kids nodes ?X ?s1 s'"
    using s'(2) pR unfolding after_release_def refs R eq Let_def tree_refs_def [symmetric]
    by (auto simp: nodes_def cut_node_def)
  then have "CFTreeRemoveAllChildren fuel p s = Some s'"
    using s'(1) forest_path(4) [OF forest p] by (simp add: CFTreeRemoveAllChildren_def Let_def)
  moreover have "released_forest A ?kids ?X s s'"
    by (rule released_forestI [where nodes = nodes and ?s1.0 = ?s1])
      (use calculation \<open>after_release ?kids nodes ?X ?s1 s'\<close> refs in \<open>auto simp: tree_refs_def fun_eq_iff\<close>)
  ultimately show ?thesis by blast
qed

section \<open>The sort of the children\<close>

lemma ts_nodes_link_siblings:
  "tn_parent (ts_nodes (link_siblings xs s) t) = tn_parent (ts_nodes s t)"
  "tn_child (ts_nodes (link_siblings xs s) t) = tn_child (ts_nodes s t)"
  "tn_rightmostChild (ts_nodes (link_siblings xs s) t) = tn_rightmostChild (ts_nodes s t)"
  "t \<notin> set xs \<Longrightarrow> ts_nodes (link_siblings xs s) t = ts_nodes s t"
  by (induction xs s rule: link_siblings.induct) simp_all

lemma link_siblings_path:
  "xs \<noteq> [] \<Longrightarrow> distinct xs \<Longrightarrow> 0 \<notin> set xs \<Longrightarrow> sib_path (ts_nodes (link_siblings xs s)) (hd xs) xs 0"
  by (induction xs s rule: link_siblings.induct) (auto simp: ts_nodes_link_siblings(4))

lemma sint_small: "int n < 2 ^ 31 \<Longrightarrow> sint (of_nat n :: u32) = int n"
  by (simp add: signed_of_nat signed_take_bit_int_eq_self)

lemma CFTreeGetChildCount_forest:
  assumes "forest A kids (ts_nodes s)" "t \<in> A" "int (length (kids t)) < 2 ^ 31"
  shows "CFTreeGetChildCount s t = Some (int (length (kids t)))"
  using count_siblings_path [OF forest_path(1) [OF assms(1,2)], of 0] sint_small [OF assms(3)]
  by (simp add: CFTreeGetChildCount_def)

lemma CFTreeGetChildren_forest:
  "forest A kids (ts_nodes s) \<Longrightarrow> t \<in> A \<Longrightarrow> CFTreeGetChildren s t = Some (kids t)"
  using get_siblings_path [OF forest_path(1)] by (simp add: CFTreeGetChildren_def)

lemma CFTreeSortChildren_forest:
  assumes forest: "forest A kids (ts_nodes s)" "t \<in> A" and small: "int (length (kids t)) < 2 ^ 31"
    and cmp: "comparator (\<lambda>a b. compare a b ctxt)"
    and tmp: "length garbage = length (kids t)" "length (kids t) \<le> length tmp"
  shows "\<exists>ks s'. CFTreeSortChildren garbage tmp t compare ctxt s = Some s'
    \<and> stable_sort_of (\<lambda>a b. compare a b ctxt) (kids t) ks \<and> forest A (kids(t := ks)) (ts_nodes s')"
proof (cases "1 < length (kids t)")
  case False
  then show ?thesis
    using CFTreeGetChildCount_forest [OF forest small] stable_sort_small [of "kids t"] forest(1)
    by (intro exI [of _ "kids t"] exI [of _ s]) (simp add: CFTreeSortChildren_def)
next
  case True
  let ?ks = "CFQSortArray garbage tmp (kids t) 8 compare ctxt"
  have small': "length (kids t) \<le> (2 ^ 63 - 1) div 8" using small by simp
  have sort: "stable_sort_of (\<lambda>a b. compare a b ctxt) (kids t) ?ks"
    using CFQSortArray_sorts [where cmp = compare and ctx = ctxt, OF cmp _ tmp small', of 8] by simp
  then have ms: "mset ?ks = mset (kids t)" by (simp add: stable_sort_of_def)
  have len: "length ?ks = length (kids t)" using sort by (rule stable_sort_of_length)
  have ks: "?ks \<noteq> []" "distinct ?ks" "0 \<notin> set ?ks"
    using True len forest_path(2,3) [OF forest] mset_eq_setD [OF ms] mset_eq_imp_distinct_iff [OF ms] by auto
  let ?s1 = "link_siblings ?ks (tree_upd t (\<lambda>n. n\<lparr>tn_child := ?ks ! 0\<rparr>) s)"
  let ?s' = "tree_upd t (\<lambda>n. n\<lparr>tn_rightmostChild := ?ks ! (length (kids t) - 1)\<rparr>) ?s1"
  have run: "CFTreeSortChildren garbage tmp t compare ctxt s = Some ?s'"
    using True CFTreeGetChildCount_forest [OF forest small] CFTreeGetChildren_forest [OF forest]
    by (simp add: CFTreeSortChildren_def Let_def nat_diff_distrib)
  have "sib_path (ts_nodes ?s') (hd ?ks) ?ks 0 = sib_path (ts_nodes ?s1) (hd ?ks) ?ks 0"
    by (intro sib_path_cong) simp
  then have path: "sib_path (ts_nodes ?s') (tn_child (ts_nodes ?s' t)) ?ks 0"
    using link_siblings_path [OF ks] ks(1) by (simp add: ts_nodes_link_siblings hd_conv_nth)
  have right: "tn_rightmostChild (ts_nodes ?s' t) = last (0 # ?ks)"
    using ks(1) len by (simp add: last_conv_nth)
  have "forest A (kids(t := ?ks)) (ts_nodes ?s')"
    by (rule forest_permute [OF forest ms _ path right]) (auto simp: ts_nodes_link_siblings)
  then show ?thesis using run sort by blast
qed

section \<open>The root of a node\<close>

lemma find_root_forest:
  assumes forest: "forest A kids nodes" and "t \<in> A"
  shows "\<exists>r. find_root nodes t = Some r \<and> r \<in> A \<and> tn_parent (nodes r) = 0 \<and> (r, t) \<in> (tree_parents A nodes)\<^sup>*"
proof -
  have "tree_parents A nodes \<subseteq> A \<times> A"
    using forest_parent [OF forest] by (auto simp: tree_parents_def)
  then have "finite (tree_parents A nodes)" using forest by (auto simp: forest_def intro: finite_subset)
  then have "wf (tree_parents A nodes)" using forest by (simp add: forest_def finite_acyclic_wf)
  then show ?thesis
    using assms(2)
  proof (induction t rule: wf_induct_rule)
    case (less t)
    note t = less.prems and IH = less.IH
    show ?case
    proof (cases "tn_parent (nodes t) = 0")
    case False
    let ?p = "tn_parent (nodes t)"
    have e: "(?p, t) \<in> tree_parents A nodes" "?p \<in> A"
      using False t forest_parent [OF forest t] by (auto simp: tree_parents_def)
    then obtain r where "find_root nodes ?p = Some r \<and> r \<in> A \<and> tn_parent (nodes r) = 0 \<and> (r, ?p) \<in> (tree_parents A nodes)\<^sup>*"
      using IH by blast
    then show ?thesis using False e by (subst find_root.simps) (auto intro: rtrancl_into_rtrancl)
    qed (use t in \<open>simp add: find_root.simps\<close>)
  qed
qed

section \<open>The context of a node\<close>

lemma ts_nodes_CFTreeSetContext:
  "tn_parent (ts_nodes (CFTreeSetContext t c s) u) = tn_parent (ts_nodes s u)"
  "tn_sibling (ts_nodes (CFTreeSetContext t c s) u) = tn_sibling (ts_nodes s u)"
  "tn_child (ts_nodes (CFTreeSetContext t c s) u) = tn_child (ts_nodes s u)"
  "tn_rightmostChild (ts_nodes (CFTreeSetContext t c s) u) = tn_rightmostChild (ts_nodes s u)"
  "tree_refs (CFTreeSetContext t c s) u = tree_refs s u"
  "u \<noteq> t \<Longrightarrow> ts_nodes (CFTreeSetContext t c s) u = ts_nodes s u"
  by (simp_all add: CFTreeSetContext_def Let_def tree_refs_def split: option.splits)

text \<open>The standard callbacks are recognised by their addresses alone.\<close>

definition honest_context :: "CFTreeContext \<Rightarrow> bool" where
  "honest_context c \<longleftrightarrow> (CFTreeCallBacksMatchCFType c \<longrightarrow> tc_callbacks c = kCFTypeTreeCallBacks)"

definition set_callbacks :: "CFTreeContext \<Rightarrow> CFTree \<Rightarrow> CFTree" where
  "set_callbacks c n = (if CFTreeCallBacksMatchNull c then n\<lparr>tn_type := kCFTreeHasNullCallBacks\<rparr>
     else if CFTreeCallBacksMatchCFType c then n\<lparr>tn_type := kCFTreeHasCFTypeCallBacks\<rparr>
     else n\<lparr>tn_callbacks := tc_callbacks c, tn_type := kCFTreeHasCustomCallBacks\<rparr>)"

lemma CFTreeGetCallBacks_set: "honest_context c \<Longrightarrow> CFTreeGetCallBacks (set_callbacks c n) = tc_callbacks c"
  by (cases "tc_callbacks c")
    (auto simp: set_callbacks_def CFTreeGetCallBacks_def honest_context_def CFTreeCallBacksMatchNull_def
      kCFNullTreeCallBacks_def kCFTreeHasNullCallBacks_def kCFTreeHasCFTypeCallBacks_def kCFTreeHasCustomCallBacks_def)

lemma CFTreeGetCallBacks_info [simp]: "CFTreeGetCallBacks (n\<lparr>tn_info := i\<rparr>) = CFTreeGetCallBacks n"
  by (simp add: CFTreeGetCallBacks_def)

lemma CFTreeSetContext_eq:
  assumes "honest_context c"
  shows "CFTreeSetContext t c s =
    (let new = tcb_retain (tc_callbacks c); old = tcb_release (CFTreeGetCallBacks (ts_nodes s t));
         s1 = tree_upd t (set_callbacks c) s;
         s2 = (case new of Some retain \<Rightarrow> tree_event (Retain_info (fn_addr retain) (tc_info c))
                 (tree_upd t (\<lambda>n. n\<lparr>tn_info := fn_code retain (tc_info c)\<rparr>) s1)
               | None \<Rightarrow> tree_upd t (\<lambda>n. n\<lparr>tn_info := tc_info c\<rparr>) s1)
     in case old of Some release \<Rightarrow> tree_event (Release_info (fn_addr release) (tn_info (ts_nodes s t))) s2 | None \<Rightarrow> s2)"
proof -
  have set: "(if CFTreeCallBacksMatchNull c then tree_upd t (\<lambda>n. n\<lparr>tn_type := kCFTreeHasNullCallBacks\<rparr>) s
      else if CFTreeCallBacksMatchCFType c then tree_upd t (\<lambda>n. n\<lparr>tn_type := kCFTreeHasCFTypeCallBacks\<rparr>) s
      else tree_upd t (\<lambda>n. n\<lparr>tn_callbacks := tc_callbacks c, tn_type := kCFTreeHasCustomCallBacks\<rparr>) s)
    = tree_upd t (set_callbacks c) s"
    by (simp add: tree_upd_def set_callbacks_def)
  have new: "CFTreeGetCallBacks (ts_nodes (tree_upd t (set_callbacks c) s) t) = tc_callbacks c"
    by (simp add: CFTreeGetCallBacks_set [OF assms])
  show ?thesis
    unfolding CFTreeSetContext_def Let_def set new ..
qed

lemma CFTreeGetContext_SetContext:
  "honest_context c \<Longrightarrow> CFTreeGetContext (CFTreeSetContext t c s) t
    = c\<lparr>tc_info := (case tcb_retain (tc_callbacks c) of Some retain \<Rightarrow> fn_code retain (tc_info c) | None \<Rightarrow> tc_info c)\<rparr>"
  by (simp add: CFTreeSetContext_eq CFTreeGetContext_def Let_def CFTreeGetCallBacks_set split: option.splits)

lemma CFTreeSetContext_log:
  "honest_context c \<Longrightarrow> ts_log (CFTreeSetContext t c s) = ts_log s
    @ (case tcb_retain (tc_callbacks c) of Some retain \<Rightarrow> [Retain_info (fn_addr retain) (tc_info c)] | None \<Rightarrow> [])
    @ (case tcb_release (CFTreeGetCallBacks (ts_nodes s t)) of
         Some release \<Rightarrow> [Release_info (fn_addr release) (tn_info (ts_nodes s t))] | None \<Rightarrow> [])"
  by (simp add: CFTreeSetContext_eq Let_def split: option.splits)

lemma CFTreeCreate_forest:
  assumes "forest A kids (ts_nodes s)" "m \<notin> A" "m \<noteq> 0"
  shows "forest (insert m A) (kids(m := [])) (ts_nodes (CFTreeCreate m c s))" "tree_refs (CFTreeCreate m c s) m = 1"
proof -
  let ?n = "ts_nodes (CFTreeCreate m c s)"
  have other: "?n u = ts_nodes s u" if "u \<noteq> m" for u
    using that by (simp add: CFTreeCreate_def ts_nodes_CFTreeSetContext)
  have new: "tn_parent (?n m) = 0" "tn_sibling (?n m) = 0" "tn_child (?n m) = 0" "tn_rightmostChild (?n m) = 0"
    by (simp_all add: CFTreeCreate_def ts_nodes_CFTreeSetContext)
  have "tree_parents (insert m A) ?n = tree_parents A (ts_nodes s)"
    using new other assms(2) by (auto simp: tree_parents_def) (metis other)+
  then have acyclic: "acyclic (tree_parents (insert m A) ?n)" using assms(1) by (simp add: forest_def)
  have ok: "node_ok (insert m A) (kids(m := [])) ?n t" if t: "t \<in> insert m A" for t
  proof (cases "t = m")
    case False
    have kid: "c \<noteq> m" if "c \<in> set (kids t)" for c using forest_child [OF assms(1) _ that] t False assms(2) by auto
    have "sib_path ?n (tn_child (ts_nodes s t)) (kids t) 0 = sib_path (ts_nodes s) (tn_child (ts_nodes s t)) (kids t) 0"
      using kid other by (intro sib_path_cong) metis
    moreover have "tn_parent (ts_nodes s t) \<noteq> m" if "tn_parent (ts_nodes s t) \<noteq> 0"
      using forest_parent [OF assms(1) _ that] t False assms(2) by auto
    ultimately show ?thesis using forestD [OF assms(1), of t] t False other [OF False] kid
      by (auto simp: node_ok_def other)
  qed (simp add: node_ok_def new)
  show "forest (insert m A) (kids(m := [])) ?n" using assms acyclic ok by (auto simp: forest_def)
  show "tree_refs (CFTreeCreate m c s) m = 1"
    using ts_nodes_CFTreeSetContext(5) by (simp add: CFTreeCreate_def) (simp add: tree_refs_def)
qed

section \<open>Properties\<close>

lemma tree_refs_upd [simp]: "(\<And>n. tn_refs (f n) = tn_refs n) \<Longrightarrow> tree_refs (tree_upd t f s) u = tree_refs s u"
  by (simp add: tree_refs_def)

lemma tree_refs_retain [simp]: "tree_refs (CFRetain_tree c s) u = tree_refs s u + (if u = c then 1 else 0)"
  by (simp add: tree_refs_def CFRetain_tree_def)

lemma CFTree_retained:
  "tree_refs (CFTreePrependChild p c s) u = tree_refs s u + (if u = c then 1 else 0)"
  "CFTreeAppendChild p c s = Some s' \<Longrightarrow> tree_refs s' u = tree_refs s u + (if u = c then 1 else 0)"
  "tree_refs (CFTreeInsertSibling t c s) u = tree_refs s u + (if u = c then 1 else 0)"
  by (auto simp: CFTreePrependChild_def CFTreeAppendChild_def CFTreeInsertSibling_def Let_def split: if_splits)

text \<open>C6. Prepending, appending and inserting a sibling change the ordered children of one node as the
  list operations do, keep every link of the forest in order, and take one reference of the new child;
  appending a node that has a parent halts.\<close>

theorem tree_edits:
  assumes "forest A kids (ts_nodes s)" "may_link A (ts_nodes s) p c"
  shows "forest A (kids(p := c # kids p)) (ts_nodes (CFTreePrependChild p c s))
    \<and> (\<exists>s'. CFTreeAppendChild p c s = Some s' \<and> forest A (kids(p := kids p @ [c])) (ts_nodes s')
        \<and> (\<forall>u. tree_refs s' u = tree_refs s u + (if u = c then 1 else 0)))
    \<and> (t \<in> A \<and> CFTreeGetParent s t = p \<longrightarrow>
        forest A (kids(p := insert_after t c (kids p))) (ts_nodes (CFTreeInsertSibling t c s)))
    \<and> tree_refs (CFTreePrependChild p c s) u = tree_refs s u + (if u = c then 1 else 0)
    \<and> tree_refs (CFTreeInsertSibling t c s) u = tree_refs s u + (if u = c then 1 else 0)
    \<and> (CFTreeGetParent s t \<noteq> 0 \<longrightarrow> CFTreeAppendChild p t s = None)"
proof (intro conjI impI)
  show "\<exists>s'. CFTreeAppendChild p c s = Some s' \<and> forest A (kids(p := kids p @ [c])) (ts_nodes s')
      \<and> (\<forall>u. tree_refs s' u = tree_refs s u + (if u = c then 1 else 0))"
    using CFTreeAppendChild_forest [OF assms] CFTree_retained(2) by blast
  show "forest A (kids(p := insert_after t c (kids p))) (ts_nodes (CFTreeInsertSibling t c s))"
    if "t \<in> A \<and> CFTreeGetParent s t = p"
    using CFTreeInsertSibling_forest [OF assms(1), of t c] assms(2) that by (auto simp: CFTreeGetParent_def)
qed (use CFTreePrependChild_forest [OF assms] CFTree_retained in \<open>simp_all add: CFTreeAppendChild_def CFTreeGetParent_def\<close>)

text \<open>A forest of three nodes: 1 has the child 2, and 3 is alone.\<close>

definition empty_node :: CFTree where
  "empty_node = \<lparr>tn_parent = 0, tn_sibling = 0, tn_child = 0, tn_rightmostChild = 0, tn_info = 0,
     tn_callbacks = kCFNullTreeCallBacks, tn_type = kCFTreeHasNullCallBacks, tn_refs = 1\<rparr>"

definition small_forest :: tree_store where
  "small_forest = \<lparr>ts_nodes = (\<lambda>_. empty_node)(1 := empty_node\<lparr>tn_child := 2, tn_rightmostChild := 2\<rparr>,
     2 := empty_node\<lparr>tn_parent := 1\<rparr>), ts_log = []\<rparr>"

definition small_kids :: "tree \<Rightarrow> tree list" where
  "small_kids t = (if t = 1 then [2] else [])"

lemma small_parents: "tree_parents {1, 2, 3} (ts_nodes small_forest) = {(1, 2)}"
  by (auto simp: tree_parents_def small_forest_def empty_node_def)

lemma small_forest: "forest {1, 2, 3} small_kids (ts_nodes small_forest)"
  unfolding forest_def small_parents
  by (simp add: acyclic_insert node_ok_def small_kids_def) (simp add: small_forest_def empty_node_def acyclic_def)

lemma small_link: "may_link {1, 2, 3} (ts_nodes small_forest) 1 3"
  unfolding may_link_def small_parents by (auto simp: small_forest_def empty_node_def elim: converse_rtranclE)

lemma small_referenced: "referenced {1, 2, 3} small_forest"
  by (simp add: referenced_def tree_refs_def small_forest_def empty_node_def)

theorem tree_edits_witness:
  "forest {1, 2, 3} (small_kids(1 := [2, 3])) (ts_nodes (CFTreeInsertSibling 2 3 small_forest))"
  using tree_edits [OF small_forest small_link, of 2 1]
  by (simp add: CFTreeGetParent_def small_kids_def) (simp add: small_forest_def empty_node_def)

text \<open>C29. With fuel for two calls per node, removing a node from its parent and removing all children
  return. The nodes that had no other reference die with everything that only they held, each is freed
  once, and the nodes that survive are again a forest in which nobody is without a reference.\<close>

theorem tree_remove:
  assumes "forest A kids (ts_nodes s)" "referenced A s" "t \<in> A" "2 * card A \<le> fuel"
  shows "(\<exists>s'. CFTreeRemove fuel t s = Some s' \<and>
      (if CFTreeGetParent s t = 0 then s' = s
       else released_forest A (kids(CFTreeGetParent s t := remove1 t (kids (CFTreeGetParent s t)))) {t} s s'))
    \<and> (\<exists>s'. CFTreeRemoveAllChildren fuel t s = Some s' \<and> released_forest A (kids(t := [])) (set (kids t)) s s')"
  using CFTreeRemove_forest [OF assms(1-3)] CFTreeRemoveAllChildren_forest [OF assms] assms(4)
  by (auto simp: CFTreeGetParent_def CFTreeRemove_def)

theorem tree_remove_witness:
  "\<exists>s'. CFTreeRemoveAllChildren 6 1 small_forest = Some s' \<and> released_forest {1, 2, 3} (small_kids(1 := [])) {2} small_forest s'"
proof -
  have "2 * card {1, 2, 3 :: tree} \<le> 6" by simp
  then show ?thesis using tree_remove [OF small_forest small_referenced, of 1 6] by (simp add: small_kids_def)
qed

text \<open>C39. \<open>CFTreeSortChildren\<close> leaves the children of the node as their stable sort and the other
  links of the forest as they were, whatever the buffers of the sort held.\<close>

theorem tree_sort_children:
  assumes "forest A kids (ts_nodes s)" "t \<in> A" "int (length (kids t)) < 2 ^ 31"
    and "comparator (\<lambda>a b. compare a b ctxt)"
    and "length garbage = length (kids t)" "length (kids t) \<le> length tmp"
  shows "\<exists>ks s'. CFTreeSortChildren garbage tmp t compare ctxt s = Some s'
    \<and> stable_sort_of (\<lambda>a b. compare a b ctxt) (kids t) ks \<and> forest A (kids(t := ks)) (ts_nodes s')"
  using assms by (rule CFTreeSortChildren_forest)

theorem tree_sort_children_witness:
  "\<exists>ks s'. CFTreeSortChildren [0] [0] 1 (\<lambda>a b _. nat_compare a b) () small_forest = Some s'
    \<and> stable_sort_of nat_compare [2] ks \<and> forest {1, 2, 3} (small_kids(1 := ks)) (ts_nodes s')"
proof -
  have "length [0 :: nat] = length (small_kids 1)" "length (small_kids 1) \<le> length [0 :: nat]"
    "int (length (small_kids 1)) < 2 ^ 31" by (simp_all add: small_kids_def)
  then show ?thesis
    using tree_sort_children [where compare = "\<lambda>a b _. nat_compare a b" and ctxt = "()" and t = 1 and garbage = "[0]" and tmp = "[0]",
      OF small_forest _ _ comparator_nat] by (simp add: small_kids_def)
qed

text \<open>The queries read the forest: the count, the children, the child at an index (or \<open>NULL\<close>), the
  first child, the next sibling, the root above a node, and the applier gets the children in their order.\<close>

theorem tree_queries:
  assumes "forest A kids (ts_nodes s)" "t \<in> A" "int (length (kids t)) < 2 ^ 31"
  shows "CFTreeGetChildCount s t = Some (int (length (kids t)))
    \<and> CFTreeGetChildren s t = Some (kids t)
    \<and> CFTreeGetChildAtIndex s t idx = Some (if 0 \<le> idx \<and> idx < int (length (kids t)) then kids t ! nat idx else 0)
    \<and> CFTreeGetFirstChild s t = hd (kids t @ [0])
    \<and> (kids t = us @ c # vs \<longrightarrow> CFTreeGetNextSibling s c = hd (vs @ [0]) \<and> CFTreeGetParent s c = t)
    \<and> CFTreeApplyFunctionToChildren s t applier x = Some (fold applier (kids t) x)
    \<and> (\<exists>r. CFTreeFindRoot s t = Some r \<and> CFTreeGetParent s r = 0 \<and> (r, t) \<in> (tree_parents A (ts_nodes s))\<^sup>*)"
proof (intro conjI impI)
  note path = forest_path [OF assms(1,2)]
  show "CFTreeGetNextSibling s c = hd (vs @ [0])" if "kids t = us @ c # vs"
    using forest_sibling(1) [OF assms(1,2) that] by (simp add: CFTreeGetNextSibling_def)
  show "CFTreeGetParent s c = t" if "kids t = us @ c # vs"
    using forest_child [OF assms(1,2), of c] that by (simp add: CFTreeGetParent_def)
  show "\<exists>r. CFTreeFindRoot s t = Some r \<and> CFTreeGetParent s r = 0 \<and> (r, t) \<in> (tree_parents A (ts_nodes s))\<^sup>*"
    using find_root_forest [OF assms(1,2)] by (auto simp: CFTreeFindRoot_def CFTreeGetParent_def)
qed (use forest_path [OF assms(1,2)] CFTreeGetChildCount_forest [OF assms] CFTreeGetChildren_forest [OF assms(1,2)] in
  \<open>simp_all add: CFTreeGetChildAtIndex_def CFTreeGetFirstChild_def CFTreeApplyFunctionToChildren_def
     child_at_path apply_siblings_path\<close>)

theorem tree_queries_witness: "CFTreeGetChildren small_forest 1 = Some [2] \<and> CFTreeGetNextSibling small_forest 2 = 0"
proof -
  have "int (length (small_kids 1)) < 2 ^ 31" by (simp add: small_kids_def)
  then show ?thesis using tree_queries [OF small_forest, of 1 0 "[]" 2 "[]" "\<lambda>_ x. x" "()"] by (simp add: small_kids_def)
qed

text \<open>A new node is a root with one reference. Setting a context retains the new info before it
  releases the old one, and reading the context gives back the callbacks and the retained info; nothing
  else of the forest changes.\<close>

theorem tree_context:
  assumes "honest_context c"
  shows "CFTreeGetContext (CFTreeSetContext t c s) t
      = c\<lparr>tc_info := (case tcb_retain (tc_callbacks c) of Some retain \<Rightarrow> fn_code retain (tc_info c) | None \<Rightarrow> tc_info c)\<rparr>
    \<and> ts_log (CFTreeSetContext t c s) = ts_log s
        @ (case tcb_retain (tc_callbacks c) of Some retain \<Rightarrow> [Retain_info (fn_addr retain) (tc_info c)] | None \<Rightarrow> [])
        @ (case tcb_release (tc_callbacks (CFTreeGetContext s t)) of
             Some release \<Rightarrow> [Release_info (fn_addr release) (tc_info (CFTreeGetContext s t))] | None \<Rightarrow> [])
    \<and> (u \<noteq> t \<longrightarrow> CFTreeGetContext (CFTreeSetContext t c s) u = CFTreeGetContext s u)
    \<and> tree_refs (CFTreeSetContext t c s) u = tree_refs s u
    \<and> (forest A kids (ts_nodes s) \<longrightarrow> m \<notin> A \<longrightarrow> m \<noteq> 0 \<longrightarrow>
        forest (insert m A) (kids(m := [])) (ts_nodes (CFTreeCreate m c s)) \<and> tree_refs (CFTreeCreate m c s) m = 1)"
proof (intro conjI impI)
  show "ts_log (CFTreeSetContext t c s) = ts_log s
      @ (case tcb_retain (tc_callbacks c) of Some retain \<Rightarrow> [Retain_info (fn_addr retain) (tc_info c)] | None \<Rightarrow> [])
      @ (case tcb_release (tc_callbacks (CFTreeGetContext s t)) of
           Some release \<Rightarrow> [Release_info (fn_addr release) (tc_info (CFTreeGetContext s t))] | None \<Rightarrow> [])"
    unfolding CFTreeSetContext_log [OF assms] CFTreeGetContext_def CFTreeContext.simps by (rule refl)
qed (use CFTreeGetContext_SetContext [OF assms, of t s] CFTreeCreate_forest [of A kids s m c] in
  \<open>simp_all add: ts_nodes_CFTreeSetContext CFTreeGetContext_def [of _ u]\<close>)

theorem tree_context_witness:
  "CFTreeGetContext (CFTreeSetContext 1 \<lparr>tc_info = 7, tc_callbacks = kCFTypeTreeCallBacks\<rparr> small_forest) 1
    = \<lparr>tc_info = 7, tc_callbacks = kCFTypeTreeCallBacks\<rparr>"
proof -
  have "honest_context \<lparr>tc_info = 7, tc_callbacks = kCFTypeTreeCallBacks\<rparr>" by (simp add: honest_context_def)
  from tree_context [OF this, of 1 small_forest] show ?thesis by (simp add: kCFTypeTreeCallBacks_def)
qed

end
