(* ===== verification/RunLoopTimers.thy ===== *)
theory RunLoopTimers
  imports DispatchTime Complex_Main
begin

text \<open>
  The timers of a run loop mode (CFRunLoop.c): the array of a mode, which is kept in the order of
  the fire times, the deadlines that are armed with the kernel and with libdispatch, and the next
  fire time of a timer that repeats. Fire times are in ticks of \<open>mach_absolute_time\<close> ("TSR").

  Intervals are real numbers: the rounding of doubles is not modelled. \<open>rate\<close> is \<open>__CFTSRRate\<close>, the
  ticks per second. The model is that of Mac OS X, where both the kernel timer and a dispatch source
  are used. A collection that the code creates on first use is empty before that.
\<close>

section \<open>The data model\<close>

text \<open>A timer is named by a number of 29 bits: the array of a mode, which has a timer at most once,
  stays so short that the 32-bit arithmetic of the search for a place in it does not overflow.\<close>

type_synonym timer = "29 word"

text \<open>The context of an observer or a timer; the copy description is not modelled.\<close>

record CFRunLoopContext =
  rc_info :: ptr
  rc_retain :: "(ptr \<Rightarrow> ptr) fnptr option"
  rc_release :: "unit fnptr option"

definition no_context :: CFRunLoopContext where
  "no_context = \<lparr>rc_info = 0, rc_retain = None, rc_release = None\<rparr>"

text \<open>The context that creation stores: the info is retained.\<close>

definition retained_context :: "CFRunLoopContext option \<Rightarrow> CFRunLoopContext" where
  "retained_context ctxt =
     (case ctxt of
        Some c \<Rightarrow> (case rc_retain c of Some retain \<Rightarrow> c\<lparr>rc_info := fn_code retain (rc_info c)\<rparr> | None \<Rightarrow> c)
      | None \<Rightarrow> no_context)"

record CFRunLoopTimer =
  rt_valid :: bool
  rt_firing :: bool
  rt_runLoop :: "nat option"
  rt_rlModes :: "string list"
  rt_nextFireDate :: real
  rt_interval :: real
  rt_tolerance :: real
  rt_fireTSR :: u64
  rt_order :: int
  rt_context :: CFRunLoopContext

record CFRunLoopMode =
  rm_stopped :: bool
  rm_sources0 :: "nat list"
  rm_sources1 :: "nat list"
  rm_observers :: "nat list"
  rm_timers :: "timer list"
  rm_portToV1SourceMap :: "u32 \<rightharpoonup> nat"
  rm_portSet :: "u32 list"
  rm_observerMask :: u64
  rm_queuePort :: u32
  rm_timerFired :: bool
  rm_mkTimerArmed :: bool
  rm_dispatchTimerArmed :: bool
  rm_timerPort :: u32
  rm_timerSoftDeadline :: u64
  rm_timerHardDeadline :: u64

definition UINT64_MAX :: u64 where "UINT64_MAX = - 1"
definition LLONG_MAX :: u64 where "LLONG_MAX = 2 ^ 63 - 1"
definition TIMER_DATE_LIMIT :: real where "TIMER_DATE_LIMIT = 4039289856"
definition TIMER_INTERVAL_LIMIT :: real where "TIMER_INTERVAL_LIMIT = 504911232"

section \<open>Ticks\<close>

text \<open>The conversion of a negative interval is undefined in C; the interval is cut off to an integer.\<close>

definition CFTimeIntervalToTSR :: "real \<Rightarrow> real \<Rightarrow> u64" where
  "CFTimeIntervalToTSR rate ti =
     (if real_of_int ((2 ^ 63 - 1) div 2) < ti * rate then word_of_int ((2 ^ 63 - 1) div 2) else word_of_int \<lfloor>ti * rate\<rfloor>)"

definition CFTSRToNanoseconds :: "real \<Rightarrow> u64 \<Rightarrow> u64" where
  "CFTSRToNanoseconds rate tsr = word_of_int \<lfloor>real_of_int (uint tsr) / rate * 1000000000\<rfloor>"

definition CFTSRToDispatchTime :: "dispatch_clocks \<Rightarrow> real \<Rightarrow> u64 \<Rightarrow> u64" where
  "CFTSRToDispatchTime sys rate tsr =
     (let ns = CFTSRToNanoseconds rate tsr;
          ns = (if LLONG_MAX - 1 < ns then LLONG_MAX - 1 else ns)
      in dispatch_time sys 1 ns)"

section \<open>The timer array\<close>

text \<open>\<open>add\<close> is halved in every pass; the last pass has \<open>add = 0\<close>.\<close>

function insertion_search :: "(timer \<Rightarrow> CFRunLoopTimer) \<Rightarrow> timer list \<Rightarrow> timer \<Rightarrow> int \<Rightarrow> int \<Rightarrow> int \<times> bool" where
  "insertion_search timers ts rlt add idx =
     (let add = cdiv add 2;
          testIdx = idx + add;
          (idx, lastTestLEQ) =
            (if testIdx < int (length ts) \<and> rt_fireTSR (timers (ts ! nat testIdx)) \<le> rt_fireTSR (timers rlt)
             then (testIdx, True) else (idx, False))
      in if 0 < add then insertion_search timers ts rlt add idx else (idx, lastTestLEQ))"
  by pat_completeness auto
termination
proof (relation "measure (\<lambda>(_, _, _, add, _). nat add)")
  fix add :: int
  have "cdiv add 2 < add" if "0 < cdiv add 2" using that by (auto simp: cdiv_def split: if_splits)
  then show "((timers :: timer \<Rightarrow> CFRunLoopTimer, ts :: timer list, rlt :: timer, add', idx' :: int), timers, ts, rlt, add, idx)
    \<in> measure (\<lambda>(_, _, _, add, _). nat add)" if "add' = cdiv add 2" "0 < add'" for timers ts rlt add' idx' idx
    using that by simp
qed auto

declare insertion_search.simps [simp del]

text \<open>\<open>add\<close> starts from 32-bit arithmetic, \<open>(1 << flsl(cnt)) * 2\<close>, which overflows from 2 to the 29
  timers on.\<close>

definition CFRunLoopInsertionIndexInTimerArray :: "(timer \<Rightarrow> CFRunLoopTimer) \<Rightarrow> timer list \<Rightarrow> timer \<Rightarrow> int" where
  "CFRunLoopInsertionIndexInTimerArray timers ts rlt =
     (let cnt = length ts; fire = (\<lambda>t. rt_fireTSR (timers t))
      in if cnt = 0 then 0
         else if 256 < cnt \<and> fire (ts ! (cnt - 1)) \<le> fire rlt then int cnt
         else if 256 < cnt \<and> fire rlt < fire (ts ! 0) then 0
         else
           (let add = sint (push_bit (flsl cnt) 1 * 2 :: u32);
                (idx, lastTestLEQ) = insertion_search timers ts rlt add 0
            in if lastTestLEQ then idx + 1 else idx))"

definition CFArrayInsertValueAtIndex :: "'a list \<Rightarrow> nat \<Rightarrow> 'a \<Rightarrow> 'a list" where
  "CFArrayInsertValueAtIndex xs idx x = take idx xs @ x # drop idx xs"

section \<open>The deadlines\<close>

definition check_uint64_add :: "u64 \<Rightarrow> u64 \<Rightarrow> u64 option" where
  "check_uint64_add a b = (if uint a + uint b < 2 ^ 64 then Some (a + b) else None)"

definition soft_deadline :: "CFRunLoopTimer \<Rightarrow> u64" where
  "soft_deadline t = rt_fireTSR t"

definition hard_deadline :: "real \<Rightarrow> CFRunLoopTimer \<Rightarrow> u64" where
  "hard_deadline rate t =
     (case check_uint64_add (rt_fireTSR t) (CFTimeIntervalToTSR rate (rt_tolerance t)) of
        Some d \<Rightarrow> d | None \<Rightarrow> UINT64_MAX)"

fun next_deadlines :: "real \<Rightarrow> CFRunLoopTimer list \<Rightarrow> u64 \<times> u64 \<Rightarrow> u64 \<times> u64" where
  "next_deadlines rate [] (nextSoft, nextHard) = (nextSoft, nextHard)"
| "next_deadlines rate (t # ts) (nextSoft, nextHard) =
     (if rt_firing t then next_deadlines rate ts (nextSoft, nextHard)
      else if nextHard < soft_deadline t then (nextSoft, nextHard)
      else next_deadlines rate ts
        (if soft_deadline t < nextSoft then soft_deadline t else nextSoft,
         if hard_deadline rate t < nextHard then hard_deadline rate t else nextHard))"

text \<open>The calls that arm and disarm the two timers.\<close>

datatype arm_event = Mk_timer_arm u64 | Mk_timer_cancel | Set_runloop_timer u64 u64

definition CFArmNextTimerInMode ::
  "dispatch_clocks \<Rightarrow> real \<Rightarrow> (timer \<Rightarrow> CFRunLoopTimer) \<Rightarrow> CFRunLoopMode \<Rightarrow> CFRunLoopMode \<times> arm_event list" where
  "CFArmNextTimerInMode sys rate timers rlm =
     (let (nextSoft, nextHard) = next_deadlines rate (map timers (rm_timers rlm)) (UINT64_MAX, UINT64_MAX);
          (rlm, events) =
            (if nextSoft < UINT64_MAX \<and> (nextHard \<noteq> rm_timerHardDeadline rlm \<or> nextSoft \<noteq> rm_timerSoftDeadline rlm)
             then
               (let leeway = CFTSRToNanoseconds rate (nextHard - nextSoft);
                    deadline = CFTSRToDispatchTime sys rate nextSoft
                in if 0 < leeway
                   then (rlm\<lparr>rm_mkTimerArmed := rm_mkTimerArmed rlm \<and> rm_timerPort rlm = 0, rm_dispatchTimerArmed := True\<rparr>,
                         (if rm_mkTimerArmed rlm \<and> rm_timerPort rlm \<noteq> 0 then [Mk_timer_cancel] else [])
                         @ [Set_runloop_timer deadline leeway])
                   else (rlm\<lparr>rm_dispatchTimerArmed := False, rm_mkTimerArmed := rm_mkTimerArmed rlm \<or> rm_timerPort rlm \<noteq> 0\<rparr>,
                         (if rm_dispatchTimerArmed rlm then [Set_runloop_timer DISPATCH_TIME_FOREVER 888] else [])
                         @ (if rm_timerPort rlm \<noteq> 0 then [Mk_timer_arm nextSoft] else [])))
             else if nextSoft = UINT64_MAX
             then (rlm\<lparr>rm_mkTimerArmed := rm_mkTimerArmed rlm \<and> rm_timerPort rlm = 0, rm_dispatchTimerArmed := False\<rparr>,
                   (if rm_mkTimerArmed rlm \<and> rm_timerPort rlm \<noteq> 0 then [Mk_timer_cancel] else [])
                   @ (if rm_dispatchTimerArmed rlm then [Set_runloop_timer DISPATCH_TIME_FOREVER 333] else []))
             else (rlm, []))
      in (rlm\<lparr>rm_timerHardDeadline := nextHard, rm_timerSoftDeadline := nextSoft\<rparr>, events))"

text \<open>The timer is taken out of the array and put back at its place; \<open>isInArray\<close> says that it should be there.\<close>

definition CFRepositionTimerInMode ::
  "dispatch_clocks \<Rightarrow> real \<Rightarrow> (timer \<Rightarrow> CFRunLoopTimer) \<Rightarrow> timer \<Rightarrow> bool \<Rightarrow> CFRunLoopMode \<Rightarrow> CFRunLoopMode \<times> arm_event list" where
  "CFRepositionTimerInMode sys rate timers rlt isInArray rlm =
     (if isInArray \<and> rlt \<notin> set (rm_timers rlm) then (rlm, [])
      else
        (let timerArray = (if isInArray then remove1 rlt (rm_timers rlm) else rm_timers rlm);
             newIdx = CFRunLoopInsertionIndexInTimerArray timers timerArray rlt
         in CFArmNextTimerInMode sys rate timers (rlm\<lparr>rm_timers := CFArrayInsertValueAtIndex timerArray (nat newIdx) rlt\<rparr>)))"

section \<open>The next fire time\<close>

partial_function (option) advance_fire :: "u64 \<Rightarrow> u64 \<Rightarrow> u64 \<Rightarrow> u64 option" where
  "advance_fire currentTSR intervalTSR nextFireTSR =
     (if nextFireTSR \<le> currentTSR then advance_fire currentTSR intervalTSR (nextFireTSR + intervalTSR) else Some nextFireTSR)"

definition timer_intervalTSR :: "real \<Rightarrow> CFRunLoopTimer \<Rightarrow> u64" where
  "timer_intervalTSR rate rlt =
     (if rt_interval rlt \<le> 0 then 0
      else if TIMER_INTERVAL_LIMIT < rt_interval rlt then CFTimeIntervalToTSR rate TIMER_INTERVAL_LIMIT
      else CFTimeIntervalToTSR rate (rt_interval rlt))"

text \<open>\<open>None\<close> is the halt on an interval of 0 and a loop that does not end.\<close>

definition timer_nextFireTSR :: "real \<Rightarrow> u64 \<Rightarrow> u64 \<Rightarrow> CFRunLoopTimer \<Rightarrow> u64 option" where
  "timer_nextFireTSR rate currentTSR oldFireTSR rlt =
     (let intervalTSR = timer_intervalTSR rate rlt
      in if LLONG_MAX - intervalTSR \<le> oldFireTSR then Some LLONG_MAX
         else if intervalTSR = 0 then None
         else advance_fire currentTSR intervalTSR oldFireTSR)"

text \<open>The fire time for a date, as creation and \<open>CFRunLoopTimerSetNextFireDate\<close> compute it.\<close>

definition fire_date_TSR :: "real \<Rightarrow> u64 \<Rightarrow> real \<Rightarrow> real \<Rightarrow> u64" where
  "fire_date_TSR rate now2 now1 fireDate =
     (if fireDate < now1 then now2
      else if TIMER_INTERVAL_LIMIT < fireDate - now1 then now2 + CFTimeIntervalToTSR rate TIMER_INTERVAL_LIMIT
      else now2 + CFTimeIntervalToTSR rate (fireDate - now1))"

definition CFRunLoopTimerCreate ::
  "real \<Rightarrow> u64 \<Rightarrow> real \<Rightarrow> real \<Rightarrow> real \<Rightarrow> int \<Rightarrow> CFRunLoopContext option \<Rightarrow> CFRunLoopTimer" where
  "CFRunLoopTimerCreate rate now2 now1 fireDate interval order ctxt =
     (let interval = (if interval < 0 then 0 else interval);
          fireDate = (if TIMER_DATE_LIMIT < fireDate then TIMER_DATE_LIMIT else fireDate)
      in \<lparr>rt_valid = True, rt_firing = False, rt_runLoop = None, rt_rlModes = [], rt_nextFireDate = fireDate,
          rt_interval = interval, rt_tolerance = 0, rt_fireTSR = fire_date_TSR rate now2 now1 fireDate,
          rt_order = order, rt_context = retained_context ctxt\<rparr>)"

definition CFRunLoopTimerDoesRepeat :: "CFRunLoopTimer \<Rightarrow> bool" where
  "CFRunLoopTimerDoesRepeat rlt \<longleftrightarrow> 0 < rt_interval rlt"

definition CFRunLoopTimerSetTolerance :: "real \<Rightarrow> CFRunLoopTimer \<Rightarrow> CFRunLoopTimer" where
  "CFRunLoopTimerSetTolerance tolerance rlt =
     (if 0 < rt_interval rlt then rlt\<lparr>rt_tolerance := min tolerance (rt_interval rlt / 2)\<rparr>
      else rlt\<lparr>rt_tolerance := (if tolerance < 0 then 0 else tolerance)\<rparr>)"

section \<open>The timer array is sorted\<close>

definition timers_sorted :: "(timer \<Rightarrow> CFRunLoopTimer) \<Rightarrow> timer list \<Rightarrow> bool" where
  "timers_sorted timers ts \<longleftrightarrow> sorted (map (\<lambda>t. rt_fireTSR (timers t)) ts)"

text \<open>The number of timers that fire no later.\<close>

definition due_before :: "(timer \<Rightarrow> CFRunLoopTimer) \<Rightarrow> timer list \<Rightarrow> timer \<Rightarrow> nat" where
  "due_before timers ts rlt = length (takeWhile (\<lambda>t. rt_fireTSR (timers t) \<le> rt_fireTSR (timers rlt)) ts)"

lemma due_before_le: "due_before timers ts rlt \<le> length ts"
  by (simp add: due_before_def length_takeWhile_le)

lemma due_before_nth:
  assumes "timers_sorted timers ts" "i < length ts"
  shows "rt_fireTSR (timers (ts ! i)) \<le> rt_fireTSR (timers rlt) \<longleftrightarrow> i < due_before timers ts rlt"
proof
  assume le: "rt_fireTSR (timers (ts ! i)) \<le> rt_fireTSR (timers rlt)"
  show "i < due_before timers ts rlt"
  proof (rule ccontr)
    assume "\<not> i < due_before timers ts rlt"
    then have k: "due_before timers ts rlt \<le> i" by simp
    then have "\<not> rt_fireTSR (timers (ts ! due_before timers ts rlt)) \<le> rt_fireTSR (timers rlt)"
      unfolding due_before_def using assms(2) by (intro nth_length_takeWhile) simp
    moreover have "rt_fireTSR (timers (ts ! due_before timers ts rlt)) \<le> rt_fireTSR (timers (ts ! i))"
      using sorted_nth_mono [OF assms(1) [unfolded timers_sorted_def] k] assms(2) k by simp
    ultimately show False using le by simp
  qed
next
  assume "i < due_before timers ts rlt"
  then have "takeWhile (\<lambda>t. rt_fireTSR (timers t) \<le> rt_fireTSR (timers rlt)) ts ! i
      \<in> set (takeWhile (\<lambda>t. rt_fireTSR (timers t) \<le> rt_fireTSR (timers rlt)) ts)"
    unfolding due_before_def by (rule nth_mem)
  then show "rt_fireTSR (timers (ts ! i)) \<le> rt_fireTSR (timers rlt)"
    using \<open>i < due_before timers ts rlt\<close> by (auto simp: due_before_def takeWhile_nth dest: set_takeWhileD)
qed

text \<open>The invariant of the search: \<open>add\<close> is a power of two, and the place is between \<open>idx\<close> and \<open>idx + add\<close>.\<close>

lemma insertion_search_correct:
  assumes "timers_sorted timers ts" "due_before timers ts rlt \<le> idx + 2 ^ n" "idx = 0 \<or> idx < due_before timers ts rlt"
  shows "(case insertion_search timers ts rlt (2 ^ n) (int idx) of (idx', leq) \<Rightarrow> if leq then idx' + 1 else idx')
    = int (due_before timers ts rlt)"
  using assms(2,3)
proof (induction n arbitrary: idx)
  case 0
  then show ?case using due_before_nth [OF assms(1), of idx rlt] due_before_le [of timers ts rlt]
    by (auto simp: insertion_search.simps [of _ _ _ 1] cdiv_def Let_def)
next
  case (Suc n)
  let ?k = "due_before timers ts rlt"
  have half: "cdiv (2 ^ Suc n) 2 = 2 ^ n" by (simp add: cdiv_def)
  have idx: "int idx + 2 ^ n = int (idx + 2 ^ n)" by simp
  have test: "int (idx + 2 ^ n) < int (length ts) \<and> rt_fireTSR (timers (ts ! nat (int (idx + 2 ^ n)))) \<le> rt_fireTSR (timers rlt)
      \<longleftrightarrow> idx + 2 ^ n < ?k"
    using due_before_nth [OF assms(1), of "idx + 2 ^ n" rlt] due_before_le [of timers ts rlt] by (auto simp only: nat_int of_nat_less_iff)
  have step: "insertion_search timers ts rlt (2 ^ Suc n) (int idx) =
      insertion_search timers ts rlt (2 ^ n) (int (if idx + 2 ^ n < ?k then idx + 2 ^ n else idx))"
    unfolding insertion_search.simps [of _ _ _ "2 ^ Suc n"] half Let_def idx test by simp
  show ?case
    unfolding step using Suc.IH [of "idx + 2 ^ n"] Suc.IH [of idx] Suc.prems by auto
qed

lemma insertion_start:
  assumes "n < 2 ^ 29"
  shows "sint (push_bit (flsl n) 1 * 2 :: u32) = 2 ^ Suc (flsl n)"
proof -
  have "push_bit (flsl n) 1 * 2 = (push_bit (Suc (flsl n)) 1 :: u32)" by (simp add: push_bit_eq_mult)
  then show ?thesis using int_shift_1 [of "Suc (flsl n)"] flsl_le [OF assms] by (simp only: int_shift_1_def)
qed

lemma CFRunLoopInsertionIndexInTimerArray_eq:
  assumes "timers_sorted timers ts" "length ts < 2 ^ 29"
  shows "CFRunLoopInsertionIndexInTimerArray timers ts rlt = int (due_before timers ts rlt)"
proof -
  let ?k = "due_before timers ts rlt"
  have "?k \<le> 0 + 2 ^ (Suc (flsl (length ts)))" using due_before_le [of timers ts rlt] flsl_upper [of "length ts"] by simp
  then have search: "(case insertion_search timers ts rlt (2 ^ Suc (flsl (length ts))) 0 of (idx, leq) \<Rightarrow> if leq then idx + 1 else idx) = int ?k"
    using insertion_search_correct [OF assms(1), of rlt 0 "Suc (flsl (length ts))"] by simp
  have last: "?k = length ts" if "ts \<noteq> []" "rt_fireTSR (timers (ts ! (length ts - 1))) \<le> rt_fireTSR (timers rlt)"
    using due_before_nth [OF assms(1), of "length ts - 1" rlt] that due_before_le [of timers ts rlt] by simp
  have first: "?k = 0" if "ts \<noteq> []" "rt_fireTSR (timers rlt) < rt_fireTSR (timers (ts ! 0))"
    using due_before_nth [OF assms(1), of 0 rlt] that by auto
  show ?thesis
    using search last first due_before_le [of timers ts rlt]
    unfolding CFRunLoopInsertionIndexInTimerArray_def Let_def insertion_start [OF assms(2)] by auto
qed

text \<open>The other timers of an array without repetitions are fewer than 2 to the 29.\<close>

lemma other_timers_short:
  assumes "distinct ts" "rlt \<notin> set ts"
  shows "length (ts :: timer list) < 2 ^ 29"
proof -
  have "card (insert rlt (set ts)) \<le> card (UNIV :: timer set)" by (rule card_mono) simp_all
  moreover have "card (UNIV :: timer set) = 2 ^ 29" by (simp add: card_word)
  ultimately show ?thesis using assms distinct_card [OF assms(1)] by simp
qed

lemma take_due_before: "t \<in> set (take (due_before timers ts rlt) ts) \<Longrightarrow> rt_fireTSR (timers t) \<le> rt_fireTSR (timers rlt)"
  unfolding due_before_def takeWhile_eq_take [symmetric] by (auto dest: set_takeWhileD)

lemma drop_due_before:
  assumes "timers_sorted timers ts" "t \<in> set (drop (due_before timers ts rlt) ts)"
  shows "rt_fireTSR (timers rlt) < rt_fireTSR (timers t)"
proof -
  obtain i where "i < length ts - due_before timers ts rlt" "t = ts ! (due_before timers ts rlt + i)"
    using assms(2) by (auto simp: in_set_conv_nth)
  then show ?thesis using due_before_nth [OF assms(1), of "due_before timers ts rlt + i" rlt] by (simp add: not_le)
qed

lemma timers_sorted_insert:
  assumes "timers_sorted timers ts" "length ts < 2 ^ 29"
  shows "timers_sorted timers (CFArrayInsertValueAtIndex ts (nat (CFRunLoopInsertionIndexInTimerArray timers ts rlt)) rlt)"
proof -
  let ?k = "due_before timers ts rlt" and ?f = "\<lambda>t. rt_fireTSR (timers t)"
  have "sorted (take ?k (map ?f ts))" "sorted (drop ?k (map ?f ts))"
    using assms(1) by (simp_all add: timers_sorted_def sorted_wrt_take sorted_wrt_drop)
  moreover have "?f a \<le> ?f b" if "a \<in> set (take ?k ts)" "b \<in> set (drop ?k ts)" for a b
    using take_due_before [OF that(1)] drop_due_before [OF assms(1) that(2)] by simp
  moreover have "?f rlt \<le> ?f b" if "b \<in> set (drop ?k ts)" for b
    using drop_due_before [OF assms(1) that] by simp
  ultimately show ?thesis
    unfolding CFRunLoopInsertionIndexInTimerArray_eq [OF assms] timers_sorted_def CFArrayInsertValueAtIndex_def nat_int
    by (auto simp: sorted_append take_map drop_map intro: take_due_before)
qed

section \<open>The earliest deadlines\<close>

definition earliest :: "(CFRunLoopTimer \<Rightarrow> u64) \<Rightarrow> CFRunLoopTimer list \<Rightarrow> u64" where
  "earliest f ts = foldr (\<lambda>t. min (f t)) (filter (\<lambda>t. \<not> rt_firing t) ts) UINT64_MAX"

lemma le_UINT64_MAX [simp]: "x \<le> UINT64_MAX"
  by (simp add: UINT64_MAX_def)

lemma earliest_simps [simp]:
  "earliest f [] = UINT64_MAX"
  "earliest f (t # ts) = (if rt_firing t then earliest f ts else min (f t) (earliest f ts))"
  by (simp_all add: earliest_def)

lemma earliest_ge: "(\<And>t. t \<in> set ts \<Longrightarrow> \<not> rt_firing t \<Longrightarrow> m \<le> f t) \<Longrightarrow> m \<le> earliest f ts"
  by (induction ts) auto

lemma earliest_le: "t \<in> set ts \<Longrightarrow> \<not> rt_firing t \<Longrightarrow> earliest f ts \<le> f t"
  by (induction ts) (auto simp: min.coboundedI2)

lemma earliest_cases: "earliest f ts = UINT64_MAX \<or> (\<exists>t \<in> set ts. \<not> rt_firing t \<and> earliest f ts = f t)"
  by (induction ts) (auto simp: min_def)

lemma soft_le_hard: "soft_deadline t \<le> hard_deadline rate t"
proof (cases "check_uint64_add (rt_fireTSR t) (CFTimeIntervalToTSR rate (rt_tolerance t))")
  case (Some d)
  then have b: "uint (rt_fireTSR t) + uint (CFTimeIntervalToTSR rate (rt_tolerance t)) < 2 ^ 64"
    and d: "d = rt_fireTSR t + CFTimeIntervalToTSR rate (rt_tolerance t)"
    by (auto simp: check_uint64_add_def split: if_splits)
  have "uint d = uint (rt_fireTSR t) + uint (CFTimeIntervalToTSR rate (rt_tolerance t))"
    unfolding d uint_word_ariths(1) using b by (simp add: take_bit_int_eq_self)
  then show ?thesis by (simp add: soft_deadline_def hard_deadline_def Some word_le_def)
qed (simp add: hard_deadline_def)

lemma if_less_min: "(if a < b then a else b) = min b (a :: 'a :: linorder)"
  by (auto simp: min_def)

lemma next_deadlines_eq:
  assumes "sorted (map soft_deadline ts)" "s \<le> h"
  shows "next_deadlines rate ts (s, h) = (min s (earliest soft_deadline ts), min h (earliest (hard_deadline rate) ts))"
  using assms
proof (induction ts arbitrary: s h)
  case Nil
  then show ?case by (simp add: min_def)
next
  case (Cons t ts)
  show ?case
  proof (cases "rt_firing t")
    case False
    show ?thesis
    proof (cases "h < soft_deadline t")
      case True
      have later: "soft_deadline t \<le> soft_deadline u" if "u \<in> set ts" for u using Cons.prems(1) that by auto
      have soft: "h \<le> soft_deadline u" if "u \<in> set (t # ts)" for u
        using True later [of u] that by (metis less_imp_le order.trans set_ConsD)
      then have "h \<le> earliest soft_deadline (t # ts)" by (rule earliest_ge)
      moreover have "h \<le> earliest (hard_deadline rate) (t # ts)"
        using soft soft_le_hard by (intro earliest_ge) (metis order.trans)
      ultimately have "h \<le> earliest soft_deadline (t # ts)" "h \<le> earliest (hard_deadline rate) (t # ts)" .
      then show ?thesis using True False Cons.prems(2) by (auto simp: min_def)
    next
      case near: False
      have "min s (soft_deadline t) \<le> min h (hard_deadline rate t)"
        using Cons.prems(2) soft_le_hard [of t rate] by (auto simp: min_def)
      then have "next_deadlines rate ts (min s (soft_deadline t), min h (hard_deadline rate t))
        = (min (min s (soft_deadline t)) (earliest soft_deadline ts), min (min h (hard_deadline rate t)) (earliest (hard_deadline rate) ts))"
        using Cons.IH Cons.prems(1) by simp
      then show ?thesis using False near by (simp add: if_less_min min.assoc)
    qed
  qed (use Cons in simp)
qed

text \<open>Which of the two timers is armed: while there is a deadline exactly one of them, and none when
  there is none. \<open>CFRunLoopDoTimer\<close> forgets the deadlines before it arms the next timer.\<close>

definition armed_for_deadline :: "CFRunLoopMode \<Rightarrow> bool" where
  "armed_for_deadline m \<longleftrightarrow> rm_timerPort m \<noteq> 0
     \<and> (rm_timerSoftDeadline m < UINT64_MAX \<longrightarrow> rm_mkTimerArmed m \<noteq> rm_dispatchTimerArmed m)"

lemma CFArmNextTimerInMode_eq:
  assumes "timers_sorted timers (rm_timers m)" "armed_for_deadline m"
    and arm: "CFArmNextTimerInMode sys rate timers m = (m', events)"
  shows "rm_timerSoftDeadline m' = earliest soft_deadline (map timers (rm_timers m))"
    "rm_timerHardDeadline m' = earliest (hard_deadline rate) (map timers (rm_timers m))"
    "armed_for_deadline m'"
    "rm_timerSoftDeadline m' = UINT64_MAX \<Longrightarrow> \<not> rm_mkTimerArmed m' \<and> \<not> rm_dispatchTimerArmed m'"
proof -
  have "sorted (map soft_deadline (map timers (rm_timers m)))"
    using assms(1) by (simp add: timers_sorted_def soft_deadline_def comp_def)
  from next_deadlines_eq [OF this order.refl, of rate UINT64_MAX]
  have deadlines: "next_deadlines rate (map timers (rm_timers m)) (UINT64_MAX, UINT64_MAX)
    = (earliest soft_deadline (map timers (rm_timers m)), earliest (hard_deadline rate) (map timers (rm_timers m)))"
    by (simp add: min_absorb2)
  note step = arm [unfolded CFArmNextTimerInMode_def deadlines Let_def]
  show "rm_timerSoftDeadline m' = earliest soft_deadline (map timers (rm_timers m))"
    "rm_timerHardDeadline m' = earliest (hard_deadline rate) (map timers (rm_timers m))"
    using step by (auto split: if_splits prod.splits)
  show "armed_for_deadline m'"
    using step assms(2) by (auto simp: armed_for_deadline_def split: if_splits)
  show "rm_timerSoftDeadline m' = UINT64_MAX \<Longrightarrow> \<not> rm_mkTimerArmed m' \<and> \<not> rm_dispatchTimerArmed m'"
    using step assms(2) by (auto simp: armed_for_deadline_def split: if_splits)
qed

section \<open>The next fire time of a timer that repeats\<close>

lemma uint_word_of_int_small: "0 \<le> k \<Longrightarrow> k < 2 ^ 64 \<Longrightarrow> uint (word_of_int k :: u64) = k"
  by (simp add: uint_word_of_int_eq take_bit_int_eq_self)

lemma uint_CFTimeIntervalToTSR:
  assumes "0 \<le> ti * rate"
  shows "uint (CFTimeIntervalToTSR rate ti) = min \<lfloor>ti * rate\<rfloor> ((2 ^ 63 - 1) div 2)"
proof (cases "real_of_int ((2 ^ 63 - 1) div 2) < ti * rate")
  case True
  then have "(2 ^ 63 - 1) div 2 \<le> \<lfloor>ti * rate\<rfloor>" by (simp add: le_floor_iff)
  then show ?thesis using True uint_word_of_int_small [of "(2 ^ 63 - 1) div 2"] by (simp add: CFTimeIntervalToTSR_def)
next
  case False
  then have "\<lfloor>ti * rate\<rfloor> \<le> (2 ^ 63 - 1) div 2" by (simp add: floor_le_iff)
  moreover have "0 \<le> \<lfloor>ti * rate\<rfloor>" using assms by simp
  ultimately show ?thesis using False uint_word_of_int_small [of "\<lfloor>ti * rate\<rfloor>"] by (simp add: CFTimeIntervalToTSR_def)
qed

lemma uint_add_u64: "uint a + uint b < 2 ^ 64 \<Longrightarrow> uint (a + b) = uint a + uint (b :: u64)"
  by (simp add: uint_word_ariths(1) take_bit_int_eq_self)

lemma uint_u64_nonneg: "0 \<le> uint (v :: u64)"
  by (rule unsigned_greater_eq)

lemma uint_sub_u64: "uint b \<le> uint a \<Longrightarrow> uint (a - b) = uint a - uint (b :: u64)"
proof -
  assume "uint b \<le> uint a"
  then have "(uint a - uint b) mod 18446744073709551616 = uint a - uint b"
    using uint_u64_bound [of a] uint_u64_nonneg [of b] by (intro mod_pos_pos_trivial) linarith+
  then show ?thesis by (simp add: uint_word_ariths(2))
qed

lemma advance_fire_Some:
  assumes "0 < uint i" "uint now + uint i < 2 ^ 64"
  shows "\<exists>m k. advance_fire now i n = Some m \<and> uint m = uint n + int k * uint i \<and> uint now < uint m
    \<and> (uint m \<le> uint now + uint i \<or> m = n)"
proof (induction "nat (uint now + 1 - uint n)" arbitrary: n rule: less_induct)
  case less
  show ?case
  proof (cases "n \<le> now")
    case True
    then have le: "uint n \<le> uint now" by (simp add: word_le_def)
    have step: "uint (n + i) = uint n + uint i" using le assms(2) by (intro uint_add_u64) simp
    have "nat (uint now + 1 - uint (n + i)) < nat (uint now + 1 - uint n)" using assms(1) le step by simp
    from less [OF this] obtain m k where m: "advance_fire now i (n + i) = Some m" "uint m = uint (n + i) + int k * uint i"
      "uint now < uint m" "uint m \<le> uint now + uint i \<or> m = n + i" by blast
    then have "advance_fire now i n = Some m" "uint m = uint n + int (Suc k) * uint i"
      using True step by (simp_all add: advance_fire.simps [of now i n] algebra_simps)
    moreover have "uint m \<le> uint now + uint i" using m(4) step le by auto
    ultimately show ?thesis using m(3) by blast
  next
    case False
    then show ?thesis by (intro exI [of _ n] exI [of _ 0]) (simp add: advance_fire.simps word_le_def)
  qed
qed

definition ticks :: "real \<Rightarrow> CFRunLoopTimer \<Rightarrow> int" where
  "ticks rate rlt = min \<lfloor>min (rt_interval rlt) TIMER_INTERVAL_LIMIT * rate\<rfloor> ((2 ^ 63 - 1) div 2)"

lemma uint_timer_intervalTSR:
  assumes "0 < rate"
  shows "uint (timer_intervalTSR rate rlt) = (if rt_interval rlt \<le> 0 then 0 else ticks rate rlt)"
  using uint_CFTimeIntervalToTSR [of "rt_interval rlt" rate] uint_CFTimeIntervalToTSR [of TIMER_INTERVAL_LIMIT rate] assms
  by (auto simp: timer_intervalTSR_def ticks_def min_def TIMER_INTERVAL_LIMIT_def)

lemma timer_next_fire_cases:
  assumes "0 < rate" "0 < rt_interval rlt" "uint now < 2 ^ 63" "old \<le> now"
  shows "timer_nextFireTSR rate now old rlt =
      (if 2 ^ 63 - 1 - ticks rate rlt \<le> uint old then Some LLONG_MAX
       else if ticks rate rlt = 0 then None
       else advance_fire now (timer_intervalTSR rate rlt) old)"
proof -
  let ?i = "timer_intervalTSR rate rlt"
  have i: "uint ?i = ticks rate rlt" using uint_timer_intervalTSR [OF assms(1)] assms(2) by simp
  have "ticks rate rlt \<le> (2 ^ 63 - 1) div 2" by (simp add: ticks_def)
  then have small: "uint ?i < 2 ^ 63 - 1" using i by simp
  have max: "uint LLONG_MAX = 2 ^ 63 - 1" by (simp add: LLONG_MAX_def)
  have "uint (LLONG_MAX - ?i) = 2 ^ 63 - 1 - ticks rate rlt"
    using small i max by (simp add: uint_sub_u64)
  then have "LLONG_MAX - ?i \<le> old \<longleftrightarrow> 2 ^ 63 - 1 - ticks rate rlt \<le> uint old" by (simp add: word_le_def)
  moreover have "?i = 0 \<longleftrightarrow> ticks rate rlt = 0" using i by (metis uint_0_iff)
  ultimately show ?thesis by (simp add: timer_nextFireTSR_def Let_def)
qed

section \<open>Properties\<close>

lemma CFRepositionTimerInMode_sorted:
  assumes "timers_sorted timers (filter (\<lambda>t. t \<noteq> rlt) (rm_timers rlm))" "distinct (rm_timers rlm)"
    and "isInArray \<longleftrightarrow> rlt \<in> set (rm_timers rlm)" "length (filter (\<lambda>t. t \<noteq> rlt) (rm_timers rlm)) < 2 ^ 29"
    and reposition: "CFRepositionTimerInMode sys rate timers rlt isInArray rlm = (rlm', events)"
  shows "timers_sorted timers (rm_timers rlm')
    \<and> mset (rm_timers rlm') = mset (rm_timers rlm) + (if isInArray then {#} else {#rlt#})
    \<and> filter (\<lambda>t. t \<noteq> rlt) (rm_timers rlm') = filter (\<lambda>t. t \<noteq> rlt) (rm_timers rlm)
    \<and> rm_timers rlm' ! due_before timers (filter (\<lambda>t. t \<noteq> rlt) (rm_timers rlm)) rlt = rlt"
proof -
  let ?ts = "filter (\<lambda>t. t \<noteq> rlt) (rm_timers rlm)"
  let ?k = "nat (CFRunLoopInsertionIndexInTimerArray timers ?ts rlt)"
  have ts: "(if isInArray then remove1 rlt (rm_timers rlm) else rm_timers rlm) = ?ts"
    using assms(2,3) by (auto simp: distinct_remove1_removeAll removeAll_filter_not_eq eq_commute [of rlt] intro!: filter_True [symmetric])
  have new: "rm_timers rlm' = CFArrayInsertValueAtIndex ?ts ?k rlt"
    using reposition assms(3) unfolding CFRepositionTimerInMode_def ts Let_def CFArmNextTimerInMode_def
    by (auto split: prod.splits if_splits)
  have k: "?k = due_before timers ?ts rlt" by (simp only: CFRunLoopInsertionIndexInTimerArray_eq [OF assms(1,4)] nat_int)
  have "timers_sorted timers (rm_timers rlm')" unfolding new by (rule timers_sorted_insert [OF assms(1,4)])
  moreover have "mset (CFArrayInsertValueAtIndex ?ts ?k rlt) = add_mset rlt (mset ?ts)"
    by (metis CFArrayInsertValueAtIndex_def append_take_drop_id mset.simps(2) mset_append union_mset_add_mset_right)
  moreover have "mset (rm_timers rlm) + (if isInArray then {#} else {#rlt#}) = add_mset rlt (mset ?ts)"
  proof (cases isInArray)
    case True
    then have "mset ?ts = mset (rm_timers rlm) - {#rlt#}" using ts by (metis mset_remove1)
    then show ?thesis using True assms(3) by simp
  next
    case False
    then show ?thesis using ts by simp
  qed
  moreover have "filter (\<lambda>t. t \<noteq> rlt) (CFArrayInsertValueAtIndex ?ts ?k rlt) = ?ts"
    by (simp add: CFArrayInsertValueAtIndex_def) (metis (no_types, lifting) append_take_drop_id filter_append filter_filter filter_cong)
  moreover have "CFArrayInsertValueAtIndex ?ts ?k rlt ! ?k = rlt"
    using k due_before_le [of timers ?ts rlt] by (simp add: CFArrayInsertValueAtIndex_def nth_append)
  ultimately show ?thesis using new k by simp
qed

text \<open>C8. The insertion index is the number of timers that fire no later, so that a timer comes after
  all that are due at the same time; inserting, and repositioning a timer whose fire time has changed,
  keep the array of the mode in the order of the fire times and change nothing else in it. The other
  timers in the array are fewer than 2 to the 29, from where on the 32-bit arithmetic of the search overflows.\<close>

theorem timer_array_sorted:
  assumes "timers_sorted timers (filter (\<lambda>t. t \<noteq> rlt) (rm_timers rlm))" "distinct (rm_timers rlm)"
    and "isInArray \<longleftrightarrow> rlt \<in> set (rm_timers rlm)" "length (filter (\<lambda>t. t \<noteq> rlt) (rm_timers rlm)) < 2 ^ 29"
    and reposition: "CFRepositionTimerInMode sys rate timers rlt isInArray rlm = (rlm', events)"
  shows "timers_sorted timers (rm_timers rlm')
    \<and> mset (rm_timers rlm') = mset (rm_timers rlm) + (if isInArray then {#} else {#rlt#})
    \<and> filter (\<lambda>t. t \<noteq> rlt) (rm_timers rlm') = filter (\<lambda>t. t \<noteq> rlt) (rm_timers rlm)
    \<and> rm_timers rlm' ! due_before timers (filter (\<lambda>t. t \<noteq> rlt) (rm_timers rlm)) rlt = rlt"
  using assms by (rule CFRepositionTimerInMode_sorted)

text \<open>A timer that fires at \<open>n\<close> every second, with a clock of one tick per second.\<close>

definition timer_at :: "u64 \<Rightarrow> CFRunLoopTimer" where
  "timer_at n = \<lparr>rt_valid = True, rt_firing = False, rt_runLoop = None, rt_rlModes = [], rt_nextFireDate = 0,
     rt_interval = 1, rt_tolerance = 0, rt_fireTSR = n, rt_order = 0, rt_context = no_context\<rparr>"

definition empty_mode :: CFRunLoopMode where
  "empty_mode = \<lparr>rm_stopped = False, rm_sources0 = [], rm_sources1 = [], rm_observers = [], rm_timers = [],
     rm_portToV1SourceMap = Map.empty, rm_portSet = [], rm_observerMask = 0, rm_queuePort = 6,
     rm_timerFired = False, rm_mkTimerArmed = False,
     rm_dispatchTimerArmed = False, rm_timerPort = 7, rm_timerSoftDeadline = UINT64_MAX, rm_timerHardDeadline = UINT64_MAX\<rparr>"

theorem timer_array_sorted_witness:
  "rm_timers (fst (CFRepositionTimerInMode \<lparr>uptime_now = 5, monotonic_now = 6, wall_now = 7\<rparr> 1 (\<lambda>t. timer_at (if t = 3 then 20 else ucast t * 10)) 3 False
     (empty_mode\<lparr>rm_timers := [1, 2, 4]\<rparr>))) ! 2 = 3"
proof -
  let ?timers = "\<lambda>t. timer_at (if t = 3 then 20 else ucast t * 10)" and ?m = "empty_mode\<lparr>rm_timers := [1, 2, 4]\<rparr>"
  obtain m e where m: "CFRepositionTimerInMode \<lparr>uptime_now = 5, monotonic_now = 6, wall_now = 7\<rparr> 1 ?timers 3 False ?m = (m, e)" by fastforce
  have sorted: "timers_sorted ?timers (filter (\<lambda>t. t \<noteq> 3) (rm_timers ?m))" and dist: "distinct (rm_timers ?m)"
    and notin: "False \<longleftrightarrow> 3 \<in> set (rm_timers ?m)"
    by (simp_all add: timers_sorted_def timer_at_def empty_mode_def)
  have short: "length (filter (\<lambda>t. t \<noteq> 3) (rm_timers ?m)) < 2 ^ 29" by (simp add: empty_mode_def)
  have "due_before ?timers [1, 2, 4] 3 = 2" by (simp add: due_before_def timer_at_def)
  then show ?thesis using timer_array_sorted [OF sorted dist notin short m] m by (simp add: empty_mode_def)
qed

text \<open>C13. Arming the timers of a mode: the soft deadline is the earliest fire time and the hard deadline the
  earliest end of a tolerance among all timers that are not firing, although the search stops early; while
  there is a deadline exactly one of the kernel timer and the dispatch source is armed, and none otherwise.\<close>

theorem timer_deadlines:
  assumes "timers_sorted timers (rm_timers m)" "armed_for_deadline m"
    and "CFArmNextTimerInMode sys rate timers m = (m', events)"
  shows "rm_timerSoftDeadline m' = earliest soft_deadline (map timers (rm_timers m))
    \<and> rm_timerHardDeadline m' = earliest (hard_deadline rate) (map timers (rm_timers m))
    \<and> armed_for_deadline m'
    \<and> (rm_timerSoftDeadline m' = UINT64_MAX \<longrightarrow> \<not> rm_mkTimerArmed m' \<and> \<not> rm_dispatchTimerArmed m')
    \<and> rm_timers m' = rm_timers m"
proof -
  have "rm_timers m' = rm_timers m"
    using assms(3) by (auto simp: CFArmNextTimerInMode_def Let_def split: prod.splits if_splits)
  then show ?thesis using CFArmNextTimerInMode_eq [OF assms] by blast
qed

theorem timer_deadlines_witness:
  "rm_timerSoftDeadline (fst (CFArmNextTimerInMode \<lparr>uptime_now = 5, monotonic_now = 6, wall_now = 7\<rparr> 1 (\<lambda>t. timer_at (ucast t)) (empty_mode\<lparr>rm_timers := [4, 9]\<rparr>))) = 4"
proof -
  obtain m e where m: "CFArmNextTimerInMode \<lparr>uptime_now = 5, monotonic_now = 6, wall_now = 7\<rparr> 1 (\<lambda>t. timer_at (ucast t)) (empty_mode\<lparr>rm_timers := [4, 9]\<rparr>) = (m, e)"
    by fastforce
  have "timers_sorted (\<lambda>t. timer_at (ucast t)) (rm_timers (empty_mode\<lparr>rm_timers := [4, 9]\<rparr>))"
    "armed_for_deadline (empty_mode\<lparr>rm_timers := [4, 9]\<rparr>)"
    by (simp_all add: timers_sorted_def timer_at_def empty_mode_def armed_for_deadline_def)
  from timer_deadlines [OF this m] show ?thesis
    using m by (simp add: empty_mode_def timer_at_def soft_deadline_def UINT64_MAX_def)
qed

lemma timer_next_fire_grid:
  assumes "0 < rate" "0 < rt_interval rlt" "uint now < 2 ^ 63" "old \<le> now"
  shows "if 2 ^ 63 - 1 - ticks rate rlt \<le> uint old then timer_nextFireTSR rate now old rlt = Some LLONG_MAX
    else if ticks rate rlt = 0 then timer_nextFireTSR rate now old rlt = None
    else \<exists>m k. timer_nextFireTSR rate now old rlt = Some m \<and> uint m = uint old + int k * ticks rate rlt
      \<and> uint now < uint m \<and> uint m \<le> uint now + ticks rate rlt"
proof (cases "ticks rate rlt = 0 \<or> 2 ^ 63 - 1 - ticks rate rlt \<le> uint old")
  case True
  then show ?thesis using timer_next_fire_cases [OF assms] by auto
next
  case False
  let ?i = "timer_intervalTSR rate rlt"
  have i: "uint ?i = ticks rate rlt" using uint_timer_intervalTSR [OF assms(1)] assms(2) by simp
  have "ticks rate rlt \<le> (2 ^ 63 - 1) div 2" by (simp add: ticks_def)
  then have "0 < uint ?i" "uint now + uint ?i < 2 ^ 64" using False i assms(3) uint_u64_nonneg [of ?i] by auto
  from advance_fire_Some [OF this, of old] obtain m k where m: "advance_fire now ?i old = Some m"
    "uint m = uint old + int k * ticks rate rlt" "uint now < uint m" "uint m \<le> uint now + ticks rate rlt \<or> m = old"
    unfolding i by blast
  moreover have "m \<noteq> old" using m(3) assms(4) by (auto simp: word_le_def)
  ultimately show ?thesis using timer_next_fire_cases [OF assms] False by auto
qed

text \<open>C30. A repeating timer that fires at or after its time: the loop that advances the fire time returns
  with the first later time on the timer's own grid, at most one interval after now, or with the latest
  time there is; the code halts exactly if the interval is shorter than a tick.\<close>

theorem timer_next_fire:
  assumes "0 < rate" "0 < rt_interval rlt" "uint now < 2 ^ 63" "old \<le> now"
  shows "if 2 ^ 63 - 1 - ticks rate rlt \<le> uint old then timer_nextFireTSR rate now old rlt = Some LLONG_MAX
    else if ticks rate rlt = 0 then timer_nextFireTSR rate now old rlt = None
    else \<exists>m k. timer_nextFireTSR rate now old rlt = Some m \<and> uint m = uint old + int k * ticks rate rlt
      \<and> uint now < uint m \<and> uint m \<le> uint now + ticks rate rlt"
  using assms by (rule timer_next_fire_grid)

theorem timer_next_fire_witness:
  "\<exists>m k. timer_nextFireTSR 1 25 4 (timer_at 4) = Some m \<and> uint m = 4 + int k \<and> 25 < uint m \<and> uint m \<le> 26"
proof -
  have t: "ticks 1 (timer_at 4) = 1" by (simp add: ticks_def timer_at_def TIMER_INTERVAL_LIMIT_def)
  have "(0 :: real) < 1" "0 < rt_interval (timer_at 4)" "uint (25 :: u64) < 2 ^ 63" "(4 :: u64) \<le> 25"
    by (simp_all add: timer_at_def)
  from timer_next_fire [OF this] show ?thesis by (simp add: t)
qed

text \<open>The deadline that is handed to libdispatch: the fire time in nanoseconds on the uptime clock,
  one nanosecond late because the base of the sum is the time 1, or never if it cannot be represented.\<close>

theorem timer_dispatch_deadline:
  assumes "clocks_in_range sys" "0 < rate" "real_of_int (uint tsr) / rate * 1000000000 < 2 ^ 64"
  shows "moment_of (CFTSRToDispatchTime sys rate tsr) =
    (let ns = \<lfloor>real_of_int (uint tsr) / rate * 1000000000\<rfloor>
     in if ns + 1 < 2 ^ 62 - 1 then At DISPATCH_CLOCK_UPTIME (ns + 1) else Forever)"
proof -
  define ns where "ns = \<lfloor>real_of_int (uint tsr) / rate * 1000000000\<rfloor>"
  have "0 \<le> real_of_int (uint tsr)" by (rule iffD2 [OF of_int_0_le_iff uint_u64_nonneg])
  then have "0 \<le> real_of_int (uint tsr) / rate * 1000000000"
    by (rule mult_nonneg_nonneg [OF divide_nonneg_pos [OF _ assms(2)]]) simp
  then have ns: "0 \<le> ns" "ns < 2 ^ 64" using assms(3) unfolding ns_def by (simp_all add: floor_less_iff)
  then have u: "uint (CFTSRToNanoseconds rate tsr) = ns" 
    unfolding CFTSRToNanoseconds_def ns_def [symmetric] by (rule uint_word_of_int_small)
  define d where "d = (if LLONG_MAX - 1 < CFTSRToNanoseconds rate tsr then LLONG_MAX - 1 else CFTSRToNanoseconds rate tsr)"
  have max: "uint (LLONG_MAX - 1) = 2 ^ 63 - 2" by (simp add: LLONG_MAX_def)
  have d: "uint d = min ns (2 ^ 63 - 2)" using u max by (auto simp: d_def word_less_def min_def)
  then have "sint d = min ns (2 ^ 63 - 2)" using ns by (simp add: sint_u64)
  moreover have "moment_at sys 1 = At DISPATCH_CLOCK_UPTIME 1"
    by (simp add: moment_at_def moment_of_def u64_eq_iff mask_values)
  ultimately have "moment_of (dispatch_time sys 1 d) = after (At DISPATCH_CLOCK_UPTIME 1) (min ns (2 ^ 63 - 2))"
    using dispatch_time_moment [OF assms(1), of 1 d] by simp
  moreover have "CFTSRToDispatchTime sys rate tsr = dispatch_time sys 1 d"
    by (simp add: CFTSRToDispatchTime_def d_def Let_def)
  ultimately show ?thesis using ns unfolding ns_def [symmetric] Let_def by (auto simp: least_time_def min_def)
qed

theorem timer_dispatch_deadline_witness:
  "moment_of (CFTSRToDispatchTime \<lparr>uptime_now = 1000, monotonic_now = 2000, wall_now = 3000\<rparr> 1000000000 500)
    = At DISPATCH_CLOCK_UPTIME 501"
proof -
  have "clocks_in_range \<lparr>uptime_now = 1000, monotonic_now = 2000, wall_now = 3000\<rparr>" by (simp add: clocks_in_range_def)
  from timer_dispatch_deadline [OF this, of 1000000000 500] show ?thesis by simp
qed

text \<open>A tolerance is to be zero or positive, as the comment says, but a negative one is kept for a
  timer that repeats.\<close>

lemma timer_negative_tolerance:
  "CFRunLoopTimerDoesRepeat rlt \<Longrightarrow> tol < 0 \<Longrightarrow> rt_tolerance (CFRunLoopTimerSetTolerance tol rlt) < 0"
  by (simp add: CFRunLoopTimerSetTolerance_def CFRunLoopTimerDoesRepeat_def)

end
