(* ===== verification/RunLoop.thy ===== *)
theory RunLoop
  imports RunLoopTimers "HOL-Library.AList"
begin

text \<open>
  Run loops (CFRunLoop.c): modes, the sources, observers and timers in them, the common modes and
  the queue of blocks. \<open>rl_world\<close> holds the run loops and their objects; an object may be in several
  modes, and a source in several run loops. Locks make each operation atomic and are left out.

  A set of the code is a list, in the order in which the code happens to enumerate it; a set or array
  that is created on first use is empty before. Calls out of the library are recorded in \<open>w_log\<close>.
  Strings are compared by their characters, also where the code compares addresses. The environment
  gives the ports of a new mode, the clocks and the threads.
\<close>

section \<open>The data model\<close>

definition kCFRunLoopCommonModes :: string where "kCFRunLoopCommonModes = ''kCFRunLoopCommonModes''"
definition kCFRunLoopDefaultMode :: string where "kCFRunLoopDefaultMode = ''kCFRunLoopDefaultMode''"

record CFRunLoopSource =
  rs_valid :: bool
  rs_signaled :: bool
  rs_order :: int
  rs_runLoops :: "nat list"
  rs_version :: nat
  rs_port :: u32
  rs_schedule :: bool
  rs_cancel :: bool
  rs_perform :: bool
  rs_context :: nat

record CFRunLoopObserver =
  ro_valid :: bool
  ro_firing :: bool
  ro_repeats :: bool
  ro_runLoop :: "nat option"
  ro_rlCount :: int
  ro_activities :: u64
  ro_order :: int
  ro_context :: CFRunLoopContext

datatype item = Source nat | Observer nat | Timer timer

text \<open>The mode argument of a block: a string, an array or set of strings, or another type.\<close>

datatype block_mode = Mode_name string | Mode_names "string list" | Other_type

record CFRunLoop =
  rl_deallocating :: bool
  rl_sleeping :: bool
  rl_stopped :: bool
  rl_ignoreWakeUps :: bool
  rl_commonModes :: "string list"
  rl_commonModeItems :: "item list"
  rl_currentMode :: "string option"
  rl_modes :: "(string \<times> CFRunLoopMode) list"
  rl_blocks :: "(block_mode \<times> nat) list"
  rl_wakeUpPort :: u32

datatype rl_event =
    Schedule_source nat nat string
  | Cancel_source nat nat string
  | Retain_context nat ptr
  | Release_context nat ptr
  | Arm nat string "arm_event list"
  | Wake_up nat
  | Perform_source nat
  | Observe nat u64
  | Fire_timer timer ptr
  | Run_block nat
  | Main_queue
  | Start_timeout nat u64
  | Cancel_timeout nat

record rl_world =
  w_loops :: "nat \<Rightarrow> CFRunLoop"
  w_sources :: "nat \<Rightarrow> CFRunLoopSource"
  w_observers :: "nat \<Rightarrow> CFRunLoopObserver"
  w_timers :: "timer \<Rightarrow> CFRunLoopTimer"
  w_log :: "rl_event list"
  w_TSR :: u64
  w_date :: real
  w_rate :: real
  w_dispatch :: dispatch_clocks
  w_termTSRs :: "u64 list"
  w_ports :: "nat \<Rightarrow> string \<Rightarrow> u32 \<times> u32"
  w_mainLoop :: nat
  w_currentLoop :: nat
  w_isMainThread :: bool
  w_inGCDMainQ :: bool

definition loop_upd :: "nat \<Rightarrow> (CFRunLoop \<Rightarrow> CFRunLoop) \<Rightarrow> rl_world \<Rightarrow> rl_world" where
  "loop_upd l f w = w\<lparr>w_loops := (w_loops w)(l := f (w_loops w l))\<rparr>"

definition source_upd :: "nat \<Rightarrow> (CFRunLoopSource \<Rightarrow> CFRunLoopSource) \<Rightarrow> rl_world \<Rightarrow> rl_world" where
  "source_upd s f w = w\<lparr>w_sources := (w_sources w)(s := f (w_sources w s))\<rparr>"

definition observer_upd :: "nat \<Rightarrow> (CFRunLoopObserver \<Rightarrow> CFRunLoopObserver) \<Rightarrow> rl_world \<Rightarrow> rl_world" where
  "observer_upd ob f w = w\<lparr>w_observers := (w_observers w)(ob := f (w_observers w ob))\<rparr>"

definition timer_upd :: "timer \<Rightarrow> (CFRunLoopTimer \<Rightarrow> CFRunLoopTimer) \<Rightarrow> rl_world \<Rightarrow> rl_world" where
  "timer_upd t f w = w\<lparr>w_timers := (w_timers w)(t := f (w_timers w t))\<rparr>"

definition emit :: "rl_event \<Rightarrow> rl_world \<Rightarrow> rl_world" where
  "emit e w = w\<lparr>w_log := w_log w @ [e]\<rparr>"

text \<open>Adding to a set.\<close>

definition set_add :: "'a \<Rightarrow> 'a list \<Rightarrow> 'a list" where
  "set_add x xs = (if x \<in> set xs then xs else xs @ [x])"

section \<open>Modes\<close>

definition put_mode :: "nat \<Rightarrow> string \<Rightarrow> CFRunLoopMode \<Rightarrow> rl_world \<Rightarrow> rl_world" where
  "put_mode l name rlm = loop_upd l (\<lambda>rl. rl\<lparr>rl_modes := AList.update name rlm (rl_modes rl)\<rparr>)"

definition find_mode :: "nat \<Rightarrow> string \<Rightarrow> rl_world \<Rightarrow> CFRunLoopMode option" where
  "find_mode l name w = map_of (rl_modes (w_loops w l)) name"

definition new_mode :: "nat \<Rightarrow> string \<Rightarrow> rl_world \<Rightarrow> CFRunLoopMode" where
  "new_mode l name w =
     (let (queuePort, timerPort) = w_ports w l name
      in \<lparr>rm_stopped = False, rm_sources0 = [], rm_sources1 = [], rm_observers = [], rm_timers = [],
          rm_portToV1SourceMap = Map.empty,
          rm_portSet = set_add (rl_wakeUpPort (w_loops w l)) (set_add timerPort [queuePort]),
          rm_observerMask = 0, rm_queuePort = queuePort, rm_timerFired = False, rm_mkTimerArmed = False,
          rm_dispatchTimerArmed = False, rm_timerPort = timerPort, rm_timerSoftDeadline = UINT64_MAX,
          rm_timerHardDeadline = UINT64_MAX\<rparr>)"

text \<open>\<open>CFRunLoopFindMode\<close> with \<open>create\<close>: the mode is there afterwards.\<close>

definition CFRunLoopFindMode :: "nat \<Rightarrow> string \<Rightarrow> rl_world \<Rightarrow> rl_world" where
  "CFRunLoopFindMode l modeName w =
     (if find_mode l modeName w = None then put_mode l modeName (new_mode l modeName w) w else w)"

definition the_mode :: "nat \<Rightarrow> string \<Rightarrow> rl_world \<Rightarrow> CFRunLoopMode" where
  "the_mode l name w = the (find_mode l name w)"

definition CFRunLoopCreate :: "nat \<Rightarrow> u32 \<Rightarrow> rl_world \<Rightarrow> rl_world" where
  "CFRunLoopCreate l wakeUpPort w =
     CFRunLoopFindMode l kCFRunLoopDefaultMode
       (loop_upd l (\<lambda>_. \<lparr>rl_deallocating = False, rl_sleeping = False, rl_stopped = False, rl_ignoreWakeUps = True,
          rl_commonModes = [kCFRunLoopDefaultMode], rl_commonModeItems = [], rl_currentMode = None, rl_modes = [],
          rl_blocks = [], rl_wakeUpPort = wakeUpPort\<rparr>) w)"

definition CFRunLoopCopyAllModes :: "nat \<Rightarrow> rl_world \<Rightarrow> string list" where
  "CFRunLoopCopyAllModes l w = map fst (rl_modes (w_loops w l))"

definition CFRunLoopCopyCurrentMode :: "nat \<Rightarrow> rl_world \<Rightarrow> string option" where
  "CFRunLoopCopyCurrentMode l w = rl_currentMode (w_loops w l)"

text \<open>\<open>_CFRunLoop01\<close>.\<close>

definition CFRunLoop01 :: "nat \<Rightarrow> string \<Rightarrow> rl_world \<Rightarrow> bool" where
  "CFRunLoop01 l modeName w \<longleftrightarrow> modeName \<in> set (rl_commonModes (w_loops w l))"

text \<open>Whether a block is to run in a mode.\<close>

definition block_in_mode :: "string list \<Rightarrow> string \<Rightarrow> block_mode \<Rightarrow> bool" where
  "block_in_mode commonModes curMode mode =
     (case mode of
        Mode_name name \<Rightarrow> name = curMode \<or> name = kCFRunLoopCommonModes \<and> curMode \<in> set commonModes
      | Mode_names names \<Rightarrow> curMode \<in> set names \<or> kCFRunLoopCommonModes \<in> set names \<and> curMode \<in> set commonModes
      | Other_type \<Rightarrow> False)"

definition libdispatchQSafe :: "rl_world \<Rightarrow> bool" where
  "libdispatchQSafe w \<longleftrightarrow> w_isMainThread w \<and> \<not> w_inGCDMainQ w"

definition CFRunLoopModeIsEmpty :: "nat \<Rightarrow> string \<Rightarrow> rl_world \<Rightarrow> bool" where
  "CFRunLoopModeIsEmpty l name w =
     (case find_mode l name w of
        None \<Rightarrow> True
      | Some rlm \<Rightarrow>
          \<not> (libdispatchQSafe w \<and> w_mainLoop w = l \<and> name \<in> set (rl_commonModes (w_loops w l)))
          \<and> rm_sources0 rlm = [] \<and> rm_sources1 rlm = [] \<and> rm_timers rlm = []
          \<and> \<not> list_ex (\<lambda>(mode, _). block_in_mode (rl_commonModes (w_loops w l)) name mode) (rl_blocks (w_loops w l)))"

text \<open>\<open>_CFRunLoopFinished\<close>.\<close>

definition CFRunLoopFinished :: "nat \<Rightarrow> string \<Rightarrow> rl_world \<Rightarrow> bool" where
  "CFRunLoopFinished l modeName w \<longleftrightarrow> find_mode l modeName w = None \<or> CFRunLoopModeIsEmpty l modeName w"

section \<open>Waking and stopping\<close>

definition CFRunLoopIsWaiting :: "nat \<Rightarrow> rl_world \<Rightarrow> bool" where
  "CFRunLoopIsWaiting l w \<longleftrightarrow> rl_sleeping (w_loops w l)"

definition CFRunLoopWakeUp :: "nat \<Rightarrow> rl_world \<Rightarrow> rl_world" where
  "CFRunLoopWakeUp l w = (if rl_ignoreWakeUps (w_loops w l) then w else emit (Wake_up l) w)"

definition CFRunLoopStop :: "nat \<Rightarrow> rl_world \<Rightarrow> rl_world" where
  "CFRunLoopStop l w =
     (if rl_currentMode (w_loops w l) \<noteq> None
      then CFRunLoopWakeUp l (loop_upd l (\<lambda>rl. rl\<lparr>rl_stopped := True\<rparr>) w)
      else w)"

text \<open>\<open>_CFRunLoopStopMode\<close>.\<close>

definition CFRunLoopStopMode :: "nat \<Rightarrow> string \<Rightarrow> rl_world \<Rightarrow> rl_world" where
  "CFRunLoopStopMode l modeName w =
     (let w = CFRunLoopFindMode l modeName w
      in CFRunLoopWakeUp l (put_mode l modeName ((the_mode l modeName w)\<lparr>rm_stopped := True\<rparr>) w))"

section \<open>Sources\<close>

text \<open>The last field stands for the rest of the context: the sources have the same one exactly if their
  contexts are equal. \<open>rs_schedule\<close>, \<open>rs_cancel\<close> and \<open>rs_perform\<close> tell whether there are such callbacks.\<close>

definition CFRunLoopSourceEqual :: "rl_world \<Rightarrow> nat \<Rightarrow> nat \<Rightarrow> bool" where
  "CFRunLoopSourceEqual w rls1 rls2 \<longleftrightarrow> rls1 = rls2
     \<or> (let s1 = w_sources w rls1; s2 = w_sources w rls2
        in rs_valid s1 = rs_valid s2 \<and> rs_order s1 = rs_order s2 \<and> rs_version s1 = rs_version s2
           \<and> rs_context s1 = rs_context s2)"

definition contains_source :: "rl_world \<Rightarrow> nat list \<Rightarrow> nat \<Rightarrow> bool" where
  "contains_source w xs rls \<longleftrightarrow> list_ex (CFRunLoopSourceEqual w rls) xs"

text \<open>\<open>CFSetRemoveValue\<close>, which removes the member that is equal to its argument.\<close>

fun remove_source :: "rl_world \<Rightarrow> nat \<Rightarrow> nat list \<Rightarrow> nat list" where
  "remove_source w rls [] = []"
| "remove_source w rls (x # xs) = (if CFRunLoopSourceEqual w rls x then xs else x # remove_source w rls xs)"

definition CFRunLoopSourceCreate :: "int \<Rightarrow> nat \<Rightarrow> u32 \<Rightarrow> bool \<Rightarrow> bool \<Rightarrow> bool \<Rightarrow> nat \<Rightarrow> CFRunLoopSource" where
  "CFRunLoopSourceCreate order version port schedule cancel perform ctxt =
     \<lparr>rs_valid = True, rs_signaled = False, rs_order = order, rs_runLoops = [], rs_version = version,
      rs_port = port, rs_schedule = schedule, rs_cancel = cancel, rs_perform = perform, rs_context = ctxt\<rparr>"

definition CFRunLoopSourceSignal :: "nat \<Rightarrow> rl_world \<Rightarrow> rl_world" where
  "CFRunLoopSourceSignal rls w = (if rs_valid (w_sources w rls) then source_upd rls (\<lambda>s. s\<lparr>rs_signaled := True\<rparr>) w else w)"

definition CFRunLoopSourceIsSignalled :: "nat \<Rightarrow> rl_world \<Rightarrow> bool" where
  "CFRunLoopSourceIsSignalled rls w \<longleftrightarrow> rs_signaled (w_sources w rls)"

text \<open>\<open>_CFRunLoopSourceWakeUpRunLoops\<close>.\<close>

definition CFRunLoopSourceWakeUpRunLoops :: "nat \<Rightarrow> rl_world \<Rightarrow> rl_world" where
  "CFRunLoopSourceWakeUpRunLoops rls w =
     (if rs_valid (w_sources w rls) then fold CFRunLoopWakeUp (rs_runLoops (w_sources w rls)) w else w)"

definition add_source_to_mode :: "nat \<Rightarrow> nat \<Rightarrow> string \<Rightarrow> rl_world \<Rightarrow> rl_world" where
  "add_source_to_mode l rls modeName w =
     (let w = CFRunLoopFindMode l modeName w;
          rlm = the_mode l modeName w;
          s = w_sources w rls
      in if \<not> contains_source w (rm_sources0 rlm) rls \<and> \<not> contains_source w (rm_sources1 rlm) rls
         then
           (let rlm = (if rs_version s = 0 then rlm\<lparr>rm_sources0 := rm_sources0 rlm @ [rls]\<rparr>
                       else if rs_version s = 1
                       then (let rlm = rlm\<lparr>rm_sources1 := rm_sources1 rlm @ [rls]\<rparr>
                             in if rs_port s \<noteq> 0
                                then rlm\<lparr>rm_portToV1SourceMap := (rm_portToV1SourceMap rlm)(rs_port s \<mapsto> rls),
                                         rm_portSet := set_add (rs_port s) (rm_portSet rlm)\<rparr>
                                else rlm)
                       else rlm);
                w = put_mode l modeName rlm w;
                w = source_upd rls (\<lambda>s. s\<lparr>rs_runLoops := rs_runLoops s @ [l]\<rparr>) w
            in if rs_version s = 0 \<and> rs_schedule s then emit (Schedule_source rls l modeName) w else w)
         else w)"

definition remove_source_from_mode :: "nat \<Rightarrow> nat \<Rightarrow> string \<Rightarrow> rl_world \<Rightarrow> rl_world" where
  "remove_source_from_mode l rls modeName w =
     (case find_mode l modeName w of
        None \<Rightarrow> w
      | Some rlm \<Rightarrow>
          if contains_source w (rm_sources0 rlm) rls \<or> contains_source w (rm_sources1 rlm) rls
          then
            (let s = w_sources w rls;
                 rlm = (if rs_version s = 1 \<and> rs_port s \<noteq> 0
                        then rlm\<lparr>rm_portToV1SourceMap := (rm_portToV1SourceMap rlm)(rs_port s := None),
                                 rm_portSet := remove1 (rs_port s) (rm_portSet rlm)\<rparr>
                        else rlm);
                 rlm = rlm\<lparr>rm_sources0 := remove_source w rls (rm_sources0 rlm),
                           rm_sources1 := remove_source w rls (rm_sources1 rlm)\<rparr>;
                 w = put_mode l modeName rlm w;
                 w = source_upd rls (\<lambda>s. s\<lparr>rs_runLoops := remove1 l (rs_runLoops s)\<rparr>) w
             in if rs_version s = 0 \<and> rs_cancel s then emit (Cancel_source rls l modeName) w else w)
          else w)"

section \<open>Observers\<close>

definition CFRunLoopObserverCreate :: "u64 \<Rightarrow> bool \<Rightarrow> int \<Rightarrow> CFRunLoopContext option \<Rightarrow> CFRunLoopObserver" where
  "CFRunLoopObserverCreate activities repeats order ctxt =
     \<lparr>ro_valid = True, ro_firing = False, ro_repeats = repeats, ro_runLoop = None, ro_rlCount = 0,
      ro_activities = activities, ro_order = order, ro_context = retained_context ctxt\<rparr>"

text \<open>The search from the end for an observer with at most the order of the new one.\<close>

fun observer_position :: "(nat \<Rightarrow> CFRunLoopObserver) \<Rightarrow> nat list \<Rightarrow> nat \<Rightarrow> nat \<Rightarrow> nat" where
  "observer_position observers obs rlo 0 = 0"
| "observer_position observers obs rlo (Suc idx) =
     (if ro_order (observers (obs ! idx)) \<le> ro_order (observers rlo) then idx + 1
      else observer_position observers obs rlo idx)"

definition CFRunLoopObserverSchedule :: "nat \<Rightarrow> nat \<Rightarrow> rl_world \<Rightarrow> rl_world" where
  "CFRunLoopObserverSchedule rlo l =
     observer_upd rlo (\<lambda>ob. ob\<lparr>ro_runLoop := (if ro_rlCount ob = 0 then Some l else ro_runLoop ob),
                               ro_rlCount := ro_rlCount ob + 1\<rparr>)"

definition CFRunLoopObserverCancel :: "nat \<Rightarrow> rl_world \<Rightarrow> rl_world" where
  "CFRunLoopObserverCancel rlo =
     observer_upd rlo (\<lambda>ob. ob\<lparr>ro_rlCount := ro_rlCount ob - 1,
                               ro_runLoop := (if ro_rlCount ob - 1 = 0 then None else ro_runLoop ob)\<rparr>)"

definition add_observer_to_mode :: "nat \<Rightarrow> nat \<Rightarrow> string \<Rightarrow> rl_world \<Rightarrow> rl_world" where
  "add_observer_to_mode l rlo modeName w =
     (let w = CFRunLoopFindMode l modeName w;
          rlm = the_mode l modeName w;
          obs = rm_observers rlm
      in if rlo \<notin> set obs
         then CFRunLoopObserverSchedule rlo l
           (put_mode l modeName
             (rlm\<lparr>rm_observers := CFArrayInsertValueAtIndex obs (observer_position (w_observers w) obs rlo (length obs)) rlo,
                  rm_observerMask := rm_observerMask rlm OR ro_activities (w_observers w rlo)\<rparr>) w)
         else w)"

definition remove_observer_from_mode :: "nat \<Rightarrow> nat \<Rightarrow> string \<Rightarrow> rl_world \<Rightarrow> rl_world" where
  "remove_observer_from_mode l rlo modeName w =
     (case find_mode l modeName w of
        None \<Rightarrow> w
      | Some rlm \<Rightarrow>
          if rlo \<in> set (rm_observers rlm)
          then CFRunLoopObserverCancel rlo
            (put_mode l modeName (rlm\<lparr>rm_observers := remove1 rlo (rm_observers rlm)\<rparr>) w)
          else w)"

section \<open>Timers\<close>

text \<open>A change of the timers of a mode, whose calls to the kernel and to libdispatch are recorded.\<close>

definition mode_timers_upd ::
  "nat \<Rightarrow> string \<Rightarrow> (CFRunLoopMode \<Rightarrow> CFRunLoopMode \<times> arm_event list) \<Rightarrow> rl_world \<Rightarrow> rl_world" where
  "mode_timers_upd l name f w =
     (case find_mode l name w of
        None \<Rightarrow> w
      | Some rlm \<Rightarrow> (let (rlm', events) = f rlm in emit (Arm l name events) (put_mode l name rlm' w)))"

definition arm_next_timer :: "nat \<Rightarrow> string \<Rightarrow> rl_world \<Rightarrow> rl_world" where
  "arm_next_timer l name w = mode_timers_upd l name (CFArmNextTimerInMode (w_dispatch w) (w_rate w) (w_timers w)) w"

definition reposition_timer :: "nat \<Rightarrow> timer \<Rightarrow> bool \<Rightarrow> string \<Rightarrow> rl_world \<Rightarrow> rl_world" where
  "reposition_timer l rlt isInArray name w =
     mode_timers_upd l name (CFRepositionTimerInMode (w_dispatch w) (w_rate w) (w_timers w) rlt isInArray) w"

definition add_timer_to_mode :: "nat \<Rightarrow> timer \<Rightarrow> string \<Rightarrow> rl_world \<Rightarrow> rl_world" where
  "add_timer_to_mode l rlt modeName w =
     (let w = CFRunLoopFindMode l modeName w; t = w_timers w rlt
      in if modeName \<in> set (rt_rlModes t) then w
         else if rt_runLoop t \<noteq> None \<and> rt_runLoop t \<noteq> Some l then w
         else reposition_timer l rlt False modeName
           (timer_upd rlt (\<lambda>t. t\<lparr>rt_runLoop := Some l, rt_rlModes := rt_rlModes t @ [modeName]\<rparr>) w))"

definition remove_timer_from_mode :: "nat \<Rightarrow> timer \<Rightarrow> string \<Rightarrow> rl_world \<Rightarrow> rl_world" where
  "remove_timer_from_mode l rlt modeName w =
     (case find_mode l modeName w of
        None \<Rightarrow> w
      | Some rlm \<Rightarrow>
          if rlt \<in> set (rm_timers rlm)
          then
            (let w = timer_upd rlt (\<lambda>t. let modes = remove1 modeName (rt_rlModes t)
                                         in t\<lparr>rt_rlModes := modes, rt_runLoop := (if modes = [] then None else rt_runLoop t)\<rparr>) w;
                 w = put_mode l modeName (rlm\<lparr>rm_timers := remove1 rlt (rm_timers rlm)\<rparr>) w
             in arm_next_timer l modeName w)
          else w)"

text \<open>The new fire time is stored before the timer is repositioned in every mode it is in.\<close>

definition set_fire_time :: "timer \<Rightarrow> u64 \<Rightarrow> real \<Rightarrow> rl_world \<Rightarrow> rl_world" where
  "set_fire_time rlt fireTSR fireDate w =
     (let w' = timer_upd rlt (\<lambda>t. t\<lparr>rt_fireTSR := fireTSR, rt_nextFireDate := fireDate\<rparr>) w
      in case rt_runLoop (w_timers w rlt) of
           Some l \<Rightarrow> fold (reposition_timer l rlt True) (rt_rlModes (w_timers w rlt)) w'
         | None \<Rightarrow> w')"

definition CFRunLoopTimerSetNextFireDate :: "timer \<Rightarrow> real \<Rightarrow> rl_world \<Rightarrow> rl_world" where
  "CFRunLoopTimerSetNextFireDate rlt fireDate w =
     (if \<not> rt_valid (w_timers w rlt) then w
      else
        (let fireDate = (if TIMER_DATE_LIMIT < fireDate then TIMER_DATE_LIMIT else fireDate);
             w' = set_fire_time rlt (fire_date_TSR (w_rate w) (w_TSR w) (w_date w) fireDate) fireDate w
         in case rt_runLoop (w_timers w rlt) of
              Some l \<Rightarrow> if l \<noteq> w_currentLoop w then CFRunLoopWakeUp l w' else w'
            | None \<Rightarrow> w'))"

definition CFRunLoopTimerGetNextFireDate :: "timer \<Rightarrow> rl_world \<Rightarrow> real" where
  "CFRunLoopTimerGetNextFireDate rlt w =
     (if rt_valid (w_timers w rlt) then rt_nextFireDate (w_timers w rlt) else 0)"

definition CFRunLoopGetNextTimerFireDate :: "nat \<Rightarrow> string \<Rightarrow> rl_world \<Rightarrow> real" where
  "CFRunLoopGetNextTimerFireDate l modeName w =
     (case find_mode l modeName w of
        Some rlm \<Rightarrow> (case rm_timers rlm of [] \<Rightarrow> 0 | t # _ \<Rightarrow> CFRunLoopTimerGetNextFireDate t w)
      | None \<Rightarrow> 0)"

section \<open>Items and common modes\<close>

definition contains_item :: "nat \<Rightarrow> item \<Rightarrow> string \<Rightarrow> rl_world \<Rightarrow> bool" where
  "contains_item l item name w =
     (case find_mode l name w of
        None \<Rightarrow> False
      | Some rlm \<Rightarrow>
          (case item of
             Source s \<Rightarrow> contains_source w (rm_sources0 rlm) s \<or> contains_source w (rm_sources1 rlm) s
           | Observer ob \<Rightarrow> ob \<in> set (rm_observers rlm)
           | Timer t \<Rightarrow> t \<in> set (rm_timers rlm)))"

text \<open>Membership in the set of the common items, with the equality of the code.\<close>

definition item_equal :: "rl_world \<Rightarrow> item \<Rightarrow> item \<Rightarrow> bool" where
  "item_equal w i j \<longleftrightarrow> i = j \<or> (case (i, j) of (Source s, Source s') \<Rightarrow> CFRunLoopSourceEqual w s s' | _ \<Rightarrow> False)"

definition is_common_item :: "nat \<Rightarrow> item \<Rightarrow> rl_world \<Rightarrow> bool" where
  "is_common_item l item w \<longleftrightarrow> list_ex (item_equal w item) (rl_commonModeItems (w_loops w l))"

fun remove_item :: "rl_world \<Rightarrow> item \<Rightarrow> item list \<Rightarrow> item list" where
  "remove_item w i [] = []"
| "remove_item w i (x # xs) = (if item_equal w i x then xs else x # remove_item w i xs)"

definition CFRunLoopContainsItem :: "nat \<Rightarrow> item \<Rightarrow> string \<Rightarrow> rl_world \<Rightarrow> bool" where
  "CFRunLoopContainsItem l item modeName w =
     (if modeName = kCFRunLoopCommonModes then is_common_item l item w else contains_item l item modeName w)"

definition CFRunLoopContainsSource :: "nat \<Rightarrow> nat \<Rightarrow> string \<Rightarrow> rl_world \<Rightarrow> bool" where
  "CFRunLoopContainsSource l rls = CFRunLoopContainsItem l (Source rls)"

definition CFRunLoopContainsObserver :: "nat \<Rightarrow> nat \<Rightarrow> string \<Rightarrow> rl_world \<Rightarrow> bool" where
  "CFRunLoopContainsObserver l rlo = CFRunLoopContainsItem l (Observer rlo)"

definition CFRunLoopContainsTimer :: "nat \<Rightarrow> timer \<Rightarrow> string \<Rightarrow> rl_world \<Rightarrow> bool" where
  "CFRunLoopContainsTimer l rlt modeName w \<longleftrightarrow>
     rt_runLoop (w_timers w rlt) = Some l \<and> CFRunLoopContainsItem l (Timer rlt) modeName w"

text \<open>The three operations that add an item share their shape: the tests of the item, the branch for
  the common modes, which calls the operation again for each of them, and the one for a single mode.
  The fuel bounds the depth of these calls; \<open>None\<close> means that it was not enough.\<close>

definition may_add :: "nat \<Rightarrow> item \<Rightarrow> rl_world \<Rightarrow> bool" where
  "may_add l item w \<longleftrightarrow> \<not> rl_deallocating (w_loops w l) \<and>
     (case item of
        Source s \<Rightarrow> rs_valid (w_sources w s)
      | Observer ob \<Rightarrow> ro_valid (w_observers w ob) \<and> (ro_runLoop (w_observers w ob) = None \<or> ro_runLoop (w_observers w ob) = Some l)
      | Timer t \<Rightarrow> rt_valid (w_timers w t) \<and> (rt_runLoop (w_timers w t) = None \<or> rt_runLoop (w_timers w t) = Some l))"

definition add_to_mode :: "nat \<Rightarrow> item \<Rightarrow> string \<Rightarrow> rl_world \<Rightarrow> rl_world" where
  "add_to_mode l item name w =
     (case item of
        Source s \<Rightarrow> add_source_to_mode l s name w
      | Observer ob \<Rightarrow> add_observer_to_mode l ob name w
      | Timer t \<Rightarrow> add_timer_to_mode l t name w)"

fun fold_option :: "('a \<Rightarrow> 'b \<Rightarrow> 'b option) \<Rightarrow> 'a list \<Rightarrow> 'b \<Rightarrow> 'b option" where
  "fold_option f [] b = Some b"
| "fold_option f (x # xs) b = Option.bind (f x b) (fold_option f xs)"

fun CFRunLoopAddItem :: "nat \<Rightarrow> nat \<Rightarrow> item \<Rightarrow> string \<Rightarrow> rl_world \<Rightarrow> rl_world option" where
  "CFRunLoopAddItem fuel l item modeName w =
     (if \<not> may_add l item w then Some w
      else if modeName = kCFRunLoopCommonModes
      then case fuel of
          0 \<Rightarrow> None
        | Suc fuel \<Rightarrow>
            fold_option (\<lambda>name. CFRunLoopAddItem fuel l item name) (rl_commonModes (w_loops w l))
              (loop_upd l (\<lambda>rl. rl\<lparr>rl_commonModeItems :=
                 (if list_ex (item_equal w item) (rl_commonModeItems rl) then rl_commonModeItems rl
                  else rl_commonModeItems rl @ [item])\<rparr>) w)
      else Some (add_to_mode l item modeName w))"

declare CFRunLoopAddItem.simps [simp del]

definition CFRunLoopAddSource :: "nat \<Rightarrow> nat \<Rightarrow> nat \<Rightarrow> string \<Rightarrow> rl_world \<Rightarrow> rl_world option" where
  "CFRunLoopAddSource fuel l rls = CFRunLoopAddItem fuel l (Source rls)"

definition CFRunLoopAddObserver :: "nat \<Rightarrow> nat \<Rightarrow> nat \<Rightarrow> string \<Rightarrow> rl_world \<Rightarrow> rl_world option" where
  "CFRunLoopAddObserver fuel l rlo = CFRunLoopAddItem fuel l (Observer rlo)"

definition CFRunLoopAddTimer :: "nat \<Rightarrow> nat \<Rightarrow> timer \<Rightarrow> string \<Rightarrow> rl_world \<Rightarrow> rl_world option" where
  "CFRunLoopAddTimer fuel l rlt = CFRunLoopAddItem fuel l (Timer rlt)"

definition CFRunLoopAddCommonMode :: "nat \<Rightarrow> nat \<Rightarrow> string \<Rightarrow> rl_world \<Rightarrow> rl_world option" where
  "CFRunLoopAddCommonMode fuel l modeName w =
     (if rl_deallocating (w_loops w l) then Some w
      else if modeName \<notin> set (rl_commonModes (w_loops w l))
      then fold_option (\<lambda>item. CFRunLoopAddItem fuel l item modeName) (rl_commonModeItems (w_loops w l))
        (loop_upd l (\<lambda>rl. rl\<lparr>rl_commonModes := rl_commonModes rl @ [modeName]\<rparr>) w)
      else Some w)"

text \<open>Removing: when the item is gone from the common items, a nested call for the common modes does nothing.\<close>

definition remove_from_mode :: "nat \<Rightarrow> item \<Rightarrow> string \<Rightarrow> rl_world \<Rightarrow> rl_world" where
  "remove_from_mode l item name w =
     (case item of
        Source s \<Rightarrow> remove_source_from_mode l s name w
      | Observer ob \<Rightarrow> remove_observer_from_mode l ob name w
      | Timer t \<Rightarrow> remove_timer_from_mode l t name w)"

definition CFRunLoopRemoveItem :: "nat \<Rightarrow> item \<Rightarrow> string \<Rightarrow> rl_world \<Rightarrow> rl_world" where
  "CFRunLoopRemoveItem l item modeName w =
     (if modeName = kCFRunLoopCommonModes
      then if is_common_item l item w
        then fold (\<lambda>name w. if name = kCFRunLoopCommonModes then w else remove_from_mode l item name w)
          (rl_commonModes (w_loops w l))
          (loop_upd l (\<lambda>rl. rl\<lparr>rl_commonModeItems := remove_item w item (rl_commonModeItems rl)\<rparr>) w)
        else w
      else remove_from_mode l item modeName w)"

definition CFRunLoopRemoveSource :: "nat \<Rightarrow> nat \<Rightarrow> string \<Rightarrow> rl_world \<Rightarrow> rl_world" where
  "CFRunLoopRemoveSource l rls = CFRunLoopRemoveItem l (Source rls)"

definition CFRunLoopRemoveObserver :: "nat \<Rightarrow> nat \<Rightarrow> string \<Rightarrow> rl_world \<Rightarrow> rl_world" where
  "CFRunLoopRemoveObserver l rlo = CFRunLoopRemoveItem l (Observer rlo)"

definition CFRunLoopRemoveTimer :: "nat \<Rightarrow> timer \<Rightarrow> string \<Rightarrow> rl_world \<Rightarrow> rl_world" where
  "CFRunLoopRemoveTimer l rlt = CFRunLoopRemoveItem l (Timer rlt)"

text \<open>The sources of version 0 go before the array of those of version 1 is read.\<close>

definition remove_all_sources_of_mode :: "nat \<Rightarrow> string \<Rightarrow> rl_world \<Rightarrow> rl_world" where
  "remove_all_sources_of_mode l modeName w =
     (case find_mode l modeName w of
        None \<Rightarrow> w
      | Some rlm \<Rightarrow>
          (let w = fold (\<lambda>rls. CFRunLoopRemoveSource l rls modeName) (rm_sources0 rlm) w
           in fold (\<lambda>rls. CFRunLoopRemoveSource l rls modeName) (rm_sources1 (the_mode l modeName w)) w))"

fun CFRunLoopRemoveAllSources :: "nat \<Rightarrow> nat \<Rightarrow> string \<Rightarrow> rl_world \<Rightarrow> rl_world option" where
  "CFRunLoopRemoveAllSources fuel l modeName w =
     (if modeName = kCFRunLoopCommonModes
      then if rl_commonModeItems (w_loops w l) \<noteq> []
        then case fuel of
            0 \<Rightarrow> None
          | Suc fuel \<Rightarrow> fold_option (CFRunLoopRemoveAllSources fuel l) (rl_commonModes (w_loops w l)) w
        else Some w
      else Some (remove_all_sources_of_mode l modeName w))"

declare CFRunLoopRemoveAllSources.simps [simp del]

section \<open>Invalidation\<close>

definition remove_source_from_loop :: "nat \<Rightarrow> nat \<Rightarrow> rl_world \<Rightarrow> rl_world" where
  "remove_source_from_loop rls l w =
     CFRunLoopRemoveSource l rls kCFRunLoopCommonModes
       (fold (CFRunLoopRemoveSource l rls) (rev (CFRunLoopCopyAllModes l w)) w)"

text \<open>A run loop that comes twice in a row in the bag is visited once.\<close>

fun remove_from_loops :: "nat \<Rightarrow> nat option \<Rightarrow> nat list \<Rightarrow> rl_world \<Rightarrow> rl_world" where
  "remove_from_loops rls previous [] w = w"
| "remove_from_loops rls previous (l # ls) w =
     (if previous = Some l then remove_from_loops rls previous ls w
      else remove_from_loops rls (Some l) ls (remove_source_from_loop rls l w))"

definition CFRunLoopSourceInvalidate :: "nat \<Rightarrow> rl_world \<Rightarrow> rl_world" where
  "CFRunLoopSourceInvalidate rls w =
     (if rs_valid (w_sources w rls)
      then remove_from_loops rls None (rs_runLoops (w_sources w rls))
        (source_upd rls (\<lambda>s. s\<lparr>rs_valid := False, rs_signaled := False, rs_runLoops := []\<rparr>) w)
      else w)"

text \<open>The info of the context, which is gone from the object by then, goes to its release callback.\<close>

definition release_context :: "CFRunLoopContext \<Rightarrow> rl_world \<Rightarrow> rl_world" where
  "release_context c w =
     (case rc_release c of Some release \<Rightarrow> emit (Release_context (fn_addr release) (rc_info c)) w | None \<Rightarrow> w)"

definition CFRunLoopObserverInvalidate :: "nat \<Rightarrow> rl_world \<Rightarrow> rl_world" where
  "CFRunLoopObserverInvalidate rlo w =
     (let ob = w_observers w rlo
      in if ro_valid ob
         then
           (let w = observer_upd rlo (\<lambda>ob. ob\<lparr>ro_context := (ro_context ob)\<lparr>rc_info := 0\<rparr>, ro_valid := False\<rparr>) w;
                w = (case ro_runLoop ob of
                       Some l \<Rightarrow> CFRunLoopRemoveObserver l rlo kCFRunLoopCommonModes
                         (fold (CFRunLoopRemoveObserver l rlo) (rev (CFRunLoopCopyAllModes l w)) w)
                     | None \<Rightarrow> w)
            in release_context (ro_context ob) w)
         else w)"

definition CFRunLoopTimerInvalidate :: "timer \<Rightarrow> rl_world \<Rightarrow> rl_world" where
  "CFRunLoopTimerInvalidate rlt w =
     (let t = w_timers w rlt
      in if rt_valid t
         then
           (let w = timer_upd rlt (\<lambda>t. t\<lparr>rt_context := (rt_context t)\<lparr>rc_info := 0\<rparr>, rt_valid := False\<rparr>) w;
                w = (case rt_runLoop t of
                       Some l \<Rightarrow> CFRunLoopRemoveTimer l rlt kCFRunLoopCommonModes
                         (fold (CFRunLoopRemoveTimer l rlt) (rt_rlModes t) w)
                     | None \<Rightarrow> w)
            in release_context (rt_context t) w)
         else w)"

section \<open>Blocks\<close>

definition CFRunLoopPerformBlock :: "nat \<Rightarrow> block_mode \<Rightarrow> nat option \<Rightarrow> rl_world \<Rightarrow> rl_world" where
  "CFRunLoopPerformBlock l mode block w =
     (let w = (case mode of
                 Mode_name name \<Rightarrow> CFRunLoopFindMode l name w
               | Mode_names names \<Rightarrow> fold (CFRunLoopFindMode l) names w
               | Other_type \<Rightarrow> w)
      in case block of
           None \<Rightarrow> w
         | Some b \<Rightarrow>
             if mode = Other_type then w
             else loop_upd l (\<lambda>rl. rl\<lparr>rl_blocks := rl_blocks rl @ [(mode, b)]\<rparr>) w)"

end
