(* ===== verification/RunLoopModes.thy ===== *)
theory RunLoopModes
  imports RunLoop StepSystem
begin

text \<open>
  What the operations of RunLoop.thy keep: the timers and observers of the modes and their links to
  the modes (\<open>timers_ok\<close>, \<open>observers_ok\<close>), the effect of invalidation, and the common modes. The calls
  of a program are the steps \<open>rl_step\<close>.
\<close>

section \<open>What the updates change\<close>

lemma find_mode_put [simp]:
  "find_mode l n (put_mode l' n' m w) = (if l = l' \<and> n = n' then Some m else find_mode l n w)"
  by (simp add: find_mode_def put_mode_def loop_upd_def update_conv')

lemma find_mode_upd [simp]:
  "(\<And>rl. rl_modes (f rl) = rl_modes rl) \<Longrightarrow> find_mode l n (loop_upd l' f w) = find_mode l n w"
  "find_mode l n (source_upd s g w) = find_mode l n w"
  "find_mode l n (observer_upd ob h w) = find_mode l n w"
  "find_mode l n (timer_upd t k w) = find_mode l n w"
  "find_mode l n (emit e w) = find_mode l n w"
  by (simp_all add: find_mode_def loop_upd_def source_upd_def observer_upd_def timer_upd_def emit_def)

lemma w_timers_upd [simp]:
  "w_timers (loop_upd l f w) = w_timers w" "w_timers (source_upd s g w) = w_timers w"
  "w_timers (observer_upd ob h w) = w_timers w" "w_timers (emit e w) = w_timers w" "w_timers (put_mode l n m w) = w_timers w"
  "w_timers (timer_upd t k w) = (w_timers w)(t := k (w_timers w t))"
  by (simp_all add: loop_upd_def source_upd_def observer_upd_def timer_upd_def emit_def put_mode_def)

lemma w_observers_upd [simp]:
  "w_observers (loop_upd l f w) = w_observers w" "w_observers (source_upd s g w) = w_observers w"
  "w_observers (timer_upd t k w) = w_observers w" "w_observers (emit e w) = w_observers w" "w_observers (put_mode l n m w) = w_observers w"
  "w_observers (observer_upd ob h w) = (w_observers w)(ob := h (w_observers w ob))"
  by (simp_all add: loop_upd_def source_upd_def observer_upd_def timer_upd_def emit_def put_mode_def)

lemma find_mode_FindMode:
  "find_mode l n (CFRunLoopFindMode l' n' w) =
    (if l = l' \<and> n = n' \<and> find_mode l n w = None then Some (new_mode l n w) else find_mode l n w)"
  by (auto simp: CFRunLoopFindMode_def)

lemma w_FindMode [simp]:
  "w_timers (CFRunLoopFindMode l n w) = w_timers w" "w_observers (CFRunLoopFindMode l n w) = w_observers w"
  by (simp_all add: CFRunLoopFindMode_def)

lemma the_mode_FindMode: "find_mode l n (CFRunLoopFindMode l n w) = Some (the_mode l n (CFRunLoopFindMode l n w))"
  by (auto simp: the_mode_def find_mode_FindMode)

lemma fold_inv: "(\<And>x w. P w \<Longrightarrow> P (f x w)) \<Longrightarrow> P w \<Longrightarrow> P (fold f xs w)"
  by (induction xs arbitrary: w) auto

lemma fold_option_inv:
  "(\<And>x w w'. P w \<Longrightarrow> f x w = Some w' \<Longrightarrow> P w') \<Longrightarrow> P w \<Longrightarrow> fold_option f xs w = Some w' \<Longrightarrow> P w'"
  by (induction xs arbitrary: w) (auto simp: bind_eq_Some_conv)

section \<open>The timers of the modes\<close>

definition mode_timers :: "rl_world \<Rightarrow> nat \<Rightarrow> string \<Rightarrow> timer list" where
  "mode_timers w l n = (case find_mode l n w of None \<Rightarrow> [] | Some m \<Rightarrow> rm_timers m)"

text \<open>A timer is in the array of a mode exactly if it lists this mode of this run loop, and the arrays
  are in the order of the fire times. Only a timer of \<open>X\<close>, which is being invalidated, may be
  invalid and in a mode.\<close>

definition attached :: "rl_world \<Rightarrow> timer \<Rightarrow> nat \<Rightarrow> string \<Rightarrow> bool" where
  "attached w t l n \<longleftrightarrow> rt_runLoop (w_timers w t) = Some l \<and> n \<in> set (rt_rlModes (w_timers w t))"

definition timers_linked :: "timer set \<Rightarrow> rl_world \<Rightarrow> bool" where
  "timers_linked X w \<longleftrightarrow> (\<forall>l n. distinct (mode_timers w l n) \<and> (\<forall>t. t \<in> set (mode_timers w l n) \<longleftrightarrow> attached w t l n))
     \<and> (\<forall>t. distinct (rt_rlModes (w_timers w t)) \<and> (rt_runLoop (w_timers w t) = None \<longleftrightarrow> rt_rlModes (w_timers w t) = [])
          \<and> kCFRunLoopCommonModes \<notin> set (rt_rlModes (w_timers w t))
          \<and> (rt_valid (w_timers w t) \<or> t \<in> X \<or> rt_rlModes (w_timers w t) = []))"

definition timers_ok :: "timer set \<Rightarrow> rl_world \<Rightarrow> bool" where
  "timers_ok X w \<longleftrightarrow> timers_linked X w \<and> (\<forall>l n. timers_sorted (w_timers w) (mode_timers w l n))"

text \<open>The fields of a timer on which the invariant depends.\<close>

definition timer_links :: "CFRunLoopTimer \<Rightarrow> nat option \<times> string list \<times> u64 \<times> bool" where
  "timer_links t = (rt_runLoop t, rt_rlModes t, rt_fireTSR t, rt_valid t)"

lemma timers_ok_cong:
  assumes "\<And>t. timer_links (w_timers w' t) = timer_links (w_timers w t)" "\<And>l n. mode_timers w' l n = mode_timers w l n"
  shows "timers_ok X w' \<longleftrightarrow> timers_ok X w"
proof -
  have "rt_runLoop (w_timers w' t) = rt_runLoop (w_timers w t)" "rt_rlModes (w_timers w' t) = rt_rlModes (w_timers w t)"
    "rt_fireTSR (w_timers w' t) = rt_fireTSR (w_timers w t)" "rt_valid (w_timers w' t) = rt_valid (w_timers w t)" for t
    using assms(1) [of t] by (simp_all add: timer_links_def)
  then show ?thesis
    using assms(2) by (simp add: timers_ok_def timers_linked_def attached_def timers_sorted_def)
qed

lemma mode_timers_FindMode [simp]: "mode_timers (CFRunLoopFindMode l' n' w) l n = mode_timers w l n"
  by (auto simp: mode_timers_def find_mode_FindMode new_mode_def split: prod.splits)

lemma mode_timers_put:
  "mode_timers (put_mode l' n' m w) l n = (if l = l' \<and> n = n' then rm_timers m else mode_timers w l n)"
  by (simp add: mode_timers_def)

lemma mode_timers_upd [simp]:
  "(\<And>rl. rl_modes (f rl) = rl_modes rl) \<Longrightarrow> mode_timers (loop_upd l' f w) l n = mode_timers w l n"
  "mode_timers (source_upd s g w) l n = mode_timers w l n"
  "mode_timers (observer_upd ob h w) l n = mode_timers w l n"
  "mode_timers (timer_upd t k w) l n = mode_timers w l n"
  "mode_timers (emit e w) l n = mode_timers w l n"
  by (simp_all add: mode_timers_def)

lemma rm_timers_Arm: "rm_timers (fst (CFArmNextTimerInMode sys rate timers m)) = rm_timers m"
  by (auto simp: CFArmNextTimerInMode_def Let_def split: prod.splits if_splits)

lemma mode_timers_arm [simp]: "mode_timers (arm_next_timer l' n' w) l n = mode_timers w l n"
  using rm_timers_Arm
  by (auto simp: arm_next_timer_def mode_timers_upd_def mode_timers_def split: option.splits prod.splits) (metis fst_conv)

lemma w_timers_arm [simp]: "w_timers (arm_next_timer l' n' w) = w_timers w"
  by (auto simp: arm_next_timer_def mode_timers_upd_def split: option.splits prod.splits)

definition repositioned :: "(timer \<Rightarrow> CFRunLoopTimer) \<Rightarrow> timer \<Rightarrow> bool \<Rightarrow> timer list \<Rightarrow> timer list" where
  "repositioned timers rlt isInArray ts =
     (if isInArray \<and> rlt \<notin> set ts then ts
      else let ts = (if isInArray then remove1 rlt ts else ts)
           in CFArrayInsertValueAtIndex ts (nat (CFRunLoopInsertionIndexInTimerArray timers ts rlt)) rlt)"

lemma rm_timers_Reposition:
  "rm_timers (fst (CFRepositionTimerInMode sys rate timers rlt isInArray m)) = repositioned timers rlt isInArray (rm_timers m)"
  by (simp add: repositioned_def CFRepositionTimerInMode_def Let_def rm_timers_Arm)

lemma reposition_timer_simps [simp]:
  "w_timers (reposition_timer l rlt isInArray n w) = w_timers w"
  "find_mode l n w \<noteq> None \<Longrightarrow> mode_timers (reposition_timer l rlt isInArray n w) l' n' =
    (if l' = l \<and> n' = n then repositioned (w_timers w) rlt isInArray (mode_timers w l n) else mode_timers w l' n')"
  "find_mode l n w = None \<Longrightarrow> reposition_timer l rlt isInArray n w = w"
  using rm_timers_Reposition
  by (auto simp: reposition_timer_def mode_timers_upd_def mode_timers_def split: option.splits prod.splits) (metis fst_conv)+

lemma repositioned_sorted:
  assumes "timers_sorted timers (filter (\<lambda>t. t \<noteq> rlt) ts)" "distinct ts" "isInArray \<longleftrightarrow> rlt \<in> set ts"
  shows "timers_sorted timers (repositioned timers rlt isInArray ts)" "distinct (repositioned timers rlt isInArray ts)"
    "set (repositioned timers rlt isInArray ts) = insert rlt (set ts)"
proof -
  let ?m = "empty_mode\<lparr>rm_timers := ts\<rparr>"
  have ts: "rm_timers ?m = ts" by simp
  have r: "repositioned timers rlt isInArray ts = rm_timers (fst (CFRepositionTimerInMode undefined 1 timers rlt isInArray ?m))"
    by (simp add: rm_timers_Reposition)
  have short: "length (filter (\<lambda>t. t \<noteq> rlt) ts) < 2 ^ 29" using assms(2) by (intro other_timers_short [where rlt = rlt]) simp_all
  note c = CFRepositionTimerInMode_sorted [where rlm = ?m and timers = timers and rlt = rlt and isInArray = isInArray and sys = undefined and rate = 1,
      OF _ _ _ _ prod.collapse [symmetric], unfolded ts r [symmetric], OF assms short]
  show "timers_sorted timers (repositioned timers rlt isInArray ts)" using c by simp
  have ms: "mset (repositioned timers rlt isInArray ts) = mset (if isInArray then ts else rlt # ts)" using c assms(3) by (simp split: if_splits)
  then show "distinct (repositioned timers rlt isInArray ts)"
    using assms(2,3) mset_eq_imp_distinct_iff [OF ms] by (auto split: if_splits)
  show "set (repositioned timers rlt isInArray ts) = insert rlt (set ts)"
    using mset_eq_setD [OF ms] assms(3) by (auto split: if_splits)
qed

lemma sorted_fire_cong:
  "(\<And>t. t \<in> set ts \<Longrightarrow> rt_fireTSR (f t) = rt_fireTSR (g t)) \<Longrightarrow> timers_sorted f ts \<longleftrightarrow> timers_sorted g ts"
  by (simp add: timers_sorted_def cong: map_cong)

lemma timers_sorted_filter: "timers_sorted timers ts \<Longrightarrow> timers_sorted timers (filter P ts)"
  unfolding timers_sorted_def by (rule sorted_filter)

lemma linkedD:
  assumes "timers_linked X w"
  shows "distinct (mode_timers w l n)" "t \<in> set (mode_timers w l n) \<longleftrightarrow> attached w t l n" "distinct (rt_rlModes (w_timers w t))"
    "rt_runLoop (w_timers w t) = None \<longleftrightarrow> rt_rlModes (w_timers w t) = []" "kCFRunLoopCommonModes \<notin> set (rt_rlModes (w_timers w t))"
    "rt_valid (w_timers w t) \<or> t \<in> X \<or> rt_rlModes (w_timers w t) = []"
  using assms by (auto simp: timers_linked_def)

lemma okD:
  "timers_ok X w \<Longrightarrow> timers_linked X w" "timers_ok X w \<Longrightarrow> timers_sorted (w_timers w) (mode_timers w l n)"
  by (simp_all add: timers_ok_def)

lemma timers_ok_FindMode [simp]: "timers_ok X (CFRunLoopFindMode l n w) \<longleftrightarrow> timers_ok X w"
  by (rule timers_ok_cong) simp_all

lemma add_timer_ok:
  assumes ok: "timers_ok X w" and valid: "rt_valid (w_timers w t)" and n: "n \<noteq> kCFRunLoopCommonModes"
  shows "timers_ok X (add_timer_to_mode l t n w)"
proof (cases "n \<in> set (rt_rlModes (w_timers w t)) \<or> rt_runLoop (w_timers w t) \<noteq> None \<and> rt_runLoop (w_timers w t) \<noteq> Some l")
  case True
  then have "add_timer_to_mode l t n w = CFRunLoopFindMode l n w" by (auto simp: add_timer_to_mode_def Let_def)
  then show ?thesis using ok by simp
next
  case False
  define f where "f = (\<lambda>x :: CFRunLoopTimer. x\<lparr>rt_runLoop := Some l, rt_rlModes := rt_rlModes x @ [n]\<rparr>)"
  define w1 where "w1 = timer_upd t f (CFRunLoopFindMode l n w)"
  have w': "add_timer_to_mode l t n w = reposition_timer l t False n w1"
    using False by (auto simp: add_timer_to_mode_def Let_def w1_def f_def)
  have m1: "find_mode l n w1 \<noteq> None" by (simp add: w1_def the_mode_FindMode)
  note L = linkedD [OF okD(1) [OF ok]]
  have ts1: "mode_timers w1 l' n' = mode_timers w l' n'" for l' n' by (simp add: w1_def)
  have t1: "w_timers w1 = (w_timers w)(t := f (w_timers w t))" by (simp add: w1_def)
  have fire: "rt_fireTSR (w_timers w1 x) = rt_fireTSR (w_timers w x)" for x by (simp add: t1 f_def)
  have new: "t \<notin> set (mode_timers w l n)" using False L(2) by (auto simp: attached_def)
  have srt: "timers_sorted (w_timers w1) (mode_timers w l' n')" for l' n'
    using okD(2) [OF ok] sorted_fire_cong [of _ "w_timers w1" "w_timers w", OF fire] by blast
  note r = repositioned_sorted [OF timers_sorted_filter [OF srt] L(1), of False t l n, simplified new simp_thms not_True_eq_False]
  have ts: "mode_timers (reposition_timer l t False n w1) l' n' =
    (if l' = l \<and> n' = n then repositioned (w_timers w1) t False (mode_timers w l n) else mode_timers w l' n')" for l' n'
    using m1 by (simp add: ts1)
  have only: "attached w t l' n' \<Longrightarrow> l' = l" for l' n' using False L(4) by (auto simp: attached_def)
  show ?thesis unfolding w' timers_ok_def timers_linked_def
  proof (intro conjI allI)
    fix l' n'
    show "timers_sorted (w_timers (reposition_timer l t False n w1)) (mode_timers (reposition_timer l t False n w1) l' n')"
      using r(1) srt by (simp only: ts reposition_timer_simps split: if_splits) simp
    show "distinct (mode_timers (reposition_timer l t False n w1) l' n')" using r(2) L(1) by (simp add: ts)
    fix x
    show "x \<in> set (mode_timers (reposition_timer l t False n w1) l' n') \<longleftrightarrow> attached (reposition_timer l t False n w1) x l' n'"
      using r(3) L(2) [of x l' n'] L(4) [of t] only False by (auto simp: ts attached_def t1 f_def split: if_splits)
  next
    fix x
    show "distinct (rt_rlModes (w_timers (reposition_timer l t False n w1) x))"
      using L(3) False by (simp add: t1 f_def)
    show "(rt_runLoop (w_timers (reposition_timer l t False n w1) x) = None) = (rt_rlModes (w_timers (reposition_timer l t False n w1) x) = [])"
      using L(4) by (simp add: t1 f_def)
    show "kCFRunLoopCommonModes \<notin> set (rt_rlModes (w_timers (reposition_timer l t False n w1) x))" using L(5) n by (simp add: t1 f_def)
    show "rt_valid (w_timers (reposition_timer l t False n w1) x) \<or> x \<in> X \<or> rt_rlModes (w_timers (reposition_timer l t False n w1) x) = []"
      using L(6) valid by (simp add: t1 f_def)
  qed
qed

lemma remove_timer_ok:
  assumes ok: "timers_ok X w"
  shows "timers_ok X (remove_timer_from_mode l t n w)"
    and "rt_rlModes (w_timers (remove_timer_from_mode l t n w) t) =
      (if rt_runLoop (w_timers w t) = Some l then remove1 n (rt_rlModes (w_timers w t)) else rt_rlModes (w_timers w t))"
    and "rt_runLoop (w_timers w t) = Some l \<Longrightarrow> rt_runLoop (w_timers (remove_timer_from_mode l t n w) t) \<in> {None, Some l}"
proof -
  note L = linkedD [OF okD(1) [OF ok]]
  have "timers_ok X (remove_timer_from_mode l t n w)
    \<and> rt_rlModes (w_timers (remove_timer_from_mode l t n w) t) =
      (if rt_runLoop (w_timers w t) = Some l then remove1 n (rt_rlModes (w_timers w t)) else rt_rlModes (w_timers w t))
    \<and> (rt_runLoop (w_timers w t) = Some l \<longrightarrow> rt_runLoop (w_timers (remove_timer_from_mode l t n w) t) \<in> {None, Some l})"
  proof (cases "t \<in> set (mode_timers w l n)")
    case False
    then have "remove_timer_from_mode l t n w = w" by (auto simp: remove_timer_from_mode_def mode_timers_def split: option.splits)
    moreover have "rt_runLoop (w_timers w t) = Some l \<Longrightarrow> n \<notin> set (rt_rlModes (w_timers w t))"
      using False L(2) by (simp add: attached_def)
    ultimately show ?thesis using ok by (simp add: remove1_idem)
  next
    case True
    then obtain m where m: "find_mode l n w = Some m" "t \<in> set (rm_timers m)" "mode_timers w l n = rm_timers m"
      by (cases "find_mode l n w") (auto simp: mode_timers_def)
    define f where "f = (\<lambda>x :: CFRunLoopTimer. x\<lparr>rt_rlModes := remove1 n (rt_rlModes x), rt_runLoop := (if remove1 n (rt_rlModes x) = [] then None else rt_runLoop x)\<rparr>)"
    have w': "remove_timer_from_mode l t n w = arm_next_timer l n (put_mode l n (m\<lparr>rm_timers := remove1 t (rm_timers m)\<rparr>) (timer_upd t f w))"
      using m by (simp add: remove_timer_from_mode_def Let_def f_def)
    have tm: "w_timers (remove_timer_from_mode l t n w) = (w_timers w)(t := f (w_timers w t))" by (simp add: w')
    have ts: "mode_timers (remove_timer_from_mode l t n w) l' n' = (if l' = l \<and> n' = n then remove1 t (mode_timers w l n) else mode_timers w l' n')" for l' n'
      by (simp add: w' mode_timers_put m(3))
    have at: "rt_runLoop (w_timers w t) = Some l" "n \<in> set (rt_rlModes (w_timers w t))" using True L(2) by (auto simp: attached_def)
    have none: "remove1 n (rt_rlModes (w_timers w t)) = [] \<Longrightarrow> n' \<in> set (rt_rlModes (w_timers w t)) \<Longrightarrow> n' = n" for n'
      using in_set_remove1 [of n' n "rt_rlModes (w_timers w t)"] by fastforce
    have fire: "rt_fireTSR (w_timers (remove_timer_from_mode l t n w) x) = rt_fireTSR (w_timers w x)" for x by (simp add: tm f_def)
    have "timers_ok X (remove_timer_from_mode l t n w)" unfolding timers_ok_def timers_linked_def
    proof (intro conjI allI)
      fix l' n'
      have "timers_sorted (w_timers w) (remove1 t (mode_timers w l n))"
        using timers_sorted_filter [OF okD(2) [OF ok]] L(1) by (simp add: distinct_remove1_removeAll removeAll_filter_not_eq)
      then show "timers_sorted (w_timers (remove_timer_from_mode l t n w)) (mode_timers (remove_timer_from_mode l t n w) l' n')"
        using okD(2) [OF ok] sorted_fire_cong [of _ "w_timers (remove_timer_from_mode l t n w)" "w_timers w", OF fire] by (simp add: ts)
      show "distinct (mode_timers (remove_timer_from_mode l t n w) l' n')" using L(1) by (simp add: ts)
      fix x
      show "x \<in> set (mode_timers (remove_timer_from_mode l t n w) l' n') \<longleftrightarrow> attached (remove_timer_from_mode l t n w) x l' n'"
        using L(1) [of l n] L(2) [of x l' n'] L(3) [of t] at
        by (cases "x = t") (auto dest: none simp: ts attached_def tm f_def in_set_remove1 split: if_splits)
    next
      fix x
      show "distinct (rt_rlModes (w_timers (remove_timer_from_mode l t n w) x))"
        using L(3) by (simp add: tm f_def)
      show "(rt_runLoop (w_timers (remove_timer_from_mode l t n w) x) = None) = (rt_rlModes (w_timers (remove_timer_from_mode l t n w) x) = [])"
        using L(4) at by (simp add: tm f_def)
      show "kCFRunLoopCommonModes \<notin> set (rt_rlModes (w_timers (remove_timer_from_mode l t n w) x))"
        using L(5) by (auto simp: tm f_def dest!: set_remove1_subset [THEN subsetD])
      show "rt_valid (w_timers (remove_timer_from_mode l t n w) x) \<or> x \<in> X \<or> rt_rlModes (w_timers (remove_timer_from_mode l t n w) x) = []"
        using L(6) [of x] by (auto simp: tm f_def)
    qed
    then show ?thesis using at by (simp add: tm f_def)
  qed
  then show "timers_ok X (remove_timer_from_mode l t n w)"
    "rt_rlModes (w_timers (remove_timer_from_mode l t n w) t) =
      (if rt_runLoop (w_timers w t) = Some l then remove1 n (rt_rlModes (w_timers w t)) else rt_rlModes (w_timers w t))"
    "rt_runLoop (w_timers w t) = Some l \<Longrightarrow> rt_runLoop (w_timers (remove_timer_from_mode l t n w) t) \<in> {None, Some l}"
    by blast+
qed

lemma reposition_all:
  assumes "timers_linked X w" "rt_runLoop (w_timers w t) = Some l" "set ms \<subseteq> set (rt_rlModes (w_timers w t))"
    and "\<And>l n. timers_sorted (w_timers w) (filter (\<lambda>x. x \<noteq> t) (mode_timers w l n))"
    and "\<And>l n. attached w t l n \<Longrightarrow> n \<notin> set ms \<Longrightarrow> timers_sorted (w_timers w) (mode_timers w l n)"
  shows "timers_ok X (fold (reposition_timer l t True) ms w)"
  using assms
proof (induction ms arbitrary: w)
  case Nil
  have "timers_sorted (w_timers w) (mode_timers w l n)" for l n
  proof (cases "t \<in> set (mode_timers w l n)")
    case True
    then show ?thesis using Nil.prems(5) linkedD(2) [OF Nil.prems(1)] by simp
  next
    case False
    then have "filter (\<lambda>x. x \<noteq> t) (mode_timers w l n) = mode_timers w l n" by (intro filter_True) auto
    then show ?thesis using Nil.prems(4) by metis
  qed
  then show ?case using Nil.prems(1) by (simp add: timers_ok_def)
next
  case (Cons n ms)
  let ?w = "reposition_timer l t True n w"
  note L = linkedD [OF Cons.prems(1)]
  have t: "t \<in> set (mode_timers w l n)" using Cons.prems(2,3) L(2) by (simp add: attached_def)
  then have m: "find_mode l n w \<noteq> None" by (cases "find_mode l n w") (auto simp: mode_timers_def)
  note r = repositioned_sorted [OF Cons.prems(4) L(1), of True l n, simplified t simp_thms, OF TrueI, unfolded insert_absorb [OF t]]
  have ts: "mode_timers ?w l' n' = (if l' = l \<and> n' = n then repositioned (w_timers w) t True (mode_timers w l n) else mode_timers w l' n')" for l' n'
    using m by simp
  have at: "attached ?w x l' n' \<longleftrightarrow> attached w x l' n'" for x l' n' by (simp add: attached_def)
  show ?case unfolding fold.simps comp_apply
  proof (rule Cons.IH)
    show "timers_linked X ?w"
      using Cons.prems(1) r(2,3) by (auto simp: timers_linked_def at ts)
    show "rt_runLoop (w_timers ?w t) = Some l" "set ms \<subseteq> set (rt_rlModes (w_timers ?w t))" using Cons.prems by simp_all
    show "timers_sorted (w_timers ?w) (filter (\<lambda>x. x \<noteq> t) (mode_timers ?w l' n'))" for l' n'
      using Cons.prems(4) timers_sorted_filter [OF r(1)] by (simp add: ts)
    show "timers_sorted (w_timers ?w) (mode_timers ?w l' n')" if a: "attached ?w t l' n'" "n' \<notin> set ms" for l' n'
    proof (cases "n' = n")
      case True
      then have "l' = l" using a(1) Cons.prems(2) by (simp add: attached_def)
      then show ?thesis using True r(1) by (simp add: ts)
    next
      case False
      then show ?thesis using Cons.prems(5) a by (simp add: ts at)
    qed
  qed
qed

lemma set_fire_time_ok:
  assumes ok: "timers_ok X w"
  shows "timers_ok X (set_fire_time t fire date w)"
proof -
  define f where "f = (\<lambda>x :: CFRunLoopTimer. x\<lparr>rt_fireTSR := fire, rt_nextFireDate := date\<rparr>)"
  let ?w = "timer_upd t f w"
  note L = linkedD [OF okD(1) [OF ok]]
  have linked: "timers_linked X ?w"
    using okD(1) [OF ok] by (auto simp: timers_linked_def attached_def f_def)
  have fire: "x \<noteq> t \<Longrightarrow> rt_fireTSR (w_timers ?w x) = rt_fireTSR (w_timers w x)" for x by simp
  have srt: "timers_sorted (w_timers ?w) (filter (\<lambda>x. x \<noteq> t) (mode_timers ?w l n))" for l n
    using timers_sorted_filter [OF okD(2) [OF ok]] sorted_fire_cong [of "filter (\<lambda>x. x \<noteq> t) (mode_timers ?w l n)" "w_timers ?w" "w_timers w"]
    by simp
  show ?thesis
  proof (cases "rt_runLoop (w_timers w t)")
    case None
    then have w': "set_fire_time t fire date w = fold (reposition_timer l t True) [] ?w" for l by (simp add: set_fire_time_def f_def)
    have "\<not> attached w t l n" for l n using None by (simp add: attached_def)
    then have "t \<notin> set (mode_timers ?w l n)" for l n using L(2) by simp
    then have "filter (\<lambda>x. x \<noteq> t) (mode_timers ?w l n) = mode_timers ?w l n" for l n by (intro filter_True) auto
    then have "timers_ok X ?w" using linked srt unfolding timers_ok_def by metis
    then show ?thesis using w' by simp
  next
    case (Some l)
    then have w': "set_fire_time t fire date w = fold (reposition_timer l t True) (rt_rlModes (w_timers w t)) ?w"
      by (simp add: set_fire_time_def f_def Let_def)
    show ?thesis unfolding w'
      by (rule reposition_all [OF linked _ _ srt]) (use Some in \<open>simp_all add: f_def attached_def\<close>)
  qed
qed

section \<open>The observers of the modes\<close>

definition mode_observers :: "rl_world \<Rightarrow> nat \<Rightarrow> string \<Rightarrow> nat list" where
  "mode_observers w l n = (case find_mode l n w of None \<Rightarrow> [] | Some m \<Rightarrow> rm_observers m)"

text \<open>The arrays of observers are in their order, an observer is in one run loop only, and it counts the
  modes it is in.\<close>

definition observer_modes :: "rl_world \<Rightarrow> nat \<Rightarrow> nat \<Rightarrow> string set" where
  "observer_modes w ob l = {n. ob \<in> set (mode_observers w l n)}"

definition observer_linked :: "nat set \<Rightarrow> rl_world \<Rightarrow> nat \<Rightarrow> bool" where
  "observer_linked X w ob \<longleftrightarrow>
     (case ro_runLoop (w_observers w ob) of
        None \<Rightarrow> ro_rlCount (w_observers w ob) = 0 \<and> (\<forall>l. observer_modes w ob l = {})
      | Some l \<Rightarrow> ro_rlCount (w_observers w ob) = int (card (observer_modes w ob l)) \<and> observer_modes w ob l \<noteq> {}
          \<and> kCFRunLoopCommonModes \<notin> observer_modes w ob l \<and> (\<forall>l'. l' \<noteq> l \<longrightarrow> observer_modes w ob l' = {})
          \<and> (ro_valid (w_observers w ob) \<or> ob \<in> X))"

definition observers_ok :: "nat set \<Rightarrow> rl_world \<Rightarrow> bool" where
  "observers_ok X w \<longleftrightarrow>
     (\<forall>l n. distinct (mode_observers w l n) \<and> sorted (map (\<lambda>ob. ro_order (w_observers w ob)) (mode_observers w l n)))
     \<and> (\<forall>ob. observer_linked X w ob)"

definition observer_links :: "CFRunLoopObserver \<Rightarrow> nat option \<times> int \<times> int \<times> bool" where
  "observer_links ob = (ro_runLoop ob, ro_rlCount ob, ro_order ob, ro_valid ob)"

lemma observers_ok_cong:
  assumes "\<And>ob. observer_links (w_observers w' ob) = observer_links (w_observers w ob)" "\<And>l n. mode_observers w' l n = mode_observers w l n"
  shows "observers_ok X w' \<longleftrightarrow> observers_ok X w"
proof -
  have "ro_runLoop (w_observers w' ob) = ro_runLoop (w_observers w ob)" "ro_rlCount (w_observers w' ob) = ro_rlCount (w_observers w ob)"
    "ro_order (w_observers w' ob) = ro_order (w_observers w ob)" "ro_valid (w_observers w' ob) = ro_valid (w_observers w ob)" for ob
    using assms(1) [of ob] by (simp_all add: observer_links_def)
  then show ?thesis
    using assms(2) by (simp add: observers_ok_def observer_linked_def observer_modes_def cong: option.case_cong)
qed

lemma mode_observers_FindMode [simp]: "mode_observers (CFRunLoopFindMode l' n' w) l n = mode_observers w l n"
  by (auto simp: mode_observers_def find_mode_FindMode new_mode_def split: prod.splits)

lemma mode_observers_put:
  "mode_observers (put_mode l' n' m w) l n = (if l = l' \<and> n = n' then rm_observers m else mode_observers w l n)"
  by (simp add: mode_observers_def)

lemma mode_observers_upd [simp]:
  "(\<And>rl. rl_modes (f rl) = rl_modes rl) \<Longrightarrow> mode_observers (loop_upd l' f w) l n = mode_observers w l n"
  "mode_observers (source_upd s g w) l n = mode_observers w l n"
  "mode_observers (observer_upd ob h w) l n = mode_observers w l n"
  "mode_observers (timer_upd t k w) l n = mode_observers w l n"
  "mode_observers (emit e w) l n = mode_observers w l n"
  by (simp_all add: mode_observers_def)

lemma rm_observers_Arm: "rm_observers (fst (CFArmNextTimerInMode sys rate timers m)) = rm_observers m"
  by (auto simp: CFArmNextTimerInMode_def Let_def split: prod.splits if_splits)

lemma rm_observers_Reposition: "rm_observers (fst (CFRepositionTimerInMode sys rate timers rlt isInArray m)) = rm_observers m"
  by (simp add: CFRepositionTimerInMode_def Let_def rm_observers_Arm)

lemma observers_arm [simp]:
  "mode_observers (arm_next_timer l' n' w) l n = mode_observers w l n" "w_observers (arm_next_timer l' n' w) = w_observers w"
  "mode_observers (reposition_timer l' t i n' w) l n = mode_observers w l n" "w_observers (reposition_timer l' t i n' w) = w_observers w"
  using rm_observers_Arm rm_observers_Reposition
  by (auto simp: arm_next_timer_def reposition_timer_def mode_timers_upd_def mode_observers_def split: option.splits prod.splits) (metis fst_conv)+

lemma finite_observer_modes [simp]: "finite (observer_modes w ob l)"
proof (rule finite_subset)
  show "observer_modes w ob l \<subseteq> dom (map_of (rl_modes (w_loops w l)))"
    unfolding observer_modes_def mode_observers_def find_mode_def
    by (rule subsetI, drule CollectD, rule domIff [THEN iffD2], rule notI) simp
  show "finite (dom (map_of (rl_modes (w_loops w l))))" by (rule finite_dom_map_of)
qed

lemma observer_position_spec:
  assumes "sorted (map (\<lambda>ob. ro_order (f ob)) obs)" "idx \<le> length obs"
    and "\<And>i. idx \<le> i \<Longrightarrow> i < length obs \<Longrightarrow> ro_order (f rlo) < ro_order (f (obs ! i))"
  shows "observer_position f obs rlo idx \<le> length obs
    \<and> (\<forall>i < length obs. i < observer_position f obs rlo idx \<longleftrightarrow> ro_order (f (obs ! i)) \<le> ro_order (f rlo))"
  using assms
proof (induction idx)
  case 0
  then show ?case by (auto simp: not_le)
next
  case (Suc idx)
  show ?case
  proof (cases "ro_order (f (obs ! idx)) \<le> ro_order (f rlo)")
    case True
    have "ro_order (f (obs ! i)) \<le> ro_order (f (obs ! idx))" if "i \<le> idx" for i
      using sorted_nth_mono [OF Suc.prems(1) that] that Suc.prems(2) by simp
    then have "i < Suc idx \<longleftrightarrow> ro_order (f (obs ! i)) \<le> ro_order (f rlo)" if "i < length obs" for i
      using True Suc.prems(3) [of i] that by (cases "i \<le> idx") (auto simp: order.trans [OF _ True])
    then show ?thesis using True Suc.prems(2) by simp
  next
    case False
    have "ro_order (f rlo) < ro_order (f (obs ! i))" if "idx \<le> i" "i < length obs" for i
      using False Suc.prems(3) [of i] that by (cases "i = idx") auto
    then show ?thesis using False Suc.IH [OF Suc.prems(1)] Suc.prems(2) by simp
  qed
qed

lemma observer_insert_sorted:
  assumes "sorted (map (\<lambda>ob. ro_order (f ob)) obs)"
  shows "CFArrayInsertValueAtIndex obs (observer_position f obs rlo (length obs)) rlo
    = takeWhile (\<lambda>ob. ro_order (f ob) \<le> ro_order (f rlo)) obs @ rlo # dropWhile (\<lambda>ob. ro_order (f ob) \<le> ro_order (f rlo)) obs"
    (is "?new = takeWhile ?P obs @ _")
    and "sorted (map (\<lambda>ob. ro_order (f ob)) (CFArrayInsertValueAtIndex obs (observer_position f obs rlo (length obs)) rlo))"
      (is "sorted (map ?o _)")
    and "mset (CFArrayInsertValueAtIndex obs (observer_position f obs rlo (length obs)) rlo) = add_mset rlo (mset obs)"
proof -
  let ?p = "observer_position f obs rlo (length obs)"
  have p: "?p \<le> length obs" "\<And>i. i < length obs \<Longrightarrow> i < ?p \<longleftrightarrow> ?P (obs ! i)"
    using observer_position_spec [OF assms order_refl] by auto
  have take: "takeWhile ?P obs = take ?p obs" 
    using p(2) [of ?p] by (intro takeWhile_eq_take_P_nth) (auto simp: p(2))
  then have drop: "dropWhile ?P obs = drop ?p obs" using p(1) by (simp add: dropWhile_eq_drop)
  show new: "?new = takeWhile ?P obs @ rlo # dropWhile ?P obs" by (simp add: CFArrayInsertValueAtIndex_def take drop)
  show "mset ?new = add_mset rlo (mset obs)"
    unfolding new mset_append mset.simps by (metis add_mset_add_single mset_append takeWhile_dropWhile_id union_mset_add_mset_right)
  have "ro_order (f rlo) \<le> ro_order (f x)" if x: "x \<in> set (dropWhile ?P obs)" for x
  proof -
    obtain i where i: "x = obs ! (?p + i)" "?p + i < length obs"
      using x p(1) by (auto simp: drop in_set_conv_nth less_diff_conv add.commute)
    then show ?thesis using p(2) [OF i(2)] by simp
  qed
  moreover have "ro_order (f x) \<le> ro_order (f rlo)" if "x \<in> set (takeWhile ?P obs)" for x
    using set_takeWhileD [OF that] by simp
  moreover have "sorted (map ?o (takeWhile ?P obs) @ map ?o (dropWhile ?P obs))"
    unfolding map_append [symmetric] takeWhile_dropWhile_id by (rule assms)
  ultimately show "sorted (map ?o ?new)"
    unfolding new map_append list.map sorted_append sorted_wrt.simps list.set set_map by blast
qed

lemma observers_ok_FindMode [simp]: "observers_ok X (CFRunLoopFindMode l n w) \<longleftrightarrow> observers_ok X w"
  by (rule observers_ok_cong) simp_all

lemma observerD:
  assumes "observers_ok X w"
  shows "distinct (mode_observers w l n)" "sorted (map (\<lambda>ob. ro_order (w_observers w ob)) (mode_observers w l n))" "observer_linked X w ob"
  using assms by (simp_all add: observers_ok_def)

lemma observer_linkedD:
  assumes "observer_linked X w ob" "ob \<in> set (mode_observers w l n)"
  shows "ro_runLoop (w_observers w ob) = Some l" "n \<noteq> kCFRunLoopCommonModes"
proof -
  have "n \<in> observer_modes w ob l" using assms(2) by (simp add: observer_modes_def)
  then have "ro_runLoop (w_observers w ob) = Some l \<and> n \<noteq> kCFRunLoopCommonModes"
    using assms(1) unfolding observer_linked_def
    by (cases "ro_runLoop (w_observers w ob)"; cases "ro_runLoop (w_observers w ob) = Some l") force+
  then show "ro_runLoop (w_observers w ob) = Some l" "n \<noteq> kCFRunLoopCommonModes" by simp_all
qed

lemma sorted_order_cong:
  "(\<And>ob. ro_order (f ob) = ro_order (g ob)) \<Longrightarrow> sorted (map (\<lambda>ob. ro_order (f ob)) obs) \<longleftrightarrow> sorted (map (\<lambda>ob. ro_order (g ob)) obs)"
  by simp

lemma add_observer_ok:
  assumes ok: "observers_ok X w" and valid: "ro_valid (w_observers w ob)" and n: "n \<noteq> kCFRunLoopCommonModes"
    and loop: "ro_runLoop (w_observers w ob) = None \<or> ro_runLoop (w_observers w ob) = Some l"
  shows "observers_ok X (add_observer_to_mode l ob n w)"
proof (cases "ob \<in> set (mode_observers w l n)")
  case True
  then have "add_observer_to_mode l ob n w = CFRunLoopFindMode l n w"
    using mode_observers_FindMode [of l n w l n] by (simp add: add_observer_to_mode_def Let_def mode_observers_def the_mode_FindMode)
  then show ?thesis using ok by simp
next
  case False
  let ?w = "CFRunLoopFindMode l n w"
  let ?obs = "mode_observers w l n"
  let ?w' = "add_observer_to_mode l ob n w"
  define m where "m = the_mode l n ?w"
  have obs: "rm_observers m = ?obs"
    using mode_observers_FindMode [of l n w l n] by (simp add: mode_observers_def the_mode_FindMode m_def)
  define f where "f = (\<lambda>x :: CFRunLoopObserver. x\<lparr>ro_runLoop := (if ro_rlCount x = 0 then Some l else ro_runLoop x), ro_rlCount := ro_rlCount x + 1\<rparr>)"
  define new where "new = CFArrayInsertValueAtIndex ?obs (observer_position (w_observers w) ?obs ob (length ?obs)) ob"
  have w': "?w' = observer_upd ob f (put_mode l n (m\<lparr>rm_observers := new, rm_observerMask := rm_observerMask m OR ro_activities (w_observers w ob)\<rparr>) ?w)"
    using False by (simp add: add_observer_to_mode_def Let_def m_def [symmetric] obs new_def f_def CFRunLoopObserverSchedule_def)
  have obt: "w_observers ?w' = (w_observers w)(ob := f (w_observers w ob))" by (simp add: w')
  have obm: "mode_observers ?w' l' n' = (if l' = l \<and> n' = n then new else mode_observers w l' n')" for l' n'
    by (simp add: w' mode_observers_put)
  note O = observerD [OF ok]
  note i = observer_insert_sorted [where f = "w_observers w" and rlo = ob, OF O(2) [of l n], folded new_def]
  have new: "set new = insert ob (set ?obs)" "distinct new"
    using mset_eq_setD [OF trans [OF i(3) mset.simps(2) [symmetric]]] mset_eq_imp_distinct_iff [OF trans [OF i(3) mset.simps(2) [symmetric]]] False O(1)
    by simp_all
  have modes: "observer_modes ?w' x l' = (if x = ob \<and> l' = l then insert n (observer_modes w x l') else observer_modes w x l')" for x l'
    using new(1) by (auto simp: observer_modes_def obm)
  have notin: "n \<notin> observer_modes w ob l" using False by (simp add: observer_modes_def)
  have order: "ro_order (w_observers ?w' x) = ro_order (w_observers w x)" for x by (simp add: obt f_def)
  show ?thesis unfolding observers_ok_def
  proof (intro conjI allI)
    show "distinct (mode_observers ?w' l' n')" for l' n' using new(2) O(1) by (simp add: obm)
    show "sorted (map (\<lambda>x. ro_order (w_observers ?w' x)) (mode_observers ?w' l' n'))" for l' n'
      unfolding order using i(2) O(2) by (simp add: obm new_def)
    show "observer_linked X ?w' x" for x
    proof (cases "x = ob")
      case True
      show ?thesis
      proof (cases "ro_runLoop (w_observers w ob)")
        case None
        then show ?thesis using O(3) [of ob] True n valid by (simp add: observer_linked_def obt f_def modes)
      next
        case (Some l0)
        then have "l0 = l" using loop by simp
        then show ?thesis using O(3) [of ob] Some True n valid notin by (auto simp: observer_linked_def obt f_def modes card_gt_0_iff)
      qed
    next
      case False
      then show ?thesis using O(3) [of x] by (simp add: observer_linked_def obt modes split: option.splits)
    qed
  qed
qed

lemma remove_observer_ok:
  assumes ok: "observers_ok X w"
  shows "observers_ok X (remove_observer_from_mode l ob n w)"
    and "observer_modes (remove_observer_from_mode l ob n w) ob l = observer_modes w ob l - {n}"
    and "ro_runLoop (w_observers w ob) = Some l \<Longrightarrow> ro_runLoop (w_observers (remove_observer_from_mode l ob n w) ob) \<in> {None, Some l}"
proof -
  let ?w' = "remove_observer_from_mode l ob n w"
  note O = observerD [OF ok]
  have "observers_ok X ?w' \<and> observer_modes ?w' ob l = observer_modes w ob l - {n}
    \<and> (ro_runLoop (w_observers w ob) = Some l \<longrightarrow> ro_runLoop (w_observers ?w' ob) \<in> {None, Some l})"
  proof (cases "ob \<in> set (mode_observers w l n)")
    case False
    then have "?w' = w" by (cases "find_mode l n w") (auto simp: remove_observer_from_mode_def mode_observers_def)
    then show ?thesis using ok False by (auto simp: observer_modes_def)
  next
    case True
    then obtain m where m: "find_mode l n w = Some m" "ob \<in> set (rm_observers m)" "mode_observers w l n = rm_observers m"
      by (cases "find_mode l n w") (auto simp: mode_observers_def)
    define f where "f = (\<lambda>x :: CFRunLoopObserver. x\<lparr>ro_rlCount := ro_rlCount x - 1, ro_runLoop := (if ro_rlCount x - 1 = 0 then None else ro_runLoop x)\<rparr>)"
    have w': "?w' = observer_upd ob f (put_mode l n (m\<lparr>rm_observers := remove1 ob (rm_observers m)\<rparr>) w)"
      using m by (simp add: remove_observer_from_mode_def f_def CFRunLoopObserverCancel_def)
    have obt: "w_observers ?w' = (w_observers w)(ob := f (w_observers w ob))" by (simp add: w')
    have obm: "mode_observers ?w' l' n' = (if l' = l \<and> n' = n then remove1 ob (mode_observers w l n) else mode_observers w l' n')" for l' n'
      by (simp add: w' mode_observers_put m(3))
    have modes: "observer_modes ?w' x l' = (if x = ob \<and> l' = l then observer_modes w x l' - {n} else observer_modes w x l')" for x l'
      using O(1) [of l n] by (auto simp: observer_modes_def obm in_set_remove1)
    have n: "n \<in> observer_modes w ob l" using True by (simp add: observer_modes_def)
    have loop: "ro_runLoop (w_observers w ob) = Some l" by (rule observer_linkedD [OF O(3) True])
    have order: "ro_order (w_observers ?w' x) = ro_order (w_observers w x)" for x by (simp add: obt f_def)
    have "observers_ok X ?w'" unfolding observers_ok_def
    proof (intro conjI allI)
      show "distinct (mode_observers ?w' l' n')" for l' n' using O(1) by (simp add: obm)
      show "sorted (map (\<lambda>x. ro_order (w_observers ?w' x)) (mode_observers ?w' l' n'))" for l' n'
        unfolding order using O(2) by (simp add: obm sorted_map_remove1)
      show "observer_linked X ?w' x" for x
      proof (cases "x = ob")
        case True
        have card: "card (observer_modes w ob l - {n}) = card (observer_modes w ob l) - 1" "0 < card (observer_modes w ob l)"
          using n by (auto simp: card_Diff_singleton card_gt_0_iff)
        have nil: "observer_modes w ob l - {n} = {} \<longleftrightarrow> card (observer_modes w ob l) = 1"
          using n card card_eq_0_iff [of "observer_modes w ob l - {n}"] by auto
        show ?thesis using O(3) [of ob] loop True card nil
          by (auto simp: observer_linked_def obt f_def modes of_nat_diff)
      next
        case False
        then show ?thesis using O(3) [of x] by (simp add: observer_linked_def obt modes split: option.splits)
      qed
    qed
    then show ?thesis using loop by (simp add: modes obt f_def)
  qed
  then show "observers_ok X ?w'" "observer_modes ?w' ob l = observer_modes w ob l - {n}"
    "ro_runLoop (w_observers w ob) = Some l \<Longrightarrow> ro_runLoop (w_observers ?w' ob) \<in> {None, Some l}"
    by blast+
qed

section \<open>The invariant of the operations\<close>

definition runloop_ok :: "timer set \<Rightarrow> nat set \<Rightarrow> rl_world \<Rightarrow> bool" where
  "runloop_ok X Y w \<longleftrightarrow> timers_ok X w \<and> observers_ok Y w"

text \<open>Worlds that agree in all on which the invariant depends.\<close>

definition same_links :: "rl_world \<Rightarrow> rl_world \<Rightarrow> bool" where
  "same_links w' w \<longleftrightarrow> (\<forall>t. timer_links (w_timers w' t) = timer_links (w_timers w t)) \<and> (\<forall>l n. mode_timers w' l n = mode_timers w l n)
     \<and> (\<forall>ob. observer_links (w_observers w' ob) = observer_links (w_observers w ob)) \<and> (\<forall>l n. mode_observers w' l n = mode_observers w l n)"

lemma runloop_ok_cong: "same_links w' w \<Longrightarrow> runloop_ok X Y w' \<longleftrightarrow> runloop_ok X Y w"
  unfolding same_links_def runloop_ok_def by (metis timers_ok_cong observers_ok_cong)

lemma runloop_ok_upd [simp]:
  "(\<And>rl. rl_modes (f rl) = rl_modes rl) \<Longrightarrow> runloop_ok X Y (loop_upd l f w) \<longleftrightarrow> runloop_ok X Y w"
  "runloop_ok X Y (source_upd s g w) \<longleftrightarrow> runloop_ok X Y w"
  "runloop_ok X Y (emit e w) \<longleftrightarrow> runloop_ok X Y w"
  "runloop_ok X Y (CFRunLoopFindMode l n w) \<longleftrightarrow> runloop_ok X Y w"
  by (rule runloop_ok_cong; simp add: same_links_def)+

lemma runloop_ok_put [simp]:
  assumes "find_mode l n w = Some m" "rm_timers m' = rm_timers m" "rm_observers m' = rm_observers m"
  shows "runloop_ok X Y (put_mode l n m' w) \<longleftrightarrow> runloop_ok X Y w"
  by (rule runloop_ok_cong)
    (use assms in \<open>auto simp: same_links_def mode_timers_put mode_observers_put mode_timers_def mode_observers_def\<close>)

lemma runloop_ok_source_mode [simp]:
  "runloop_ok X Y (add_source_to_mode l s n w) \<longleftrightarrow> runloop_ok X Y w"
  "runloop_ok X Y (remove_source_from_mode l s n w) \<longleftrightarrow> runloop_ok X Y w"
proof -
  have put: "runloop_ok X Y (put_mode l n m' (CFRunLoopFindMode l n w)) \<longleftrightarrow> runloop_ok X Y w"
    if "rm_timers m' = rm_timers (the_mode l n (CFRunLoopFindMode l n w))"
      "rm_observers m' = rm_observers (the_mode l n (CFRunLoopFindMode l n w))" for m'
    using runloop_ok_put [OF the_mode_FindMode that] by simp
  show "runloop_ok X Y (add_source_to_mode l s n w) \<longleftrightarrow> runloop_ok X Y w"
    by (simp add: add_source_to_mode_def Let_def put)
  show "runloop_ok X Y (remove_source_from_mode l s n w) \<longleftrightarrow> runloop_ok X Y w"
    by (simp add: remove_source_from_mode_def Let_def split: option.split)
qed

lemma the_mode_arrays:
  "rm_timers (the_mode l n (CFRunLoopFindMode l n w)) = mode_timers w l n"
  "rm_observers (the_mode l n (CFRunLoopFindMode l n w)) = mode_observers w l n"
  by (subst mode_timers_FindMode [of l n w l n, symmetric], unfold mode_timers_def the_mode_FindMode option.case, rule refl)
    (subst mode_observers_FindMode [of l n w l n, symmetric], unfold mode_observers_def the_mode_FindMode option.case, rule refl)

lemma timers_observer_mode [simp]:
  "mode_timers (add_observer_to_mode l ob n w) l' n' = mode_timers w l' n'" "w_timers (add_observer_to_mode l ob n w) = w_timers w"
  "mode_timers (remove_observer_from_mode l ob n w) l' n' = mode_timers w l' n'" "w_timers (remove_observer_from_mode l ob n w) = w_timers w"
proof -
  show "mode_timers (add_observer_to_mode l ob n w) l' n' = mode_timers w l' n'"
    by (auto simp: add_observer_to_mode_def Let_def CFRunLoopObserverSchedule_def mode_timers_put the_mode_arrays)
  show "mode_timers (remove_observer_from_mode l ob n w) l' n' = mode_timers w l' n'"
    by (auto simp: remove_observer_from_mode_def CFRunLoopObserverCancel_def mode_timers_put mode_timers_def split: option.splits)
qed (auto simp: add_observer_to_mode_def remove_observer_from_mode_def Let_def CFRunLoopObserverSchedule_def CFRunLoopObserverCancel_def split: option.split)

lemma observers_timer_mode [simp]:
  "mode_observers (add_timer_to_mode l t n w) l' n' = mode_observers w l' n'" "w_observers (add_timer_to_mode l t n w) = w_observers w"
  "mode_observers (remove_timer_from_mode l t n w) l' n' = mode_observers w l' n'" "w_observers (remove_timer_from_mode l t n w) = w_observers w"
  by (auto simp: add_timer_to_mode_def remove_timer_from_mode_def Let_def mode_observers_put mode_observers_def [of w l n] split: option.split)

lemma fold_reposition_observers [simp]:
  "mode_observers (fold (reposition_timer l' t i) ns w) l n = mode_observers w l n" "w_observers (fold (reposition_timer l' t i) ns w) = w_observers w"
  by (induction ns arbitrary: w) auto

lemma observers_set_fire_time [simp]:
  "mode_observers (set_fire_time t fire date w) l n = mode_observers w l n" "w_observers (set_fire_time t fire date w) = w_observers w"
  by (auto simp: set_fire_time_def Let_def split: option.split)

lemma observers_ok_same: "w_observers w' = w_observers w \<Longrightarrow> (\<And>l n. mode_observers w' l n = mode_observers w l n) \<Longrightarrow> observers_ok Y w' \<longleftrightarrow> observers_ok Y w"
  by (rule observers_ok_cong) simp_all

lemma timers_ok_same: "w_timers w' = w_timers w \<Longrightarrow> (\<And>l n. mode_timers w' l n = mode_timers w l n) \<Longrightarrow> timers_ok X w' \<longleftrightarrow> timers_ok X w"
  by (rule timers_ok_cong) simp_all

lemma add_to_mode_ok:
  assumes "runloop_ok X Y w" "may_add l item w" "n \<noteq> kCFRunLoopCommonModes"
  shows "runloop_ok X Y (add_to_mode l item n w)"
  using assms add_timer_ok add_observer_ok
  by (auto simp: add_to_mode_def may_add_def runloop_ok_def observers_ok_same [of "add_timer_to_mode l t n w" w for t]
      timers_ok_same [of "add_observer_to_mode l t n w" w for t] runloop_ok_source_mode [unfolded runloop_ok_def] split: item.splits)

lemma remove_from_mode_ok:
  assumes "runloop_ok X Y w"
  shows "runloop_ok X Y (remove_from_mode l item n w)"
  using assms remove_timer_ok(1) remove_observer_ok(1)
  by (auto simp: remove_from_mode_def runloop_ok_def observers_ok_same [of "remove_timer_from_mode l t n w" w for t]
      timers_ok_same [of "remove_observer_from_mode l t n w" w for t] runloop_ok_source_mode [unfolded runloop_ok_def] split: item.splits)

lemma set_fire_time_links: "runloop_ok X Y w \<Longrightarrow> runloop_ok X Y (set_fire_time t fire date w)"
  by (simp add: runloop_ok_def set_fire_time_ok observers_ok_same [of "set_fire_time t fire date w" w])

lemma CFRunLoopAddItem_ok:
  "CFRunLoopAddItem fuel l item n w = Some w' \<Longrightarrow> runloop_ok X Y w \<Longrightarrow> runloop_ok X Y w'"
proof (induction fuel arbitrary: n w w')
  case 0
  then show ?case by (auto simp: CFRunLoopAddItem.simps [of 0] add_to_mode_ok split: if_splits)
next
  case (Suc fuel)
  have "runloop_ok X Y w'" if "n = kCFRunLoopCommonModes" "may_add l item w"
  proof (rule fold_option_inv [where P = "runloop_ok X Y" and f = "CFRunLoopAddItem fuel l item"])
    show "runloop_ok X Y w \<Longrightarrow> CFRunLoopAddItem fuel l item x w = Some w' \<Longrightarrow> runloop_ok X Y w'" for x w w'
      by (rule Suc.IH)
    show "fold_option (CFRunLoopAddItem fuel l item) (rl_commonModes (w_loops w l))
      (loop_upd l (\<lambda>rl. rl\<lparr>rl_commonModeItems := (if list_ex (item_equal w item) (rl_commonModeItems rl) then rl_commonModeItems rl
                  else rl_commonModeItems rl @ [item])\<rparr>) w) = Some w'"
      using Suc.prems(1) that by (simp add: CFRunLoopAddItem.simps [of "Suc fuel"])
  qed (use Suc.prems(2) in simp)
  then show ?case using Suc.prems by (auto simp: CFRunLoopAddItem.simps [of "Suc fuel"] add_to_mode_ok split: if_splits)
qed

lemma CFRunLoopAddCommonMode_ok:
  "CFRunLoopAddCommonMode fuel l n w = Some w' \<Longrightarrow> runloop_ok X Y w \<Longrightarrow> runloop_ok X Y w'"
  unfolding CFRunLoopAddCommonMode_def
  by (auto split: if_splits elim!: fold_option_inv [where P = "runloop_ok X Y", rotated 2] intro: CFRunLoopAddItem_ok)

lemma CFRunLoopRemoveItem_ok: "runloop_ok X Y w \<Longrightarrow> runloop_ok X Y (CFRunLoopRemoveItem l item n w)"
  by (auto simp: CFRunLoopRemoveItem_def intro!: remove_from_mode_ok fold_inv [where P = "runloop_ok X Y"])

lemma remove_all_sources_of_mode_ok: "runloop_ok X Y w \<Longrightarrow> runloop_ok X Y (remove_all_sources_of_mode l n w)"
  by (auto simp: remove_all_sources_of_mode_def CFRunLoopRemoveSource_def Let_def
      intro!: CFRunLoopRemoveItem_ok fold_inv [where P = "runloop_ok X Y"] split: option.split)

lemma CFRunLoopRemoveAllSources_ok:
  "CFRunLoopRemoveAllSources fuel l n w = Some w' \<Longrightarrow> runloop_ok X Y w \<Longrightarrow> runloop_ok X Y w'"
proof (induction fuel arbitrary: n w w')
  case 0
  then show ?case by (auto simp: CFRunLoopRemoveAllSources.simps [of 0] remove_all_sources_of_mode_ok split: if_splits)
next
  case (Suc fuel)
  then show ?case
    by (auto simp: CFRunLoopRemoveAllSources.simps [of "Suc fuel"] remove_all_sources_of_mode_ok split: if_splits
        elim!: fold_option_inv [where P = "runloop_ok X Y", rotated 2])
qed

lemma CFRunLoopWakeUp_ok [simp]: "runloop_ok X Y (CFRunLoopWakeUp l w) \<longleftrightarrow> runloop_ok X Y w"
  by (simp add: CFRunLoopWakeUp_def)

lemma CFRunLoopStop_ok [simp]: "runloop_ok X Y (CFRunLoopStop l w) \<longleftrightarrow> runloop_ok X Y w"
  by (simp add: CFRunLoopStop_def)

lemma CFRunLoopStopMode_ok [simp]: "runloop_ok X Y (CFRunLoopStopMode l n w) \<longleftrightarrow> runloop_ok X Y w"
  by (simp add: CFRunLoopStopMode_def Let_def runloop_ok_put [OF the_mode_FindMode])

lemma CFRunLoopPerformBlock_ok: "runloop_ok X Y w \<Longrightarrow> runloop_ok X Y (CFRunLoopPerformBlock l mode block w)"
  by (auto simp: CFRunLoopPerformBlock_def Let_def intro!: fold_inv [where P = "runloop_ok X Y"] split: block_mode.split option.split)

lemma CFRunLoopTimerSetNextFireDate_ok: "runloop_ok X Y w \<Longrightarrow> runloop_ok X Y (CFRunLoopTimerSetNextFireDate t date w)"
  by (auto simp: CFRunLoopTimerSetNextFireDate_def Let_def set_fire_time_links split: option.split)

lemma SourceInvalidate_ok: "runloop_ok X Y w \<Longrightarrow> runloop_ok X Y (CFRunLoopSourceInvalidate rls w)"
proof -
  have loop: "runloop_ok X Y w \<Longrightarrow> runloop_ok X Y (remove_source_from_loop rls l w)" for l w
    by (auto simp: remove_source_from_loop_def CFRunLoopRemoveSource_def
        intro!: CFRunLoopRemoveItem_ok fold_inv [where P = "runloop_ok X Y"])
  have "runloop_ok X Y w \<Longrightarrow> runloop_ok X Y (remove_from_loops rls previous ls w)" for previous ls w
    by (induction ls arbitrary: previous w) (auto intro: loop)
  then show "runloop_ok X Y w \<Longrightarrow> runloop_ok X Y (CFRunLoopSourceInvalidate rls w)"
    by (simp add: CFRunLoopSourceInvalidate_def)
qed

lemma runloop_okD: "runloop_ok X Y w \<Longrightarrow> timers_ok X w" "runloop_ok X Y w \<Longrightarrow> observers_ok Y w"
  by (simp_all add: runloop_ok_def)

text \<open>Removing an item from some modes.\<close>

lemma remove_timer_from_modes:
  assumes "runloop_ok X Y w" "kCFRunLoopCommonModes \<notin> set ns" "rt_runLoop (w_timers w t) \<in> {None, Some l}"
  shows "runloop_ok X Y (fold (CFRunLoopRemoveTimer l t) ns w)
    \<and> set (rt_rlModes (w_timers (fold (CFRunLoopRemoveTimer l t) ns w) t)) = set (rt_rlModes (w_timers w t)) - set ns
    \<and> rt_runLoop (w_timers (fold (CFRunLoopRemoveTimer l t) ns w) t) \<in> {None, Some l}"
  using assms
proof (induction ns arbitrary: w)
  case (Cons n ns)
  let ?w = "CFRunLoopRemoveTimer l t n w"
  have w: "?w = remove_timer_from_mode l t n w"
    using Cons.prems(2) by (auto simp: CFRunLoopRemoveTimer_def CFRunLoopRemoveItem_def remove_from_mode_def)
  note ok = runloop_okD(1) [OF Cons.prems(1)]
  note r = remove_timer_ok [where l = l and t = t and n = n, OF ok, folded w] and L = linkedD(2-) [OF okD(1) [OF ok], where t = t]
  have "runloop_ok X Y ?w" unfolding CFRunLoopRemoveTimer_def by (rule CFRunLoopRemoveItem_ok [OF Cons.prems(1)])
  moreover have "rt_runLoop (w_timers ?w t) \<in> {None, Some l}"
  proof (cases "rt_runLoop (w_timers w t)")
    case None
    then have "?w = w" using L(1) [of l n] L(3) by (cases "find_mode l n w") (auto simp: w remove_timer_from_mode_def mode_timers_def attached_def)
    then show ?thesis using None by simp
  qed (use r(3) Cons.prems(3) in auto)
  moreover have "set (rt_rlModes (w_timers ?w t)) = set (rt_rlModes (w_timers w t)) - {n}"
    using r(2) L(2,3) Cons.prems(3) by (auto simp: set_remove1_eq)
  ultimately show ?case using Cons.IH [of ?w] Cons.prems(2) by auto
qed auto

lemma removed_valid [simp]:
  "rt_valid (w_timers (remove_from_mode l item n w) t) = rt_valid (w_timers w t)"
  "ro_valid (w_observers (remove_from_mode l item n w) ob) = ro_valid (w_observers w ob)"
  by (cases item; auto simp: remove_from_mode_def remove_source_from_mode_def remove_timer_from_mode_def
      remove_observer_from_mode_def CFRunLoopObserverCancel_def Let_def split: option.split)+

lemma RemoveItem_valid [simp]:
  "rt_valid (w_timers (CFRunLoopRemoveItem l item n w) t) = rt_valid (w_timers w t)"
  "ro_valid (w_observers (CFRunLoopRemoveItem l item n w) ob) = ro_valid (w_observers w ob)"
proof -
  have "rt_valid (w_timers (fold (\<lambda>n w. if n = kCFRunLoopCommonModes then w else remove_from_mode l item n w) ns w) t) = rt_valid (w_timers w t)"
    "ro_valid (w_observers (fold (\<lambda>n w. if n = kCFRunLoopCommonModes then w else remove_from_mode l item n w) ns w) ob) = ro_valid (w_observers w ob)"
    for ns w by (induction ns arbitrary: w) auto
  then show "rt_valid (w_timers (CFRunLoopRemoveItem l item n w) t) = rt_valid (w_timers w t)"
    "ro_valid (w_observers (CFRunLoopRemoveItem l item n w) ob) = ro_valid (w_observers w ob)"
    by (simp_all add: CFRunLoopRemoveItem_def)
qed

lemma timers_ok_drop: "timers_ok X w \<Longrightarrow> rt_rlModes (w_timers w t) = [] \<Longrightarrow> timers_ok (X - {t}) w"
  by (auto simp: timers_ok_def timers_linked_def)

lemma observers_ok_drop: "observers_ok X w \<Longrightarrow> (\<And>l. observer_modes w ob l = {}) \<Longrightarrow> observers_ok (X - {ob}) w"
proof -
  assume ok: "observers_ok X w" and "\<And>l. observer_modes w ob l = {}"
  then have "observer_linked (X - {ob}) w x" for x
    using observerD(3) [OF ok, of x] unfolding observer_linked_def
    by (cases "x = ob"; cases "ro_runLoop (w_observers w x)") auto
  then show "observers_ok (X - {ob}) w" using ok by (simp add: observers_ok_def)
qed

lemma runloop_ok_emit_release [simp]: "runloop_ok X Y (release_context c w) \<longleftrightarrow> runloop_ok X Y w"
  by (simp add: release_context_def split: option.split)

lemma w_release_context [simp]: "w_timers (release_context c w) = w_timers w" "w_observers (release_context c w) = w_observers w"
  by (simp_all add: release_context_def split: option.split)

lemma CFRunLoopTimerInvalidate_ok:
  assumes "runloop_ok {} Y w"
  shows "runloop_ok {} Y (CFRunLoopTimerInvalidate t w)" "\<not> rt_valid (w_timers (CFRunLoopTimerInvalidate t w) t)"
proof -
  define f where "f = (\<lambda>t :: CFRunLoopTimer. t\<lparr>rt_context := (rt_context t)\<lparr>rc_info := 0\<rparr>, rt_valid := False\<rparr>)"
  let ?w = "timer_upd t f w" and ?ns = "rt_rlModes (w_timers w t)"
  note L = linkedD(2-) [OF okD(1) [OF runloop_okD(1) [OF assms]], where t = t]
  have fields: "rt_runLoop (f x) = rt_runLoop x" "rt_rlModes (f x) = rt_rlModes x" "rt_fireTSR (f x) = rt_fireTSR x" "\<not> rt_valid (f x)" for x
    by (simp_all add: f_def)
  have "timers_ok {t} ?w"
    using runloop_okD(1) [OF assms] sorted_fire_cong [of _ "(w_timers w)(t := f (w_timers w t))" "w_timers w"]
    by (simp add: timers_ok_def timers_linked_def attached_def fields)
  moreover have "observers_ok Y ?w" using runloop_okD(2) [OF assms] by (simp add: observers_ok_same [of ?w w])
  ultimately have ok: "runloop_ok {t} Y ?w" by (simp add: runloop_ok_def)
  have "runloop_ok {} Y (CFRunLoopTimerInvalidate t w) \<and> \<not> rt_valid (w_timers (CFRunLoopTimerInvalidate t w) t)"
  proof (cases "rt_valid (w_timers w t)")
    case False
    then show ?thesis using assms by (simp add: CFRunLoopTimerInvalidate_def Let_def)
  next
    case True
    show ?thesis
    proof (cases "rt_runLoop (w_timers w t)")
      case None
      then have "rt_rlModes (w_timers ?w t) = []" using L(3) by (simp add: fields)
      then have "runloop_ok {} Y ?w" using ok timers_ok_drop [of "{t}" ?w t] by (simp add: runloop_ok_def)
      then show ?thesis using True None by (simp add: CFRunLoopTimerInvalidate_def Let_def f_def)
    next
      case (Some l)
      let ?w' = "fold (CFRunLoopRemoveTimer l t) ?ns ?w"
      have r: "runloop_ok {t} Y ?w'" "rt_rlModes (w_timers ?w' t) = []"
        using remove_timer_from_modes [OF ok, of ?ns t l] L(4) Some by (simp_all add: fields)
      then have "runloop_ok {} Y ?w'" using timers_ok_drop [of "{t}" ?w' t] by (simp add: runloop_ok_def)
      then have "runloop_ok {} Y (CFRunLoopRemoveTimer l t kCFRunLoopCommonModes ?w')"
        unfolding CFRunLoopRemoveTimer_def by (rule CFRunLoopRemoveItem_ok)
      moreover have "rt_valid (w_timers (fold (CFRunLoopRemoveTimer l t) ns v) t) = rt_valid (w_timers v t)" for ns v
        by (induction ns arbitrary: v) (simp_all add: CFRunLoopRemoveTimer_def)
      ultimately show ?thesis using True Some
        by (simp add: CFRunLoopTimerInvalidate_def Let_def f_def CFRunLoopRemoveTimer_def)
    qed
  qed
  then show "runloop_ok {} Y (CFRunLoopTimerInvalidate t w)" "\<not> rt_valid (w_timers (CFRunLoopTimerInvalidate t w) t)" by simp_all
qed

lemma removed_observers:
  "x \<in> set (mode_observers (remove_observer_from_mode l ob n w) l' n') \<Longrightarrow> x \<in> set (mode_observers w l' n')"
  by (cases "find_mode l n w")
    (auto simp: remove_observer_from_mode_def CFRunLoopObserverCancel_def mode_observers_put mode_observers_def [of w l n]
      dest: set_remove1_subset [THEN subsetD] split: if_splits)

lemma RemoveObserver_shrinks:
  assumes "observers_ok Y w"
  shows "observer_modes (CFRunLoopRemoveObserver l ob n w) ob l' \<subseteq> observer_modes w ob l'"
    and "n \<notin> observer_modes (CFRunLoopRemoveObserver l ob n w) ob l"
proof -
  let ?f = "\<lambda>n w. if n = kCFRunLoopCommonModes then w else remove_from_mode l (Observer ob) n w"
  have "observer_modes (?f n w) ob l' \<subseteq> observer_modes w ob l'" for n w l'
    by (auto simp: observer_modes_def remove_from_mode_def dest: removed_observers)
  then have shrinks: "observer_modes (fold ?f ns v) ob l' \<subseteq> observer_modes w ob l'" if "observer_modes v ob l' \<subseteq> observer_modes w ob l'" for ns v l'
    using that by (intro fold_inv [where P = "\<lambda>v. observer_modes v ob l' \<subseteq> observer_modes w ob l'"]) blast+
  show r: "observer_modes (CFRunLoopRemoveObserver l ob n w) ob l' \<subseteq> observer_modes w ob l'" for l'
    using shrinks [of "loop_upd l (\<lambda>rl. rl\<lparr>rl_commonModeItems := remove_item w (Observer ob) (rl_commonModeItems rl)\<rparr>) w"
        l' "rl_commonModes (w_loops w l)"]
    by (auto simp: CFRunLoopRemoveObserver_def CFRunLoopRemoveItem_def remove_from_mode_def [of l _ n w] observer_modes_def
        dest: removed_observers)
  show "n \<notin> observer_modes (CFRunLoopRemoveObserver l ob n w) ob l"
  proof (cases "n = kCFRunLoopCommonModes")
    case True
    then have "n \<notin> observer_modes w ob l"
      using observer_linkedD(2) [OF observerD(3) [OF assms]] by (auto simp: observer_modes_def)
    then show ?thesis using r by blast
  next
    case False
    then show ?thesis using remove_observer_ok(2) [OF assms]
      by (simp add: CFRunLoopRemoveObserver_def CFRunLoopRemoveItem_def remove_from_mode_def)
  qed
qed

lemma remove_observer_from_modes:
  assumes "runloop_ok X Y w"
  shows "runloop_ok X Y (fold (CFRunLoopRemoveObserver l ob) ns w)
    \<and> (\<forall>l'. observer_modes (fold (CFRunLoopRemoveObserver l ob) ns w) ob l' \<subseteq> observer_modes w ob l')
    \<and> observer_modes (fold (CFRunLoopRemoveObserver l ob) ns w) ob l \<inter> set ns = {}"
  using assms
proof (induction ns arbitrary: w)
  case (Cons n ns)
  let ?w = "CFRunLoopRemoveObserver l ob n w"
  have ok: "runloop_ok X Y ?w" unfolding CFRunLoopRemoveObserver_def by (rule CFRunLoopRemoveItem_ok [OF Cons.prems])
  note s = RemoveObserver_shrinks [where l = l and n = n and ob = ob, OF runloop_okD(2) [OF Cons.prems]]
  show ?case using Cons.IH [OF ok] s by simp blast
qed simp

lemma observer_modes_CopyAllModes: "observer_modes w ob l \<subseteq> set (CFRunLoopCopyAllModes l w)"
proof
  fix n
  assume "n \<in> observer_modes w ob l"
  then obtain m where "map_of (rl_modes (w_loops w l)) n = Some m"
    by (cases "find_mode l n w") (auto simp: observer_modes_def mode_observers_def find_mode_def)
  then show "n \<in> set (CFRunLoopCopyAllModes l w)"
    by (force simp: CFRunLoopCopyAllModes_def dest: map_of_SomeD)
qed

lemma CFRunLoopObserverInvalidate_ok:
  assumes "runloop_ok X {} w"
  shows "runloop_ok X {} (CFRunLoopObserverInvalidate ob w)" "\<not> ro_valid (w_observers (CFRunLoopObserverInvalidate ob w) ob)"
proof -
  define f where "f = (\<lambda>t :: CFRunLoopObserver. t\<lparr>ro_context := (ro_context t)\<lparr>rc_info := 0\<rparr>, ro_valid := False\<rparr>)"
  let ?w = "observer_upd ob f w"
  note L = observerD [OF runloop_okD(2) [OF assms]]
  have fields: "ro_runLoop (f x) = ro_runLoop x" "ro_rlCount (f x) = ro_rlCount x" "ro_order (f x) = ro_order x" "\<not> ro_valid (f x)" for x
    by (simp_all add: f_def)
  have modes: "observer_modes ?w x l = observer_modes w x l" for x l by (simp add: observer_modes_def)
  have "observer_linked {ob} ?w x" for x
    using L(3) [of x] by (cases "x = ob") (auto simp: observer_linked_def modes fields split: option.splits)
  moreover have "ro_order (w_observers ?w x) = ro_order (w_observers w x)" for x by (simp add: fields)
  ultimately have "observers_ok {ob} ?w"
    using L(1,2) unfolding observers_ok_def by (intro conjI allI) simp_all
  moreover have "timers_ok X ?w" using runloop_okD(1) [OF assms] by (simp add: timers_ok_same [of ?w w])
  ultimately have ok: "runloop_ok X {ob} ?w" by (simp add: runloop_ok_def)
  have "runloop_ok X {} (CFRunLoopObserverInvalidate ob w) \<and> \<not> ro_valid (w_observers (CFRunLoopObserverInvalidate ob w) ob)"
  proof (cases "ro_valid (w_observers w ob)")
    case False
    then show ?thesis using assms by (simp add: CFRunLoopObserverInvalidate_def Let_def)
  next
    case True
    show ?thesis
    proof (cases "ro_runLoop (w_observers w ob)")
      case None
      then have "observer_modes ?w ob l = {}" for l using L(3) [of ob] by (simp add: observer_linked_def modes)
      then have "runloop_ok X {} ?w" using ok observers_ok_drop [of "{ob}" ?w ob] by (simp add: runloop_ok_def)
      then show ?thesis using True None by (simp add: CFRunLoopObserverInvalidate_def Let_def f_def)
    next
      case (Some l)
      let ?ns = "rev (CFRunLoopCopyAllModes l ?w)"
      let ?w' = "fold (CFRunLoopRemoveObserver l ob) ?ns ?w"
      note r = remove_observer_from_modes [OF ok, of l ob ?ns]
      have "observer_modes ?w' ob l' = {}" for l'
      proof (cases "l' = l")
        case False
        then have "observer_modes w ob l' = {}" using L(3) [of ob] Some by (simp add: observer_linked_def)
        then show ?thesis using r modes by blast
      next
        case True
        then show ?thesis using r observer_modes_CopyAllModes [of ?w ob l] by auto
      qed
      then have "runloop_ok X {} ?w'" using observers_ok_drop [of "{ob}" ?w' ob] r by (simp add: runloop_ok_def)
      then have "runloop_ok X {} (CFRunLoopRemoveObserver l ob kCFRunLoopCommonModes ?w')"
        unfolding CFRunLoopRemoveObserver_def by (rule CFRunLoopRemoveItem_ok)
      moreover have "ro_valid (w_observers (fold (CFRunLoopRemoveObserver l ob) ns v) ob) = ro_valid (w_observers v ob)" for ns v
        by (induction ns arbitrary: v) (simp_all add: CFRunLoopRemoveObserver_def)
      ultimately show ?thesis using True Some
        by (simp add: CFRunLoopObserverInvalidate_def Let_def f_def CFRunLoopRemoveObserver_def)
    qed
  qed
  then show "runloop_ok X {} (CFRunLoopObserverInvalidate ob w)" "\<not> ro_valid (w_observers (CFRunLoopObserverInvalidate ob w) ob)" by simp_all
qed

section \<open>The calls of a program\<close>

definition rl_start :: "rl_world \<Rightarrow> bool" where
  "rl_start w \<longleftrightarrow> (\<forall>l. rl_modes (w_loops w l) = [])
     \<and> (\<forall>t. rt_runLoop (w_timers w t) = None \<and> rt_rlModes (w_timers w t) = [])
     \<and> (\<forall>ob. ro_runLoop (w_observers w ob) = None \<and> ro_rlCount (w_observers w ob) = 0)"

text \<open>The calls of the interface, by any threads; each takes effect at once because of the locks. New
  objects take the place of unused ones.\<close>

inductive rl_step :: "rl_world \<Rightarrow> rl_world \<Rightarrow> bool" where
  step_create: "rl_modes (w_loops w l) = [] \<Longrightarrow> rl_step w (CFRunLoopCreate l port w)"
| step_source_create: "rs_runLoops (w_sources w s) = []
    \<Longrightarrow> rl_step w (source_upd s (\<lambda>_. CFRunLoopSourceCreate order version port schedule cancel perform ctxt) w)"
| step_observer_create: "ro_runLoop (w_observers w ob) = None
    \<Longrightarrow> rl_step w (observer_upd ob (\<lambda>_. CFRunLoopObserverCreate activities repeats order octxt) w)"
| step_timer_create: "rt_runLoop (w_timers w t) = None
    \<Longrightarrow> rl_step w (timer_upd t (\<lambda>_. CFRunLoopTimerCreate (w_rate w) (w_TSR w) (w_date w) fireDate interval order tctxt) w)"
| step_add: "CFRunLoopAddItem fuel l item name w = Some w' \<Longrightarrow> rl_step w w'"
| step_add_common_mode: "CFRunLoopAddCommonMode fuel l name w = Some w' \<Longrightarrow> rl_step w w'"
| step_remove: "rl_step w (CFRunLoopRemoveItem l item name w)"
| step_remove_all: "CFRunLoopRemoveAllSources fuel l name w = Some w' \<Longrightarrow> rl_step w w'"
| step_source_invalidate: "rl_step w (CFRunLoopSourceInvalidate s w)"
| step_observer_invalidate: "rl_step w (CFRunLoopObserverInvalidate ob w)"
| step_timer_invalidate: "rl_step w (CFRunLoopTimerInvalidate t w)"
| step_set_date: "rl_step w (CFRunLoopTimerSetNextFireDate t date w)"
| step_set_tolerance: "rl_step w (timer_upd t (CFRunLoopTimerSetTolerance tol) w)"
| step_signal: "rl_step w (CFRunLoopSourceSignal s w)"
| step_wake_source: "rl_step w (CFRunLoopSourceWakeUpRunLoops s w)"
| step_wake: "rl_step w (CFRunLoopWakeUp l w)"
| step_stop: "rl_step w (CFRunLoopStop l w)"
| step_stop_mode: "rl_step w (CFRunLoopStopMode l name w)"
| step_block: "rl_step w (CFRunLoopPerformBlock l mode block w)"

lemma rl_start_ok: "rl_start w \<Longrightarrow> runloop_ok {} {} w"
  by (simp add: rl_start_def runloop_ok_def timers_ok_def timers_linked_def observers_ok_def observer_linked_def attached_def
      timers_sorted_def mode_timers_def mode_observers_def find_mode_def observer_modes_def)

lemma create_ok:
  assumes "runloop_ok X Y w" "rl_modes (w_loops w l) = []"
  shows "runloop_ok X Y (CFRunLoopCreate l port w)"
proof -
  let ?f = "\<lambda>_. \<lparr>rl_deallocating = False, rl_sleeping = False, rl_stopped = False, rl_ignoreWakeUps = True,
          rl_commonModes = [kCFRunLoopDefaultMode], rl_commonModeItems = [], rl_currentMode = None, rl_modes = [],
          rl_blocks = [], rl_wakeUpPort = port\<rparr>"
  have "find_mode l' n (loop_upd l ?f w) = find_mode l' n w" for l' n
    using assms(2) by (simp add: find_mode_def loop_upd_def)
  then have "same_links (loop_upd l ?f w) w" by (simp add: same_links_def mode_timers_def mode_observers_def)
  then show ?thesis using assms(1) by (simp add: CFRunLoopCreate_def runloop_ok_cong)
qed

lemma observer_create_ok:
  assumes ok: "runloop_ok X Y w" and unused: "ro_runLoop (w_observers w ob) = None"
  shows "runloop_ok X Y (observer_upd ob (\<lambda>_. CFRunLoopObserverCreate activities repeats order c) w)" (is "runloop_ok X Y ?w")
proof -
  note L = observerD [OF runloop_okD(2) [OF ok]]
  have new: "ro_runLoop (CFRunLoopObserverCreate activities repeats order c) = None" "ro_rlCount (CFRunLoopObserverCreate activities repeats order c) = 0"
    by (simp_all add: CFRunLoopObserverCreate_def)
  have none: "observer_modes w ob l = {}" for l using L(3) [of ob] unused by (simp add: observer_linked_def)
  have modes: "observer_modes ?w x l = observer_modes w x l" for x l by (simp add: observer_modes_def)
  have "observer_linked Y ?w x" for x
    using L(3) [of x] none by (cases "x = ob") (simp_all add: observer_linked_def modes new cong: option.case_cong)
  moreover have "map (\<lambda>x. ro_order (w_observers ?w x)) (mode_observers ?w l n) = map (\<lambda>x. ro_order (w_observers w x)) (mode_observers w l n)" for l n
    using none [of l] by (auto simp: observer_modes_def)
  then have "sorted (map (\<lambda>x. ro_order (w_observers ?w x)) (mode_observers ?w l n))" for l n using L(2) [of l n] by (simp only:)
  ultimately have "observers_ok Y ?w" using L(1) unfolding observers_ok_def by (intro conjI allI) simp_all
  moreover have "timers_ok X ?w" using runloop_okD(1) [OF ok] by (simp add: timers_ok_same [of ?w w])
  ultimately show ?thesis by (simp add: runloop_ok_def)
qed

lemma timer_create_ok:
  assumes ok: "runloop_ok X Y w" and unused: "rt_runLoop (w_timers w t) = None" and new: "rt_runLoop t' = None" "rt_rlModes t' = []"
  shows "runloop_ok X Y (timer_upd t (\<lambda>_. t') w)" (is "runloop_ok X Y ?w")
proof -
  note L = linkedD [OF okD(1) [OF runloop_okD(1) [OF ok]]]
  have none: "t \<notin> set (mode_timers w l n)" for l n using L(2) unused by (simp add: attached_def)
  have at: "attached ?w x l n = attached w x l n" for x l n using unused new by (simp add: attached_def)
  have "timers_linked X ?w" using okD(1) [OF runloop_okD(1) [OF ok]] new by (auto simp: timers_linked_def at)
  moreover have "timers_sorted (w_timers ?w) (mode_timers ?w l n) = timers_sorted (w_timers w) (mode_timers w l n)" for l n
    using none [of l n] by (auto intro!: sorted_fire_cong)
  ultimately have "timers_ok X ?w" using okD(2) [OF runloop_okD(1) [OF ok]] by (simp add: timers_ok_def)
  moreover have "observers_ok Y ?w" using runloop_okD(2) [OF ok] by (simp add: observers_ok_same [of ?w w])
  ultimately show ?thesis by (simp add: runloop_ok_def)
qed

lemma timer_upd_ok [simp]:
  "(\<And>t. timer_links (k t) = timer_links t) \<Longrightarrow> runloop_ok X Y (timer_upd t k w) \<longleftrightarrow> runloop_ok X Y w"
  by (rule runloop_ok_cong) (simp add: same_links_def)

lemma CFRunLoopSourceSignal_ok [simp]: "runloop_ok X Y (CFRunLoopSourceSignal s w) \<longleftrightarrow> runloop_ok X Y w"
  by (simp add: CFRunLoopSourceSignal_def)

lemma CFRunLoopSourceWakeUp_ok: "runloop_ok X Y w \<Longrightarrow> runloop_ok X Y (CFRunLoopSourceWakeUpRunLoops s w)"
  by (auto simp: CFRunLoopSourceWakeUpRunLoops_def intro!: fold_inv [where P = "runloop_ok X Y"])

lemma rl_step_ok: "rl_step w w' \<Longrightarrow> runloop_ok {} {} w \<Longrightarrow> runloop_ok {} {} w'"
proof (induction rule: rl_step.induct)
  case (step_timer_create w t fireDate interval order tctxt)
  then show ?case by (intro timer_create_ok) (simp_all add: CFRunLoopTimerCreate_def Let_def)
next
  case (step_set_tolerance w t tol)
  then show ?case by (simp add: CFRunLoopTimerSetTolerance_def timer_links_def)
qed (auto intro: create_ok observer_create_ok CFRunLoopAddItem_ok CFRunLoopAddCommonMode_ok CFRunLoopRemoveItem_ok
    CFRunLoopRemoveAllSources_ok SourceInvalidate_ok CFRunLoopObserverInvalidate_ok CFRunLoopTimerInvalidate_ok
    CFRunLoopTimerSetNextFireDate_ok CFRunLoopSourceWakeUp_ok CFRunLoopPerformBlock_ok)

interpretation rl_run: step_invariant rl_start rl_step "runloop_ok {} {}"
  by unfold_locales (auto intro: rl_start_ok rl_step_ok)

section \<open>Items of the common modes\<close>

definition mode_sources :: "rl_world \<Rightarrow> nat \<Rightarrow> string \<Rightarrow> nat list" where
  "mode_sources w l n = (case find_mode l n w of None \<Rightarrow> [] | Some m \<Rightarrow> rm_sources0 m @ rm_sources1 m)"

text \<open>What the equality of sources and the test of an item read.\<close>

definition source_key :: "CFRunLoopSource \<Rightarrow> bool \<times> int \<times> nat \<times> nat" where
  "source_key s = (rs_valid s, rs_order s, rs_version s, rs_context s)"

definition loop_key :: "CFRunLoop \<Rightarrow> bool \<times> string list \<times> item list" where
  "loop_key rl = (rl_deallocating rl, rl_commonModes rl, rl_commonModeItems rl)"

lemma CFRunLoopSourceEqual_key:
  "CFRunLoopSourceEqual w s s' \<longleftrightarrow> s = s' \<or> source_key (w_sources w s) = source_key (w_sources w s')"
  by (auto simp: CFRunLoopSourceEqual_def source_key_def Let_def)

lemma contains_source_iff: "contains_source w xs s \<longleftrightarrow> (\<exists>x \<in> set xs. CFRunLoopSourceEqual w s x)"
  by (simp add: contains_source_def list_ex_iff)

lemma contains_item_iff:
  "contains_item l item n w \<longleftrightarrow>
    (case item of Source s \<Rightarrow> contains_source w (mode_sources w l n) s | Observer ob \<Rightarrow> ob \<in> set (mode_observers w l n)
     | Timer t \<Rightarrow> t \<in> set (mode_timers w l n))"
  by (auto simp: contains_item_def mode_sources_def mode_observers_def mode_timers_def contains_source_iff split: option.split item.split)

lemma key_upd [simp]:
  "(\<And>rl. loop_key (f rl) = loop_key rl) \<Longrightarrow> loop_key (w_loops (loop_upd l' f w) l) = loop_key (w_loops w l)"
  "loop_key (w_loops (source_upd s g w) l) = loop_key (w_loops w l)"
  "loop_key (w_loops (observer_upd ob h w) l) = loop_key (w_loops w l)"
  "loop_key (w_loops (timer_upd t k w) l) = loop_key (w_loops w l)"
  "loop_key (w_loops (emit e w) l) = loop_key (w_loops w l)"
  "loop_key (w_loops (put_mode l' n m w) l) = loop_key (w_loops w l)"
  "w_sources (loop_upd l' f w) = w_sources w" "w_sources (observer_upd ob h w) = w_sources w" "w_sources (timer_upd t k w) = w_sources w"
  "w_sources (emit e w) = w_sources w" "w_sources (put_mode l' n m w) = w_sources w"
  "w_sources (source_upd s g w) = (w_sources w)(s := g (w_sources w s))"
  by (auto simp: loop_upd_def source_upd_def observer_upd_def timer_upd_def emit_def put_mode_def loop_key_def)

lemma key_FindMode [simp]:
  "loop_key (w_loops (CFRunLoopFindMode l' n w) l) = loop_key (w_loops w l)" "w_sources (CFRunLoopFindMode l' n w) = w_sources w"
  by (simp_all add: CFRunLoopFindMode_def)

lemma key_arm [simp]:
  "loop_key (w_loops (arm_next_timer l' n w) l) = loop_key (w_loops w l)" "w_sources (arm_next_timer l' n w) = w_sources w"
  "loop_key (w_loops (reposition_timer l' t i n w) l) = loop_key (w_loops w l)" "w_sources (reposition_timer l' t i n w) = w_sources w"
  by (auto simp: arm_next_timer_def reposition_timer_def mode_timers_upd_def split: option.splits prod.splits)

lemma key_add [simp]:
  "loop_key (w_loops (add_to_mode l' item n w) l) = loop_key (w_loops w l)"
  "source_key (w_sources (add_to_mode l' item n w) s) = source_key (w_sources w s)"
  by (auto simp: add_to_mode_def add_source_to_mode_def add_observer_to_mode_def add_timer_to_mode_def Let_def source_key_def
      CFRunLoopObserverSchedule_def split: item.split)

lemma contains_source_key:
  assumes "\<And>s. source_key (w_sources w' s) = source_key (w_sources w s)"
  shows "contains_source w' xs s \<longleftrightarrow> contains_source w xs s"
  using assms by (simp add: contains_source_iff CFRunLoopSourceEqual_key)

lemma mode_sources_FindMode [simp]: "mode_sources (CFRunLoopFindMode l' n' w) l n = mode_sources w l n"
  by (auto simp: mode_sources_def find_mode_FindMode new_mode_def split: prod.splits)

lemma the_mode_sources:
  "rm_sources0 (the_mode l n (CFRunLoopFindMode l n w)) @ rm_sources1 (the_mode l n (CFRunLoopFindMode l n w)) = mode_sources w l n"
  by (subst mode_sources_FindMode [of l n w l n, symmetric], unfold mode_sources_def the_mode_FindMode option.case, rule refl)

lemma mode_sources_put:
  "mode_sources (put_mode l' n' m w) l n = (if l = l' \<and> n = n' then rm_sources0 m @ rm_sources1 m else mode_sources w l n)"
  by (simp add: mode_sources_def)

lemma mode_sources_upd [simp]:
  "(\<And>rl. rl_modes (f rl) = rl_modes rl) \<Longrightarrow> mode_sources (loop_upd l' f w) l n = mode_sources w l n"
  "mode_sources (source_upd s g w) l n = mode_sources w l n"
  "mode_sources (observer_upd ob h w) l n = mode_sources w l n"
  "mode_sources (timer_upd t k w) l n = mode_sources w l n"
  "mode_sources (emit e w) l n = mode_sources w l n"
  by (simp_all add: mode_sources_def)

lemma rm_sources_Arm:
  "rm_sources0 (fst (CFArmNextTimerInMode sys rate timers m)) = rm_sources0 m"
  "rm_sources1 (fst (CFArmNextTimerInMode sys rate timers m)) = rm_sources1 m"
  by (auto simp: CFArmNextTimerInMode_def Let_def split: prod.splits if_splits)

lemma mode_sources_reposition [simp]: "mode_sources (reposition_timer l' t i n' w) l n = mode_sources w l n"
proof -
  have "rm_sources0 (fst (CFRepositionTimerInMode sys rate timers t i m)) = rm_sources0 m"
    "rm_sources1 (fst (CFRepositionTimerInMode sys rate timers t i m)) = rm_sources1 m" for sys rate timers m
    by (simp_all add: CFRepositionTimerInMode_def Let_def rm_sources_Arm)
  then show ?thesis
    by (auto simp: reposition_timer_def mode_timers_upd_def mode_sources_def split: option.splits prod.splits) (metis fst_conv)+
qed

lemma add_source_contains:
  "set (mode_sources w l' n') \<subseteq> set (mode_sources (add_source_to_mode l s n w) l' n')"
  "rs_version (w_sources w s) \<le> 1 \<Longrightarrow> contains_source w (mode_sources (add_source_to_mode l s n w) l n) s"
proof -
  let ?m = "the_mode l n (CFRunLoopFindMode l n w)"
  have m: "set (rm_sources0 ?m) \<union> set (rm_sources1 ?m) = set (mode_sources w l n)"
    unfolding the_mode_sources [symmetric] by simp
  have k: "contains_source (CFRunLoopFindMode l n w) xs s = contains_source w xs s" for xs by (rule contains_source_key) simp
  show "set (mode_sources w l' n') \<subseteq> set (mode_sources (add_source_to_mode l s n w) l' n')"
    using m by (auto simp: add_source_to_mode_def Let_def mode_sources_put)
  show "contains_source w (mode_sources (add_source_to_mode l s n w) l n) s" if "rs_version (w_sources w s) \<le> 1"
    using m that by (auto simp: add_source_to_mode_def Let_def mode_sources_put k contains_source_iff CFRunLoopSourceEqual_key le_Suc_eq)
qed

lemma sources_kept:
  "mode_sources (add_observer_to_mode l ob n w) l' n' = mode_sources w l' n'" "mode_sources (add_timer_to_mode l t n w) l' n' = mode_sources w l' n'"
proof -
  have "rm_sources0 (the_mode l n (CFRunLoopFindMode l n w)) @ rm_sources1 (the_mode l n (CFRunLoopFindMode l n w)) = mode_sources w l n"
    by (rule the_mode_sources)
  then show "mode_sources (add_observer_to_mode l ob n w) l' n' = mode_sources w l' n'"
    by (auto simp: add_observer_to_mode_def Let_def CFRunLoopObserverSchedule_def mode_sources_put)
  show "mode_sources (add_timer_to_mode l t n w) l' n' = mode_sources w l' n'"
    by (simp add: add_timer_to_mode_def Let_def)
qed

lemma w_timers_add_timer:
  "w_timers (add_timer_to_mode l t n w) =
    (if n \<in> set (rt_rlModes (w_timers w t)) \<or> rt_runLoop (w_timers w t) \<noteq> None \<and> rt_runLoop (w_timers w t) \<noteq> Some l then w_timers w
     else (w_timers w)(t := (w_timers w t)\<lparr>rt_runLoop := Some l, rt_rlModes := rt_rlModes (w_timers w t) @ [n]\<rparr>))"
  by (auto simp: add_timer_to_mode_def Let_def)

lemma add_timer_attached:
  assumes "runloop_ok X Y w"
  shows "attached w t' l' n' \<Longrightarrow> attached (add_timer_to_mode l t n w) t' l' n'"
    and "rt_runLoop (w_timers w t) \<in> {None, Some l} \<Longrightarrow> attached (add_timer_to_mode l t n w) t l n"
  using linkedD(4) [OF okD(1) [OF runloop_okD(1) [OF assms]], of t] by (auto simp: attached_def w_timers_add_timer)

lemma add_observer_members:
  "set (mode_observers (add_observer_to_mode l ob n w) l' n') =
    (if l' = l \<and> n' = n then insert ob (set (mode_observers w l n)) else set (mode_observers w l' n'))"
  by (auto simp: add_observer_to_mode_def Let_def CFRunLoopObserverSchedule_def mode_observers_put the_mode_arrays
      CFArrayInsertValueAtIndex_def dest: in_set_takeD in_set_dropD)
    (metis Un_iff append_take_drop_id set_append)

definition proper_item :: "item \<Rightarrow> rl_world \<Rightarrow> bool" where
  "proper_item item w \<longleftrightarrow> (case item of Source s \<Rightarrow> rs_version (w_sources w s) \<le> 1 | _ \<Rightarrow> True)"

lemma contains_timer:
  "runloop_ok X Y w \<Longrightarrow> contains_item l (Timer t) n w \<longleftrightarrow> attached w t l n"
  using linkedD(2) [OF okD(1) [OF runloop_okD(1)]] by (simp add: contains_item_iff)

lemma contains_added:
  assumes ok: "runloop_ok X Y w" and may: "may_add l item w" "proper_item item w" and n: "n \<noteq> kCFRunLoopCommonModes"
  shows "contains_item l item n (add_to_mode l item n w)"
proof (cases item)
  case (Source s)
  have "contains_source (add_to_mode l item n w) (mode_sources (add_source_to_mode l s n w) l n) s"
    using add_source_contains(2) [of w s l n] may(2) Source contains_source_key [of "add_to_mode l item n w" w] by (simp add: proper_item_def)
  then show ?thesis using Source by (simp add: contains_item_iff add_to_mode_def)
next
  case (Observer ob)
  then show ?thesis by (simp add: contains_item_iff add_to_mode_def add_observer_members)
next
  case (Timer t)
  then have "contains_item l item n (add_to_mode l item n w) \<longleftrightarrow> attached (add_timer_to_mode l t n w) t l n"
    using contains_timer [OF add_to_mode_ok [OF ok may(1) n], of l t n] by (simp add: add_to_mode_def)
  then show ?thesis using add_timer_attached(2) [OF ok] may(1) Timer by (auto simp: may_add_def)
qed

lemma contains_kept:
  assumes ok: "runloop_ok X Y w" and may: "may_add l item w" and n: "n \<noteq> kCFRunLoopCommonModes"
    and c: "contains_item l' i n' w"
  shows "contains_item l' i n' (add_to_mode l item n w)"
proof (cases i)
  case (Source s)
  have "contains_source (add_to_mode l item n w) xs s \<longleftrightarrow> contains_source w xs s" for xs by (rule contains_source_key) simp
  moreover have "set (mode_sources w l' n') \<subseteq> set (mode_sources (add_to_mode l item n w) l' n')"
    using add_source_contains(1) by (cases item) (simp_all add: add_to_mode_def sources_kept)
  ultimately show ?thesis using c Source by (auto simp: contains_item_iff contains_source_iff)
next
  case (Observer ob)
  have "mode_observers (add_source_to_mode l s n w) l' n' = mode_observers w l' n'" for s
    by (auto simp: add_source_to_mode_def Let_def mode_observers_put the_mode_arrays)
  then show ?thesis using c Observer
    by (cases item) (auto simp: contains_item_iff add_to_mode_def add_observer_members)
next
  case (Timer t)
  have "attached (add_source_to_mode l s n w) t l' n' = attached w t l' n'" "attached (add_observer_to_mode l s n w) t l' n' = attached w t l' n'" for s
    by (simp_all add: add_source_to_mode_def Let_def attached_def)
  then have "attached w t l' n' \<Longrightarrow> attached (add_to_mode l item n w) t l' n'"
    using add_timer_attached(1) [OF ok] by (cases item) (simp_all add: add_to_mode_def)
  then show ?thesis using c Timer contains_timer [OF ok] contains_timer [OF add_to_mode_ok [OF ok may n]] by simp
qed

lemma may_add_kept:
  assumes "may_add l i w"
  shows "may_add l i (add_to_mode l item n w)"
proof -
  have "rl_deallocating (w_loops (add_to_mode l item n w) l) = rl_deallocating (w_loops w l)"
    using key_add(1) [of l item n w l] by (simp add: loop_key_def)
  moreover have "rs_valid (w_sources (add_to_mode l item n w) s) = rs_valid (w_sources w s)" for s
    using key_add(2) [of l item n w s] by (simp add: source_key_def)
  ultimately show ?thesis using assms
    by (cases item; cases i)
      (auto simp: may_add_def add_to_mode_def add_source_to_mode_def add_observer_to_mode_def w_timers_add_timer Let_def
        CFRunLoopObserverSchedule_def)
qed

lemma proper_kept: "proper_item i (add_to_mode l item n w) \<longleftrightarrow> proper_item i w"
  using key_add(2) [of l item n w] by (simp add: proper_item_def source_key_def split: item.split)

lemma CFRunLoopAddItem_mode:
  "n \<noteq> kCFRunLoopCommonModes \<Longrightarrow> CFRunLoopAddItem fuel l item n w = Some (if may_add l item w then add_to_mode l item n w else w)"
  by (simp add: CFRunLoopAddItem.simps [of fuel])

lemma add_to_modes:
  assumes "runloop_ok X Y w" "may_add l item w" "proper_item item w" "kCFRunLoopCommonModes \<notin> set ns"
  shows "\<exists>w'. fold_option (CFRunLoopAddItem fuel l item) ns w = Some w' \<and> (\<forall>n \<in> set ns. contains_item l item n w')
    \<and> loop_key (w_loops w' l) = loop_key (w_loops w l) \<and> (\<forall>s. source_key (w_sources w' s) = source_key (w_sources w s))
    \<and> (\<forall>i n. contains_item l i n w \<longrightarrow> contains_item l i n w')"
  using assms
proof (induction ns arbitrary: w)
  case (Cons n ns)
  let ?w = "add_to_mode l item n w"
  have n: "n \<noteq> kCFRunLoopCommonModes" using Cons.prems(4) by auto
  have "contains_item l item n ?w" by (rule contains_added [OF Cons.prems(1-3) n])
  moreover have "contains_item l i m w \<Longrightarrow> contains_item l i m ?w" for i m
    by (rule contains_kept [OF Cons.prems(1,2) n])
  ultimately show ?case
    using Cons.IH [OF add_to_mode_ok [OF Cons.prems(1,2) n] may_add_kept [OF Cons.prems(2)]] Cons.prems(2-4)
    by (fastforce simp: CFRunLoopAddItem_mode [OF n] proper_kept)
qed simp

lemma add_items_to_mode:
  assumes "runloop_ok X Y w" "n \<noteq> kCFRunLoopCommonModes"
  shows "\<exists>w'. fold_option (\<lambda>i. CFRunLoopAddItem fuel l i n) items w = Some w'
    \<and> (\<forall>i \<in> set items. may_add l i w \<and> proper_item i w \<longrightarrow> contains_item l i n w')
    \<and> loop_key (w_loops w' l) = loop_key (w_loops w l) \<and> (\<forall>i m. contains_item l i m w \<longrightarrow> contains_item l i m w')"
  using assms
proof (induction items arbitrary: w)
  case (Cons i items)
  let ?w = "if may_add l i w then add_to_mode l i n w else w"
  have ok: "runloop_ok X Y ?w" using add_to_mode_ok [OF Cons.prems(1)] Cons.prems by simp
  have kept: "contains_item l j m w \<Longrightarrow> contains_item l j m ?w" for j m
    using contains_kept [OF Cons.prems(1)] Cons.prems(2) by simp
  have may: "may_add l j w \<Longrightarrow> may_add l j ?w" "proper_item j w \<Longrightarrow> proper_item j ?w" for j
    using may_add_kept proper_kept by simp_all
  have i: "may_add l i w \<Longrightarrow> proper_item i w \<Longrightarrow> contains_item l i n ?w"
    using contains_added [OF Cons.prems(1) _ _ Cons.prems(2)] by simp
  have key: "loop_key (w_loops ?w l) = loop_key (w_loops w l)" by simp
  obtain w' where w': "fold_option (\<lambda>i. CFRunLoopAddItem fuel l i n) items ?w = Some w'"
    "\<forall>i \<in> set items. may_add l i ?w \<and> proper_item i ?w \<longrightarrow> contains_item l i n w'"
    "loop_key (w_loops w' l) = loop_key (w_loops ?w l)" "\<forall>i m. contains_item l i m ?w \<longrightarrow> contains_item l i m w'"
    using Cons.IH [OF ok Cons.prems(2)] by blast
  have "fold_option (\<lambda>i. CFRunLoopAddItem fuel l i n) (i # items) w = Some w'"
    using w'(1) by (simp add: CFRunLoopAddItem_mode [OF Cons.prems(2)])
  moreover have "\<forall>j \<in> set (i # items). may_add l j w \<and> proper_item j w \<longrightarrow> contains_item l j n w'"
    using w'(2,4) may i by auto
  moreover have "\<forall>j m. contains_item l j m w \<longrightarrow> contains_item l j m w'" using w'(4) kept by blast
  ultimately show ?case using w'(3) key by metis
qed simp

lemma add_forever:
  assumes "may_add l item w" "kCFRunLoopCommonModes \<in> set (rl_commonModes (w_loops w l))"
  shows "CFRunLoopAddItem fuel l item kCFRunLoopCommonModes w = None"
  using assms
proof (induction fuel arbitrary: w)
  case (Suc fuel)
  have none: "fold_option (CFRunLoopAddItem fuel l item) ns v = None"
    if "kCFRunLoopCommonModes \<in> set ns" "may_add l item v" "kCFRunLoopCommonModes \<in> set (rl_commonModes (w_loops v l))" for ns v
    using that
  proof (induction ns arbitrary: v)
    case (Cons n ns)
    show ?case
    proof (cases "n = kCFRunLoopCommonModes")
      case True
      then show ?thesis using Suc.IH [OF Cons.prems(2,3)] by simp
    next
      case False
      have "rl_commonModes (w_loops (add_to_mode l item n v) l) = rl_commonModes (w_loops v l)"
        using key_add(1) [of l item n v l] by (simp add: loop_key_def)
      then show ?thesis
        using Cons.IH [of "add_to_mode l item n v"] Cons.prems False may_add_kept by (simp add: CFRunLoopAddItem_mode [OF False])
    qed
  qed simp
  let ?w = "loop_upd l (\<lambda>rl. rl\<lparr>rl_commonModeItems := (if list_ex (item_equal w item) (rl_commonModeItems rl) then rl_commonModeItems rl
                  else rl_commonModeItems rl @ [item])\<rparr>) w"
  have "may_add l item ?w" using Suc.prems(1) by (cases item) (simp_all add: may_add_def loop_upd_def)
  moreover have "rl_commonModes (w_loops ?w l) = rl_commonModes (w_loops w l)" by (simp add: loop_upd_def)
  ultimately show ?case using Suc.prems none [of "rl_commonModes (w_loops w l)" ?w]
    by (simp add: CFRunLoopAddItem.simps [of "Suc fuel"])
qed (simp add: CFRunLoopAddItem.simps [of 0])

section \<open>Properties\<close>

text \<open>C1. After any calls, by any threads: the timers of a mode are in the order of their fire times and its
  observers in theirs, without duplicates; a timer is in a mode of a run loop exactly if it lists that mode and
  that run loop; an observer is only in modes of its run loop, and it counts them; and no mode has an
  invalid timer or observer.\<close>

theorem runloop_modes_consistent:
  assumes "reachable rl_start rl_step w"
  shows "(timers_sorted (w_timers w) (mode_timers w l n) \<and> distinct (mode_timers w l n)
      \<and> sorted (map (\<lambda>ob. ro_order (w_observers w ob)) (mode_observers w l n)) \<and> distinct (mode_observers w l n))
    \<and> (t \<in> set (mode_timers w l n) \<longleftrightarrow> rt_runLoop (w_timers w t) = Some l \<and> n \<in> set (rt_rlModes (w_timers w t)))
    \<and> (t \<in> set (mode_timers w l n) \<longrightarrow> rt_valid (w_timers w t))
    \<and> (ob \<in> set (mode_observers w l n) \<longrightarrow> ro_runLoop (w_observers w ob) = Some l \<and> ro_valid (w_observers w ob)
         \<and> ro_rlCount (w_observers w ob) = int (card {n. ob \<in> set (mode_observers w l n)}))"
proof -
  note ok = rl_run.reachable_inv [OF assms]
  note T = linkedD [OF okD(1) [OF runloop_okD(1) [OF ok]]] and O = observerD [OF runloop_okD(2) [OF ok]]
  have "rt_valid (w_timers w t)" if "t \<in> set (mode_timers w l n)"
    using that T(2) T(6) [of t] by (auto simp: attached_def)
  moreover have "ro_valid (w_observers w ob) \<and> ro_rlCount (w_observers w ob) = int (card {n. ob \<in> set (mode_observers w l n)})"
    if "ob \<in> set (mode_observers w l n)"
    using O(3) [of ob] observer_linkedD(1) [OF O(3) that] by (simp add: observer_linked_def observer_modes_def)
  ultimately show ?thesis
    using T(1,2) O(1,2) okD(2) [OF runloop_okD(1) [OF ok]] observer_linkedD(1) [OF O(3)] by (auto simp: attached_def)
qed

text \<open>A run loop with a timer in its default mode.\<close>

definition small_world :: rl_world where
  "small_world = \<lparr>w_loops = (\<lambda>_. \<lparr>rl_deallocating = False, rl_sleeping = False, rl_stopped = False, rl_ignoreWakeUps = True,
       rl_commonModes = [], rl_commonModeItems = [], rl_currentMode = None, rl_modes = [], rl_blocks = [], rl_wakeUpPort = 9\<rparr>),
     w_sources = (\<lambda>_. CFRunLoopSourceCreate 0 0 0 True True True 0),
     w_observers = (\<lambda>_. CFRunLoopObserverCreate 1 True 0 None), w_timers = (\<lambda>t. timer_at (ucast t)), w_log = [],
     w_TSR = 1, w_date = 0, w_rate = 1, w_dispatch = \<lparr>uptime_now = 5, monotonic_now = 6, wall_now = 7\<rparr>, w_termTSRs = [],
     w_ports = (\<lambda>_ _. (1, 2)),
     w_mainLoop = 0, w_currentLoop = 0, w_isMainThread = True, w_inGCDMainQ = False\<rparr>"

lemma small_start: "rl_start small_world"
  by (simp add: rl_start_def small_world_def timer_at_def CFRunLoopObserverCreate_def)

definition small_loop :: rl_world where "small_loop = CFRunLoopCreate 0 9 small_world"

lemma small_reachable: "reachable rl_start rl_step small_loop"
proof (rule reachable.intros(2))
  show "reachable rl_start rl_step small_world" by (rule reachable.intros(1)) (rule small_start)
  show "rl_step small_world small_loop" unfolding small_loop_def by (rule step_create) (simp add: small_world_def)
qed

lemma small_add: "may_add 0 item small_loop" "proper_item item small_loop" "rl_commonModes (w_loops small_loop 0) = [kCFRunLoopDefaultMode]"
  "rl_commonModeItems (w_loops small_loop 0) = []"
  by (cases item; simp add: may_add_def proper_item_def small_loop_def CFRunLoopCreate_def CFRunLoopFindMode_def find_mode_def put_mode_def loop_upd_def
      small_world_def timer_at_def CFRunLoopSourceCreate_def CFRunLoopObserverCreate_def)+

lemma default_not_common: "kCFRunLoopDefaultMode \<noteq> kCFRunLoopCommonModes"
  by (simp add: kCFRunLoopDefaultMode_def kCFRunLoopCommonModes_def)

theorem runloop_modes_consistent_witness:
  "rt_runLoop (w_timers (add_to_mode 0 (Timer 3) kCFRunLoopDefaultMode small_loop) 3) = Some 0"
proof -
  let ?w = "add_to_mode 0 (Timer 3) kCFRunLoopDefaultMode small_loop"
  have "CFRunLoopAddItem 0 0 (Timer 3) kCFRunLoopDefaultMode small_loop = Some ?w"
    by (simp add: CFRunLoopAddItem_mode [OF default_not_common] small_add)
  then have r: "reachable rl_start rl_step ?w"
    by (intro reachable.intros(2) [OF small_reachable] step_add)
  have "contains_item 0 (Timer 3) kCFRunLoopDefaultMode ?w"
    by (rule contains_added [OF rl_run.reachable_inv [OF small_reachable] small_add(1,2) default_not_common])
  then have "3 \<in> set (mode_timers ?w 0 kCFRunLoopDefaultMode)" by (simp add: contains_item_iff)
  then show ?thesis using runloop_modes_consistent [OF r, of 0 kCFRunLoopDefaultMode 3] by simp
qed

text \<open>C23. Invalidating a timer or an observer in any reachable state makes it invalid and takes it out of every mode of every
  run loop, and then, as the last call out, the release callback of its context is called on the info the context had.\<close>

theorem runloop_invalidate:
  assumes "reachable rl_start rl_step w"
  shows "\<not> rt_valid (w_timers (CFRunLoopTimerInvalidate t w) t)
    \<and> t \<notin> set (mode_timers (CFRunLoopTimerInvalidate t w) l n)
    \<and> \<not> ro_valid (w_observers (CFRunLoopObserverInvalidate ob w) ob)
    \<and> ob \<notin> set (mode_observers (CFRunLoopObserverInvalidate ob w) l n)
    \<and> (rt_valid (w_timers w t) \<and> rc_release (rt_context (w_timers w t)) = Some release
        \<longrightarrow> last (w_log (CFRunLoopTimerInvalidate t w)) = Release_context (fn_addr release) (rc_info (rt_context (w_timers w t))))
    \<and> (ro_valid (w_observers w ob) \<and> rc_release (ro_context (w_observers w ob)) = Some release
        \<longrightarrow> last (w_log (CFRunLoopObserverInvalidate ob w)) = Release_context (fn_addr release) (rc_info (ro_context (w_observers w ob))))"
proof -
  note ok = rl_run.reachable_inv [OF assms]
  note t = CFRunLoopTimerInvalidate_ok [OF ok, of t] and ob = CFRunLoopObserverInvalidate_ok [OF ok, of ob]
  note T = linkedD [OF okD(1) [OF runloop_okD(1) [OF t(1)]]] and O = observerD(3) [OF runloop_okD(2) [OF ob(1)], of ob]
  have "t \<notin> set (mode_timers (CFRunLoopTimerInvalidate t w) l n)"
    using T(2) T(6) [of t] t(2) by (auto simp: attached_def)
  moreover have "ob \<notin> set (mode_observers (CFRunLoopObserverInvalidate ob w) l n)"
    using O observer_linkedD(1) [OF O] ob(2) by (auto simp: observer_linked_def)
  ultimately show ?thesis using t(2) ob(2)
    by (simp add: CFRunLoopTimerInvalidate_def CFRunLoopObserverInvalidate_def Let_def release_context_def emit_def)
qed

theorem runloop_invalidate_witness:
  "\<not> rt_valid (w_timers (CFRunLoopTimerInvalidate 3 small_loop) 3)"
  using runloop_invalidate [OF small_reachable, of 3] by simp

text \<open>C24. The common modes, in any reachable state in which they do not contain the name of the common modes:
  adding an item to them returns, and then the item is in all of them.\<close>

theorem runloop_add_to_common_modes:
  assumes "reachable rl_start rl_step w" "may_add l item w" "proper_item item w"
    and "kCFRunLoopCommonModes \<notin> set (rl_commonModes (w_loops w l))"
  shows "\<exists>w'. CFRunLoopAddItem (Suc fuel) l item kCFRunLoopCommonModes w = Some w'
    \<and> CFRunLoopContainsItem l item kCFRunLoopCommonModes w'
    \<and> rl_commonModes (w_loops w' l) = rl_commonModes (w_loops w l)
    \<and> (\<forall>n \<in> set (rl_commonModes (w_loops w l)). CFRunLoopContainsItem l item n w')"
proof -
  let ?f = "\<lambda>rl. rl\<lparr>rl_commonModeItems := (if list_ex (item_equal w item) (rl_commonModeItems rl) then rl_commonModeItems rl
                  else rl_commonModeItems rl @ [item])\<rparr>"
  let ?w = "loop_upd l ?f w"
  have ok: "runloop_ok {} {} ?w" using rl_run.reachable_inv [OF assms(1)] by simp
  have may: "may_add l item ?w" "proper_item item ?w"
    using assms(2,3) by (cases item; simp add: may_add_def proper_item_def loop_upd_def)+
  obtain w' where w': "fold_option (CFRunLoopAddItem fuel l item) (rl_commonModes (w_loops w l)) ?w = Some w'"
    "\<forall>n \<in> set (rl_commonModes (w_loops w l)). contains_item l item n w'" "loop_key (w_loops w' l) = loop_key (w_loops ?w l)"
    "\<forall>s. source_key (w_sources w' s) = source_key (w_sources ?w s)"
    using add_to_modes [where fuel = fuel, OF ok may assms(4)] by blast
  have loop: "rl_commonModes (w_loops w' l) = rl_commonModes (w_loops w l)" "rl_commonModeItems (w_loops w' l) = rl_commonModeItems (?f (w_loops w l))"
    using w'(3) by (simp_all add: loop_key_def loop_upd_def)
  have eq: "item_equal w' i j = item_equal w i j" for i j
    using w'(4) by (simp add: item_equal_def CFRunLoopSourceEqual_key split: item.split)
  have "is_common_item l item w'"
    by (auto simp: is_common_item_def loop(2) list_ex_iff eq) (simp add: item_equal_def)
  moreover have "CFRunLoopAddItem (Suc fuel) l item kCFRunLoopCommonModes w = Some w'"
    using assms(2) w'(1) by (simp add: CFRunLoopAddItem.simps [of "Suc fuel"])
  moreover have "CFRunLoopContainsItem l item n w'" if "n \<in> set (rl_commonModes (w_loops w l))" for n
    using w'(2) assms(4) that by (auto simp: CFRunLoopContainsItem_def)
  ultimately show ?thesis using loop(1) by (auto simp: CFRunLoopContainsItem_def)
qed

theorem runloop_add_to_common_modes_witness:
  "\<exists>w'. CFRunLoopAddItem 1 0 (Observer 4) kCFRunLoopCommonModes small_loop = Some w'
    \<and> CFRunLoopContainsItem 0 (Observer 4) kCFRunLoopDefaultMode w'"
proof -
  have "kCFRunLoopCommonModes \<notin> set (rl_commonModes (w_loops small_loop 0))"
    using default_not_common by (simp add: small_add)
  from runloop_add_to_common_modes [OF small_reachable small_add(1,2) this, of 0 "Observer 4"]
  show ?thesis by (auto simp: small_add)
qed

text \<open>A new common mode gets every common item that can still be added.\<close>

theorem runloop_add_common_mode:
  assumes "reachable rl_start rl_step w" "\<not> rl_deallocating (w_loops w l)"
    and "n \<noteq> kCFRunLoopCommonModes" "n \<notin> set (rl_commonModes (w_loops w l))"
  shows "\<exists>w'. CFRunLoopAddCommonMode fuel l n w = Some w' \<and> rl_commonModes (w_loops w' l) = rl_commonModes (w_loops w l) @ [n]
    \<and> (\<forall>i \<in> set (rl_commonModeItems (w_loops w l)). may_add l i w \<and> proper_item i w \<longrightarrow> CFRunLoopContainsItem l i n w')"
proof -
  let ?f = "\<lambda>rl. rl\<lparr>rl_commonModes := rl_commonModes rl @ [n]\<rparr>"
  let ?w = "loop_upd l ?f w"
  have ok: "runloop_ok {} {} ?w" using rl_run.reachable_inv [OF assms(1)] by simp
  have may: "may_add l i ?w = may_add l i w" "proper_item i ?w = proper_item i w" for i
    by (cases i; simp add: may_add_def proper_item_def loop_upd_def)+
  obtain w' where w': "fold_option (\<lambda>i. CFRunLoopAddItem fuel l i n) (rl_commonModeItems (w_loops w l)) ?w = Some w'"
    "\<forall>i \<in> set (rl_commonModeItems (w_loops w l)). may_add l i ?w \<and> proper_item i ?w \<longrightarrow> contains_item l i n w'"
    "loop_key (w_loops w' l) = loop_key (w_loops ?w l)"
    using add_items_to_mode [where fuel = fuel, OF ok assms(3)] by blast
  have "CFRunLoopAddCommonMode fuel l n w = Some w'" using assms(2,4) w'(1) by (simp add: CFRunLoopAddCommonMode_def)
  moreover have "rl_commonModes (w_loops w' l) = rl_commonModes (w_loops w l) @ [n]"
    using w'(3) by (simp add: loop_key_def loop_upd_def)
  ultimately show ?thesis using w'(2) assms(3) by (auto simp: CFRunLoopContainsItem_def may)
qed

theorem runloop_add_common_mode_witness:
  "\<exists>w'. CFRunLoopAddCommonMode 0 0 ''m'' small_loop = Some w' \<and> rl_commonModes (w_loops w' 0) = [kCFRunLoopDefaultMode, ''m'']"
proof -
  have "\<not> rl_deallocating (w_loops small_loop 0)" "''m'' \<noteq> kCFRunLoopCommonModes" "''m'' \<notin> set (rl_commonModes (w_loops small_loop 0))"
    using small_add(1) [of "Timer 0"] by (simp_all add: may_add_def small_add kCFRunLoopCommonModes_def kCFRunLoopDefaultMode_def)
  from runloop_add_common_mode [OF small_reachable this, of 0] show ?thesis by (auto simp: small_add)
qed

text \<open>C40. Nothing keeps the name of the common modes itself from becoming a common mode; from then on the call that adds an item
  to the common modes calls itself for ever, whatever the item.\<close>

theorem runloop_common_modes_recursion:
  assumes "\<not> rl_deallocating (w_loops w l)" "rl_commonModeItems (w_loops w l) = []"
  shows "\<exists>w'. CFRunLoopAddCommonMode 0 l kCFRunLoopCommonModes w = Some w'
    \<and> (\<forall>fuel item. may_add l item w' \<longrightarrow> CFRunLoopAddItem fuel l item kCFRunLoopCommonModes w' = None)"
proof -
  have "\<exists>w'. CFRunLoopAddCommonMode 0 l kCFRunLoopCommonModes w = Some w' \<and> kCFRunLoopCommonModes \<in> set (rl_commonModes (w_loops w' l))"
    using assms by (auto simp: CFRunLoopAddCommonMode_def loop_upd_def)
  then show ?thesis using add_forever by metis
qed

theorem runloop_common_modes_recursion_witness:
  "\<exists>w'. CFRunLoopAddCommonMode 0 0 kCFRunLoopCommonModes small_loop = Some w'
    \<and> (may_add 0 (Timer 3) w' \<longrightarrow> CFRunLoopAddItem 1000 0 (Timer 3) kCFRunLoopCommonModes w' = None)"
proof -
  have "\<not> rl_deallocating (w_loops small_loop 0)" using small_add(1) [of "Timer 0"] by (simp add: may_add_def)
  from runloop_common_modes_recursion [OF this small_add(4)] show ?thesis by blast
qed

end
