(* ===== verification/RunLoopRun.thy ===== *)
theory RunLoopRun
  imports RunLoopModes SortFunctions
begin

text \<open>
  Running a run loop (CFRunLoop.c): blocks, observers, sources, timers, one pass of the loop, and
  \<open>CFRunLoopRunSpecific\<close>. Code of other programs and the kernel are the fields of \<open>rl_env\<close>: what a
  callout does, what happens while the thread waits for a message or tests the port of the main queue,
  and what the queue of a mode does when it is drained. Each of them is a function on the world, so it
  may call the operations of RunLoop.thy and stand for other threads. A callback receives its reply
  port and voucher from the kernel; they are left out. \<open>None\<close> is a run that halts or does not return.
\<close>

section \<open>The environment\<close>

record rl_env =
  re_callout :: "rl_event \<Rightarrow> rl_world \<Rightarrow> rl_world"
  re_wait :: "nat \<Rightarrow> string \<Rightarrow> bool \<Rightarrow> rl_world \<Rightarrow> u32 \<times> rl_world"
  re_receive :: "u32 \<Rightarrow> rl_world \<Rightarrow> bool \<times> rl_world"
  re_drain :: "u32 \<Rightarrow> rl_world \<Rightarrow> rl_world"
  re_mainQueuePort :: u32
  re_garbage :: "nat list"
  re_tmp :: "nat list"

definition call_out :: "rl_env \<Rightarrow> rl_event \<Rightarrow> rl_world \<Rightarrow> rl_world" where
  "call_out env e w = re_callout env e (emit e w)"

definition mode_upd :: "nat \<Rightarrow> string \<Rightarrow> (CFRunLoopMode \<Rightarrow> CFRunLoopMode) \<Rightarrow> rl_world \<Rightarrow> rl_world" where
  "mode_upd l name f w = put_mode l name (f (the_mode l name w)) w"

definition kCFRunLoopEntry :: u64 where "kCFRunLoopEntry = 1"
definition kCFRunLoopBeforeTimers :: u64 where "kCFRunLoopBeforeTimers = 2"
definition kCFRunLoopBeforeSources :: u64 where "kCFRunLoopBeforeSources = 4"
definition kCFRunLoopBeforeWaiting :: u64 where "kCFRunLoopBeforeWaiting = 32"
definition kCFRunLoopAfterWaiting :: u64 where "kCFRunLoopAfterWaiting = 64"
definition kCFRunLoopExit :: u64 where "kCFRunLoopExit = 128"

datatype run_result = kCFRunLoopRunFinished | kCFRunLoopRunStopped | kCFRunLoopRunTimedOut | kCFRunLoopRunHandledSource

section \<open>Blocks\<close>

text \<open>The chain of items taken from the queue, linked by \<open>_next\<close>; an item is named by its place in the queue.\<close>

record block_chain =
  bc_head :: "nat option"
  bc_tail :: "nat option"
  bc_next :: "nat \<Rightarrow> nat option"

definition detached_chain :: "nat \<Rightarrow> block_chain" where
  "detached_chain n = \<lparr>bc_head = Some 0, bc_tail = Some (n - 1), bc_next = (\<lambda>i. if i + 1 < n then Some (i + 1) else None)\<rparr>"

text \<open>An item is taken out, whose next one is \<open>item\<close>.\<close>

definition unlink_block :: "nat option \<Rightarrow> nat \<Rightarrow> nat option \<Rightarrow> block_chain \<Rightarrow> block_chain" where
  "unlink_block prev node item chain =
     (let chain = (case prev of Some p \<Rightarrow> chain\<lparr>bc_next := (bc_next chain)(p := item)\<rparr> | None \<Rightarrow> chain);
          chain = (if Some node = bc_head chain then chain\<lparr>bc_head := item\<rparr> else chain)
      in if Some node = bc_tail chain then chain\<lparr>bc_tail := prev\<rparr> else chain)"

text \<open>The loop over the chain. The common modes are read when an item is reached. \<open>fuel\<close> bounds the items.\<close>

fun do_blocks ::
  "rl_env \<Rightarrow> nat \<Rightarrow> string \<Rightarrow> (block_mode \<times> nat) list \<Rightarrow> nat \<Rightarrow> bool \<Rightarrow> nat option \<Rightarrow> nat option \<Rightarrow> block_chain \<Rightarrow> rl_world
    \<Rightarrow> bool \<times> block_chain \<times> rl_world" where
  "do_blocks env l curMode blocks 0 did prev item chain w = (did, chain, w)"
| "do_blocks env l curMode blocks (Suc fuel) did prev item chain w =
     (case item of
        None \<Rightarrow> (did, chain, w)
      | Some node \<Rightarrow>
          (let item = bc_next chain node; (mode, block) = blocks ! node
           in if block_in_mode (rl_commonModes (w_loops w l)) curMode mode
              then do_blocks env l curMode blocks fuel True prev item (unlink_block prev node item chain)
                     (call_out env (Run_block block) w)
              else do_blocks env l curMode blocks fuel did (Some node) item chain w))"

text \<open>The queue when the rest of the chain has been put in front of it: it is what one reaches from the head
  of the chain, whose tail is linked to the old queue.\<close>

fun linked_blocks ::
  "(block_mode \<times> nat) list \<Rightarrow> block_chain \<Rightarrow> (block_mode \<times> nat) list \<Rightarrow> nat \<Rightarrow> nat option \<Rightarrow> (block_mode \<times> nat) list" where
  "linked_blocks blocks chain queue (Suc fuel) (Some i) =
     blocks ! i # (if Some i = bc_tail chain then queue else linked_blocks blocks chain queue fuel (bc_next chain i))"
| "linked_blocks blocks chain queue fuel item = []"

definition CFRunLoopDoBlocks :: "rl_env \<Rightarrow> nat \<Rightarrow> string \<Rightarrow> rl_world \<Rightarrow> bool \<times> rl_world" where
  "CFRunLoopDoBlocks env l curMode w =
     (let blocks = rl_blocks (w_loops w l); n = length blocks; chain = detached_chain n
      in if blocks = [] then (False, w)
         else
           (let (did, chain, w) = do_blocks env l curMode blocks n False None (bc_head chain) chain
                  (loop_upd l (\<lambda>rl. rl\<lparr>rl_blocks := []\<rparr>) w)
            in (did, if bc_head chain \<noteq> None
                     then loop_upd l (\<lambda>rl. rl\<lparr>rl_blocks := linked_blocks blocks chain (rl_blocks rl) n (bc_head chain)\<rparr>) w
                     else w)))"

section \<open>Observers\<close>

definition do_observer :: "rl_env \<Rightarrow> u64 \<Rightarrow> nat \<Rightarrow> rl_world \<Rightarrow> rl_world" where
  "do_observer env activity rlo w =
     (let ob = w_observers w rlo
      in if ro_valid ob
         then
           (let w = observer_upd rlo (\<lambda>ob. ob\<lparr>ro_firing := True\<rparr>) w;
                w = call_out env (Observe rlo activity) w;
                w = (if \<not> ro_repeats ob then CFRunLoopObserverInvalidate rlo w else w)
            in observer_upd rlo (\<lambda>ob. ob\<lparr>ro_firing := False\<rparr>) w)
         else w)"

definition CFRunLoopDoObservers :: "rl_env \<Rightarrow> nat \<Rightarrow> string \<Rightarrow> u64 \<Rightarrow> rl_world \<Rightarrow> rl_world" where
  "CFRunLoopDoObservers env l name activity w =
     (let collectedObservers = filter (\<lambda>rlo. ro_activities (w_observers w rlo) AND activity \<noteq> 0
            \<and> ro_valid (w_observers w rlo) \<and> \<not> ro_firing (w_observers w rlo)) (rm_observers (the_mode l name w))
      in fold (do_observer env activity) collectedObservers w)"

text \<open>The observers are asked only if the mask of the mode has the activity.\<close>

definition notify :: "rl_env \<Rightarrow> nat \<Rightarrow> string \<Rightarrow> u64 \<Rightarrow> rl_world \<Rightarrow> rl_world" where
  "notify env l name activity w =
     (if rm_observerMask (the_mode l name w) AND activity \<noteq> 0 then CFRunLoopDoObservers env l name activity w else w)"

section \<open>Sources\<close>

definition CFRunLoopSourceComparator :: "nat \<Rightarrow> nat \<Rightarrow> rl_world \<Rightarrow> CFComparisonResult" where
  "CFRunLoopSourceComparator o1 o2 w =
     (if rs_order (w_sources w o1) < rs_order (w_sources w o2) then kCFCompareLessThan
      else if rs_order (w_sources w o2) < rs_order (w_sources w o1) then kCFCompareGreaterThan
      else kCFCompareEqualTo)"

definition CFRunLoopCollectSources0 :: "nat list \<Rightarrow> rl_world \<Rightarrow> nat list" where
  "CFRunLoopCollectSources0 sources w =
     filter (\<lambda>rls. rs_version (w_sources w rls) = 0 \<and> rs_valid (w_sources w rls) \<and> rs_signaled (w_sources w rls)) sources"

definition do_source0 :: "rl_env \<Rightarrow> nat \<Rightarrow> rl_world \<Rightarrow> bool \<times> rl_world" where
  "do_source0 env rls w =
     (if rs_signaled (w_sources w rls)
      then
        (let w = source_upd rls (\<lambda>s. s\<lparr>rs_signaled := False\<rparr>) w
         in if rs_valid (w_sources w rls)
            then (True, if rs_perform (w_sources w rls) then call_out env (Perform_source rls) w else w)
            else (False, w))
      else (False, w))"

fun do_sources0 :: "rl_env \<Rightarrow> bool \<Rightarrow> bool \<Rightarrow> nat list \<Rightarrow> rl_world \<Rightarrow> bool \<times> rl_world" where
  "do_sources0 env stopAfterHandle sourceHandled [] w = (sourceHandled, w)"
| "do_sources0 env stopAfterHandle sourceHandled (rls # sources) w =
     (let (did, w) = do_source0 env rls w;
          sourceHandled = (sourceHandled \<or> did)
      in if stopAfterHandle \<and> sourceHandled then (sourceHandled, w)
         else do_sources0 env stopAfterHandle sourceHandled sources w)"

text \<open>A single source is not put into an array; for it, sorting and the early end make no difference.\<close>

definition CFRunLoopDoSources0 :: "rl_env \<Rightarrow> nat \<Rightarrow> string \<Rightarrow> bool \<Rightarrow> rl_world \<Rightarrow> bool \<times> rl_world" where
  "CFRunLoopDoSources0 env l name stopAfterHandle w =
     do_sources0 env stopAfterHandle False
       (CFQSortArray (re_garbage env) (re_tmp env) (CFRunLoopCollectSources0 (rm_sources0 (the_mode l name w)) w) 8
         CFRunLoopSourceComparator w) w"

definition CFRunLoopModeFindSourceForMachPort :: "nat \<Rightarrow> string \<Rightarrow> u32 \<Rightarrow> rl_world \<Rightarrow> nat option" where
  "CFRunLoopModeFindSourceForMachPort l name port w = rm_portToV1SourceMap (the_mode l name w) port"

definition CFRunLoopDoSource1 :: "rl_env \<Rightarrow> nat \<Rightarrow> rl_world \<Rightarrow> bool \<times> rl_world" where
  "CFRunLoopDoSource1 env rls w =
     (if rs_valid (w_sources w rls)
      then
        (let w = source_upd rls (\<lambda>s. s\<lparr>rs_signaled := False\<rparr>) w
         in (True, if rs_perform (w_sources w rls) then call_out env (Perform_source rls) w else w))
      else (False, w))"

section \<open>Timers\<close>

definition CFTSRToTimeInterval :: "real \<Rightarrow> u64 \<Rightarrow> real" where
  "CFTSRToTimeInterval rate tsr = real_of_int (uint tsr) / rate"

definition CFTimeIntervalUntilTSR :: "real \<Rightarrow> u64 \<Rightarrow> u64 \<Rightarrow> real" where
  "CFTimeIntervalUntilTSR rate now tsr =
     (if now \<le> tsr then CFTSRToTimeInterval rate (tsr - now) else - CFTSRToTimeInterval rate (now - tsr))"

text \<open>Retaining the info of the context for the time of the callout; without a retain callback the
  release callback is not called either.\<close>

definition retain_info :: "CFRunLoopContext \<Rightarrow> rl_world \<Rightarrow> ptr \<times> unit fnptr option \<times> rl_world" where
  "retain_info c w =
     (case rc_retain c of
        Some retain \<Rightarrow> (fn_code retain (rc_info c), rc_release c, emit (Retain_context (fn_addr retain) (rc_info c)) w)
      | None \<Rightarrow> (rc_info c, None, w))"

text \<open>The fire time after the callout. A later one that was set meanwhile is kept.\<close>

definition timer_fired :: "nat \<Rightarrow> string \<Rightarrow> timer \<Rightarrow> u64 \<Rightarrow> rl_world \<Rightarrow> rl_world option" where
  "timer_fired l name rlt oldFireTSR w =
     (let t = w_timers w rlt
      in if \<not> rt_valid t then Some w
         else if oldFireTSR < rt_fireTSR t then Some (arm_next_timer l name w)
         else map_option (\<lambda>nextFireTSR.
             set_fire_time rlt nextFireTSR (w_date w + CFTimeIntervalUntilTSR (w_rate w) (w_TSR w) nextFireTSR) w)
           (timer_nextFireTSR (w_rate w) (w_TSR w) oldFireTSR t))"

text \<open>The callout. The deadlines of the mode are reset, so that arming finds the next timer.\<close>

definition fire_timer :: "rl_env \<Rightarrow> nat \<Rightarrow> string \<Rightarrow> timer \<Rightarrow> rl_world \<Rightarrow> rl_world" where
  "fire_timer env l name rlt w =
     (let t = w_timers w rlt;
          (info, release, w) = retain_info (rt_context t) w;
          w = timer_upd rlt (\<lambda>t. t\<lparr>rt_firing := True\<rparr>) w;
          w = mode_upd l name (\<lambda>rlm. rlm\<lparr>rm_timerSoftDeadline := UINT64_MAX, rm_timerHardDeadline := UINT64_MAX\<rparr>) w;
          w = arm_next_timer l name w;
          w = call_out env (Fire_timer rlt info) w;
          w = (if rt_interval t = 0 then CFRunLoopTimerInvalidate rlt w else w);
          w = (case release of Some f \<Rightarrow> emit (Release_context (fn_addr f) info) w | None \<Rightarrow> w)
      in timer_upd rlt (\<lambda>t. t\<lparr>rt_firing := False\<rparr>) w)"

definition CFRunLoopDoTimer :: "rl_env \<Rightarrow> nat \<Rightarrow> string \<Rightarrow> timer \<Rightarrow> rl_world \<Rightarrow> (bool \<times> rl_world) option" where
  "CFRunLoopDoTimer env l name rlt w =
     (let t = w_timers w rlt
      in if rt_valid t \<and> rt_fireTSR t \<le> w_TSR w \<and> \<not> rt_firing t \<and> rt_runLoop t = Some l
         then map_option (\<lambda>w. (True, w)) (timer_fired l name rlt (rt_fireTSR t) (fire_timer env l name rlt w))
         else Some (False, w))"

fun do_timers :: "rl_env \<Rightarrow> nat \<Rightarrow> string \<Rightarrow> bool \<Rightarrow> timer list \<Rightarrow> rl_world \<Rightarrow> (bool \<times> rl_world) option" where
  "do_timers env l name timerHandled [] w = Some (timerHandled, w)"
| "do_timers env l name timerHandled (rlt # timers) w =
     Option.bind (CFRunLoopDoTimer env l name rlt w) (\<lambda>(did, w). do_timers env l name (timerHandled \<or> did) timers w)"

definition CFRunLoopDoTimers :: "rl_env \<Rightarrow> nat \<Rightarrow> string \<Rightarrow> u64 \<Rightarrow> rl_world \<Rightarrow> (bool \<times> rl_world) option" where
  "CFRunLoopDoTimers env l name limitTSR w =
     do_timers env l name False
       (filter (\<lambda>rlt. rt_valid (w_timers w rlt) \<and> \<not> rt_firing (w_timers w rlt) \<and> rt_fireTSR (w_timers w rlt) \<le> limitTSR)
         (rm_timers (the_mode l name w))) w"

section \<open>One pass\<close>

text \<open>Draining the queue of a mode may set \<open>rm_timerFired\<close>; if it does not, the thread waits again.\<close>

partial_function (option) wait_loop :: "rl_env \<Rightarrow> nat \<Rightarrow> string \<Rightarrow> u32 \<Rightarrow> bool \<Rightarrow> rl_world \<Rightarrow> (u32 \<times> rl_world) option" where
  "wait_loop env l name modeQueuePort poll w =
     (let (livePort, w) = re_wait env l name poll w
      in if modeQueuePort \<noteq> 0 \<and> livePort = modeQueuePort
         then
           (let w = re_drain env modeQueuePort w
            in if rm_timerFired (the_mode l name w)
               then Some (livePort, mode_upd l name (\<lambda>rlm. rlm\<lparr>rm_timerFired := False\<rparr>) w)
               else wait_loop env l name modeQueuePort poll w)
         else Some (livePort, w))"

text \<open>The part of a pass in which the thread sleeps. The port of the main queue is in the set only meanwhile.\<close>

definition fall_asleep :: "rl_env \<Rightarrow> nat \<Rightarrow> string \<Rightarrow> u32 \<Rightarrow> bool \<Rightarrow> rl_world \<Rightarrow> rl_world" where
  "fall_asleep env l name dispatchPort poll w =
     (let w = (if \<not> poll then notify env l name kCFRunLoopBeforeWaiting w else w);
          w = loop_upd l (\<lambda>rl. rl\<lparr>rl_sleeping := True\<rparr>) w
      in if dispatchPort \<noteq> 0 then mode_upd l name (\<lambda>rlm. rlm\<lparr>rm_portSet := set_add dispatchPort (rm_portSet rlm)\<rparr>) w else w)"

definition wake_from_sleep :: "rl_env \<Rightarrow> nat \<Rightarrow> string \<Rightarrow> u32 \<Rightarrow> bool \<Rightarrow> rl_world \<Rightarrow> rl_world" where
  "wake_from_sleep env l name dispatchPort poll w =
     (let w = (if dispatchPort \<noteq> 0 then mode_upd l name (\<lambda>rlm. rlm\<lparr>rm_portSet := remove1 dispatchPort (rm_portSet rlm)\<rparr>) w else w);
          w = loop_upd l (\<lambda>rl. rl\<lparr>rl_ignoreWakeUps := True, rl_sleeping := False\<rparr>) w
      in if \<not> poll then notify env l name kCFRunLoopAfterWaiting w else w)"

definition sleep_pass :: "rl_env \<Rightarrow> nat \<Rightarrow> string \<Rightarrow> u32 \<Rightarrow> u32 \<Rightarrow> bool \<Rightarrow> rl_world \<Rightarrow> (u32 \<times> rl_world) option" where
  "sleep_pass env l name dispatchPort modeQueuePort poll w =
     map_option (\<lambda>(livePort, w). (livePort, wake_from_sleep env l name dispatchPort poll w))
       (wait_loop env l name modeQueuePort poll (fall_asleep env l name dispatchPort poll w))"

text \<open>Timers: when none was ready, the next one is armed again.\<close>

definition timer_message :: "rl_env \<Rightarrow> nat \<Rightarrow> string \<Rightarrow> rl_world \<Rightarrow> rl_world option" where
  "timer_message env l name w =
     map_option (\<lambda>(did, w). if did then w else arm_next_timer l name w) (CFRunLoopDoTimers env l name (w_TSR w) w)"

text \<open>\<open>handle_msg\<close>: the values are whether a source was handled, and whether it was the main queue.\<close>

definition handle_msg ::
  "rl_env \<Rightarrow> nat \<Rightarrow> string \<Rightarrow> u32 \<Rightarrow> u32 \<Rightarrow> u32 \<Rightarrow> rl_world \<Rightarrow> (bool \<times> bool \<times> rl_world) option" where
  "handle_msg env l name dispatchPort modeQueuePort livePort w =
     (let w = loop_upd l (\<lambda>rl. rl\<lparr>rl_ignoreWakeUps := True\<rparr>) w; rlm = the_mode l name w
      in if livePort = 0 then Some (False, False, w)
         else if livePort = rl_wakeUpPort (w_loops w l) then Some (False, False, w)
         else if modeQueuePort \<noteq> 0 \<and> livePort = modeQueuePort
         then map_option (\<lambda>w. (False, False, w)) (timer_message env l name w)
         else if rm_timerPort rlm \<noteq> 0 \<and> livePort = rm_timerPort rlm
         then map_option (\<lambda>w. (False, False, w)) (timer_message env l name w)
         else if livePort = dispatchPort
         then Some (True, True, (call_out env Main_queue (w\<lparr>w_inGCDMainQ := True\<rparr>))\<lparr>w_inGCDMainQ := False\<rparr>)
         else
           (case CFRunLoopModeFindSourceForMachPort l name livePort w of
              Some rls \<Rightarrow> (let (did, w) = CFRunLoopDoSource1 env rls w in Some (did, False, w))
            | None \<Rightarrow> Some (False, False, w)))"

text \<open>The end of a pass: whether the run returns, and a stop request is used up.\<close>

definition run_status :: "nat \<Rightarrow> string \<Rightarrow> nat \<Rightarrow> bool \<Rightarrow> rl_world \<Rightarrow> run_result option \<times> rl_world" where
  "run_status l name run handled w =
     (if handled then (Some kCFRunLoopRunHandledSource, w)
      else if w_termTSRs w ! run < w_TSR w then (Some kCFRunLoopRunTimedOut, w)
      else if rl_stopped (w_loops w l) then (Some kCFRunLoopRunStopped, loop_upd l (\<lambda>rl. rl\<lparr>rl_stopped := False\<rparr>) w)
      else if rm_stopped (the_mode l name w)
      then (Some kCFRunLoopRunStopped, mode_upd l name (\<lambda>rlm. rlm\<lparr>rm_stopped := False\<rparr>) w)
      else if CFRunLoopModeIsEmpty l name w then (Some kCFRunLoopRunFinished, w)
      else (None, w))"

text \<open>The part of a pass up to the decision to sleep: whether a source was handled, and the world.\<close>

definition start_pass :: "rl_env \<Rightarrow> nat \<Rightarrow> string \<Rightarrow> bool \<Rightarrow> rl_world \<Rightarrow> bool \<times> rl_world" where
  "start_pass env l name stopAfterHandle w =
     (let w = loop_upd l (\<lambda>rl. rl\<lparr>rl_ignoreWakeUps := False\<rparr>) w;
          w = notify env l name kCFRunLoopBeforeTimers w;
          w = notify env l name kCFRunLoopBeforeSources w;
          (_, w) = CFRunLoopDoBlocks env l name w;
          (handled, w) = CFRunLoopDoSources0 env l name stopAfterHandle w
      in (handled, if handled then snd (CFRunLoopDoBlocks env l name w) else w))"

text \<open>A pass up to the decision whether the run returns: whether a source was handled, whether the main queue
  was, and the world.\<close>

definition pass_work ::
  "rl_env \<Rightarrow> nat \<Rightarrow> string \<Rightarrow> nat \<Rightarrow> bool \<Rightarrow> u32 \<Rightarrow> u32 \<Rightarrow> bool \<Rightarrow> rl_world \<Rightarrow> (bool \<times> bool \<times> rl_world) option" where
  "pass_work env l name run stopAfterHandle dispatchPort modeQueuePort didDispatchPortLastTime w =
     (let (handled, w) = start_pass env l name stopAfterHandle w;
          poll = (handled \<or> w_termTSRs w ! run = 0);
          (ready, w) = (if dispatchPort \<noteq> 0 \<and> \<not> didDispatchPortLastTime then re_receive env dispatchPort w else (False, w))
      in Option.bind
           (if ready then Some (dispatchPort, didDispatchPortLastTime, w)
            else map_option (\<lambda>(livePort, w). (livePort, False, w)) (sleep_pass env l name dispatchPort modeQueuePort poll w))
           (\<lambda>(livePort, didLast, w). map_option
             (\<lambda>(handled', mainQueue, w). (handled \<or> handled', didLast \<or> mainQueue, snd (CFRunLoopDoBlocks env l name w)))
             (handle_msg env l name dispatchPort modeQueuePort livePort w)))"

definition run_pass ::
  "rl_env \<Rightarrow> nat \<Rightarrow> string \<Rightarrow> nat \<Rightarrow> bool \<Rightarrow> u32 \<Rightarrow> u32 \<Rightarrow> bool \<Rightarrow> rl_world \<Rightarrow> (run_result option \<times> bool \<times> rl_world) option" where
  "run_pass env l name run stopAfterHandle dispatchPort modeQueuePort didDispatchPortLastTime w =
     map_option (\<lambda>(handled, didLast, w). let (status, w) = run_status l name run (handled \<and> stopAfterHandle) w in (status, didLast, w))
       (pass_work env l name run stopAfterHandle dispatchPort modeQueuePort didDispatchPortLastTime w)"

partial_function (option) run_passes ::
  "rl_env \<Rightarrow> nat \<Rightarrow> string \<Rightarrow> nat \<Rightarrow> bool \<Rightarrow> u32 \<Rightarrow> u32 \<Rightarrow> bool \<Rightarrow> rl_world \<Rightarrow> (run_result \<times> rl_world) option" where
  "run_passes env l name run stopAfterHandle dispatchPort modeQueuePort didDispatchPortLastTime w =
     Option.bind (run_pass env l name run stopAfterHandle dispatchPort modeQueuePort didDispatchPortLastTime w)
       (\<lambda>(status, didLast, w).
         (case status of
            Some result \<Rightarrow> Some (result, w)
          | None \<Rightarrow> run_passes env l name run stopAfterHandle dispatchPort modeQueuePort didLast w))"

section \<open>Running\<close>

text \<open>The timeout of a run, which another thread calls; \<open>run\<close> is the run's own timeout context.\<close>

definition CFRunLoopTimeout :: "nat \<Rightarrow> nat \<Rightarrow> rl_world \<Rightarrow> rl_world" where
  "CFRunLoopTimeout l run w = CFRunLoopWakeUp l (w\<lparr>w_termTSRs := (w_termTSRs w)[run := 0]\<rparr>)"

definition termination_TSR :: "real \<Rightarrow> rl_world \<Rightarrow> u64" where
  "termination_TSR seconds w =
     (if seconds \<le> 0 then 0
      else if seconds \<le> TIMER_INTERVAL_LIMIT then w_TSR w + CFTimeIntervalToTSR (w_rate w) seconds
      else UINT64_MAX)"

definition timeout_at :: "real \<Rightarrow> rl_world \<Rightarrow> u64" where
  "timeout_at seconds w =
     dispatch_time (w_dispatch w) 1
       (word_of_int \<lfloor>(CFTSRToTimeInterval (w_rate w) (w_TSR w) + seconds) * 1000000000\<rfloor>)"

definition run_mode :: "rl_env \<Rightarrow> nat \<Rightarrow> string \<Rightarrow> real \<Rightarrow> bool \<Rightarrow> rl_world \<Rightarrow> (run_result \<times> rl_world) option" where
  "run_mode env l name seconds stopAfterHandle w =
     (if rl_stopped (w_loops w l) then Some (kCFRunLoopRunStopped, loop_upd l (\<lambda>rl. rl\<lparr>rl_stopped := False\<rparr>) w)
      else if rm_stopped (the_mode l name w)
      then Some (kCFRunLoopRunStopped, mode_upd l name (\<lambda>rlm. rlm\<lparr>rm_stopped := False\<rparr>) w)
      else
        (let dispatchPort = (if libdispatchQSafe w \<and> w_mainLoop w = l \<and> name \<in> set (rl_commonModes (w_loops w l))
                             then re_mainQueuePort env else 0);
             modeQueuePort = rm_queuePort (the_mode l name w);
             timed = (0 < seconds \<and> seconds \<le> TIMER_INTERVAL_LIMIT);
             run = length (w_termTSRs w);
             w' = w\<lparr>w_termTSRs := w_termTSRs w @ [termination_TSR seconds w]\<rparr>;
             w' = (if timed then emit (Start_timeout run (timeout_at seconds w)) w' else w')
         in map_option (\<lambda>(result, w). (result, if timed then emit (Cancel_timeout run) w else w))
              (run_passes env l name run stopAfterHandle dispatchPort modeQueuePort True w')))"

text \<open>A run has a stop flag and a flag for ignoring wake-ups of its own.\<close>

definition CFRunLoopRunSpecific ::
  "rl_env \<Rightarrow> nat \<Rightarrow> string \<Rightarrow> real \<Rightarrow> bool \<Rightarrow> rl_world \<Rightarrow> (run_result \<times> rl_world) option" where
  "CFRunLoopRunSpecific env l modeName seconds returnAfterSourceHandled w =
     (if rl_deallocating (w_loops w l) then Some (kCFRunLoopRunFinished, w)
      else if find_mode l modeName w = None \<or> CFRunLoopModeIsEmpty l modeName w then Some (kCFRunLoopRunFinished, w)
      else
        (let rl = w_loops w l;
             w = loop_upd l (\<lambda>rl. rl\<lparr>rl_stopped := False, rl_ignoreWakeUps := False, rl_currentMode := Some modeName\<rparr>) w;
             w = notify env l modeName kCFRunLoopEntry w
         in map_option (\<lambda>(result, w).
              (result, loop_upd l (\<lambda>rl'. rl'\<lparr>rl_stopped := rl_stopped rl, rl_ignoreWakeUps := rl_ignoreWakeUps rl,
                         rl_currentMode := rl_currentMode rl\<rparr>) (notify env l modeName kCFRunLoopExit w)))
            (run_mode env l modeName seconds returnAfterSourceHandled w)))"

partial_function (option) CFRunLoopRun :: "rl_env \<Rightarrow> rl_world \<Rightarrow> rl_world option" where
  "CFRunLoopRun env w =
     Option.bind (CFRunLoopRunSpecific env (w_currentLoop w) kCFRunLoopDefaultMode 10000000000 False w)
       (\<lambda>(result, w). if result = kCFRunLoopRunStopped \<or> result = kCFRunLoopRunFinished then Some w else CFRunLoopRun env w)"

definition CFRunLoopRunInMode :: "rl_env \<Rightarrow> string \<Rightarrow> real \<Rightarrow> bool \<Rightarrow> rl_world \<Rightarrow> (run_result \<times> rl_world) option" where
  "CFRunLoopRunInMode env modeName seconds returnAfterSourceHandled w =
     CFRunLoopRunSpecific env (w_currentLoop w) modeName seconds returnAfterSourceHandled w"

section \<open>Running keeps the modes consistent\<close>

text \<open>A good world, with the modes of \<open>M\<close>.\<close>

definition good :: "(nat \<times> string) set \<Rightarrow> rl_world \<Rightarrow> bool" where
  "good M w \<longleftrightarrow> runloop_ok {} {} w \<and> (\<forall>(l, n) \<in> M. find_mode l n w \<noteq> None)"

text \<open>Every part of the environment keeps the world good and removes no mode.\<close>

definition env_good :: "rl_env \<Rightarrow> bool" where
  "env_good env \<longleftrightarrow> (\<forall>M w. good M w \<longrightarrow>
     (\<forall>e. good M (re_callout env e w)) \<and> (\<forall>l name poll. good M (snd (re_wait env l name poll w)))
     \<and> (\<forall>port. good M (snd (re_receive env port w)) \<and> good M (re_drain env port w)))"

lemma good_upd [simp]:
  "(\<And>rl. rl_modes (f rl) = rl_modes rl) \<Longrightarrow> good M (loop_upd l f w) \<longleftrightarrow> good M w"
  "good M (source_upd s g w) \<longleftrightarrow> good M w" "good M (emit e w) \<longleftrightarrow> good M w"
  by (simp_all add: good_def)

lemma observer_upd_ok [simp]:
  "(\<And>t. observer_links (k t) = observer_links t) \<Longrightarrow> runloop_ok X Y (observer_upd ob k w) \<longleftrightarrow> runloop_ok X Y w"
  by (rule runloop_ok_cong) (simp add: same_links_def)

lemma good_object_upd [simp]:
  "(\<And>t. timer_links (k t) = timer_links t) \<Longrightarrow> good M (timer_upd t k w) \<longleftrightarrow> good M w"
  "(\<And>t. observer_links (k' t) = observer_links t) \<Longrightarrow> good M (observer_upd ob k' w) \<longleftrightarrow> good M w"
  by (simp_all add: good_def)

lemma good_world_upd [simp]: "good M (w\<lparr>w_inGCDMainQ := b\<rparr>) \<longleftrightarrow> good M w" "good M (w\<lparr>w_termTSRs := ts\<rparr>) \<longleftrightarrow> good M w"
proof -
  have find: "find_mode l n (w\<lparr>w_inGCDMainQ := b\<rparr>) = find_mode l n w" "find_mode l n (w\<lparr>w_termTSRs := ts\<rparr>) = find_mode l n w" for l n
    by (simp_all add: find_mode_def)
  then have "same_links (w\<lparr>w_inGCDMainQ := b\<rparr>) w" "same_links (w\<lparr>w_termTSRs := ts\<rparr>) w"
    by (simp_all add: same_links_def mode_timers_def mode_observers_def)
  then show "good M (w\<lparr>w_inGCDMainQ := b\<rparr>) \<longleftrightarrow> good M w" "good M (w\<lparr>w_termTSRs := ts\<rparr>) \<longleftrightarrow> good M w"
    by (auto simp: good_def find dest: runloop_ok_cong)
qed

lemma good_mode: "good M w \<Longrightarrow> (l, n) \<in> M \<Longrightarrow> find_mode l n w = Some (the_mode l n w)"
  by (auto simp: good_def the_mode_def)

lemma find_mode_mode_upd [simp]:
  "find_mode l n (mode_upd l' n' f w) = (if l = l' \<and> n = n' then Some (f (the_mode l n w)) else find_mode l n w)"
  by (simp add: mode_upd_def)

lemma good_mode_upd [simp]:
  assumes "(l, n) \<in> M" "\<And>m. rm_timers (f m) = rm_timers m" "\<And>m. rm_observers (f m) = rm_observers m"
  shows "good M w \<Longrightarrow> good M (mode_upd l n f w)"
  using runloop_ok_put [OF good_mode [of M w l n] assms(2,3)] assms(1) by (auto simp: good_def mode_upd_def)

text \<open>Operations remove no mode.\<close>

lemma find_mode_arm [simp]:
  "find_mode l n (arm_next_timer l' n' w) = None \<longleftrightarrow> find_mode l n w = None"
  "find_mode l n (reposition_timer l' t i n' w) = None \<longleftrightarrow> find_mode l n w = None"
  by (auto simp: arm_next_timer_def reposition_timer_def mode_timers_upd_def split: option.splits prod.splits)

lemma find_mode_remove [simp]:
  "find_mode l n (remove_from_mode l' item n' w) = None \<longleftrightarrow> find_mode l n w = None"
  by (auto simp: remove_from_mode_def remove_source_from_mode_def remove_observer_from_mode_def remove_timer_from_mode_def
      CFRunLoopObserverCancel_def Let_def split: item.split option.split)

lemma find_mode_RemoveItem [simp]:
  "find_mode l n (CFRunLoopRemoveItem l' item n' w) = None \<longleftrightarrow> find_mode l n w = None"
proof -
  have "find_mode l n (fold (\<lambda>n w. if n = kCFRunLoopCommonModes then w else remove_from_mode l' item n w) ns v) = None \<longleftrightarrow> find_mode l n v = None" for ns v
    by (induction ns arbitrary: v) auto
  then show ?thesis by (simp add: CFRunLoopRemoveItem_def)
qed

lemma find_mode_RemoveTimer [simp]:
  "find_mode l n (CFRunLoopRemoveTimer l' t n' w) = None \<longleftrightarrow> find_mode l n w = None"
  "find_mode l n (CFRunLoopRemoveObserver l' ob n' w) = None \<longleftrightarrow> find_mode l n w = None"
  by (simp_all add: CFRunLoopRemoveTimer_def CFRunLoopRemoveObserver_def)

lemma find_mode_fold [simp]:
  "find_mode l n (fold (CFRunLoopRemoveTimer l' t) ns v) = None \<longleftrightarrow> find_mode l n v = None"
  "find_mode l n (fold (CFRunLoopRemoveObserver l' ob) ns v) = None \<longleftrightarrow> find_mode l n v = None"
  "find_mode l n (fold (reposition_timer l' t i) ns v) = None \<longleftrightarrow> find_mode l n v = None"
  by (induction ns arbitrary: v) auto

lemma find_mode_invalidate [simp]:
  "find_mode l n (CFRunLoopTimerInvalidate t w) = None \<longleftrightarrow> find_mode l n w = None"
  "find_mode l n (CFRunLoopObserverInvalidate ob w) = None \<longleftrightarrow> find_mode l n w = None"
  "find_mode l n (set_fire_time t fire date w) = None \<longleftrightarrow> find_mode l n w = None"
  by (auto simp: CFRunLoopTimerInvalidate_def CFRunLoopObserverInvalidate_def release_context_def Let_def set_fire_time_def split: option.split)

lemma good_operations:
  assumes "good M w"
  shows "good M (arm_next_timer l n w)" "good M (CFRunLoopTimerInvalidate t w)" "good M (CFRunLoopObserverInvalidate ob w)"
    "good M (set_fire_time t fire date w)"
proof -
  have "same_links (arm_next_timer l n w) w" by (simp add: same_links_def)
  then show "good M (arm_next_timer l n w)" using assms by (auto simp: good_def dest: runloop_ok_cong)
  show "good M (CFRunLoopTimerInvalidate t w)" "good M (CFRunLoopObserverInvalidate ob w)" "good M (set_fire_time t fire date w)"
    using assms CFRunLoopTimerInvalidate_ok(1) CFRunLoopObserverInvalidate_ok(1) set_fire_time_links by (auto simp: good_def)
qed

lemma good_call_out: "env_good env \<Longrightarrow> good M w \<Longrightarrow> good M (call_out env e w)"
  by (simp add: call_out_def env_good_def)

lemma good_do_blocks:
  assumes "env_good env"
  shows "good M w \<Longrightarrow> good M (snd (snd (do_blocks env l n blocks fuel did prev item chain w)))"
  using assms
  by (induction fuel arbitrary: did prev item chain w) (auto simp: split_def Let_def good_call_out split: option.split)

lemma good_DoBlocks: "env_good env \<Longrightarrow> good M w \<Longrightarrow> good M (snd (CFRunLoopDoBlocks env l n w))"
  using good_do_blocks [of env M "loop_upd l (\<lambda>rl. rl\<lparr>rl_blocks := []\<rparr>) w"] by (auto simp: CFRunLoopDoBlocks_def split_def Let_def)

lemma good_do_observer: "env_good env \<Longrightarrow> good M w \<Longrightarrow> good M (do_observer env activity ob w)"
  by (auto simp: do_observer_def Let_def observer_links_def intro!: good_call_out good_operations)

lemma good_notify: "env_good env \<Longrightarrow> good M w \<Longrightarrow> good M (notify env l n activity w)"
  by (auto simp: notify_def CFRunLoopDoObservers_def Let_def intro!: fold_inv [where P = "good M"] good_do_observer)

lemma good_do_sources0: "env_good env \<Longrightarrow> good M w \<Longrightarrow> good M (snd (do_sources0 env stop handled sources w))"
  by (induction sources arbitrary: handled w) (auto simp: do_source0_def Let_def good_call_out split: prod.splits if_splits)

lemma good_DoSource1: "env_good env \<Longrightarrow> good M w \<Longrightarrow> good M (snd (CFRunLoopDoSource1 env rls w))"
  by (auto simp: CFRunLoopDoSource1_def Let_def good_call_out)

lemma good_timer_fired: "good M w \<Longrightarrow> timer_fired l n t old w = Some w' \<Longrightarrow> good M w'"
  by (auto simp: timer_fired_def Let_def good_operations split: if_splits)

lemma good_fire_timer:
  assumes "env_good env" "(l, n) \<in> M" "good M w"
  shows "good M (fire_timer env l n t w)"
proof -
  obtain info rel w1 where r: "retain_info (rt_context (w_timers w t)) w = (info, rel, w1)" by (metis prod_cases3)
  then have "good M w1" using assms(3) by (auto simp: retain_info_def split: option.splits)
  then have "good M (arm_next_timer l n (mode_upd l n (\<lambda>rlm. rlm\<lparr>rm_timerSoftDeadline := UINT64_MAX, rm_timerHardDeadline := UINT64_MAX\<rparr>)
      (timer_upd t (\<lambda>t. t\<lparr>rt_firing := True\<rparr>) w1)))" (is "good M ?w2")
    using assms(2) by (intro good_operations good_mode_upd) (simp_all add: timer_links_def)
  then have "good M (call_out env (Fire_timer t info) ?w2)" using assms(1) by (rule good_call_out [rotated])
  then show ?thesis using r
    by (auto simp: fire_timer_def Let_def timer_links_def good_operations split: option.split)
qed

lemma good_DoTimer:
  "env_good env \<Longrightarrow> (l, n) \<in> M \<Longrightarrow> good M w \<Longrightarrow> CFRunLoopDoTimer env l n t w = Some (did, w') \<Longrightarrow> good M w'"
  by (auto simp: CFRunLoopDoTimer_def Let_def dest: good_timer_fired [OF good_fire_timer] split: if_splits)

lemma good_do_timers:
  assumes "env_good env" "(l, n) \<in> M"
  shows "good M w \<Longrightarrow> do_timers env l n handled ts w = Some (did, w') \<Longrightarrow> good M w'"
proof (induction ts arbitrary: handled w)
  case (Cons t ts)
  then obtain d v where "CFRunLoopDoTimer env l n t w = Some (d, v)" "do_timers env l n (handled \<or> d) ts v = Some (did, w')"
    by (auto simp: bind_eq_Some_conv)
  then show ?case using Cons.IH good_DoTimer [OF assms Cons.prems(1)] by blast
qed simp

lemma good_timer_message:
  assumes "env_good env" "(l, n) \<in> M" "good M w" "timer_message env l n w = Some w'"
  shows "good M w'"
  using assms good_do_timers [OF assms(1,2,3)]
  by (auto simp: timer_message_def CFRunLoopDoTimers_def intro: good_operations split: if_splits)

lemma env_goodD:
  assumes "env_good env" "good M w"
  shows "re_wait env l n poll w = (port, w') \<Longrightarrow> good M w'" "re_receive env port w = (ready, w') \<Longrightarrow> good M w'" "good M (re_drain env port w)"
proof -
  have "good M (snd (re_wait env l n poll w))" "good M (snd (re_receive env port w))" "good M (re_drain env port w)"
    using assms unfolding env_good_def by blast+
  then show "re_wait env l n poll w = (port, w') \<Longrightarrow> good M w'" "re_receive env port w = (ready, w') \<Longrightarrow> good M w'" "good M (re_drain env port w)"
    by simp_all
qed

lemma good_wait_loop:
  "wait_loop env l n q poll w = Some r \<Longrightarrow> env_good env \<Longrightarrow> (l, n) \<in> M \<Longrightarrow> good M w \<Longrightarrow> good M (snd r)"
proof (induct env l n q poll w r rule: wait_loop.raw_induct [rotated 1, consumes 1])
  case (1 loop env l n q poll w r)
  obtain port w1 where w: "re_wait env l n poll w = (port, w1)" by fastforce
  note w1 = env_goodD(1) [OF 1(3,5) w]
  note w2 = env_goodD(3) [OF 1(3) w1, of q]
  show ?case
  proof (cases "q \<noteq> 0 \<and> port = q \<and> \<not> rm_timerFired (the_mode l n (re_drain env q w1))")
    case True
    then show ?thesis using 1(1) [OF _ 1(3,4) w2] 1(2) w by (simp add: Let_def)
  next
    case False
    then have "r = (port, if q \<noteq> 0 \<and> port = q then mode_upd l n (\<lambda>rlm. rlm\<lparr>rm_timerFired := False\<rparr>) (re_drain env q w1) else w1)"
      using 1(2) by (auto simp: Let_def w)
    then show ?thesis using 1(4) w1 w2 by simp
  qed
qed

lemma good_sleep_pass:
  assumes "env_good env" "(l, n) \<in> M" "good M w" "sleep_pass env l n d q poll w = Some (port, w')"
  shows "good M w'"
proof -
  have asleep: "good M (fall_asleep env l n d poll w)" using assms(1-3) by (auto simp: fall_asleep_def Let_def good_notify)
  have "good M v \<Longrightarrow> good M (wake_from_sleep env l n d poll v)" for v
    using assms(1,2) by (auto simp: wake_from_sleep_def Let_def good_notify)
  then show ?thesis using assms(4) good_wait_loop [OF _ assms(1,2) asleep] by (auto simp: sleep_pass_def)
qed

lemma good_handle_msg:
  assumes "env_good env" "(l, n) \<in> M" "good M w" "handle_msg env l n d q port w = Some (handled, main, w')"
  shows "good M w'"
proof -
  let ?w = "loop_upd l (\<lambda>rl. rl\<lparr>rl_ignoreWakeUps := True\<rparr>) w"
  have w: "good M ?w" using assms(3) by simp
  have "good M v" if "CFRunLoopDoSource1 env rls ?w = (did, v)" for rls did v
    using good_DoSource1 [OF assms(1) w, of rls] that by simp
  then show ?thesis
    using w assms(4) good_timer_message [OF assms(1,2) w] good_call_out [OF assms(1), of M "?w\<lparr>w_inGCDMainQ := True\<rparr>"]
    by (auto simp: handle_msg_def Let_def split: if_splits option.splits prod.splits)
qed

lemma good_run_status: "(l, n) \<in> M \<Longrightarrow> good M w \<Longrightarrow> good M (snd (run_status l n run handled w))"
  by (simp add: run_status_def)

lemma good_start_pass: "env_good env \<Longrightarrow> good M w \<Longrightarrow> good M (snd (start_pass env l n stop w))"
  by (auto simp: start_pass_def CFRunLoopDoSources0_def Let_def split_def intro!: good_DoBlocks good_do_sources0 good_notify)

lemma good_pass_work:
  assumes "env_good env" "(l, n) \<in> M" "good M w" "pass_work env l n run stop d q didLast w = Some (handled, didLast', w')"
  shows "good M w'"
proof -
  obtain handled1 w1 where w1: "start_pass env l n stop w = (handled1, w1)" by fastforce
  obtain ready w2 where w2: "(if d \<noteq> 0 \<and> \<not> didLast then re_receive env d w1 else (False, w1)) = (ready, w2)" by fastforce
  have "good M w1" using good_start_pass [OF assms(1,3), of l n stop] w1 by simp
  then have g2: "good M w2" using w2 env_goodD(2) [OF assms(1)] by (auto split: if_splits)
  let ?sleep = "if ready then Some (d, didLast, w2)
       else map_option (\<lambda>(livePort, w). (livePort, False, w)) (sleep_pass env l n d q (handled1 \<or> w_termTSRs w1 ! run = 0) w2)"
  let ?finish = "\<lambda>dl (handled', mainQueue, w). (handled1 \<or> handled', dl \<or> mainQueue, snd (CFRunLoopDoBlocks env l n w))"
  have "Option.bind ?sleep (\<lambda>(port, dl, w). map_option (?finish dl) (handle_msg env l n d q port w)) = Some (handled, didLast', w')"
    using assms(4) by (simp add: pass_work_def w1 w2)
  then obtain r where "?sleep = Some r" "map_option (?finish (fst (snd r))) (handle_msg env l n d q (fst r) (snd (snd r))) = Some (handled, didLast', w')"
    unfolding bind_eq_Some_conv case_prod_unfold by blast
  then obtain port dl w3 where w3: "?sleep = Some (port, dl, w3)"
    and rest: "map_option (?finish dl) (handle_msg env l n d q port w3) = Some (handled, didLast', w')"
    by (cases r) auto
  have g3: "good M w3" using w3 g2 good_sleep_pass [OF assms(1,2) g2] by (auto split: if_splits)
  obtain handled' main w4 where w4: "handle_msg env l n d q port w3 = Some (handled', main, w4)"
    using rest by (cases "handle_msg env l n d q port w3") auto
  show ?thesis using good_DoBlocks [OF assms(1) good_handle_msg [OF assms(1,2) g3 w4]] rest by (auto simp: w4)
qed

lemma good_run_pass:
  assumes "env_good env" "(l, n) \<in> M" "good M w" "run_pass env l n run stop d q didLast w = Some (status, didLast', w')"
  shows "good M w'"
proof -
  obtain handled v where v: "pass_work env l n run stop d q didLast w = Some (handled, didLast', v)"
    "w' = snd (run_status l n run (handled \<and> stop) v)"
    using assms(4) by (auto simp: run_pass_def Let_def split_def)
  show ?thesis unfolding v(2) by (rule good_run_status [OF assms(2) good_pass_work [OF assms(1-3) v(1)]])
qed

lemma good_run_passes:
  "run_passes env l n run stop d q didLast w = Some r \<Longrightarrow> env_good env \<Longrightarrow> (l, n) \<in> M \<Longrightarrow> good M w \<Longrightarrow> good M (snd r)"
proof (induct env l n run stop d q didLast w r rule: run_passes.raw_induct [rotated 1, consumes 1])
  case (1 passes env l n run stop d q didLast w r)
  obtain status didLast' w1 where w1: "run_pass env l n run stop d q didLast w = Some (status, didLast', w1)"
    and rest: "(case status of Some result \<Rightarrow> Some (result, w1) | None \<Rightarrow> passes env l n run stop d q didLast' w1) = Some r"
    using 1(2) by (auto simp: bind_eq_Some_conv)
  have "good M w1" by (rule good_run_pass [OF 1(3,4,5) w1])
  then show ?case using rest 1(1,3,4) by (cases status) auto
qed

lemma good_run_mode:
  assumes "env_good env" "(l, n) \<in> M" "good M w" "run_mode env l n seconds stop w = Some (result, w')"
  shows "good M w'"
  using assms good_run_passes [OF _ assms(1,2)]
  by (auto simp: run_mode_def Let_def split: if_splits dest!: good_run_passes [OF _ assms(1,2)])

section \<open>What callouts may do\<close>

lemma good_RunSpecific:
  assumes "env_good env" "good M w" "CFRunLoopRunSpecific env l n seconds stop w = Some (r, w')"
  shows "good M w'"
proof (cases "rl_deallocating (w_loops w l) \<or> find_mode l n w = None \<or> CFRunLoopModeIsEmpty l n w")
  case True
  then have "w' = w" using assms(3) by (auto simp: CFRunLoopRunSpecific_def split: if_splits)
  then show ?thesis using assms(2) by simp
next
  case False
  let ?M = "insert (l, n) M"
  have m: "(l, n) \<in> ?M" by simp
  let ?w = "notify env l n kCFRunLoopEntry (loop_upd l (\<lambda>rl. rl\<lparr>rl_stopped := False, rl_ignoreWakeUps := False, rl_currentMode := Some n\<rparr>) w)"
  have "good ?M w" using False assms(2) by (simp add: good_def)
  then have g: "good ?M ?w" using assms(1) by (simp add: good_notify)
  obtain w1 where w1: "run_mode env l n seconds stop ?w = Some (r, w1)"
    and w': "w' = loop_upd l (\<lambda>rl'. rl'\<lparr>rl_stopped := rl_stopped (w_loops w l), rl_ignoreWakeUps := rl_ignoreWakeUps (w_loops w l),
         rl_currentMode := rl_currentMode (w_loops w l)\<rparr>) (notify env l n kCFRunLoopExit w1)"
    using assms(3) False by (auto simp: CFRunLoopRunSpecific_def Let_def)
  have "good ?M w'" using good_notify [OF assms(1) good_run_mode [OF assms(1) m g w1]] by (simp add: w')
  then show ?thesis by (simp add: good_def)
qed

text \<open>The calls of the interface are such callouts.\<close>

lemma find_mode_FindMode_Some: "find_mode l n w \<noteq> None \<Longrightarrow> find_mode l n (CFRunLoopFindMode l' n' w) \<noteq> None"
  by (simp add: find_mode_FindMode)

lemma find_mode_add: "find_mode l n w \<noteq> None \<Longrightarrow> find_mode l n (add_to_mode l' item n' w) \<noteq> None"
  by (auto simp: add_to_mode_def add_source_to_mode_def add_observer_to_mode_def add_timer_to_mode_def Let_def
      CFRunLoopObserverSchedule_def find_mode_FindMode iff del: not_None_eq split: item.split)

lemma find_mode_AddItem:
  "CFRunLoopAddItem fuel l' item n' w = Some w' \<Longrightarrow> find_mode l n w \<noteq> None \<Longrightarrow> find_mode l n w' \<noteq> None"
proof (induction fuel arbitrary: n' w w')
  case 0
  then show ?case using find_mode_add [of l n w] by (auto simp: CFRunLoopAddItem.simps [of 0] split: if_splits)
next
  case (Suc fuel)
  have fold: "find_mode l n v' \<noteq> None" if "fold_option (CFRunLoopAddItem fuel l' item) ns v = Some v'" "find_mode l n v \<noteq> None" for ns v v'
    using fold_option_inv [where P = "\<lambda>w. find_mode l n w \<noteq> None", OF Suc.IH that(2,1)] .
  show ?case
  proof (cases "n' = kCFRunLoopCommonModes \<and> may_add l' item w")
    case True
    then show ?thesis using fold Suc.prems by (simp add: CFRunLoopAddItem.simps [of "Suc fuel"]) 
  next
    case False
    then show ?thesis using Suc.prems find_mode_add [of l n w] by (auto simp: CFRunLoopAddItem.simps [of "Suc fuel"] split: if_splits)
  qed
qed

lemma find_mode_RemoveSource [simp]:
  "find_mode l n (CFRunLoopRemoveSource l' s n' w) = None \<longleftrightarrow> find_mode l n w = None"
  "find_mode l n (fold (\<lambda>s. CFRunLoopRemoveSource l' s n') ss w) = None \<longleftrightarrow> find_mode l n w = None"
  "find_mode l n (fold (CFRunLoopRemoveSource l' s) ns w) = None \<longleftrightarrow> find_mode l n w = None"
proof -
  show one: "find_mode l n (CFRunLoopRemoveSource l' s n' w) = None \<longleftrightarrow> find_mode l n w = None" for s n' w
    by (simp add: CFRunLoopRemoveSource_def)
  show "find_mode l n (fold (\<lambda>s. CFRunLoopRemoveSource l' s n') ss w) = None \<longleftrightarrow> find_mode l n w = None"
    by (induction ss arbitrary: w) (simp_all add: one)
  show "find_mode l n (fold (CFRunLoopRemoveSource l' s) ns w) = None \<longleftrightarrow> find_mode l n w = None"
    by (induction ns arbitrary: w) (simp_all add: one)
qed

lemma find_mode_RemoveAll [simp]: "find_mode l n (remove_all_sources_of_mode l' n' w) = None \<longleftrightarrow> find_mode l n w = None"
  by (simp add: remove_all_sources_of_mode_def Let_def split: option.split)

lemma find_mode_RemoveAllSources:
  "CFRunLoopRemoveAllSources fuel l' n' w = Some w' \<Longrightarrow> find_mode l n w \<noteq> None \<Longrightarrow> find_mode l n w' \<noteq> None"
proof (induction fuel arbitrary: n' w w')
  case 0
  then show ?case by (auto simp: CFRunLoopRemoveAllSources.simps [of 0] iff del: not_None_eq split: if_splits)
next
  case (Suc fuel)
  have fold: "find_mode l n v' \<noteq> None" if "fold_option (CFRunLoopRemoveAllSources fuel l') ns v = Some v'" "find_mode l n v \<noteq> None" for ns v v'
    using fold_option_inv [where P = "\<lambda>w. find_mode l n w \<noteq> None", OF Suc.IH that(2,1)] .
  then show ?case using Suc.prems by (auto simp: CFRunLoopRemoveAllSources.simps [of "Suc fuel"] iff del: not_None_eq split: if_splits)
qed

lemma find_mode_SourceInvalidate [simp]: "find_mode l n (CFRunLoopSourceInvalidate s w) = None \<longleftrightarrow> find_mode l n w = None"
proof -
  have "find_mode l n (remove_from_loops s p ls v) = None \<longleftrightarrow> find_mode l n v = None" for p ls v
    by (induction ls arbitrary: p v) (simp_all add: remove_source_from_loop_def)
  then show ?thesis by (simp add: CFRunLoopSourceInvalidate_def)
qed

lemma find_mode_WakeUp [simp]: "find_mode l n (CFRunLoopWakeUp l' w) = find_mode l n w"
  by (simp add: CFRunLoopWakeUp_def)

lemma find_mode_step: "rl_step w w' \<Longrightarrow> find_mode l n w \<noteq> None \<Longrightarrow> find_mode l n w' \<noteq> None"
proof (induction rule: rl_step.induct)
  case (step_create w l' port)
  then have "l \<noteq> l'" by (auto simp: find_mode_def)
  then have "find_mode l n (loop_upd l' f w) = find_mode l n w" for f by (simp add: find_mode_def loop_upd_def)
  then show ?case using step_create by (simp add: CFRunLoopCreate_def find_mode_FindMode)
next
  case (step_add_common_mode fuel l' name w w')
  have fold: "find_mode l n v' \<noteq> None"
    if "fold_option (\<lambda>i. CFRunLoopAddItem fuel l' i name) items v = Some v'" "find_mode l n v \<noteq> None" for items v v'
    using fold_option_inv [where P = "\<lambda>w. find_mode l n w \<noteq> None", OF find_mode_AddItem that(2,1)] .
  show ?case
  proof (cases "rl_deallocating (w_loops w l') \<or> name \<in> set (rl_commonModes (w_loops w l'))")
    case True
    then have "w' = w" using step_add_common_mode(1) by (auto simp: CFRunLoopAddCommonMode_def split: if_splits)
    then show ?thesis using step_add_common_mode(2) by simp
  next
    case False
    then have "fold_option (\<lambda>i. CFRunLoopAddItem fuel l' i name) (rl_commonModeItems (w_loops w l'))
        (loop_upd l' (\<lambda>rl. rl\<lparr>rl_commonModes := rl_commonModes rl @ [name]\<rparr>) w) = Some w'"
      using step_add_common_mode(1) by (simp add: CFRunLoopAddCommonMode_def)
    then show ?thesis by (rule fold) (use step_add_common_mode(2) in simp)
  qed
next
  case (step_wake_source w s)
  have "find_mode l n (fold CFRunLoopWakeUp ls v) = find_mode l n v" for ls v by (induction ls arbitrary: v) simp_all
  then show ?case using step_wake_source by (simp add: CFRunLoopSourceWakeUpRunLoops_def)
next
  case (step_block w l' mode block)
  have "find_mode l n v \<noteq> None \<Longrightarrow> find_mode l n (fold (CFRunLoopFindMode l') ns v) \<noteq> None" for ns v
    by (induction ns arbitrary: v) (simp_all add: find_mode_FindMode del: not_None_eq)
  then show ?case using step_block
    by (auto simp: CFRunLoopPerformBlock_def Let_def find_mode_FindMode iff del: not_None_eq split: block_mode.split option.split)
qed (auto simp: CFRunLoopTimerSetNextFireDate_def Let_def CFRunLoopStop_def CFRunLoopStopMode_def CFRunLoopSourceSignal_def find_mode_FindMode
    iff del: not_None_eq dest: find_mode_AddItem find_mode_RemoveAllSources split: option.split)

lemma good_step: "rl_step w w' \<Longrightarrow> good M w \<Longrightarrow> good M w'"
  using rl_step_ok find_mode_step unfolding good_def by blast

section \<open>The parts of a pass\<close>

text \<open>The loop over the chain of blocks, against the list of blocks: what one item does to the world, the
  world in which the item \<open>i\<close> is reached, and whether it is called there.\<close>

fun block_step :: "rl_env \<Rightarrow> nat \<Rightarrow> string \<Rightarrow> block_mode \<times> nat \<Rightarrow> rl_world \<Rightarrow> rl_world" where
  "block_step env l n (mode, block) w =
     (if block_in_mode (rl_commonModes (w_loops w l)) n mode then call_out env (Run_block block) w else w)"

definition block_world :: "rl_env \<Rightarrow> nat \<Rightarrow> string \<Rightarrow> (block_mode \<times> nat) list \<Rightarrow> rl_world \<Rightarrow> nat \<Rightarrow> rl_world" where
  "block_world env l n blocks w i = fold (block_step env l n) (take i blocks) w"

definition block_called :: "rl_env \<Rightarrow> nat \<Rightarrow> string \<Rightarrow> (block_mode \<times> nat) list \<Rightarrow> rl_world \<Rightarrow> nat \<Rightarrow> bool" where
  "block_called env l n blocks w i \<longleftrightarrow>
     block_in_mode (rl_commonModes (w_loops (block_world env l n blocks w i) l)) n (fst (blocks ! i))"

lemma block_world_simps:
  "block_world env l n blocks w 0 = w"
  "i < length blocks \<Longrightarrow> block_world env l n blocks w (Suc i) =
     (if block_called env l n blocks w i then call_out env (Run_block (snd (blocks ! i))) (block_world env l n blocks w i)
      else block_world env l n blocks w i)"
  by (cases "blocks ! i"; simp add: block_world_def block_called_def take_Suc_conv_app_nth)+

text \<open>The chain when the loop reaches the item \<open>i\<close> and the items of \<open>K\<close> have been kept.\<close>

definition chain_at :: "nat \<Rightarrow> nat list \<Rightarrow> nat \<Rightarrow> block_chain \<Rightarrow> bool" where
  "chain_at n K i chain \<longleftrightarrow> i \<le> n \<and> distinct K \<and> (\<forall>k \<in> set K. k < i)
     \<and> bc_head chain = (if K \<noteq> [] then Some (hd K) else if i < n then Some i else None)
     \<and> bc_tail chain = (if i < n then Some (n - 1) else if K \<noteq> [] then Some (last K) else None)
     \<and> (\<forall>j < length K. bc_next chain (K ! j) = (if Suc j < length K then Some (K ! Suc j) else if i < n then Some i else None))
     \<and> (\<forall>j. i \<le> j \<and> j < n \<longrightarrow> bc_next chain j = (if Suc j < n then Some (Suc j) else None))"

definition last_kept :: "nat list \<Rightarrow> nat option" where
  "last_kept K = (if K = [] then None else Some (last K))"

lemma chain_at_start: "0 < n \<Longrightarrow> chain_at n [] 0 (detached_chain n)"
  by (simp add: chain_at_def detached_chain_def)

lemma chain_at_next: "chain_at n K i chain \<Longrightarrow> i < n \<Longrightarrow> bc_next chain i = (if Suc i < n then Some (Suc i) else None)"
  by (simp add: chain_at_def)

lemma chain_at_keep:
  assumes "chain_at n K i chain" "i < n"
  shows "chain_at n (K @ [i]) (Suc i) chain"
  using assms by (auto simp: chain_at_def nth_append less_Suc_eq hd_append)

lemma chain_at_unlink:
  assumes "chain_at n K i chain" "i < n"
  shows "chain_at n K (Suc i) (unlink_block (last_kept K) i (bc_next chain i) chain)"
proof (cases "K = []")
  case True
  then show ?thesis using assms by (auto simp: chain_at_def last_kept_def unlink_block_def Let_def)
next
  case False
  have ne: "hd K \<noteq> i" "last K \<noteq> i" "last K < i" using assms(1) False by (auto simp: chain_at_def)
  have last: "K ! j = last K \<longleftrightarrow> j = length K - 1" if "j < length K" for j
    using assms(1) False that nth_eq_iff_index_eq [of K j "length K - 1"] by (simp add: chain_at_def last_conv_nth)
  have head: "bc_head chain = Some (hd K)" and tail: "bc_tail chain = Some (n - 1)"
    and next_kept: "\<And>j. j < length K \<Longrightarrow> bc_next chain (K ! j) = (if Suc j < length K then Some (K ! Suc j) else Some i)"
    and next_rest: "\<And>j. i \<le> j \<Longrightarrow> j < n \<Longrightarrow> bc_next chain j = (if Suc j < n then Some (Suc j) else None)"
    and K: "distinct K" "\<And>k. k \<in> set K \<Longrightarrow> k < i"
    using assms False by (auto simp: chain_at_def)
  let ?c = "unlink_block (last_kept K) i (bc_next chain i) chain"
  have links: "bc_next ?c = (bc_next chain)(last K := if Suc i < n then Some (Suc i) else None)"
    and ends: "bc_head ?c = Some (hd K)" "bc_tail ?c = (if Suc i < n then Some (n - 1) else Some (last K))"
    using ne False assms(2) head tail next_rest [of i] by (auto simp: unlink_block_def last_kept_def Let_def)
  have "bc_next ?c (K ! j) = (if Suc j < length K then Some (K ! Suc j) else if Suc i < n then Some (Suc i) else None)"
    if "j < length K" for j
    using last [OF that] next_kept [OF that] that unfolding links by auto
  moreover have "bc_next ?c j = (if Suc j < n then Some (Suc j) else None)" if "Suc i \<le> j" "j < n" for j
    using next_rest [of j] that ne(3) unfolding links by simp
  moreover have "\<forall>k \<in> set K. k < Suc i" using K(2) less_SucI by blast
  ultimately show ?thesis using ends K(1) False assms(2) unfolding chain_at_def by simp
qed

lemma linked_blocks_kept:
  assumes "chain_at n K n chain" "K \<noteq> []" "length K \<le> fuel"
  shows "linked_blocks blocks chain queue fuel (bc_head chain) = map ((!) blocks) K @ queue"
proof -
  have tail: "Some (K ! j) = bc_tail chain \<longleftrightarrow> Suc j = length K" if "j < length K" for j
    using assms(1,2) that nth_eq_iff_index_eq [of K j "length K - 1"] by (auto simp: chain_at_def last_conv_nth)
  have "linked_blocks blocks chain queue fuel (Some (K ! j)) = map ((!) blocks) (drop j K) @ queue"
    if "j < length K" "length K \<le> j + fuel" for j fuel
    using that
  proof (induction fuel arbitrary: j)
    case (Suc fuel)
    have "bc_next chain (K ! j) = Some (K ! Suc j)" if "Suc j < length K"
      using assms(1) that by (simp add: chain_at_def)
    moreover have "linked_blocks blocks chain queue (Suc fuel) (Some (K ! j)) = blocks ! (K ! j) #
        (if Suc j = length K then queue else linked_blocks blocks chain queue fuel (bc_next chain (K ! j)))"
      by (simp only: linked_blocks.simps tail [OF Suc.prems(1)])
    moreover have "drop j K = K ! j # drop (Suc j) K" using Suc.prems(1) by (simp add: Cons_nth_drop_Suc)
    ultimately show ?case using Suc.IH [of "Suc j"] Suc.prems by (cases "Suc j < length K") auto
  qed simp
  from this [of 0 fuel] show ?thesis using assms by (simp add: chain_at_def hd_conv_nth)
qed

lemma do_blocks_chain:
  assumes "n = length blocks"
  shows "chain_at n K i chain \<Longrightarrow> i + fuel = n \<Longrightarrow>
    \<exists>chain'. do_blocks env l name blocks fuel did (last_kept K) (if i < n then Some i else None) chain
        (block_world env l name blocks w i)
      = (did \<or> (\<exists>j \<in> set [i..<n]. block_called env l name blocks w j), chain', block_world env l name blocks w n)
    \<and> chain_at n (K @ filter (\<lambda>j. \<not> block_called env l name blocks w j) [i..<n]) n chain'"
proof (induction fuel arbitrary: i K chain did)
  case (Suc fuel)
  have i: "i < n" and list: "[i..<n] = i # [Suc i..<n]" using Suc.prems(2) by (simp_all add: upt_conv_Cons)
  note item = chain_at_next [OF Suc.prems(1) i]
  have kept: "last_kept (K @ [i]) = Some i" by (simp add: last_kept_def)
  obtain mode block where b: "blocks ! i = (mode, block)" by fastforce
  show ?case
  proof (cases "block_called env l name blocks w i")
    case True
    then have "block_in_mode (rl_commonModes (w_loops (block_world env l name blocks w i) l)) name mode"
      by (simp add: block_called_def b)
    moreover have "block_world env l name blocks w (Suc i) = call_out env (Run_block block) (block_world env l name blocks w i)"
      using True i assms by (simp add: block_world_simps b)
    ultimately show ?thesis
      using Suc.IH [OF chain_at_unlink [OF Suc.prems(1) i], where did = True] Suc.prems(2) True
      by (simp add: i b list item Let_def)
  next
    case False
    then have "\<not> block_in_mode (rl_commonModes (w_loops (block_world env l name blocks w i) l)) name mode"
      by (simp add: block_called_def b)
    moreover have "block_world env l name blocks w (Suc i) = block_world env l name blocks w i"
      using False i assms by (simp add: block_world_simps)
    ultimately show ?thesis
      using Suc.IH [OF chain_at_keep [OF Suc.prems(1) i], where did = did] Suc.prems(2) False
      by (simp add: i b list item kept Let_def)
  qed
qed (simp add: chain_at_def)

lemma loop_upd_same: "f (w_loops w l) = w_loops w l \<Longrightarrow> loop_upd l f w = w"
  by (simp add: loop_upd_def)

lemma DoBlocks_chain:
  fixes l :: nat and w :: rl_world
  defines "start \<equiv> loop_upd l (\<lambda>rl. rl\<lparr>rl_blocks := []\<rparr>) w"
  shows "CFRunLoopDoBlocks env l name w =
    (let blocks = rl_blocks (w_loops w l); n = length blocks
     in (\<exists>i \<in> set [0..<n]. block_called env l name blocks start i,
         loop_upd l (\<lambda>rl. rl\<lparr>rl_blocks :=
             map ((!) blocks) (filter (\<lambda>i. \<not> block_called env l name blocks start i) [0..<n]) @ rl_blocks rl\<rparr>)
           (block_world env l name blocks start n)))"
proof (cases "rl_blocks (w_loops w l)")
  case Nil
  then have "start = w" unfolding start_def by (intro loop_upd_same) simp
  then show ?thesis using Nil by (simp add: CFRunLoopDoBlocks_def block_world_simps loop_upd_same)
next
  case (Cons b bs)
  define blocks where "blocks = rl_blocks (w_loops w l)"
  let ?n = "length blocks" and ?K = "filter (\<lambda>i. \<not> block_called env l name blocks start i) [0..<length blocks]"
  have n: "0 < ?n" "blocks \<noteq> []" using Cons by (simp_all add: blocks_def)
  obtain chain where c: "do_blocks env l name blocks ?n False None (Some 0) (detached_chain ?n) start
      = (\<exists>i \<in> set [0..<?n]. block_called env l name blocks start i, chain, block_world env l name blocks start ?n)"
    "chain_at ?n ?K ?n chain"
    using do_blocks_chain [OF refl chain_at_start [OF n(1)], of "?n" env l name False "start"] n(1)
    by (auto simp: last_kept_def block_world_simps)
  have head: "bc_head (detached_chain ?n) = Some 0" by (simp add: detached_chain_def)
  have "length ?K \<le> ?n" using length_filter_le [of _ "[0..<?n]"] by simp
  then have "linked_blocks blocks chain queue ?n (bc_head chain) = map ((!) blocks) ?K @ queue" if "bc_head chain \<noteq> None" for queue
    using linked_blocks_kept [OF c(2)] c(2) that by (auto simp: chain_at_def split: if_splits)
  moreover have "?K = []" if "bc_head chain = None" using c(2) that by (auto simp: chain_at_def split: if_splits)
  ultimately show ?thesis
    using c(1) n(2) head unfolding CFRunLoopDoBlocks_def blocks_def [symmetric] start_def [symmetric] Let_def
    by (cases "bc_head chain") (simp_all add: loop_upd_same)
qed

text \<open>The loop over the sources that were collected: whether a source is performed when it is reached, what
  reaching it does to the world, and the world in which the source \<open>i\<close> is reached.\<close>

definition source_performed :: "nat \<Rightarrow> rl_world \<Rightarrow> bool" where
  "source_performed rls w \<longleftrightarrow> rs_signaled (w_sources w rls) \<and> rs_valid (w_sources w rls)"

definition source_step :: "rl_env \<Rightarrow> nat \<Rightarrow> rl_world \<Rightarrow> rl_world" where
  "source_step env rls w =
     (let w' = source_upd rls (\<lambda>s. s\<lparr>rs_signaled := False\<rparr>) w
      in if source_performed rls w \<and> rs_perform (w_sources w rls) then call_out env (Perform_source rls) w' else w')"

definition source_world :: "rl_env \<Rightarrow> nat list \<Rightarrow> rl_world \<Rightarrow> nat \<Rightarrow> rl_world" where
  "source_world env S w i = fold (source_step env) (take i S) w"

lemma source_upd_same: "f (w_sources w s) = w_sources w s \<Longrightarrow> source_upd s f w = w"
  by (simp add: source_upd_def)

lemma do_source0_step: "do_source0 env s w = (source_performed s w, source_step env s w)"
proof (cases "rs_signaled (w_sources w s)")
  case False
  then have "source_upd s (\<lambda>s. s\<lparr>rs_signaled := False\<rparr>) w = w" by (intro source_upd_same) simp
  then show ?thesis using False by (simp add: do_source0_def source_step_def source_performed_def)
qed (simp add: do_source0_def source_step_def source_performed_def source_upd_def Let_def)

lemma do_sources0_trace:
  "\<not> (stop \<and> handled) \<Longrightarrow> \<exists>k \<le> length S.
     do_sources0 env stop handled S w
       = (handled \<or> (\<exists>i \<in> set [0..<k]. source_performed (S ! i) (source_world env S w i)), source_world env S w k)
     \<and> (if stop \<and> (\<exists>i \<in> set [0..<length S]. source_performed (S ! i) (source_world env S w i))
        then 0 < k \<and> source_performed (S ! (k - 1)) (source_world env S w (k - 1))
          \<and> (\<forall>i \<in> set [0..<k - 1]. \<not> source_performed (S ! i) (source_world env S w i))
        else k = length S)"
proof (induction S arbitrary: handled w)
  case Nil
  then show ?case by (simp add: source_world_def)
next
  case (Cons s S)
  let ?w = "source_step env s w"
  have world: "source_world env (s # S) w 0 = w" "source_world env (s # S) w (Suc i) = source_world env S ?w i" for i
    by (simp_all add: source_world_def)
  have upt: "set [0..<Suc m] = insert 0 (Suc ` set [0..<m])" for m by (auto simp: image_Suc_atLeastLessThan)
  show ?case
  proof (cases "stop \<and> source_performed s w")
    case True
    then have "do_sources0 env stop handled (s # S) w = (True, ?w)" by (simp add: do_source0_step)
    moreover have "source_performed ((s # S) ! 0) (source_world env (s # S) w 0)" "source_world env (s # S) w 1 = ?w"
      using True by (simp_all add: source_world_def)
    moreover from this(1) have "\<exists>i \<in> set [0..<length (s # S)]. source_performed ((s # S) ! i) (source_world env (s # S) w i)"
      by (intro bexI [of _ 0]) simp_all
    ultimately show ?thesis using True by (intro exI [of _ 1]) simp
  next
    case False
    then have rest: "do_sources0 env stop handled (s # S) w = do_sources0 env stop (handled \<or> source_performed s w) S ?w"
      using Cons.prems by (auto simp: do_source0_step)
    have "\<not> (stop \<and> (handled \<or> source_performed s w))" using Cons.prems False by blast
    from Cons.IH [OF this, of ?w] obtain k where k: "k \<le> length S"
      "do_sources0 env stop (handled \<or> source_performed s w) S ?w
       = ((handled \<or> source_performed s w) \<or> (\<exists>i \<in> set [0..<k]. source_performed (S ! i) (source_world env S ?w i)), source_world env S ?w k)"
      "if stop \<and> (\<exists>i \<in> set [0..<length S]. source_performed (S ! i) (source_world env S ?w i))
        then 0 < k \<and> source_performed (S ! (k - 1)) (source_world env S ?w (k - 1))
          \<and> (\<forall>i \<in> set [0..<k - 1]. \<not> source_performed (S ! i) (source_world env S ?w i))
        else k = length S" by blast
    have ex: "(\<exists>i \<in> set [0..<Suc m]. source_performed ((s # S) ! i) (source_world env (s # S) w i))
        \<longleftrightarrow> source_performed s w \<or> (\<exists>i \<in> set [0..<m]. source_performed (S ! i) (source_world env S ?w i))" for m
      unfolding upt by (simp only: bex_simps ball_simps image_iff world nth_Cons_0 nth_Cons_Suc)
    have all: "(\<forall>i \<in> set [0..<Suc m]. \<not> source_performed ((s # S) ! i) (source_world env (s # S) w i))
        \<longleftrightarrow> \<not> source_performed s w \<and> (\<forall>i \<in> set [0..<m]. \<not> source_performed (S ! i) (source_world env S ?w i))" for m
      using ex [of m] by blast
    have last: "source_performed ((s # S) ! (Suc k - 1)) (source_world env (s # S) w (Suc k - 1))
      \<longleftrightarrow> source_performed (S ! (k - 1)) (source_world env S ?w (k - 1))" if "0 < k"
      using that world(2) [of "k - 1"] by (cases k) simp_all
    show ?thesis
    proof (intro exI [of _ "Suc k"] conjI)
      show "Suc k \<le> length (s # S)" using k(1) by simp
      show "do_sources0 env stop handled (s # S) w
        = (handled \<or> (\<exists>i \<in> set [0..<Suc k]. source_performed ((s # S) ! i) (source_world env (s # S) w i)),
           source_world env (s # S) w (Suc k))"
        unfolding rest k(2) ex world by blast
      show "if stop \<and> (\<exists>i \<in> set [0..<length (s # S)]. source_performed ((s # S) ! i) (source_world env (s # S) w i))
        then 0 < Suc k \<and> source_performed ((s # S) ! (Suc k - 1)) (source_world env (s # S) w (Suc k - 1))
          \<and> (\<forall>i \<in> set [0..<Suc k - 1]. \<not> source_performed ((s # S) ! i) (source_world env (s # S) w i))
        else Suc k = length (s # S)"
        using k(3) False last all [of "k - 1"] unfolding length_Cons ex by (cases k) (auto split: if_splits)
    qed
  qed
qed

lemma do_sources0_run:
  obtains k where "k \<le> length S"
    and "do_sources0 env stop False S w
       = (\<exists>i \<in> set [0..<k]. source_performed (S ! i) (source_world env S w i), source_world env S w k)"
    and "if stop \<and> (\<exists>i \<in> set [0..<length S]. source_performed (S ! i) (source_world env S w i))
       then 0 < k \<and> source_performed (S ! (k - 1)) (source_world env S w (k - 1))
         \<and> (\<forall>i \<in> set [0..<k - 1]. \<not> source_performed (S ! i) (source_world env S w i))
       else k = length S"
proof -
  have "\<not> (stop \<and> False)" by simp
  from do_sources0_trace [OF this, of S env w] show thesis
    unfolding simp_thms by (elim exE conjE) (rule that)
qed

lemma source_comparator: "comparator (\<lambda>a b. CFRunLoopSourceComparator a b w)"
  by unfold_locales (auto simp: CFRunLoopSourceComparator_def split: if_splits)

lemma w_timers_fold_reposition [simp]: "w_timers (fold (reposition_timer l t i) ns w) = w_timers w"
  by (induction ns arbitrary: w) simp_all

lemma rt_set_fire_time:
  "w_timers (set_fire_time t fire date w) = (w_timers w)(t := (w_timers w t)\<lparr>rt_fireTSR := fire, rt_nextFireDate := date\<rparr>)"
  by (auto simp: set_fire_time_def Let_def split: option.split)

text \<open>Why a run returns at the end of a pass, in the world \<open>v\<close> that the pass has left; \<open>handled\<close> says that the
  pass has handled a source. Only one reason counts: the first in this order.\<close>

fun run_reason :: "nat \<Rightarrow> string \<Rightarrow> nat \<Rightarrow> bool \<Rightarrow> bool \<Rightarrow> rl_world \<Rightarrow> run_result \<Rightarrow> bool" where
  "run_reason l n run stop handled v kCFRunLoopRunHandledSource \<longleftrightarrow> stop \<and> handled"
| "run_reason l n run stop handled v kCFRunLoopRunTimedOut \<longleftrightarrow> \<not> (stop \<and> handled) \<and> w_termTSRs v ! run < w_TSR v"
| "run_reason l n run stop handled v kCFRunLoopRunStopped \<longleftrightarrow> \<not> (stop \<and> handled) \<and> w_TSR v \<le> w_termTSRs v ! run
     \<and> (rl_stopped (w_loops v l) \<or> rm_stopped (the_mode l n v))"
| "run_reason l n run stop handled v kCFRunLoopRunFinished \<longleftrightarrow> \<not> (stop \<and> handled) \<and> w_TSR v \<le> w_termTSRs v ! run
     \<and> \<not> rl_stopped (w_loops v l) \<and> \<not> rm_stopped (the_mode l n v) \<and> CFRunLoopModeIsEmpty l n v"

text \<open>A request to stop is used up by the run that it stops.\<close>

definition stop_used :: "nat \<Rightarrow> string \<Rightarrow> run_result \<Rightarrow> rl_world \<Rightarrow> rl_world" where
  "stop_used l n result v =
     (if result \<noteq> kCFRunLoopRunStopped then v
      else if rl_stopped (w_loops v l) then loop_upd l (\<lambda>rl. rl\<lparr>rl_stopped := False\<rparr>) v
      else mode_upd l n (\<lambda>rlm. rlm\<lparr>rm_stopped := False\<rparr>) v)"

lemma run_status_iff:
  "run_status l n run (handled \<and> stop) v = (Some result, w') \<longleftrightarrow> run_reason l n run stop handled v result \<and> w' = stop_used l n result v"
  "run_status l n run (handled \<and> stop) v = (None, w') \<longleftrightarrow> (\<forall>result. \<not> run_reason l n run stop handled v result) \<and> w' = v"
proof -
  show "run_status l n run (handled \<and> stop) v = (Some result, w') \<longleftrightarrow> run_reason l n run stop handled v result \<and> w' = stop_used l n result v"
    by (cases result) (auto simp: run_status_def stop_used_def not_less)
  have "(\<forall>result. \<not> run_reason l n run stop handled v result) \<longleftrightarrow> \<not> run_reason l n run stop handled v kCFRunLoopRunHandledSource
      \<and> \<not> run_reason l n run stop handled v kCFRunLoopRunTimedOut \<and> \<not> run_reason l n run stop handled v kCFRunLoopRunStopped
      \<and> \<not> run_reason l n run stop handled v kCFRunLoopRunFinished"
    by (metis run_result.exhaust)
  then show "run_status l n run (handled \<and> stop) v = (None, w') \<longleftrightarrow> (\<forall>result. \<not> run_reason l n run stop handled v result) \<and> w' = v"
    by (auto simp: run_status_def not_less)
qed

text \<open>A pass after which the run goes on.\<close>

definition goes_on :: "rl_env \<Rightarrow> nat \<Rightarrow> string \<Rightarrow> nat \<Rightarrow> bool \<Rightarrow> u32 \<Rightarrow> u32 \<Rightarrow> bool \<times> rl_world \<Rightarrow> bool \<times> rl_world \<Rightarrow> bool" where
  "goes_on env l n run stop d q = (\<lambda>(didLast, w) (didLast', v).
     run_pass env l n run stop d q didLast w = Some (None, didLast', v))"

lemma run_pass_None:
  "goes_on env l n run stop d q (didLast, w) (didLast', v) \<longleftrightarrow>
     (\<exists>handled. pass_work env l n run stop d q didLast w = Some (handled, didLast', v)
        \<and> (\<forall>result. \<not> run_reason l n run stop handled v result))"
proof (cases "pass_work env l n run stop d q didLast w")
  case (Some r)
  obtain handled dl u where r: "r = (handled, dl, u)" by (metis prod_cases3)
  obtain status w' where st: "run_status l n run (handled \<and> stop) u = (status, w')" by fastforce
  show ?thesis using run_status_iff(2) [of l n run handled stop u v] st Some r
    by (auto simp: goes_on_def run_pass_def)
qed (simp add: goes_on_def run_pass_def)

lemma run_pass_Some:
  "run_pass env l n run stop d q didLast w = Some (Some result, didLast', w') \<longleftrightarrow>
     (\<exists>handled v. pass_work env l n run stop d q didLast w = Some (handled, didLast', v)
        \<and> run_reason l n run stop handled v result \<and> w' = stop_used l n result v)"
proof (cases "pass_work env l n run stop d q didLast w")
  case (Some r)
  obtain handled dl u where r: "r = (handled, dl, u)" by (metis prod_cases3)
  obtain status w1 where st: "run_status l n run (handled \<and> stop) u = (status, w1)" by fastforce
  show ?thesis using run_status_iff(1) [of l n run handled stop u result w'] st Some r
    by (auto simp: run_pass_def)
qed (simp add: run_pass_def)

lemma run_passes_last:
  "run_passes env l n run stop d q didLast w = Some r \<Longrightarrow>
     \<exists>u didLast' w'. (goes_on env l n run stop d q)\<^sup>*\<^sup>* (didLast, w) u
       \<and> run_pass env l n run stop d q (fst u) (snd u) = Some (Some (fst r), didLast', snd r)"
proof (induct env l n run stop d q didLast w r rule: run_passes.raw_induct [rotated 1, consumes 1])
  case (1 passes env l n run stop d q didLast w r)
  obtain status didLast' w1 where w1: "run_pass env l n run stop d q didLast w = Some (status, didLast', w1)"
    and rest: "(case status of Some result \<Rightarrow> Some (result, w1) | None \<Rightarrow> passes env l n run stop d q didLast' w1) = Some r"
    using 1(2) by (auto simp: bind_eq_Some_conv)
  show ?case
  proof (cases status)
    case None
    then have step: "goes_on env l n run stop d q (didLast, w) (didLast', w1)" using w1 by (simp add: goes_on_def)
    show ?thesis using 1(1) [of env l n run stop d q didLast' w1 r] rest None converse_rtranclp_into_rtranclp [of "goes_on env l n run stop d q", OF step] by auto
  next
    case (Some result)
    then have "run_pass env l n run stop d q (fst (didLast, w)) (snd (didLast, w)) = Some (Some (fst r), didLast', snd r)"
      using w1 rest by auto
    then show ?thesis by blast
  qed
qed

lemma run_passes_reach:
  assumes "run_pass env l n run stop d q (fst u) (snd u) = Some (Some result, didLast', w')"
  shows "(goes_on env l n run stop d q)\<^sup>*\<^sup>* v u \<Longrightarrow> run_passes env l n run stop d q (fst v) (snd v) = Some (result, w')"
proof (induction rule: converse_rtranclp_induct)
  case base
  then show ?case using assms by (subst run_passes.simps) simp
next
  case (step x y)
  then show ?case by (subst run_passes.simps) (auto simp: goes_on_def)
qed

section \<open>Properties\<close>

text \<open>C18. Running a mode of a run loop in a good world, with callouts, threads and a kernel that keep worlds
  good, leaves a good world: the timers and observers of all modes are still in order and linked. The current
  mode and the flags of the interrupted run are as before. Calls of the interface are such callouts, and so
  are runs of run loops.\<close>

theorem runloop_run_consistent:
  assumes "env_good env" "good M w" "CFRunLoopRunSpecific env l n seconds stop w = Some (result, w')"
  shows "good M w' \<and> rl_currentMode (w_loops w' l) = rl_currentMode (w_loops w l)
    \<and> rl_stopped (w_loops w' l) = rl_stopped (w_loops w l) \<and> rl_ignoreWakeUps (w_loops w' l) = rl_ignoreWakeUps (w_loops w l)"
proof -
  have "rl_currentMode (w_loops w' l) = rl_currentMode (w_loops w l)
    \<and> rl_stopped (w_loops w' l) = rl_stopped (w_loops w l) \<and> rl_ignoreWakeUps (w_loops w' l) = rl_ignoreWakeUps (w_loops w l)"
    using assms(3) by (auto simp: CFRunLoopRunSpecific_def Let_def loop_upd_def split: if_splits)
  then show ?thesis using good_RunSpecific [OF assms] by simp
qed

text \<open>An environment in which callouts wake the run loop up, and waiting takes time.\<close>

definition idle_env :: rl_env where
  "idle_env = \<lparr>re_callout = (\<lambda>e w. CFRunLoopWakeUp 0 w), re_wait = (\<lambda>l n poll w. (0, w\<lparr>w_TSR := w_TSR w + 100\<rparr>)),
     re_receive = (\<lambda>port w. (False, w)), re_drain = (\<lambda>port w. w), re_mainQueuePort = 0, re_garbage = [], re_tmp = []\<rparr>"

lemma idle_env_good: "env_good idle_env"
proof -
  have find: "find_mode l n (w\<lparr>w_TSR := x\<rparr>) = find_mode l n w" for l n w x by (simp add: find_mode_def)
  then have "same_links (w\<lparr>w_TSR := x\<rparr>) w" for w x by (simp add: same_links_def mode_timers_def mode_observers_def)
  then have "good M w \<Longrightarrow> good M (w\<lparr>w_TSR := x\<rparr>)" for M w x by (auto simp: good_def find dest: runloop_ok_cong)
  moreover have "good M w \<Longrightarrow> good M (CFRunLoopWakeUp 0 w)" for M w by (rule good_step [OF step_wake])
  ultimately show ?thesis by (simp add: env_good_def idle_env_def)
qed

text \<open>A run loop with a signalled source in its default mode.\<close>

definition source_loop :: rl_world where
  "source_loop = CFRunLoopSourceSignal 4 (add_to_mode 0 (Source 4) kCFRunLoopDefaultMode small_loop)"

lemma source_loop_good: "good {} source_loop"
  using add_to_mode_ok [OF rl_run.reachable_inv [OF small_reachable] small_add(1) default_not_common]
  by (simp add: good_def source_loop_def)

lemmas world_simps = source_loop_def small_loop_def small_world_def CFRunLoopCreate_def CFRunLoopFindMode_def find_mode_def put_mode_def
        loop_upd_def source_upd_def emit_def CFRunLoopSourceSignal_def add_to_mode_def add_source_to_mode_def Let_def new_mode_def the_mode_def
        contains_source_def CFRunLoopSourceCreate_def set_add_def

lemmas run_simps = run_pass_def pass_work_def start_pass_def notify_def CFRunLoopDoBlocks_def CFRunLoopDoSources0_def CFRunLoopCollectSources0_def
     CFQSortArray_def do_source0_def call_out_def idle_env_def CFRunLoopWakeUp_def sleep_pass_def fall_asleep_def wake_from_sleep_def
     wait_loop.simps handle_msg_def run_status_def mode_upd_def

lemma source_loop_runs:
  "case CFRunLoopRunSpecific idle_env 0 kCFRunLoopDefaultMode 0 True source_loop of
     Some (result, w') \<Rightarrow> result = kCFRunLoopRunHandledSource \<and> Perform_source 4 \<in> set (w_log w') | None \<Rightarrow> False"
  by (simp add: CFRunLoopRunSpecific_def CFRunLoopModeIsEmpty_def run_mode_def termination_TSR_def notify_def
      libdispatchQSafe_def idle_env_def call_out_def world_simps, subst run_passes.simps,
     simp add: run_simps Let_def loop_upd_def the_mode_def find_mode_def put_mode_def source_upd_def emit_def set_add_def)

lemma source_loop_run:
  "\<exists>w'. CFRunLoopRunSpecific idle_env 0 kCFRunLoopDefaultMode 0 True source_loop = Some (kCFRunLoopRunHandledSource, w')
    \<and> Perform_source 4 \<in> set (w_log w')"
  using source_loop_runs by (auto split: option.splits)

theorem runloop_run_consistent_witness:
  "\<exists>w'. CFRunLoopRunSpecific idle_env 0 kCFRunLoopDefaultMode 0 True source_loop = Some (kCFRunLoopRunHandledSource, w')
    \<and> rl_currentMode (w_loops w' 0) = None"
proof -
  obtain w' where w': "CFRunLoopRunSpecific idle_env 0 kCFRunLoopDefaultMode 0 True source_loop = Some (kCFRunLoopRunHandledSource, w')"
    using source_loop_run by blast
  have "rl_currentMode (w_loops source_loop 0) = None"
    by (simp add: world_simps)
  then show ?thesis using runloop_run_consistent [OF idle_env_good source_loop_good w'] w' by simp
qed

text \<open>C19. A run returns exactly when, after passes each of which left no reason to return, a pass leaves one,
  and then it returns with the reason, in the world that the pass left, with the request to stop used up
  that stopped it. The reasons, in this order: a source was handled and the run is to return after it; its time is
  up; the run loop, or its mode, was asked to stop; the mode is empty.\<close>

theorem runloop_returns:
  "(run_passes env l n run stop d q didLast w = Some (result, w') \<longleftrightarrow>
     (\<exists>last u handled last' v. (goes_on env l n run stop d q)\<^sup>*\<^sup>* (didLast, w) (last, u)
        \<and> pass_work env l n run stop d q last u = Some (handled, last', v)
        \<and> run_reason l n run stop handled v result \<and> w' = stop_used l n result v))
   \<and> (goes_on env l n run stop d q (dl, x) (dl', y) \<longleftrightarrow>
     (\<exists>handled. pass_work env l n run stop d q dl x = Some (handled, dl', y)
        \<and> (\<forall>reason. \<not> run_reason l n run stop handled y reason)))"
proof (rule conjI [OF iffI run_pass_None])
  assume "run_passes env l n run stop d q didLast w = Some (result, w')"
  from run_passes_last [OF this] obtain u last' where
    "(goes_on env l n run stop d q)\<^sup>*\<^sup>* (didLast, w) u" "run_pass env l n run stop d q (fst u) (snd u) = Some (Some result, last', w')"
    by auto
  then show "\<exists>last u handled last' v. (goes_on env l n run stop d q)\<^sup>*\<^sup>* (didLast, w) (last, u)
        \<and> pass_work env l n run stop d q last u = Some (handled, last', v)
        \<and> run_reason l n run stop handled v result \<and> w' = stop_used l n result v"
    unfolding run_pass_Some by (metis prod.collapse)
next
  assume "\<exists>last u handled last' v. (goes_on env l n run stop d q)\<^sup>*\<^sup>* (didLast, w) (last, u)
        \<and> pass_work env l n run stop d q last u = Some (handled, last', v)
        \<and> run_reason l n run stop handled v result \<and> w' = stop_used l n result v"
  then obtain last u last' where "(goes_on env l n run stop d q)\<^sup>*\<^sup>* (didLast, w) (last, u)"
    "run_pass env l n run stop d q last u = Some (Some result, last', w')" unfolding run_pass_Some by blast
  then show "run_passes env l n run stop d q didLast w = Some (result, w')"
    using run_passes_reach [where u = "(last, u)" and v = "(didLast, w)"] by simp
qed

theorem runloop_returns_witness:
  "\<exists>w'. run_passes idle_env 0 kCFRunLoopDefaultMode 0 True 0 1 True (source_loop\<lparr>w_termTSRs := [0]\<rparr>) = Some (kCFRunLoopRunHandledSource, w')"
proof -
  let ?w = "source_loop\<lparr>w_termTSRs := [0]\<rparr>"
  have "\<exists>last' v. pass_work idle_env 0 kCFRunLoopDefaultMode 0 True 0 1 True ?w = Some (True, last', v)"
    by (simp add: run_simps world_simps) blast
  then obtain last' v where "pass_work idle_env 0 kCFRunLoopDefaultMode 0 True 0 1 True ?w = Some (True, last', v)" by blast
  moreover have "run_reason 0 kCFRunLoopDefaultMode 0 True True v kCFRunLoopRunHandledSource" by simp
  ultimately have "run_passes idle_env 0 kCFRunLoopDefaultMode 0 True 0 1 True ?w
      = Some (kCFRunLoopRunHandledSource, stop_used 0 kCFRunLoopDefaultMode kCFRunLoopRunHandledSource v)"
    using runloop_returns [THEN conjunct1, THEN iffD2] rtranclp.rtrancl_refl by blast
  then show ?thesis by blast
qed

text \<open>C11. The blocks of a run loop, whatever the callouts do: the items of the queue are reached in the order in
  which they came. An item is called, once, exactly if its block is for the mode that runs in the world in which it
  is reached, also as a common mode then. The other items stay, in their order, in front of the blocks that came
  meanwhile.\<close>

theorem runloop_blocks_in_order:
  "CFRunLoopDoBlocks env l name w =
    (let blocks = rl_blocks (w_loops w l); n = length blocks; start = loop_upd l (\<lambda>rl. rl\<lparr>rl_blocks := []\<rparr>) w
     in (\<exists>i \<in> set [0..<n]. block_called env l name blocks start i,
         loop_upd l (\<lambda>rl. rl\<lparr>rl_blocks :=
             map ((!) blocks) (filter (\<lambda>i. \<not> block_called env l name blocks start i) [0..<n]) @ rl_blocks rl\<rparr>)
           (block_world env l name blocks start n)))
   \<and> block_world env l name bs v 0 = v
   \<and> (i < length bs \<longrightarrow> block_world env l name bs v (Suc i) =
        (if block_called env l name bs v i then call_out env (Run_block (snd (bs ! i))) (block_world env l name bs v i)
         else block_world env l name bs v i))"
  using DoBlocks_chain [where env = env and l = l and name = name and w = w]
    block_world_simps [where env = env and l = l and n = name and blocks = bs and w = v] unfolding Let_def by blast

theorem runloop_blocks_in_order_witness:
  "fst (CFRunLoopDoBlocks idle_env 0 kCFRunLoopDefaultMode (CFRunLoopPerformBlock 0 (Mode_name kCFRunLoopCommonModes) (Some 7) small_loop))"
proof -
  let ?w = "CFRunLoopPerformBlock 0 (Mode_name kCFRunLoopCommonModes) (Some 7) small_loop"
  have blocks: "rl_blocks (w_loops ?w 0) = [(Mode_name kCFRunLoopCommonModes, 7)]"
    by (simp add: CFRunLoopPerformBlock_def world_simps)
  have "kCFRunLoopDefaultMode \<in> set (rl_commonModes (w_loops ?w 0))"
    by (simp add: CFRunLoopPerformBlock_def world_simps)
  then show ?thesis
    using runloop_blocks_in_order [where env = idle_env and l = 0 and name = kCFRunLoopDefaultMode and w = ?w]
    by (simp add: blocks Let_def block_called_def block_in_mode_def block_world_simps) (simp add: loop_upd_def)
qed

text \<open>C20. The version 0 sources of a mode, whatever the callouts do: those that are valid and signalled at the start
  are reached in the stable order of their order numbers. A source is performed exactly if it is still signalled
  and valid when it is reached; its signal is taken back before. If the run is to return after a source, the
  first one that is performed is the last one that is reached; otherwise all are reached.\<close>

theorem runloop_sources_in_order:
  assumes "length (re_garbage env) = length (CFRunLoopCollectSources0 (rm_sources0 (the_mode l n w)) w)"
    and "length (re_garbage env) \<le> length (re_tmp env)" "length (re_garbage env) \<le> (2 ^ 63 - 1) div 8"
  shows "\<exists>S k. stable_sort_of (\<lambda>a b. CFRunLoopSourceComparator a b w)
        (filter (\<lambda>s. rs_version (w_sources w s) = 0 \<and> rs_valid (w_sources w s) \<and> rs_signaled (w_sources w s)) (rm_sources0 (the_mode l n w))) S
    \<and> CFRunLoopDoSources0 env l n stop w
        = (\<exists>i \<in> set [0..<k]. source_performed (S ! i) (source_world env S w i), source_world env S w k)
    \<and> k \<le> length S
    \<and> (if stop \<and> (\<exists>i \<in> set [0..<length S]. source_performed (S ! i) (source_world env S w i))
       then 0 < k \<and> source_performed (S ! (k - 1)) (source_world env S w (k - 1))
         \<and> (\<forall>i \<in> set [0..<k - 1]. \<not> source_performed (S ! i) (source_world env S w i))
       else k = length S)
    \<and> (\<forall>i < length S. source_world env S w (Suc i) = source_step env (S ! i) (source_world env S w i))"
proof -
  let ?C = "CFRunLoopCollectSources0 (rm_sources0 (the_mode l n w)) w"
  let ?S = "CFQSortArray (re_garbage env) (re_tmp env) ?C 8 CFRunLoopSourceComparator w"
  have S: "stable_sort_of (\<lambda>a b. CFRunLoopSourceComparator a b w) ?C ?S"
    using CFQSortArray_sorts [where cmp = CFRunLoopSourceComparator and ctx = w and l = ?C and garbage = "re_garbage env" and tmp = "re_tmp env"
        and elementSize = 8, OF source_comparator] assms by simp
  then have sorted: "stable_sort_of (\<lambda>a b. CFRunLoopSourceComparator a b w)
      (filter (\<lambda>s. rs_version (w_sources w s) = 0 \<and> rs_valid (w_sources w s) \<and> rs_signaled (w_sources w s)) (rm_sources0 (the_mode l n w))) ?S"
    by (simp only: CFRunLoopCollectSources0_def)
  have steps: "\<forall>i < length ?S. source_world env ?S w (Suc i) = source_step env (?S ! i) (source_world env ?S w i)"
    by (simp add: source_world_def take_Suc_conv_app_nth)
  obtain k where "k \<le> length ?S"
    "do_sources0 env stop False ?S w
      = (\<exists>i \<in> set [0..<k]. source_performed (?S ! i) (source_world env ?S w i), source_world env ?S w k)"
    "if stop \<and> (\<exists>i \<in> set [0..<length ?S]. source_performed (?S ! i) (source_world env ?S w i))
       then 0 < k \<and> source_performed (?S ! (k - 1)) (source_world env ?S w (k - 1))
         \<and> (\<forall>i \<in> set [0..<k - 1]. \<not> source_performed (?S ! i) (source_world env ?S w i))
       else k = length ?S"
    by (rule do_sources0_run)
  then show ?thesis
    unfolding CFRunLoopDoSources0_def
    by (intro exI [of _ ?S] exI [of _ k] conjI sorted steps)
qed

theorem runloop_sources_in_order_witness:
  "fst (CFRunLoopDoSources0 (idle_env\<lparr>re_garbage := [0], re_tmp := [0]\<rparr>) 0 kCFRunLoopDefaultMode True source_loop)"
proof -
  let ?env = "idle_env\<lparr>re_garbage := [0], re_tmp := [0]\<rparr>"
  have collected: "CFRunLoopCollectSources0 (rm_sources0 (the_mode 0 kCFRunLoopDefaultMode source_loop)) source_loop = [4]"
    "rm_sources0 (the_mode 0 kCFRunLoopDefaultMode source_loop) = [4]"
    by (simp_all add: CFRunLoopCollectSources0_def world_simps)
  have performed: "source_performed 4 source_loop" by (simp add: source_performed_def world_simps)
  have lengths: "length (re_garbage ?env) = length (CFRunLoopCollectSources0 (rm_sources0 (the_mode 0 kCFRunLoopDefaultMode source_loop)) source_loop)"
    "length (re_garbage ?env) \<le> length (re_tmp ?env)" "length (re_garbage ?env) \<le> (2 ^ 63 - 1) div 8"
    by (simp_all add: collected(1))
  show ?thesis
    using runloop_sources_in_order [OF lengths, of True]
  proof (elim exE conjE)
    fix S k
    assume "stable_sort_of (\<lambda>a b. CFRunLoopSourceComparator a b source_loop)
        (filter (\<lambda>s. rs_version (w_sources source_loop s) = 0 \<and> rs_valid (w_sources source_loop s) \<and> rs_signaled (w_sources source_loop s))
          (rm_sources0 (the_mode 0 kCFRunLoopDefaultMode source_loop))) S"
      and run: "CFRunLoopDoSources0 ?env 0 kCFRunLoopDefaultMode True source_loop
        = (\<exists>i \<in> set [0..<k]. source_performed (S ! i) (source_world ?env S source_loop i), source_world ?env S source_loop k)"
      and stop: "if True \<and> (\<exists>i \<in> set [0..<length S]. source_performed (S ! i) (source_world ?env S source_loop i))
         then 0 < k \<and> source_performed (S ! (k - 1)) (source_world ?env S source_loop (k - 1))
           \<and> (\<forall>i \<in> set [0..<k - 1]. \<not> source_performed (S ! i) (source_world ?env S source_loop i))
         else k = length S"
    then have "mset S = mset [4]" 
      unfolding collected(1) [unfolded CFRunLoopCollectSources0_def] stable_sort_of_def by blast
    then have "S = [4]" by simp
    moreover have "0 < k" using stop \<open>S = [4]\<close> by (auto split: if_splits)
    ultimately have "source_performed (S ! 0) (source_world ?env S source_loop 0)" "0 \<in> set [0..<k]"
      using performed by (simp_all add: source_world_def)
    then show ?thesis unfolding run fst_conv by blast
  qed
qed

text \<open>C22. Firing a timer that does not repeat: after the callout, whatever it did, the timer is invalid and in no mode.\<close>

theorem runloop_one_shot_timer:
  assumes "env_good env" "good M w" "(l, n) \<in> M" "rt_valid (w_timers w t)" "rt_fireTSR (w_timers w t) \<le> w_TSR w"
    and "\<not> rt_firing (w_timers w t)" "rt_runLoop (w_timers w t) = Some l" "rt_interval (w_timers w t) = 0"
  shows "\<exists>w'. CFRunLoopDoTimer env l n t w = Some (True, w') \<and> good M w' \<and> \<not> rt_valid (w_timers w' t)
    \<and> (\<forall>l' n'. t \<notin> set (mode_timers w' l' n'))"
proof -
  let ?w = "fire_timer env l n t w"
  have g: "good M ?w" by (rule good_fire_timer [OF assms(1,3,2)])
  obtain info rel w1 where r: "retain_info (rt_context (w_timers w t)) w = (info, rel, w1)" by (metis prod_cases3)
  define w2 where "w2 = call_out env (Fire_timer t info) (arm_next_timer l n (mode_upd l n
      (\<lambda>rlm. rlm\<lparr>rm_timerSoftDeadline := UINT64_MAX, rm_timerHardDeadline := UINT64_MAX\<rparr>) (timer_upd t (\<lambda>t. t\<lparr>rt_firing := True\<rparr>) w1)))"
  have "good M w1" using assms(2) r by (auto simp: retain_info_def split: option.splits)
  then have "good M w2" unfolding w2_def using assms(1,3)
    by (intro good_call_out good_operations good_mode_upd) (simp_all add: timer_links_def)
  then have "\<not> rt_valid (w_timers (CFRunLoopTimerInvalidate t w2) t)"
    by (intro CFRunLoopTimerInvalidate_ok(2) [where Y = "{}"]) (simp add: good_def)
  then have invalid: "\<not> rt_valid (w_timers ?w t)"
    using r assms(8) by (simp add: fire_timer_def Let_def w2_def split: option.split)
  have "CFRunLoopDoTimer env l n t w = Some (True, ?w)"
    using assms(4-7) invalid by (simp add: CFRunLoopDoTimer_def timer_fired_def Let_def)
  moreover have "t \<notin> set (mode_timers ?w l' n')" for l' n'
  proof -
    have linked: "timers_linked {} ?w" using g by (simp add: good_def runloop_ok_def timers_ok_def)
    show ?thesis using linkedD(2) [OF linked, of t l' n'] linkedD(6) [OF linked, of t] invalid by (auto simp: attached_def)
  qed
  ultimately show ?thesis using g invalid by blast
qed

lemma clock_upd [simp]:
  "w_TSR (loop_upd l f w) = w_TSR w" "w_TSR (timer_upd t k w) = w_TSR w" "w_TSR (emit e w) = w_TSR w" "w_TSR (put_mode l n m w) = w_TSR w"
  "w_rate (loop_upd l f w) = w_rate w" "w_rate (timer_upd t k w) = w_rate w" "w_rate (emit e w) = w_rate w" "w_rate (put_mode l n m w) = w_rate w"
  by (simp_all add: loop_upd_def timer_upd_def emit_def put_mode_def)

lemma clock_arm [simp]:
  "w_TSR (arm_next_timer l n w) = w_TSR w" "w_rate (arm_next_timer l n w) = w_rate w"
  "w_TSR (reposition_timer l t i n w) = w_TSR w" "w_rate (reposition_timer l t i n w) = w_rate w"
  by (auto simp: arm_next_timer_def reposition_timer_def mode_timers_upd_def split: option.splits prod.splits)

text \<open>A run loop with a timer in its default mode that is due and fires every \<open>interval\<close> seconds.\<close>

definition timer_loop :: "real \<Rightarrow> rl_world" where
  "timer_loop interval = add_to_mode 0 (Timer 0) kCFRunLoopDefaultMode (timer_upd 0 (\<lambda>t. t\<lparr>rt_interval := interval\<rparr>) small_loop)"

lemma small_loop_clock [simp]: "w_TSR small_loop = 1" "w_rate small_loop = 1" "w_timers small_loop t = timer_at (ucast t)"
  by (simp_all add: small_loop_def CFRunLoopCreate_def CFRunLoopFindMode_def) (simp_all add: small_world_def)

lemma timer_loop_facts:
  shows "good {(0, kCFRunLoopDefaultMode)} (timer_loop interval)"
    and "w_TSR (timer_loop interval) = 1" "w_rate (timer_loop interval) = 1"
    and "w_timers (timer_loop interval) 0 = (timer_at 0)\<lparr>rt_interval := interval, rt_runLoop := Some 0, rt_rlModes := [kCFRunLoopDefaultMode]\<rparr>"
proof -
  let ?w = "timer_upd 0 (\<lambda>t. t\<lparr>rt_interval := interval\<rparr>) small_loop"
  have ok: "runloop_ok {} {} ?w" using rl_run.reachable_inv [OF small_reachable] by (simp add: timer_links_def)
  have may: "may_add 0 (Timer 0) ?w" using small_add(1) [of "Timer 0"] by (simp add: may_add_def timer_upd_def timer_at_def)
  have mode: "find_mode 0 kCFRunLoopDefaultMode ?w \<noteq> None"
    by (simp add: small_loop_def CFRunLoopCreate_def find_mode_FindMode)
  show "good {(0, kCFRunLoopDefaultMode)} (timer_loop interval)"
    using add_to_mode_ok [OF ok may default_not_common] find_mode_add [OF mode] by (simp add: good_def timer_loop_def)
  show "w_TSR (timer_loop interval) = 1" "w_rate (timer_loop interval) = 1"
    by (simp_all add: timer_loop_def add_to_mode_def add_timer_to_mode_def Let_def CFRunLoopFindMode_def)
  show "w_timers (timer_loop interval) 0 = (timer_at 0)\<lparr>rt_interval := interval, rt_runLoop := Some 0, rt_rlModes := [kCFRunLoopDefaultMode]\<rparr>"
    by (simp add: timer_loop_def add_to_mode_def w_timers_add_timer timer_at_def)
qed

theorem runloop_one_shot_timer_witness:
  "\<exists>w'. CFRunLoopDoTimer idle_env 0 kCFRunLoopDefaultMode 0 (timer_loop 0) = Some (True, w') \<and> \<not> rt_valid (w_timers w' 0)"
  using runloop_one_shot_timer [OF idle_env_good timer_loop_facts(1) [of 0], of 0 kCFRunLoopDefaultMode 0]
  by (simp add: timer_loop_facts) (auto simp: timer_at_def)

text \<open>C21. Firing a repeating timer: unless the callout invalidates it or sets a later date, its next fire time is the first
  one on its grid after the time when the callout has returned, and it is in its place in all its modes.\<close>

theorem runloop_repeating_timer:
  assumes "env_good env" "good M w" "(l, n) \<in> M" "rt_valid (w_timers w t)" "rt_fireTSR (w_timers w t) \<le> w_TSR w"
    and "\<not> rt_firing (w_timers w t)" "rt_runLoop (w_timers w t) = Some l"
    and called: "w1 = fire_timer env l n t w" "rt_valid (w_timers w1 t)" "rt_fireTSR (w_timers w1 t) \<le> rt_fireTSR (w_timers w t)"
    and clock: "0 < w_rate w1" "w_TSR w \<le> w_TSR w1" "uint (w_TSR w1) < 2 ^ 63"
    and interval: "0 < rt_interval (w_timers w1 t)" "0 < ticks (w_rate w1) (w_timers w1 t)"
      "uint (rt_fireTSR (w_timers w t)) + ticks (w_rate w1) (w_timers w1 t) < 2 ^ 63 - 1"
  shows "\<exists>w' k. CFRunLoopDoTimer env l n t w = Some (True, w') \<and> good M w'
    \<and> uint (rt_fireTSR (w_timers w' t)) = uint (rt_fireTSR (w_timers w t)) + int k * ticks (w_rate w1) (w_timers w1 t)
    \<and> uint (w_TSR w1) < uint (rt_fireTSR (w_timers w' t))
    \<and> uint (rt_fireTSR (w_timers w' t)) \<le> uint (w_TSR w1) + ticks (w_rate w1) (w_timers w1 t)
    \<and> timers_sorted (w_timers w') (mode_timers w' l n)"
proof -
  let ?old = "rt_fireTSR (w_timers w t)"
  have "?old \<le> w_TSR w1" using assms(5) clock(2) by simp
  from timer_next_fire_grid [OF clock(1) interval(1) clock(3) this]
  obtain m k where m: "timer_nextFireTSR (w_rate w1) (w_TSR w1) ?old (w_timers w1 t) = Some m"
    "uint m = uint ?old + int k * ticks (w_rate w1) (w_timers w1 t)" "uint (w_TSR w1) < uint m"
    "uint m \<le> uint (w_TSR w1) + ticks (w_rate w1) (w_timers w1 t)"
    using interval(2,3) by (auto split: if_splits)
  let ?w' = "set_fire_time t m (w_date w1 + CFTimeIntervalUntilTSR (w_rate w1) (w_TSR w1) m) w1"
  have "CFRunLoopDoTimer env l n t w = Some (True, ?w')"
    using assms(4-7) called m(1) by (simp add: CFRunLoopDoTimer_def timer_fired_def Let_def)
  moreover have g: "good M ?w'" unfolding called(1) by (rule good_operations(4) [OF good_fire_timer [OF assms(1,3,2)]])
  moreover have "rt_fireTSR (w_timers ?w' t) = m" by (simp add: rt_set_fire_time)
  moreover have "timers_sorted (w_timers ?w') (mode_timers ?w' l n)"
    using g by (simp only: good_def runloop_ok_def timers_ok_def)
  ultimately show ?thesis using m(2-4) by metis
qed

theorem runloop_repeating_timer_witness:
  "\<exists>w' k. CFRunLoopDoTimer idle_env 0 kCFRunLoopDefaultMode 0 (timer_loop 1) = Some (True, w')
    \<and> uint (rt_fireTSR (w_timers w' 0)) = int k \<and> 1 < uint (rt_fireTSR (w_timers w' 0))"
proof -
  let ?w = "fire_timer idle_env 0 kCFRunLoopDefaultMode 0 (timer_loop 1)"
  note facts = timer_loop_facts [where interval = 1]
  have fired: "w_TSR ?w = 1" "w_rate ?w = 1" "w_timers ?w 0 = w_timers (timer_loop 1) 0"
    by (simp_all add: fire_timer_def retain_info_def facts(2,3,4) timer_at_def no_context_def call_out_def idle_env_def CFRunLoopWakeUp_def mode_upd_def Let_def)
  have ticks: "ticks 1 (w_timers (timer_loop 1) 0) = 1" by (simp add: ticks_def facts(4) timer_at_def TIMER_INTERVAL_LIMIT_def)
  show ?thesis
    using runloop_repeating_timer [OF idle_env_good facts(1), of 0 kCFRunLoopDefaultMode 0 ?w]
    by (simp add: fired ticks facts(2,3)) (auto simp: facts(4) timer_at_def)
qed


end
