(* ===== verification/Spec2Isabelle.thy ===== *)
theory Spec2Isabelle
  imports BinaryHeap SortFunctions BigNumber BitVector Date DispatchTime TransformUTF Semaphore Group CFTree RunLoopRun
begin

text \<open>
  A verification library for the C code of the repository: the CoreFoundation sources under
  src/SourceCode/CFRunLoopRef ("CF") and libdispatch 1502, Grand Central Dispatch, under
  src/SourceCode ("LD"), which the notes of the repository study.

  The parts and how they interact. A run loop of CF keeps its timers in an array that is sorted by
  fire time, calls the sources of a mode in an order that \<open>CFQSortArray\<close> gives, waits on ports of the
  kernel, arms a timer of libdispatch beside the one of the kernel, and drains the main queue of
  libdispatch when the port of that queue wakes it up. Trees sort their children with the same
  sort, and the binary heap is the priority queue beside them: every one of them takes a comparison
  callback, which is what the locale \<open>comparator\<close> describes. In libdispatch the time values are the
  deadlines of semaphores and groups, and the data transforms work on the
  regions of data objects. The big number, bit vector and date functions are leaves.

  Shared theories.
  Prelude: the C types (unsigned words, \<open>CFRange\<close>, \<open>CFComparisonResult\<close>), truncating division, lemmas on
  array segments, and the interfaces \<open>comparator\<close> and \<open>gt_order\<close>, the first a sublocale of the second;
  they are interpreted on the comparison functions of the code and of the callbacks.
  PriorityQueue: the interface of a priority queue over a multiset, and that draining it sorts.
  StepSystem: reachable states (\<open>step_invariant\<close>) and progress by a decreasing measure
  (\<open>step_measure\<close>), interpreted on the semaphore, on the group and on the run loop.

  CoreFoundation.
  BinaryHeap (CFBinaryHeap.c): the struct \<open>__CFBinaryHeap\<close> with its buckets and the record of the
  retain and release callbacks. The operations keep the heap order and refine the
  multiset of values, removal takes a least value, and retains and releases balance.
  SortFunctions (CFSortFunctions.c): the bottom-up merge sort of \<open>CFSortIndexes\<close>, \<open>CFQSortArray\<close> and
  \<open>CFMergeSortArray\<close> is the stable sort; the parallel merge step equals the sequential merge.
  BigNumber (CFBigNumber.c): sign and five base 1000000000 digits. Conversions from machine integers,
  comparison, sums with their carry and decimal text, each against the integer a number stands for.
  BitVector (CFBitVector.c): every operation on a range of bits goes through the bucket map of the code;
  \<open>bit_mapper\<close> is the contract of a mapper, interpreted on all five mappers of the file.
  Date (CFDate.c): the Gregorian calendar on whole seconds, its round trips and date units.
  CFTree (CFTree.c): nodes in a store, linked to parent, sibling, first and last child. The edits
  refine edits of the list of children, keep the links consistent, balance the reference counts,
  and removal frees a tree; the sort of the children is the stable one.
  RunLoopTimers (CFRunLoop.c): the array of the timers of a mode, its binary search, the armed deadlines,
  and the next fire time of a repeating timer.
  RunLoop (CFRunLoop.c): run loops, modes, sources, observers, timers, blocks and the operations that add,
  remove, invalidate and look them up, with the callbacks they make.
  RunLoopModes: the invariant of these operations (a timer or observer is in a mode exactly when it
  records the mode, the timers are sorted, the links are to the right run loop), carried to every state a
  program can reach by \<open>rl_step\<close>; what invalidation, the common modes and their recursion do.
  RunLoopRun (CFRunLoop.c): \<open>__CFRunLoopRun\<close> in one pass (\<open>run_pass\<close>) and its loop, \<open>CFRunLoopRunSpecific\<close>,
  \<open>CFRunLoopRun\<close> and \<open>CFRunLoopRunInMode\<close>. A run keeps the invariant whatever the callouts do, as long
  as they keep it. Without any assumption on the callouts: when a run returns and with which result, which
  blocks are called (\<open>block_chain\<close> is the linked list that the code edits while it calls them) and which sources are
  performed, in which order. A timer that fires once is invalid afterwards and one that repeats is in its place again.

  libdispatch.
  DispatchTime (src/time.c, src/shims/time.h): the encoding of the three clocks in 64 bits; additions
  are exact, keep the clock and saturate at both ends of its range (\<open>least_time\<close> and "forever"), except where a wall
  time falls on 1: there the code differs from its comment (\<open>falls_on_wall_1\<close>).
  DispatchData (src/data.c): leaves and records; constructors, traversal, maps and copies refine lists of bytes
  (\<open>byte_container\<close>).
  Transform, TransformUTF (src/transform.c): base 32, base 32 hex, base 64, UTF-8 and UTF-16 in data of any
  regions, the format descriptors and the entry point; round trips and errors. \<open>group_code\<close>,
  \<open>base_code\<close> and \<open>base_decoder\<close> are the shared contract of the base encodings, interpreted on base 64 and on both
  base 32 tables.
  Semaphore, Group (src/semaphore.c, src/semaphore_internal.h): every atomic operation on the
  state word is a function, the calls of the threads are a step relation with any interleaving.
  Permits are never exceeded and no wake-up is lost. The calls on a group settle, and then every waiter is released and
  every notification submitted, in the order of registration, unless the group has been entered again. A notification can
  also be submitted too early: \<open>group_notify_early\<close> is a run in which it is, although the group has not been empty since
  before its registration.

  Bounds and fuel. Sizes that the code keeps in a signed or unsigned word are hypotheses where overflow matters:
  an array of at most (2^63-1) div 8 pointers in the sort, fewer than 2^63 threads at a semaphore, fewer than
  2^32 generations of a group, fewer than 2^31 children of a node, fewer than 2^29 other timers in the array of a mode
  (there the search overflows an int; in RunLoop.thy the name of a timer is a word of 29 bits, so that it holds), fewer than
  2^30 values in a heap (the next capacity overflows an int), years that fit the 32-bit fields of a date.
  \<open>BUFFER_MALLOC_MAX\<close> is the bound of the code on output buffers. Releasing a tree takes twice the number of
  nodes as fuel, which is proved to be enough. \<open>CFRunLoopAddItem\<close> and \<open>CFRunLoopRemoveItem\<close> call
  themselves for the common modes: one level suffices unless the common modes contain the pseudo mode itself, where the code
  recurses without end and no fuel is enough; both are proved. A loop that need not end is a
  \<open>partial_function (option)\<close>: \<open>None\<close> is a run that crashes or does not return.

  Not modelled. Allocation failure (apart from the places where the code handles it in the data
  transforms), type registration, descriptions, debugging assertions and garbage collection modes, which do not take
  part in the behaviour. Locks: an operation under a lock is one step. Rounding of doubles: intervals are real numbers and dates whole
  seconds. The odd-even rounds of the concurrent sort, which \<open>dispatch_apply\<close> runs. In CFRunLoop.c the table of the
  run loops of threads, which the thread-specific data of the platform holds, reference counts, and the messages of the kernel
  with their vouchers. The rest of CoreFoundation (strings, URLs, property
  lists, bundles, streams, sockets, encodings, locales) and of libdispatch
  (queues, event sources, I/O channels, mach channels, firehose, vouchers) rests on a runtime,
  on data tables or on the kernel: the hash tables and strings they use appear here as
  sets, lists and \<open>string\<close> values. Outside C the repository holds the Swift compiler's headers, the
  Objective-C runtime, GNUstep and an application of its author; they are not part of this library. The generated C++ of
  clang's rewriter (WGMain.cpp and its like) is a copy of Objective-C test code.
\<close>

end
